(* ===== verification/Prelude.thy ===== *)
theory Prelude
  imports Main "HOL-Library.Word" "HOL-Library.List_Lexorder" "HOL-Library.Product_Lexorder"
begin

text \<open>
  What every component of the development shares: the byte strings the engine orders, the
  statuses it answers with (include/elysiumkv/status.hpp), the comparison and the prefix helpers
  of include/elysiumkv/slice.hpp, and the interface of a byte codec, which every on-disk record
  of the engine satisfies.

  A byte string is a list of 8-bit words. The order on lists of \<open>HOL-Library.List_Lexorder\<close> is
  lexicographic with a proper prefix below its extensions; \<open>slice_compare_less\<close> shows that it is
  the order the C++ comparison operator computes.
\<close>

unbundle bit_operations_syntax

type_synonym byte = "8 word"
type_synonym bytes = "byte list"
type_synonym u32 = "32 word"
type_synonym u64 = "64 word"

named_theorems codec_simps \<open>round-trip equations of the byte codecs\<close>
named_theorems codec_valid \<open>introduction rules for the validity of encoded values\<close>

section \<open>Statuses\<close>

datatype status =
    Ok | NotFound | Corrupt | Unusable | Fenced | Config | Io | Stalled | Unsupported | Stale
  | RecoveryRequired

type_synonym 'a res = "status + 'a"

definition is_terminal :: "status \<Rightarrow> bool" where
  "is_terminal s \<longleftrightarrow>
     s = Corrupt \<or> s = Unusable \<or> s = Fenced \<or> s = Config \<or> s = Unsupported"

definition is_retryable :: "status \<Rightarrow> bool" where
  "is_retryable s \<longleftrightarrow> s = Io"

lemma terminal_not_retryable: "is_terminal s \<Longrightarrow> \<not> is_retryable s"
  by (auto simp: is_terminal_def is_retryable_def)

section \<open>Slices\<close>

text \<open>
  \<open>memcmp\<close> over the first \<open>n\<close> bytes: the sign of the first difference. The comparison operator
  of \<open>Slice\<close> compares the common length with it and breaks a tie by length.
\<close>

datatype ordering = Less | Equal | Greater

fun memcmp :: "bytes \<Rightarrow> bytes \<Rightarrow> nat \<Rightarrow> ordering" where
  "memcmp a b 0 = Equal"
| "memcmp (x # a) (y # b) (Suc n) =
     (if x < y then Less else if y < x then Greater else memcmp a b n)"
| "memcmp a b (Suc n) = Equal"

definition slice_compare :: "bytes \<Rightarrow> bytes \<Rightarrow> ordering" where
  "slice_compare a b =
     (let n = (if length a < length b then length a else length b);
          c = (if n \<noteq> 0 then memcmp a b n else Equal)
      in if c = Less then Less
         else if c = Greater then Greater
         else if length a < length b then Less
         else if length b < length a then Greater
         else Equal)"

lemma Nil_less_iff [simp]: "[] < (b :: 'a::linorder list) \<longleftrightarrow> b \<noteq> []"
  by (cases b) auto

lemma memcmp_min_less:
  "(memcmp a b (min (length a) (length b)) = Less
    \<or> memcmp a b (min (length a) (length b)) = Equal \<and> length a < length b) = (a < b)"
  by (induction a b "min (length a) (length b)" rule: memcmp.induct)
     (auto simp: min_def not_less split: if_splits)

lemma memcmp_min_equal:
  "(memcmp a b (min (length a) (length b)) = Equal \<and> length a = length b) = (a = b)"
  by (induction a b "min (length a) (length b)" rule: memcmp.induct)
     (auto simp: min_def not_less split: if_splits)

text \<open>The length-zero guard around \<open>memcmp\<close> changes nothing, and the tie-break is by length.\<close>

lemma slice_compare_less: "slice_compare a b = Less \<longleftrightarrow> a < b"
proof -
  have n: "(if length a < length b then length a else length b) = min (length a) (length b)"
    by (simp add: min_def)
  have "slice_compare a b = Less \<longleftrightarrow>
      memcmp a b (min (length a) (length b)) = Less
      \<or> memcmp a b (min (length a) (length b)) = Equal \<and> length a < length b"
    unfolding slice_compare_def n Let_def
    by (cases "memcmp a b (min (length a) (length b))") auto
  then show ?thesis by (simp only: memcmp_min_less)
qed

lemma slice_compare_equal: "slice_compare a b = Equal \<longleftrightarrow> a = b"
proof -
  have n: "(if length a < length b then length a else length b) = min (length a) (length b)"
    by (simp add: min_def)
  have "slice_compare a b = Equal \<longleftrightarrow>
      memcmp a b (min (length a) (length b)) = Equal \<and> length a = length b"
    unfolding slice_compare_def n Let_def
    by (cases "memcmp a b (min (length a) (length b))") auto
  then show ?thesis by (simp only: memcmp_min_equal)
qed

lemma slice_compare_greater: "slice_compare a b = Greater \<longleftrightarrow> b < a"
proof -
  have "slice_compare a b = Greater \<longleftrightarrow> slice_compare a b \<noteq> Less \<and> slice_compare a b \<noteq> Equal"
    by (cases "slice_compare a b") auto
  then show ?thesis by (auto simp: slice_compare_less slice_compare_equal)
qed

definition starts_with :: "bytes \<Rightarrow> bytes \<Rightarrow> bool" where
  "starts_with key prefix \<longleftrightarrow>
     length prefix \<le> length key \<and> memcmp key prefix (length prefix) = Equal"

text \<open>
  \<open>prefix_upper_bound\<close> walks back from the last byte to the first one that is not \<open>0xFF\<close>,
  increments it and cuts the string there. \<open>None\<close> is the \<open>false\<close> of the source.
\<close>

fun prefix_upper_bound_loop :: "bytes \<Rightarrow> nat \<Rightarrow> bytes option" where
  "prefix_upper_bound_loop out 0 = None"
| "prefix_upper_bound_loop out (Suc i) =
     (let c = out ! i
      in if c \<noteq> 0xFF then Some (take (Suc i) (out[i := c + 1]))
         else prefix_upper_bound_loop out i)"

definition prefix_upper_bound :: "bytes \<Rightarrow> bytes option" where
  "prefix_upper_bound prefix = prefix_upper_bound_loop prefix (length prefix)"

lemma starts_with_take: "starts_with key prefix \<longleftrightarrow> take (length prefix) key = prefix"
proof -
  have "memcmp key prefix (length prefix) = Equal \<longleftrightarrow> take (length prefix) key = prefix"
    if "length prefix \<le> length key"
    using that
    by (induction key prefix "length prefix" rule: memcmp.induct) (auto simp: not_less split: if_splits)
  moreover have "take (length prefix) key = prefix \<Longrightarrow> length prefix \<le> length key"
    by (metis length_take min.cobounded1)
  ultimately show ?thesis unfolding starts_with_def by blast
qed

lemma byte_max: "(x :: byte) \<le> 255"
  using unsigned_less [of x, where 'a = nat] by (simp add: word_le_nat_alt)

lemma replicate_max_le_iff:
  "replicate n (255 :: byte) \<le> k \<longleftrightarrow> take n k = replicate n 255"
proof (induction n arbitrary: k)
  case (Suc n)
  show ?case
  proof (cases k)
    case (Cons x k')
    have "\<not> 255 < x" using byte_max [of x] by (simp add: not_less)
    with Cons Suc show ?thesis by auto
  qed simp
qed simp

lemma byte_less_Suc_iff: "c \<noteq> (255 :: byte) \<Longrightarrow> x < c + 1 \<longleftrightarrow> x \<le> c"
proof -
  assume "c \<noteq> 255"
  then have "unat c \<noteq> 255" by (simp add: word_unat_eq_iff)
  moreover have "unat c < 256" using unsigned_less [of c, where 'a = nat] by simp
  ultimately have "unat (c + 1) = unat c + 1"
    by (simp add: unat_word_ariths)
  then show ?thesis by (auto simp: word_less_nat_alt word_le_nat_alt)
qed

text \<open>The string the loop returns, and what lies between it and the prefix.\<close>

lemma prefix_upper_bound_loop_max:
  "prefix_upper_bound_loop (xs @ replicate n 255) (length xs + m) = prefix_upper_bound_loop (xs @ replicate n 255) (length xs)"
  if "m \<le> n"
  using that by (induction m) (auto simp: nth_append)

lemma prefix_upper_bound_snoc:
  "c \<noteq> 255 \<Longrightarrow> prefix_upper_bound (q @ c # replicate n 255) = Some (q @ [c + 1])"
  using prefix_upper_bound_loop_max [of n n "q @ [c]"]
  by (simp add: prefix_upper_bound_def nth_append list_update_append)

lemma prefix_upper_bound_replicate: "prefix_upper_bound (replicate n 255) = None"
  using prefix_upper_bound_loop_max [of n n "[]"] by (simp add: prefix_upper_bound_def)

lemma last_nonmax_split:
  obtains (bounded) q c n where "p = q @ c # replicate n (255 :: byte)" and "c \<noteq> 255"
    | (maximal) n where "p = replicate n 255"
proof (induction p arbitrary: thesis rule: rev_induct)
  case Nil
  then show ?case using Nil(2) [of 0] by simp
next
  case (snoc x p)
  show ?case
  proof (cases "x = 255")
    case False
    then show ?thesis using snoc.prems(1) [of p x 0] by simp
  next
    case True
    show ?thesis
    proof (rule snoc.IH)
      fix q c n
      assume "p = q @ c # replicate n 255" and "c \<noteq> (255 :: byte)"
      with True show ?thesis
        using snoc.prems(1) [of q c "Suc n"] by (simp add: replicate_append_same)
    next
      fix n
      assume "p = replicate n (255 :: byte)"
      with True show ?thesis
        using snoc.prems(2) [of "Suc n"] by (simp add: replicate_append_same)
    qed
  qed
qed

lemma between_prefix_and_bound:
  assumes "c \<noteq> (255 :: byte)"
  shows "take (length q + Suc n) k = q @ c # replicate n 255 \<longleftrightarrow>
    q @ c # replicate n 255 \<le> k \<and> k < q @ [c + 1]"
proof (induction q arbitrary: k)
  case Nil
  show ?case
  proof (cases k)
    case (Cons x k')
    have "c # replicate n 255 \<le> x # k' \<and> x # k' < [c + 1] \<longleftrightarrow>
        (c < x \<or> c = x \<and> replicate n 255 \<le> k') \<and> x \<le> c"
      using byte_less_Suc_iff [OF assms, of x] by auto
    also have "\<dots> \<longleftrightarrow> x = c \<and> take n k' = replicate n 255"
      unfolding replicate_max_le_iff by auto
    finally show ?thesis by (simp add: Cons)
  qed simp
next
  case (Cons a q)
  show ?case
  proof (cases k)
    case k: (Cons x k')
    have "take (length (a # q) + Suc n) k = (a # q) @ c # replicate n 255 \<longleftrightarrow>
        x = a \<and> take (length q + Suc n) k' = q @ c # replicate n 255"
      by (auto simp: k)
    also have "\<dots> \<longleftrightarrow> x = a \<and> q @ c # replicate n 255 \<le> k' \<and> k' < q @ [c + 1]"
      by (simp only: Cons.IH)
    also have "\<dots> \<longleftrightarrow> (a # q) @ c # replicate n 255 \<le> k \<and> k < (a # q) @ [c + 1]"
      unfolding k by (auto dest: less_asym)
    finally show ?thesis .
  qed simp
qed

text \<open>
  \<open>prefix_upper_bound\<close> is exact: when it answers with a bound, the keys that start with the
  prefix are precisely those in the half-open interval from the prefix to that bound; when it
  answers that there is none, they are precisely the keys at or above the prefix. A prefix scan
  over those bounds therefore returns every key with the prefix and no other.
\<close>

theorem prefix_upper_bound_exact:
  "case prefix_upper_bound p of
     Some u \<Rightarrow> (\<forall>k. starts_with k p = (p \<le> k \<and> k < u))
   | None \<Rightarrow> (\<forall>k. starts_with k p = (p \<le> k))"
proof (cases p rule: last_nonmax_split)
  case (bounded q c n)
  then show ?thesis
    using between_prefix_and_bound [of c q n]
    by (simp add: prefix_upper_bound_snoc starts_with_take)
next
  case (maximal n)
  then show ?thesis
    by (simp add: prefix_upper_bound_replicate starts_with_take replicate_max_le_iff)
qed

section \<open>Byte codecs\<close>

text \<open>
  Every record the engine persists is written field by field: a \<open>put\<close> appends the bytes of a
  value, and the matching \<open>get\<close> reads them back from the front of what remains and advances. The
  contract of such a pair is that a value in range is read back exactly, whatever follows it.
  The source's \<open>get\<close> functions return \<open>false\<close> on damaged input, here \<open>None\<close>; every caller then
  gives up, so where the read pointer is left in that case is not observable.
\<close>

locale field_codec =
  fixes put :: "'a \<Rightarrow> bytes"
    and get :: "bytes \<Rightarrow> ('a \<times> bytes) option"
    and valid :: "'a \<Rightarrow> bool"
  assumes get_put: "valid a \<Longrightarrow> get (put a @ rest) = Some (a, rest)"
begin

lemma put_inj: "valid a \<Longrightarrow> valid b \<Longrightarrow> put a @ r = put b @ s \<Longrightarrow> a = b \<and> r = s"
  by (metis Pair_inject get_put option.inject)

lemma get_put_exact: "valid a \<Longrightarrow> get (put a) = Some (a, [])"
  using get_put [of a "[]"] by simp

end

text \<open>
  The counted loop of the decoders: read \<open>n\<close> values one after the other, giving up at the first
  that does not decode.
\<close>

fun get_many :: "(bytes \<Rightarrow> ('a \<times> bytes) option) \<Rightarrow> nat \<Rightarrow> bytes \<Rightarrow> ('a list \<times> bytes) option" where
  "get_many g 0 bs = Some ([], bs)"
| "get_many g (Suc n) bs =
     (case g bs of
        None \<Rightarrow> None
      | Some (a, rest) \<Rightarrow>
          (case get_many g n rest of
             None \<Rightarrow> None
           | Some (as, rest') \<Rightarrow> Some (a # as, rest')))"

context field_codec
begin

lemma get_many_put:
  "\<forall>a \<in> set as. valid a \<Longrightarrow>
   get_many get (length as) (concat (map put as) @ rest) = Some (as, rest)"
  by (induction as) (simp_all add: get_put)

end

section \<open>Lists, options and searches\<close>

lemma unat_u64: "unat (n :: u64) < 2 ^ 64"
  using unsigned_less [of n] by simp

lemma unat_of_nat_u64: "n < 2 ^ 64 \<Longrightarrow> unat (of_nat n :: u64) = n"
  by (simp add: unat_of_nat take_bit_nat_eq_self)

lemma map_of_filter_key:
  "map_of (filter (\<lambda>(k, _). P k) es) k = (if P k then map_of es k else None)"
  by (induction es) auto

text \<open>
  \<open>std::lower_bound\<close> and \<open>std::upper_bound\<close> on a range partitioned by the predicate return the
  first index at which it fails; the binary search below is the library's halving loop.
\<close>

function bsearch :: "(nat \<Rightarrow> bool) \<Rightarrow> nat \<Rightarrow> nat \<Rightarrow> nat" where
  "bsearch p first len =
     (if len = 0 then first
      else let half = len div 2; mid = first + half
           in if p mid then bsearch p (mid + 1) (len - half - 1)
              else bsearch p first half)"
  by pat_completeness auto
termination
  by (relation "measure (\<lambda>(p, first, len). len)") auto

declare bsearch.simps [simp del]

lemma bsearch_0 [simp]: "bsearch p first 0 = first"
  by (simp add: bsearch.simps)

definition partition_point :: "('a \<Rightarrow> bool) \<Rightarrow> 'a list \<Rightarrow> nat" where
  "partition_point p xs = bsearch (\<lambda>i. p (xs ! i)) 0 (length xs)"

text \<open>On a partitioned range the search finds the boundary, whichever way it halves.\<close>

lemma bsearch_boundary:
  assumes "first \<le> b" and "b \<le> first + len"
    and "\<And>i. first \<le> i \<Longrightarrow> i < first + len \<Longrightarrow> p i = (i < b)"
  shows "bsearch p first len = b"
  using assms
proof (induction p first len rule: bsearch.induct)
  case (1 p first len)
  show ?case
  proof (cases "len = 0")
    case True
    with 1 show ?thesis by simp
  next
    case False
    define half where "half = len div 2"
    have h: "half < len" using False by (simp add: half_def)
    have pm: "p (first + half) = (first + half < b)"
      using h by (intro 1(5)) auto
    show ?thesis
    proof (cases "p (first + half)")
      case True
      have "bsearch p (first + half + 1) (len - half - 1) = b"
        using True pm h 1(3,4,5)
        by (intro 1(1) [OF False half_def refl]) auto
      with True False show ?thesis
        by (subst bsearch.simps) (simp add: half_def Let_def)
    next
      case notp: False
      have "bsearch p first half = b"
        using notp pm h 1(3,4,5)
        by (intro 1(2) [OF False half_def refl]) auto
      with notp False show ?thesis
        by (subst bsearch.simps) (simp add: half_def Let_def)
    qed
  qed
qed

text \<open>The predicate holds of a prefix and of nothing after it: the standard's precondition.\<close>

definition partitioned :: "('a \<Rightarrow> bool) \<Rightarrow> 'a list \<Rightarrow> bool" where
  "partitioned p xs \<longleftrightarrow> (\<forall>i j. i < j \<longrightarrow> j < length xs \<longrightarrow> p (xs ! j) \<longrightarrow> p (xs ! i))"

lemma partitioned_Cons:
  "partitioned p (x # xs) \<Longrightarrow> partitioned p xs \<and> (\<not> p x \<longrightarrow> (\<forall>y \<in> set xs. \<not> p y))"
  unfolding partitioned_def
  by (metis (no_types, lifting) Suc_less_eq in_set_conv_nth length_Cons nth_Cons_0 nth_Cons_Suc
      zero_less_Suc)

lemma partitioned_takeWhile_nth:
  assumes "partitioned p xs" and "i < length xs"
  shows "p (xs ! i) = (i < length (takeWhile p xs))"
  using assms
proof (induction xs arbitrary: i)
  case (Cons x xs)
  then show ?case
    using partitioned_Cons [OF Cons.prems(1)] by (cases i) auto
qed simp

lemma partition_point_takeWhile:
  "partitioned p xs \<Longrightarrow> partition_point p xs = length (takeWhile p xs)"
  unfolding partition_point_def
  by (rule bsearch_boundary) (simp_all add: length_takeWhile_le partitioned_takeWhile_nth)

lemma partition_point_le: "partitioned p xs \<Longrightarrow> partition_point p xs \<le> length xs"
  by (simp add: partition_point_takeWhile length_takeWhile_le)

lemma take_partition_point:
  "partitioned p xs \<Longrightarrow> take (partition_point p xs) xs = takeWhile p xs"
  by (simp add: partition_point_takeWhile takeWhile_eq_take [symmetric])

lemma drop_partition_point:
  "partitioned p xs \<Longrightarrow> drop (partition_point p xs) xs = dropWhile p xs"
  by (simp add: partition_point_takeWhile dropWhile_eq_drop [symmetric])

lemma partitioned_filter_drop:
  assumes "partitioned p xs"
  shows "filter (\<lambda>x. \<not> p x) xs = dropWhile p xs"
  using assms
proof (induction xs)
  case (Cons x xs)
  then show ?case
    using partitioned_Cons [OF Cons.prems] by (auto simp: filter_id_conv)
qed simp

lemma partitioned_filter_take:
  assumes "partitioned p xs"
  shows "filter p xs = takeWhile p xs"
  using assms
proof (induction xs)
  case (Cons x xs)
  then show ?case
    using partitioned_Cons [OF Cons.prems] by (auto simp: filter_empty_conv)
qed simp

end
