(* ===== verification/Format.thy ===== *)
theory Format
  imports Prelude
begin

text \<open>
  src/sst/format.hpp: the value types of an entry, range tombstones with their union
  (\<open>merge_ranges\<close>) and their restriction to an interval (\<open>clip_ranges\<close>), the size limits of an
  entry, and the fixed-width and variable-width little-endian integers every other format is
  built from.
\<close>

section \<open>Value types and limits\<close>

datatype value_type = Delete | Put

definition value_type_byte :: "value_type \<Rightarrow> byte" where
  "value_type_byte t = (case t of Delete \<Rightarrow> 0 | Put \<Rightarrow> 1)"

definition is_known_value_type :: "byte \<Rightarrow> bool" where
  "is_known_value_type raw \<longleftrightarrow> raw = value_type_byte Delete \<or> raw = value_type_byte Put"

text \<open>The cast back from a byte that passed \<^const>\<open>is_known_value_type\<close>.\<close>

definition value_type_of :: "byte \<Rightarrow> value_type" where
  "value_type_of raw = (if raw = value_type_byte Delete then Delete else Put)"

lemma value_type_of_byte [simp]: "value_type_of (value_type_byte t) = t"
  by (cases t) (simp_all add: value_type_of_def value_type_byte_def)

lemma is_known_value_type_byte [simp]: "is_known_value_type (value_type_byte t)"
  by (cases t) (simp_all add: is_known_value_type_def)

definition kBlockTrailerLength :: nat where "kBlockTrailerLength = 9"
definition kMaxValueBytes :: nat where "kMaxValueBytes = 2 ^ 20"
definition kMaxKeyBytes :: nat where "kMaxKeyBytes = 64 * 2 ^ 10"
definition kMaxEntryBlockBytes :: nat where
  "kMaxEntryBlockBytes = kMaxValueBytes + kMaxKeyBytes + 1024"

section \<open>Range tombstones\<close>

record range_tombstone =
  lower :: bytes
  upper :: bytes

definition covers :: "range_tombstone \<Rightarrow> bytes \<Rightarrow> bool" where
  "covers r k \<longleftrightarrow> lower r \<le> k \<and> k < upper r"

text \<open>Some tombstone of a list covers the key: what a set of ranges means.\<close>

definition any_covers :: "range_tombstone list \<Rightarrow> bytes \<Rightarrow> bool" where
  "any_covers rs k \<longleftrightarrow> (\<exists>r \<in> set rs. covers r k)"

lemma any_covers_simps [simp]:
  "any_covers [] k \<longleftrightarrow> False"
  "any_covers (r # rs) k \<longleftrightarrow> covers r k \<or> any_covers rs k"
  "any_covers (rs @ ss) k \<longleftrightarrow> any_covers rs k \<or> any_covers ss k"
  by (auto simp: any_covers_def)

text \<open>
  The loop of \<open>merge_ranges\<close>. \<open>merged\<close> is the output vector with its back first, so that
  \<open>merged.back()\<close> is the head.
\<close>

fun merge_ranges_loop :: "range_tombstone list \<Rightarrow> range_tombstone list \<Rightarrow> range_tombstone list" where
  "merge_ranges_loop merged [] = rev merged"
| "merge_ranges_loop merged (rg # ranges) =
     (if lower rg \<ge> upper rg then merge_ranges_loop merged ranges
      else case merged of
        [] \<Rightarrow> merge_ranges_loop [rg] ranges
      | bk # front \<Rightarrow>
          if lower rg \<le> upper bk
          then merge_ranges_loop
                 ((if upper rg > upper bk then bk\<lparr>upper := upper rg\<rparr> else bk) # front)
                 ranges
          else merge_ranges_loop (rg # bk # front) ranges)"

definition merge_ranges :: "range_tombstone list \<Rightarrow> range_tombstone list" where
  "merge_ranges ranges = merge_ranges_loop [] (sort_key (\<lambda>r. (lower r, upper r)) ranges)"

text \<open>A null bound of the source is \<open>None\<close>.\<close>

fun clip_range :: "bytes option \<Rightarrow> bytes option \<Rightarrow> range_tombstone \<Rightarrow> range_tombstone option" where
  "clip_range lo hi rg =
     (let low = (case lo of Some l \<Rightarrow> if l > lower rg then l else lower rg
                          | None \<Rightarrow> lower rg);
          high = (case hi of Some h \<Rightarrow> if h < upper rg then h else upper rg
                           | None \<Rightarrow> upper rg)
      in if low < high then Some \<lparr>lower = low, upper = high\<rparr> else None)"

definition clip_ranges ::
    "range_tombstone list \<Rightarrow> bytes option \<Rightarrow> bytes option \<Rightarrow> range_tombstone list" where
  "clip_ranges ranges lo hi = List.map_filter (clip_range lo hi) ranges"

text \<open>
  The shape a file's range block and the merge rely on: every range is non-empty, they are in
  key order, and no two touch.
\<close>

fun sorted_disjoint :: "range_tombstone list \<Rightarrow> bool" where
  "sorted_disjoint [] = True"
| "sorted_disjoint [r] = (lower r < upper r)"
| "sorted_disjoint (r # s # rs) = (lower r < upper r \<and> upper r < lower s \<and> sorted_disjoint (s # rs))"

lemma sorted_disjoint_Cons:
  "sorted_disjoint (r # rs) \<longleftrightarrow>
     lower r < upper r \<and> sorted_disjoint rs \<and> (\<forall>s \<in> set rs. upper r < lower s)"
proof (induction rs arbitrary: r)
  case (Cons s rs)
  show ?case
  proof
    assume a: "sorted_disjoint (r # s # rs)"
    then have "sorted_disjoint (s # rs)" and ls: "upper r < lower s" by auto
    with Cons.IH [of s] have "\<forall>t \<in> set rs. upper s < lower t" and "lower s < upper s" by auto
    with ls have "\<forall>t \<in> set rs. upper r < lower t" by (meson less_trans)
    with a show "lower r < upper r \<and> sorted_disjoint (s # rs)
        \<and> (\<forall>t \<in> set (s # rs). upper r < lower t)" by simp
  qed simp
qed simp

lemma sorted_disjoint_snoc:
  "sorted_disjoint (rs @ [r]) \<longleftrightarrow>
     sorted_disjoint rs \<and> lower r < upper r \<and> (\<forall>s \<in> set rs. upper s < lower r)"
  by (induction rs) (auto simp: sorted_disjoint_Cons)

text \<open>
  The loop invariant: what has been merged is sorted and disjoint, starts no later than
  anything still to come, and the result covers what was merged and what remains.
\<close>

lemma merge_ranges_loop_covers:
  assumes "sorted (map lower ranges)"
    and "case merged of [] \<Rightarrow> True | bk # _ \<Rightarrow> (\<forall>r \<in> set ranges. lower bk \<le> lower r)"
  shows "any_covers (merge_ranges_loop merged ranges) k
    \<longleftrightarrow> any_covers merged k \<or> any_covers ranges k"
  using assms
proof (induction merged ranges rule: merge_ranges_loop.induct)
  case (1 merged)
  then show ?case by (simp add: any_covers_def)
next
  case (2 merged rg ranges)
  show ?case
  proof (cases "lower rg \<ge> upper rg")
    case True
    then have "\<not> covers rg k" by (auto simp: covers_def)
    with True 2(1) 2(5,6) show ?thesis by (auto split: list.splits)
  next
    case False
    show ?thesis
    proof (cases merged)
      case Nil
      with False 2(2) 2(5) show ?thesis by auto
    next
      case (Cons bk front)
      have lb: "lower bk \<le> lower rg" using 2(6) Cons by simp
      show ?thesis
      proof (cases "lower rg \<le> upper bk")
        case True
        let ?b = "if upper rg > upper bk then bk\<lparr>upper := upper rg\<rparr> else bk"
        have "any_covers (merge_ranges_loop (?b # front) ranges) k
            \<longleftrightarrow> any_covers (?b # front) k \<or> any_covers ranges k"
          using 2(5,6) Cons by (intro 2(3) [OF False Cons True]) auto
        moreover have "covers ?b k \<longleftrightarrow> covers bk k \<or> covers rg k"
          using lb True by (auto simp: covers_def)
        ultimately show ?thesis using False Cons True by auto
      next
        case notle: False
        have "any_covers (merge_ranges_loop (rg # bk # front) ranges) k
            \<longleftrightarrow> any_covers (rg # bk # front) k \<or> any_covers ranges k"
          using 2(5,6) Cons by (intro 2(4) [OF False Cons notle]) auto
        with False Cons notle show ?thesis by auto
      qed
    qed
  qed
qed

lemma merge_ranges_loop_sorted_disjoint:
  assumes "sorted (map lower ranges)" and "sorted_disjoint (rev merged)"
  shows "sorted_disjoint (merge_ranges_loop merged ranges)"
  using assms
proof (induction merged ranges rule: merge_ranges_loop.induct)
  case (2 merged rg ranges)
  show ?case
  proof (cases "lower rg \<ge> upper rg")
    case True
    with 2 show ?thesis by simp
  next
    case False
    then have ne: "lower rg < upper rg" by simp
    show ?thesis
    proof (cases merged)
      case Nil
      with False ne 2 show ?thesis by simp
    next
      case (Cons bk front)
      have front: "sorted_disjoint (rev front) \<and> lower bk < upper bk
          \<and> (\<forall>s \<in> set front. upper s < lower bk)"
        using 2(6) Cons by (simp add: sorted_disjoint_snoc)
      show ?thesis
      proof (cases "lower rg \<le> upper bk")
        case True
        have "sorted_disjoint (rev ((if upper rg > upper bk
            then bk\<lparr>upper := upper rg\<rparr> else bk) # front))"
          using front by (auto simp: sorted_disjoint_snoc)
        with True False Cons 2 show ?thesis by simp
      next
        case notle: False
        then have "sorted_disjoint (rev (rg # bk # front))"
          using front ne sorted_disjoint_snoc [of "rev front @ [bk]" rg]
          by (fastforce simp: sorted_disjoint_snoc)
        with notle False Cons 2 show ?thesis by simp
      qed
    qed
  qed
qed simp

lemma sorted_lower_sort_key: "sorted (map lower (sort_key (\<lambda>r. (lower r, upper r)) ranges))"
proof -
  have "sorted (map (\<lambda>r. (lower r, upper r)) (sort_key (\<lambda>r. (lower r, upper r)) ranges))"
    by (rule sorted_sort_key)
  then have "sorted_wrt (\<lambda>x y. lower x \<le> lower y) (sort_key (\<lambda>r. (lower r, upper r)) ranges)"
    unfolding sorted_map by (rule sorted_wrt_mono_rel [rotated]) auto
  then show ?thesis unfolding sorted_map .
qed

lemma merge_ranges_covers: "any_covers (merge_ranges rs) k = any_covers rs k"
proof -
  have "any_covers (sort_key (\<lambda>r. (lower r, upper r)) rs) k = any_covers rs k"
    by (simp add: any_covers_def)
  then show ?thesis
    by (simp add: merge_ranges_def merge_ranges_loop_covers sorted_lower_sort_key)
qed

lemma merge_ranges_sorted_disjoint: "sorted_disjoint (merge_ranges rs)"
  by (simp add: merge_ranges_def merge_ranges_loop_sorted_disjoint sorted_lower_sort_key)

text \<open>
  \<open>merge_ranges\<close> computes the union: the result covers exactly the keys some input range
  covers, and its ranges are non-empty, in key order and separated by gaps. That is the
  precondition of the range block of a file and of the binary search in the merge.
\<close>

theorem merge_ranges_union:
  "(\<forall>k. any_covers (merge_ranges rs) k = any_covers rs k) \<and> sorted_disjoint (merge_ranges rs)"
  by (simp add: merge_ranges_covers merge_ranges_sorted_disjoint)

lemma clip_ranges_covers:
  "any_covers (clip_ranges rs lo hi) k \<longleftrightarrow>
     any_covers rs k \<and> (case lo of Some l \<Rightarrow> l \<le> k | None \<Rightarrow> True)
       \<and> (case hi of Some h \<Rightarrow> k < h | None \<Rightarrow> True)"
proof (induction rs)
  case (Cons r rs)
  have "(case clip_range lo hi r of None \<Rightarrow> False | Some c \<Rightarrow> covers c k) \<longleftrightarrow>
      covers r k \<and> (case lo of Some l \<Rightarrow> l \<le> k | None \<Rightarrow> True)
       \<and> (case hi of Some h \<Rightarrow> k < h | None \<Rightarrow> True)"
    by (auto simp: covers_def Let_def split: option.splits)
  with Cons show ?case
    by (auto simp: clip_ranges_def map_filter_simps split: option.splits)
qed (simp add: clip_ranges_def map_filter_simps)

lemma clip_ranges_sorted_disjoint:
  "sorted_disjoint rs \<Longrightarrow> sorted_disjoint (clip_ranges rs lo hi)"
proof (induction rs)
  case (Cons r rs)
  have sub: "\<exists>r \<in> set rs. lower r \<le> lower c \<and> upper c \<le> upper r"
    if "c \<in> set (clip_ranges rs lo hi)" for c
    using that
    by (induction rs)
       (auto simp: clip_ranges_def map_filter_simps Let_def split: option.splits if_splits)
  have "\<forall>c \<in> set (clip_ranges rs lo hi). upper r < lower c"
    using Cons.prems sub by (fastforce simp: sorted_disjoint_Cons)
  then show ?case
    using Cons
    by (auto simp: clip_ranges_def map_filter_simps sorted_disjoint_Cons Let_def
        split: option.splits)
qed (simp add: clip_ranges_def map_filter_simps)

section \<open>Fixed-width integers\<close>

definition put_fixed32 :: "u32 \<Rightarrow> bytes" where
  "put_fixed32 v = [ucast v, ucast (drop_bit 8 v), ucast (drop_bit 16 v), ucast (drop_bit 24 v)]"

definition put_fixed64 :: "u64 \<Rightarrow> bytes" where
  "put_fixed64 v = map (\<lambda>i. ucast (drop_bit (8 * i) v)) [0, 1, 2, 3, 4, 5, 6, 7]"

text \<open>
  The decoders read at a pointer; here the bytes from the pointer on. A caller has always
  checked that enough bytes are there.
\<close>

definition decode_fixed32 :: "bytes \<Rightarrow> u32" where
  "decode_fixed32 p =
     ucast (p ! 0) OR push_bit 8 (ucast (p ! 1)) OR push_bit 16 (ucast (p ! 2))
       OR push_bit 24 (ucast (p ! 3))"

definition decode_fixed64 :: "bytes \<Rightarrow> u64" where
  "decode_fixed64 p = fold (\<lambda>i v. v OR push_bit (8 * i) (ucast (p ! i))) [0, 1, 2, 3, 4, 5, 6, 7] 0"

lemma length_put_fixed [simp]: "length (put_fixed32 v) = 4" "length (put_fixed64 w) = 8"
  by (simp_all add: put_fixed32_def put_fixed64_def)

lemma decode_put_fixed32 [codec_simps]: "decode_fixed32 (put_fixed32 v @ rest) = v"
proof (rule bit_word_eqI)
  fix n assume "n < LENGTH(32)"
  then show "bit (decode_fixed32 (put_fixed32 v @ rest)) n = bit v n"
    by (cases "n < 8"; cases "n < 16"; cases "n < 24")
       (auto simp: decode_fixed32_def put_fixed32_def bit_simps not_less)
qed

lemma decode_put_fixed64 [codec_simps]: "decode_fixed64 (put_fixed64 v @ rest) = v"
proof (rule bit_word_eqI)
  fix n assume "n < LENGTH(64)"
  then have "n < 8 \<or> 8 \<le> n \<and> n < 16 \<or> 16 \<le> n \<and> n < 24 \<or> 24 \<le> n \<and> n < 32
      \<or> 32 \<le> n \<and> n < 40 \<or> 40 \<le> n \<and> n < 48 \<or> 48 \<le> n \<and> n < 56 \<or> 56 \<le> n \<and> n < 64" by simp linarith
  then show "bit (decode_fixed64 (put_fixed64 v @ rest)) n = bit v n"
    by (elim disjE conjE)
       (simp_all add: decode_fixed64_def put_fixed64_def bit_simps not_less less_diff_conv2)
qed

lemma length4: "length p = 4 \<Longrightarrow> \<exists>a b c d. p = [a, b, c, d]"
  by (auto simp: eval_nat_numeral length_Suc_conv)

lemma length8: "length p = 8 \<Longrightarrow> \<exists>a b c d e f g h. p = [a, b, c, d, e, f, g, h]"
  by (auto simp: eval_nat_numeral length_Suc_conv)

lemma put_decode_fixed32:
  assumes "length p = 4"
  shows "put_fixed32 (decode_fixed32 p) = p"
proof -
  obtain a b c d where "p = [a, b, c, d]" using length4 [OF assms] by auto
  then show ?thesis
    unfolding put_fixed32_def decode_fixed32_def
    by simp (intro conjI bit_word_eqI; auto simp: bit_simps dest: bit_imp_le_length)
qed

lemma put_decode_fixed64:
  assumes "length p = 8"
  shows "put_fixed64 (decode_fixed64 p) = p"
proof -
  obtain a b c d e f g h where "p = [a, b, c, d, e, f, g, h]" using length8 [OF assms] by auto
  then show ?thesis
    unfolding put_fixed64_def decode_fixed64_def
    by simp (intro conjI bit_word_eqI; auto simp: bit_simps dest: bit_imp_le_length)
qed

section \<open>Variable-width integers\<close>

text \<open>
  \<open>put_varint32\<close> and \<open>put_varint64\<close> are the same loop at two widths, and so are the two readers;
  each is an instance of a loop polymorphic in the word length.
\<close>

lemma unat_drop7: "unat (drop_bit 7 v) = unat v div 128"
  by (simp only: unat_drop_bit_eq) (simp add: drop_bit_eq_div)

function put_varint :: "'a::len word \<Rightarrow> bytes" where
  "put_varint value =
     (if 128 \<le> unat value
      then ucast ((value AND 0x7F) OR 0x80) # put_varint (drop_bit 7 value)
      else [ucast value])"
  by pat_completeness auto
termination
  by (relation "measure unat") (auto simp del: drop_bit_eq_div simp: unat_drop7)

declare put_varint.simps [simp del]

fun get_varint_loop ::
    "nat \<Rightarrow> nat \<Rightarrow> 'a::len word \<Rightarrow> bytes \<Rightarrow> ('a word \<times> bytes) option" where
  "get_varint_loop max_shift shift result [] = None"
| "get_varint_loop max_shift shift result (b # p) =
     (if shift \<le> max_shift
      then if b AND 0x80 \<noteq> 0
           then get_varint_loop max_shift (shift + 7) (result OR push_bit shift (ucast b AND 0x7F)) p
           else Some (result OR push_bit shift (ucast b), p)
      else None)"

definition put_varint32 :: "u32 \<Rightarrow> bytes" where "put_varint32 = put_varint"
definition put_varint64 :: "u64 \<Rightarrow> bytes" where "put_varint64 = put_varint"

definition get_varint32 :: "bytes \<Rightarrow> (u32 \<times> bytes) option" where
  "get_varint32 = get_varint_loop 28 0 0"

definition get_varint64 :: "bytes \<Rightarrow> (u64 \<times> bytes) option" where
  "get_varint64 = get_varint_loop 63 0 0"

text \<open>The two masks of the loop, bit by bit. The simplifier reads a word numeral's bits at \<^typ>\<open>int\<close>.\<close>

lemma bit_127 [simp]: "bit (127 :: int) n \<longleftrightarrow> n < 7"
proof -
  have "(127 :: int) = mask 7" by (simp add: mask_eq_exp_minus_1)
  then show ?thesis by (simp only: bit_mask_iff) auto
qed

lemma bit_128 [simp]: "bit (128 :: int) n \<longleftrightarrow> n = 7"
proof -
  have "(128 :: int) = 2 ^ 7" by simp
  then show ?thesis by (simp only: bit_exp_iff) auto
qed

lemma continuation_byte:
  assumes "8 \<le> LENGTH('a::len)"
  shows "ucast (((v :: 'a word) AND 0x7F) OR 0x80) AND (0x80 :: byte) \<noteq> 0"
proof -
  have "bit (ucast ((v AND 0x7F) OR 0x80) AND (0x80 :: byte)) 7"
    using assms by (simp add: bit_simps)
  then show ?thesis by (metis bit_0_eq bot_apply bot_bool_def)
qed

lemma continuation_payload:
  assumes "8 \<le> LENGTH('a::len)"
  shows "ucast (ucast (((v :: 'a word) AND 0x7F) OR 0x80) :: byte) AND 0x7F = v AND 0x7F"
  using assms by (intro bit_word_eqI) (auto simp: bit_simps)

lemma final_byte:
  assumes "unat (v :: 'a::len word) < 128"
  shows "ucast v AND (0x80 :: byte) = 0" and "ucast (ucast v :: byte) = v"
proof -
  have high: "\<not> bit v n" if "7 \<le> n" for n
  proof -
    have "unat v < 2 ^ n"
      using assms that power_increasing [of 7 n "2::nat"] by simp
    then have "\<not> bit (unat v) n" by (simp add: bit_iff_odd)
    then show ?thesis by (simp add: bit_unsigned_iff)
  qed
  show "ucast v AND (0x80 :: byte) = 0"
    by (intro bit_word_eqI) (auto simp: bit_simps high)
  have "n < 8" if "bit v n" for n
    by (rule ccontr) (use high [of n] that in auto)
  then show "ucast (ucast v :: byte) = v"
    by (intro bit_word_eqI) (auto simp: bit_simps)
qed

lemma split_low7: "push_bit sh (v AND 0x7F) OR push_bit (sh + 7) (drop_bit 7 v) = push_bit sh v"
  for v :: "'a::len word"
proof (rule bit_word_eqI)
  fix n assume "n < LENGTH('a)"
  moreover have "7 + (n - (sh + 7)) = n - sh" if "sh + 7 \<le> n" using that by simp
  ultimately show "bit (push_bit sh (v AND 0x7F) OR push_bit (sh + 7) (drop_bit 7 v)) n
      = bit (push_bit sh v) n"
    by (cases "sh + 7 \<le> n") (auto simp: bit_simps)
qed

text \<open>A value of at most \<open>m\<close> groups of seven bits survives whatever follows it.\<close>

lemma get_varint_loop_put:
  assumes "8 \<le> LENGTH('a::len)" and "unat (v :: 'a word) < 2 ^ (7 * Suc m)"
    and "shift + 7 * m \<le> max_shift"
  shows "get_varint_loop max_shift shift r (put_varint v @ rest) = Some (r OR push_bit shift v, rest)"
  using assms(2,3)
proof (induction m arbitrary: v shift r)
  case 0
  then show ?case
    using final_byte [of v] by (subst put_varint.simps) simp
next
  case (Suc m)
  show ?case
  proof (cases "128 \<le> unat v")
    case False
    then show ?thesis
      using final_byte [of v] Suc.prems by (subst put_varint.simps) simp
  next
    case True
    have "unat (drop_bit 7 v) < 2 ^ (7 * Suc m)"
      using Suc.prems(1) unfolding unat_drop7
      by (simp add: less_mult_imp_div_less power_add mult.commute)
    then have "get_varint_loop max_shift (shift + 7) (r OR push_bit shift (v AND 0x7F))
        (put_varint (drop_bit 7 v) @ rest)
        = Some ((r OR push_bit shift (v AND 0x7F)) OR push_bit (shift + 7) (drop_bit 7 v), rest)"
      using Suc.prems(2) by (intro Suc.IH) auto
    also have "(r OR push_bit shift (v AND 0x7F)) OR push_bit (shift + 7) (drop_bit 7 v)
        = r OR push_bit shift v"
      by (simp only: or.assoc split_low7)
    finally show ?thesis
      using True Suc.prems(2) continuation_byte [OF assms(1), of v]
        continuation_payload [OF assms(1), of v]
      by (subst put_varint.simps) simp
  qed
qed

lemma get_varint32_put [codec_simps]: "get_varint32 (put_varint32 v @ rest) = Some (v, rest)"
proof -
  have "unat v < 2 ^ (7 * Suc 4)"
    using unsigned_less [of v, where 'a = nat] by simp
  then show ?thesis
    unfolding get_varint32_def put_varint32_def by (subst get_varint_loop_put [where m = 4]) simp_all
qed

lemma get_varint64_put [codec_simps]: "get_varint64 (put_varint64 v @ rest) = Some (v, rest)"
proof -
  have "unat v < 2 ^ (7 * Suc 9)"
    using unsigned_less [of v, where 'a = nat] by simp
  then show ?thesis
    unfolding get_varint64_def put_varint64_def by (subst get_varint_loop_put [where m = 9]) simp_all
qed

interpretation varint32: field_codec put_varint32 get_varint32 "\<lambda>_. True"
  by unfold_locales (rule get_varint32_put)

interpretation varint64: field_codec put_varint64 get_varint64 "\<lambda>_. True"
  by unfold_locales (rule get_varint64_put)

text \<open>
  Whatever bytes a reader is fed, it consumes a prefix of them of at least one byte and of no more
  bytes than the shifts allow.
\<close>

lemma get_varint_loop_consumes:
  "get_varint_loop max_shift shift r bs = Some (v, rest) \<Longrightarrow>
   \<exists>p. bs = p @ rest \<and> 0 < length p \<and> shift + 7 * (length p - 1) \<le> max_shift"
proof (induction max_shift shift r bs rule: get_varint_loop.induct)
  case (2 max_shift shift result b p)
  show ?case
  proof (cases "b AND 0x80 \<noteq> 0")
    case True
    with 2 obtain q where "p = q @ rest" "0 < length q" "shift + 7 + 7 * (length q - 1) \<le> max_shift"
      by (auto split: if_splits)
    then show ?thesis by (intro exI [of _ "b # q"]) auto
  next
    case False
    with 2 show ?thesis by (auto split: if_splits intro: exI [of _ "[b]"])
  qed
qed simp

lemma get_varint32_consumes:
  "get_varint32 bs = Some (v, rest) \<Longrightarrow> \<exists>p. bs = p @ rest \<and> 0 < length p \<and> length p \<le> 5"
  unfolding get_varint32_def by (drule get_varint_loop_consumes) fastforce

lemma get_varint64_consumes:
  "get_varint64 bs = Some (v, rest) \<Longrightarrow> \<exists>p. bs = p @ rest \<and> 0 < length p \<and> length p \<le> 10"
  unfolding get_varint64_def by (drule get_varint_loop_consumes) fastforce

lemma length_put_varint:
  "8 \<le> LENGTH('a::len) \<Longrightarrow> unat (v :: 'a word) < 2 ^ (7 * Suc m) \<Longrightarrow> length (put_varint v) \<le> Suc m"
proof (induction m arbitrary: v)
  case 0
  then show ?case by (subst put_varint.simps) simp
next
  case (Suc m)
  have "unat (drop_bit 7 v) < 2 ^ (7 * Suc m)"
    using Suc.prems(2) unfolding unat_drop7
    by (simp add: less_mult_imp_div_less power_add mult.commute)
  with Suc.IH Suc.prems show ?case by (subst put_varint.simps) simp
qed

lemma length_put_varint32: "length (put_varint32 v) \<le> 5"
  using length_put_varint [of v 4] unsigned_less [of v, where 'a = nat]
  by (simp add: put_varint32_def)

lemma length_put_varint64: "length (put_varint64 v) \<le> 10"
  using length_put_varint [of v 9] unsigned_less [of v, where 'a = nat]
  by (simp add: put_varint64_def)

text \<open>
  Varints round trip at both widths whatever follows them, and a reader of arbitrary bytes
  that answers has consumed between one byte and five (at 32 bits) or ten (at 64 bits) of them, all
  inside its input.
\<close>

theorem varint_round_trip:
  "get_varint32 (put_varint32 v @ rest) = Some (v, rest)
   \<and> get_varint64 (put_varint64 w @ rest) = Some (w, rest)
   \<and> (case get_varint32 bs of None \<Rightarrow> True
      | Some (_, t) \<Rightarrow> \<exists>p. bs = p @ t \<and> 0 < length p \<and> length p \<le> 5)
   \<and> (case get_varint64 bs of None \<Rightarrow> True
      | Some (_, t) \<Rightarrow> \<exists>p. bs = p @ t \<and> 0 < length p \<and> length p \<le> 10)"
  by (auto simp: get_varint32_put get_varint64_put split: option.split
      dest: get_varint32_consumes get_varint64_consumes)

end
