(* ===== verification/Cursor.thy ===== *)
theory Cursor
  imports Format
begin

text \<open>
  The contract of src/sst/internal_iterator.hpp, the interface that the block iterator, the table
  iterator, the concatenating iterator and the memtable iterator all implement and that the merging
  iterator and the table writer are clients of.

  An iterator stands for a position in a list of entries with strictly increasing keys; the
  position one past the end stands for an iterator that is not valid. \<open>forward_cursor\<close> is the half
  a scan in key order uses, \<open>cursor\<close> adds the three reverse operations.
\<close>

type_synonym entry = "bytes \<times> value_type \<times> bytes"

abbreviation keys_of :: "entry list \<Rightarrow> bytes list" where
  "keys_of es \<equiv> map fst es"

definition sorted_keys :: "entry list \<Rightarrow> bool" where
  "sorted_keys es \<longleftrightarrow> sorted_wrt (<) (keys_of es)"

definition lower_pos :: "entry list \<Rightarrow> bytes \<Rightarrow> nat" where
  "lower_pos es t = length (takeWhile (\<lambda>e. fst e < t) es)"

definition floor_pos :: "entry list \<Rightarrow> bytes \<Rightarrow> nat" where
  "floor_pos es t =
     (let n = length (takeWhile (\<lambda>e. fst e \<le> t) es) in if n = 0 then length es else n - 1)"

locale forward_cursor =
  fixes rep :: "'it \<Rightarrow> entry list \<Rightarrow> nat \<Rightarrow> bool"
    and valid :: "'it \<Rightarrow> bool"
    and entry_of :: "'it \<Rightarrow> entry"
    and ok :: "'it \<Rightarrow> bool"
    and seek_to_first :: "'it \<Rightarrow> 'it"
    and seek :: "'it \<Rightarrow> bytes \<Rightarrow> 'it"
    and next_it :: "'it \<Rightarrow> 'it"
  assumes rep_sorted: "rep it es i \<Longrightarrow> sorted_keys es"
    and rep_bound: "rep it es i \<Longrightarrow> i \<le> length es"
    and rep_valid: "rep it es i \<Longrightarrow> valid it \<longleftrightarrow> i < length es"
    and rep_ok: "rep it es i \<Longrightarrow> ok it"
    and rep_entry: "rep it es i \<Longrightarrow> i < length es \<Longrightarrow> entry_of it = es ! i"
    and rep_first: "rep it es i \<Longrightarrow> rep (seek_to_first it) es 0"
    and rep_seek: "rep it es i \<Longrightarrow> rep (seek it t) es (lower_pos es t)"
    and rep_next: "rep it es i \<Longrightarrow> i < length es \<Longrightarrow> rep (next_it it) es (Suc i)"

locale cursor = forward_cursor +
  fixes seek_to_last :: "'a \<Rightarrow> 'a"
    and seek_for_prev :: "'a \<Rightarrow> bytes \<Rightarrow> 'a"
    and prev_it :: "'a \<Rightarrow> 'a"
  assumes rep_last: "rep it es i \<Longrightarrow> rep (seek_to_last it) es (length es - 1)"
    and rep_seek_for_prev: "rep it es i \<Longrightarrow> rep (seek_for_prev it t) es (floor_pos es t)"
    and rep_prev: "rep it es i \<Longrightarrow> i < length es \<Longrightarrow>
      rep (prev_it it) es (if i = 0 then length es else i - 1)"

section \<open>Positions\<close>

lemma sorted_keys_Cons: "sorted_keys (e # es) \<longleftrightarrow> (\<forall>x \<in> set es. fst e < fst x) \<and> sorted_keys es"
  by (auto simp: sorted_keys_def)

lemma sorted_keys_nth: "sorted_keys es \<Longrightarrow> i < j \<Longrightarrow> j < length es \<Longrightarrow> fst (es ! i) < fst (es ! j)"
  by (auto simp: sorted_keys_def dest: sorted_wrt_nth_less)

lemma sorted_keys_nth_iff:
  "sorted_keys es \<Longrightarrow> i < length es \<Longrightarrow> j < length es \<Longrightarrow> fst (es ! i) < fst (es ! j) \<longleftrightarrow> i < j"
  by (metis linorder_neqE_nat order_less_asym order_less_irrefl sorted_keys_nth)

lemma lower_pos_le: "lower_pos es t \<le> length es"
  by (simp add: lower_pos_def length_takeWhile_le)

lemma lower_pos_unique:
  assumes "sorted_keys es" and "j \<le> length es" and "\<forall>m < j. fst (es ! m) < t"
    and "j < length es \<Longrightarrow> t \<le> fst (es ! j)"
  shows "lower_pos es t = j"
proof -
  have "takeWhile (\<lambda>e. fst e < t) es = take j es"
    using assms(3,4) by (intro takeWhile_eq_take_P_nth) (auto simp: not_less)
  then show ?thesis using assms(2) by (simp add: lower_pos_def)
qed

lemma lower_pos_props:
  "m < lower_pos es t \<Longrightarrow> fst (es ! m) < t"
  "lower_pos es t < length es \<Longrightarrow> t \<le> fst (es ! lower_pos es t)"
  by (auto simp: lower_pos_def not_less dest: nth_length_takeWhile)
     (metis nth_mem set_takeWhileD takeWhile_nth)

lemma lower_pos_find:
  "find (\<lambda>e. t \<le> fst e) es = (if lower_pos es t < length es then Some (es ! lower_pos es t) else None)"
  by (induction es) (auto simp: lower_pos_def not_less)

text \<open>How the reverse seek is computed: from the forward one, by an exact hit or a step back.\<close>

lemma floor_pos_lower:
  assumes "sorted_keys es"
  shows "floor_pos es t =
    (if lower_pos es t < length es \<and> fst (es ! lower_pos es t) = t then lower_pos es t
     else if lower_pos es t = 0 then length es else lower_pos es t - 1)"
proof -
  let ?l = "lower_pos es t"
  define n where "n = (if ?l < length es \<and> fst (es ! ?l) = t then Suc ?l else ?l)"
  have "takeWhile (\<lambda>e. fst e \<le> t) es = take n es"
  proof (rule takeWhile_eq_take_P_nth)
    fix i assume "i < n" "i < length es"
    then show "fst (es ! i) \<le> t"
      using lower_pos_props(1) [of i es t] by (auto simp: n_def less_Suc_eq split: if_splits)
  next
    assume "n < length es"
    then show "\<not> fst (es ! n) \<le> t"
      using lower_pos_props(2) [of es t] sorted_keys_nth [OF assms, of ?l "Suc ?l"]
      by (auto simp: n_def split: if_splits)
  qed
  moreover have "n \<le> length es" using lower_pos_le [of es t] by (auto simp: n_def)
  ultimately show ?thesis by (auto simp: floor_pos_def n_def)
qed

lemma floor_pos_props:
  assumes "sorted_keys es" and "floor_pos es t < length es"
  shows "fst (es ! floor_pos es t) \<le> t"
    and "floor_pos es t < m \<Longrightarrow> m < length es \<Longrightarrow> t < fst (es ! m)"
proof -
  let ?l = "lower_pos es t"
  have f: "floor_pos es t = (if ?l < length es \<and> fst (es ! ?l) = t then ?l else ?l - 1)" "?l \<noteq> 0 \<or> ?l < length es \<and> fst (es ! ?l) = t"
    using assms(2) by (auto simp: floor_pos_lower [OF assms(1)] split: if_splits)
  show "fst (es ! floor_pos es t) \<le> t"
    using f lower_pos_props(1) [of "?l - 1" es t] by (auto split: if_splits simp: less_imp_le)
  assume m: "floor_pos es t < m" "m < length es"
  show "t < fst (es ! m)"
  proof (cases "?l < length es \<and> fst (es ! ?l) = t")
    case True
    then show ?thesis using f m sorted_keys_nth [OF assms(1), of ?l m] by auto
  next
    case False
    then have "?l \<le> m" using f m by auto
    then have "?l < length es" "fst (es ! ?l) \<le> fst (es ! m)"
      using m sorted_keys_nth [OF assms(1), of ?l m] by (auto simp: le_less)
    then show ?thesis using lower_pos_props(2) [of es t] False by auto
  qed
qed

lemma floor_pos_none:
  assumes "sorted_keys es" and "floor_pos es t = length es" and "m < length es"
  shows "t < fst (es ! m)"
proof -
  have "lower_pos es t = 0" "fst (es ! 0) \<noteq> t"
    using assms(2,3) lower_pos_le [of es t] by (auto simp: floor_pos_lower [OF assms(1)] split: if_splits)
  then show ?thesis
    using lower_pos_props(2) [of es t] sorted_keys_nth [OF assms(1), of 0 m] assms(3)
    by (cases "m = 0"; cases es) (auto simp: le_less)
qed

lemma find_key_lower:
  assumes s: "sorted_keys es"
  shows "find (\<lambda>e. fst e = t) es =
    (if lower_pos es t < length es \<and> fst (es ! lower_pos es t) = t then Some (es ! lower_pos es t) else None)"
proof (cases "lower_pos es t < length es \<and> fst (es ! lower_pos es t) = t")
  case True
  have "\<forall>m < lower_pos es t. fst (es ! m) \<noteq> t" using lower_pos_props(1) [of _ es t] by blast
  with True show ?thesis by (simp add: find_Some_iff) blast
next
  case False
  have "fst (es ! m) \<noteq> t" if m: "m < length es" for m
  proof (cases "m < lower_pos es t")
    case True
    then show ?thesis using lower_pos_props(1) by blast
  next
    case ge: False
    then have l: "lower_pos es t < length es" using m by simp
    then have "t < fst (es ! lower_pos es t)" using lower_pos_props(2) [OF l] False by auto
    moreover have "fst (es ! lower_pos es t) \<le> fst (es ! m)"
      using sorted_keys_nth [OF s, of "lower_pos es t" m] ge m by (cases "m = lower_pos es t") (auto simp: less_imp_le)
    ultimately show ?thesis by auto
  qed
  then have "find (\<lambda>e. fst e = t) es = None" by (force simp: find_None_iff in_set_conv_nth)
  then show ?thesis using False by auto
qed

section \<open>Draining an iterator\<close>

text \<open>
  The loop \<open>for (; it.valid(); it.next())\<close> of the writer and of the compactor, with a bound on the
  number of its rounds: the entries visited and the iterator where it stopped.
\<close>

fun drain :: "('it \<Rightarrow> bool) \<Rightarrow> ('it \<Rightarrow> entry) \<Rightarrow> ('it \<Rightarrow> 'it) \<Rightarrow> nat \<Rightarrow> 'it \<Rightarrow> entry list \<times> 'it" where
  "drain v e nx 0 it = ([], it)"
| "drain v e nx (Suc n) it =
     (if v it then let (es, it') = drain v e nx n (nx it) in (e it # es, it') else ([], it))"

context forward_cursor
begin

lemma drain_rep:
  "rep it es i \<Longrightarrow> length es - i \<le> n \<Longrightarrow>
   fst (drain valid entry_of next_it n it) = drop i es
   \<and> rep (snd (drain valid entry_of next_it n it)) es (length es)"
proof (induction n arbitrary: it i)
  case 0
  then show ?case using rep_bound by fastforce
next
  case (Suc n)
  show ?case
  proof (cases "i < length es")
    case True
    then have "rep (next_it it) es (Suc i)" "length es - Suc i \<le> n"
      using Suc.prems rep_next by auto
    with Suc.IH [of "next_it it" "Suc i"] True show ?thesis
      using rep_valid [OF Suc.prems(1)] rep_entry [OF Suc.prems(1) True]
      by (simp add: split_def Let_def Cons_nth_drop_Suc)
  next
    case False
    then show ?thesis
      using rep_valid [OF Suc.prems(1)] rep_bound [OF Suc.prems(1)] Suc.prems(1) by simp
  qed
qed

text \<open>A point lookup: seek, then compare the key.\<close>

lemma seek_hit:
  assumes "rep it es i"
  shows "(if valid (seek it t) \<and> fst (entry_of (seek it t)) = t then Some (entry_of (seek it t)) else None)
    = find (\<lambda>e. fst e = t) es"
proof -
  have r: "rep (seek it t) es (lower_pos es t)" using assms by (rule rep_seek)
  show ?thesis
    unfolding find_key_lower [OF rep_sorted [OF assms]]
    using rep_valid [OF r] rep_entry [OF r] by auto
qed

end

context cursor
begin

text \<open>The same loop backwards: from a valid position it visits everything before it, in reverse.\<close>

lemma drain_back_from:
  "rep it es i \<Longrightarrow> i < length es \<Longrightarrow> i < n \<Longrightarrow>
   fst (drain valid entry_of prev_it n it) = rev (take (Suc i) es)
   \<and> rep (snd (drain valid entry_of prev_it n it)) es (length es)"
proof (induction n arbitrary: it i)
  case (Suc n)
  have step: "drain valid entry_of prev_it (Suc n) it
      = (es ! i # fst (drain valid entry_of prev_it n (prev_it it)), snd (drain valid entry_of prev_it n (prev_it it)))"
    using rep_valid [OF Suc.prems(1)] rep_entry [OF Suc.prems(1,2)] Suc.prems(2) by (simp add: split_def Let_def)
  note p = rep_prev [OF Suc.prems(1,2)]
  show ?case
  proof (cases i)
    case 0
    then have e: "rep (prev_it it) es (length es)" using p by simp
    then have "\<not> valid (prev_it it)" using rep_valid by simp
    then have "drain valid entry_of prev_it n (prev_it it) = ([], prev_it it)" by (cases n) simp_all
    then show ?thesis
      unfolding step using 0 Suc.prems(2) e by (simp add: take_Suc_conv_app_nth)
  next
    case (Suc j)
    then have e: "rep (prev_it it) es j" "j < length es" "j < n" using p Suc.prems by auto
    from Suc.IH [OF e] show ?thesis
      using Suc Suc.prems(2) unfolding step by (simp add: take_Suc_conv_app_nth [of "Suc j"])
  qed
qed simp

lemma drain_back:
  assumes "rep it es (length es - 1)" and "length es \<le> n"
  shows "fst (drain valid entry_of prev_it n it) = rev es
    \<and> rep (snd (drain valid entry_of prev_it n it)) es (length es)"
proof (cases es)
  case Nil
  then have "\<not> valid it" using rep_valid [OF assms(1)] by simp
  then have "drain valid entry_of prev_it n it = ([], it)" by (cases n) simp_all
  with Nil assms(1) show ?thesis by simp
next
  case (Cons e es')
  then have "length es - 1 < length es" "length es - 1 < n" using assms(2) by auto
  from drain_back_from [OF assms(1) this] Cons show ?thesis by simp
qed

end

end
