(* ===== verification/Merging.thy ===== *)
theory Merging
  imports Cursor
begin

text \<open>
  src/compact/merging\_iterator.cpp: the iterator that stacks the sources of a read or a compaction,
  newest first. The interface of src/sst/internal\_iterator.hpp is a record of operations on the state
  of an iterator, and the merge is over any implementation of it.

  The meaning of a stack is \<open>visible\<close>: the entries of a source, and those of the older sources that
  neither its entries nor its range tombstones hide. The iterator is shown to be a cursor over it in
  either direction.
\<close>

section \<open>Iterators\<close>

record 'it internal_iterator =
  ii_valid :: "'it \<Rightarrow> bool"
  ii_entry :: "'it \<Rightarrow> entry"
  ii_status :: "'it \<Rightarrow> status"
  ii_seek_to_first :: "'it \<Rightarrow> 'it"
  ii_seek :: "'it \<Rightarrow> bytes \<Rightarrow> 'it"
  ii_next :: "'it \<Rightarrow> 'it"
  ii_seek_to_last :: "'it \<Rightarrow> 'it"
  ii_seek_for_prev :: "'it \<Rightarrow> bytes \<Rightarrow> 'it"
  ii_prev :: "'it \<Rightarrow> 'it"

definition ii_key :: "'it internal_iterator \<Rightarrow> 'it \<Rightarrow> bytes" where
  "ii_key I it = fst (ii_entry I it)"

section \<open>The merge\<close>

record 'it merging_iterator =
  mi_children :: "'it list"
  mi_carriers :: "(nat \<times> range_tombstone list) list"
  mi_current :: "nat option"
  mi_status_field :: status

definition MergingIterator :: "'it list \<Rightarrow> range_tombstone list list \<Rightarrow> 'it merging_iterator" where
  "MergingIterator children child_ranges =
     \<lparr> mi_children = children, mi_carriers = filter (\<lambda>(_, ranges). ranges \<noteq> []) (List.enumerate 0 child_ranges),
       mi_current = None, mi_status_field = Ok \<rparr>"

definition mi_valid :: "'it merging_iterator \<Rightarrow> bool" where
  "mi_valid M \<longleftrightarrow> mi_current M \<noteq> None"

definition mi_status :: "'it internal_iterator \<Rightarrow> 'it merging_iterator \<Rightarrow> status" where
  "mi_status I M =
     (if mi_status_field M \<noteq> Ok then mi_status_field M
      else case find (\<lambda>c. ii_status I c \<noteq> Ok) (mi_children M) of None \<Rightarrow> Ok | Some c \<Rightarrow> ii_status I c)"

definition mi_entry :: "'it internal_iterator \<Rightarrow> 'it merging_iterator \<Rightarrow> entry" where
  "mi_entry I M = ii_entry I (mi_children M ! the (mi_current M))"

text \<open>One step of the current child and of every other child on the same key, in either direction.\<close>

definition step_children :: "'it internal_iterator \<Rightarrow> ('it \<Rightarrow> 'it) \<Rightarrow> 'it merging_iterator \<Rightarrow> 'it merging_iterator" where
  "step_children I step M =
     (let current = the (mi_current M); key = ii_key I (mi_children M ! current) in
      M\<lparr> mi_children := map (\<lambda>(i, c). if i = current \<or> ii_valid I c \<and> ii_key I c = key then step c else c)
           (List.enumerate 0 (mi_children M)) \<rparr>)"

definition step_forward :: "'it internal_iterator \<Rightarrow> 'it merging_iterator \<Rightarrow> 'it merging_iterator" where
  "step_forward I M = step_children I (ii_next I) M"

definition step_backward :: "'it internal_iterator \<Rightarrow> 'it merging_iterator \<Rightarrow> 'it merging_iterator" where
  "step_backward I M = step_children I (ii_prev I) M"

fun shadowed_by :: "(nat \<times> range_tombstone list) list \<Rightarrow> nat \<Rightarrow> bytes \<Rightarrow> bool" where
  "shadowed_by [] current key = False"
| "shadowed_by ((child, ranges) # carriers) current key =
     (if current \<le> child then False
      else
        let at = partition_point (\<lambda>r. \<not> key < lower r) ranges in
        if at = 0 then shadowed_by carriers current key
        else if key < upper (ranges ! (at - 1)) then True
        else shadowed_by carriers current key)"

definition shadowed :: "'it internal_iterator \<Rightarrow> 'it merging_iterator \<Rightarrow> bool" where
  "shadowed I M =
     (if mi_carriers M = [] then False
      else shadowed_by (mi_carriers M) (the (mi_current M)) (fst (mi_entry I M)))"

text \<open>The pick by a linear scan: a child replaces the one held only if its key is strictly better.\<close>

definition pick_index :: "(bytes \<Rightarrow> bytes \<Rightarrow> bool) \<Rightarrow> 'it internal_iterator \<Rightarrow> 'it list \<Rightarrow> nat \<Rightarrow> nat option" where
  "pick_index better I cs n =
     fold (\<lambda>i current.
       if \<not> ii_valid I (cs ! i) then current
       else case current of
         None \<Rightarrow> Some i
       | Some j \<Rightarrow> if better (ii_key I (cs ! i)) (ii_key I (cs ! j)) then Some i else current) [0..<n] None"

definition pick_raw :: "(bytes \<Rightarrow> bytes \<Rightarrow> bool) \<Rightarrow> 'it internal_iterator \<Rightarrow> 'it merging_iterator \<Rightarrow> 'it merging_iterator" where
  "pick_raw better I M = M\<lparr> mi_current := pick_index better I (mi_children M) (length (mi_children M)) \<rparr>"

definition pick_smallest_raw :: "'it internal_iterator \<Rightarrow> 'it merging_iterator \<Rightarrow> 'it merging_iterator" where
  "pick_smallest_raw I M = pick_raw (<) I M"

definition pick_largest_raw :: "'it internal_iterator \<Rightarrow> 'it merging_iterator \<Rightarrow> 'it merging_iterator" where
  "pick_largest_raw I M = pick_raw (>) I M"

text \<open>The loop over shadowed picks, \<^const>\<open>None\<close> when it does not end.\<close>

partial_function (option) pick_loop ::
    "(bytes \<Rightarrow> bytes \<Rightarrow> bool) \<Rightarrow> ('it \<Rightarrow> 'it) \<Rightarrow> 'it internal_iterator \<Rightarrow> 'it merging_iterator \<Rightarrow> 'it merging_iterator option" where
  "pick_loop better step I M =
     (let M = pick_raw better I M in
      if mi_current M \<noteq> None \<and> shadowed I M then pick_loop better step I (step_children I step M) else Some M)"

definition pick_smallest :: "'it internal_iterator \<Rightarrow> 'it merging_iterator \<Rightarrow> 'it merging_iterator option" where
  "pick_smallest I M = pick_loop (<) (ii_next I) I M"

definition pick_largest :: "'it internal_iterator \<Rightarrow> 'it merging_iterator \<Rightarrow> 'it merging_iterator option" where
  "pick_largest I M = pick_loop (>) (ii_prev I) I M"

definition mi_seek_to_first :: "'it internal_iterator \<Rightarrow> 'it merging_iterator \<Rightarrow> 'it merging_iterator option" where
  "mi_seek_to_first I M = pick_smallest I (M\<lparr> mi_children := map (ii_seek_to_first I) (mi_children M) \<rparr>)"

definition mi_seek :: "'it internal_iterator \<Rightarrow> 'it merging_iterator \<Rightarrow> bytes \<Rightarrow> 'it merging_iterator option" where
  "mi_seek I M target = pick_smallest I (M\<lparr> mi_children := map (\<lambda>c. ii_seek I c target) (mi_children M) \<rparr>)"

definition mi_seek_to_last :: "'it internal_iterator \<Rightarrow> 'it merging_iterator \<Rightarrow> 'it merging_iterator option" where
  "mi_seek_to_last I M = pick_largest I (M\<lparr> mi_children := map (ii_seek_to_last I) (mi_children M) \<rparr>)"

definition mi_seek_for_prev :: "'it internal_iterator \<Rightarrow> 'it merging_iterator \<Rightarrow> bytes \<Rightarrow> 'it merging_iterator option" where
  "mi_seek_for_prev I M target = pick_largest I (M\<lparr> mi_children := map (\<lambda>c. ii_seek_for_prev I c target) (mi_children M) \<rparr>)"

definition mi_next :: "'it internal_iterator \<Rightarrow> 'it merging_iterator \<Rightarrow> 'it merging_iterator option" where
  "mi_next I M = (if mi_current M = None then Some M else pick_smallest I (step_forward I M))"

definition mi_prev :: "'it internal_iterator \<Rightarrow> 'it merging_iterator \<Rightarrow> 'it merging_iterator option" where
  "mi_prev I M = (if mi_current M = None then Some M else pick_largest I (step_backward I M))"

section \<open>What a stack of sources means\<close>

type_synonym source = "entry list \<times> range_tombstone list"

fun merge_entries :: "entry list \<Rightarrow> entry list \<Rightarrow> entry list" where
  "merge_entries [] ys = ys"
| "merge_entries xs [] = xs"
| "merge_entries (x # xs) (y # ys) =
     (if fst x < fst y then x # merge_entries xs (y # ys)
      else if fst y < fst x then y # merge_entries (x # xs) ys
      else x # merge_entries xs ys)"

fun visible :: "source list \<Rightarrow> entry list" where
  "visible [] = []"
| "visible ((es, ranges) # older) = merge_entries es (filter (\<lambda>e. \<not> any_covers ranges (fst e)) (visible older))"

lemma merge_entries_props:
  "sorted_keys xs \<Longrightarrow> sorted_keys ys \<Longrightarrow>
   sorted_keys (merge_entries xs ys)
   \<and> set (merge_entries xs ys) = set xs \<union> {e \<in> set ys. fst e \<notin> fst ` set xs}"
proof (induction xs ys rule: merge_entries.induct)
  case (3 x xs y ys)
  have s: "sorted_keys xs" "sorted_keys ys" "\<forall>e \<in> set xs. fst x < fst e" "\<forall>e \<in> set ys. fst y < fst e"
    using 3(4,5) by (simp_all add: sorted_keys_Cons)
  consider "fst x < fst y" | "fst y < fst x" | "fst x = fst y" by (metis linorder_less_linear)
  then show ?case
  proof cases
    case 1
    have ih: "sorted_keys (merge_entries xs (y # ys)) \<and> set (merge_entries xs (y # ys)) = set xs \<union> {e \<in> set (y # ys). fst e \<notin> fst ` set xs}"
      using 3(1) [OF 1 s(1) 3(5)] .
    have "\<forall>e \<in> set (y # ys). fst x < fst e" using 1 s(4) by (auto dest: order_less_trans)
    then show ?thesis using 1 s(3) ih by (auto simp: sorted_keys_Cons)
  next
    case 2
    then have n: "\<not> fst x < fst y" by auto
    have ih: "sorted_keys (merge_entries (x # xs) ys) \<and> set (merge_entries (x # xs) ys) = set (x # xs) \<union> {e \<in> set ys. fst e \<notin> fst ` set (x # xs)}"
      using 3(2) [OF n 2 3(4) s(2)] .
    have "\<forall>e \<in> set (x # xs). fst y < fst e" using 2 s(3) by (auto dest: order_less_trans)
    then show ?thesis using 2 n s(4) ih by (auto simp: sorted_keys_Cons)
  next
    case eq: 3
    then have n: "\<not> fst x < fst y" "\<not> fst y < fst x" by auto
    have ih: "sorted_keys (merge_entries xs ys) \<and> set (merge_entries xs ys) = set xs \<union> {e \<in> set ys. fst e \<notin> fst ` set xs}"
      using 3(3) [OF n s(1,2)] .
    show ?thesis using n eq s(3,4) ih by (auto simp: sorted_keys_Cons)
  qed
qed auto

lemma sorted_keys_filter: "sorted_keys es \<Longrightarrow> sorted_keys (filter p es)"
  unfolding sorted_keys_def by (metis sorted_wrt_filter sorted_wrt_map)

lemma sorted_keys_unique: "sorted_keys es \<Longrightarrow> a \<in> set es \<Longrightarrow> b \<in> set es \<Longrightarrow> fst a = fst b \<Longrightarrow> a = b"
  by (induction es) (auto simp: sorted_keys_Cons)

lemma visible_sorted: "\<forall>c \<in> set css. sorted_keys (fst c) \<Longrightarrow> sorted_keys (visible css)"
  by (induction css rule: visible.induct) (simp add: sorted_keys_def, simp add: merge_entries_props sorted_keys_filter)

text \<open>An entry is visible when its source is the newest with its key and no newer tombstone covers it.\<close>

lemma visible_iff:
  assumes "\<forall>c \<in> set css. sorted_keys (fst c)"
  shows "e \<in> set (visible css) \<longleftrightarrow>
    (\<exists>j < length css. e \<in> set (fst (css ! j)) \<and> (\<forall>i < j. fst e \<notin> fst ` set (fst (css ! i)) \<and> \<not> any_covers (snd (css ! i)) (fst e)))"
  using assms
proof (induction css rule: visible.induct)
  case (2 es ranges older)
  have s: "sorted_keys es" "sorted_keys (filter (\<lambda>e. \<not> any_covers ranges (fst e)) (visible older))"
    using 2(2) by (auto simp: visible_sorted sorted_keys_filter)
  have "e \<in> set (visible ((es, ranges) # older)) \<longleftrightarrow>
      e \<in> set es \<or> e \<in> set (visible older) \<and> \<not> any_covers ranges (fst e) \<and> fst e \<notin> fst ` set es"
    using merge_entries_props [OF s] by auto
  moreover have "\<forall>c \<in> set older. sorted_keys (fst c)" using 2(2) by simp
  ultimately show ?case
    using 2(1) by (simp add: Ex_less_Suc2 All_less_Suc2) blast
qed simp

section \<open>Range tombstones of the stack\<close>

text \<open>The carriers answer whether a newer source covers a key.\<close>

definition carries :: "(nat \<times> range_tombstone list) list \<Rightarrow> source list \<Rightarrow> bool" where
  "carries carriers css \<longleftrightarrow>
     (\<forall>j < length css. \<forall>k. shadowed_by carriers j k \<longleftrightarrow> (\<exists>i < j. any_covers (snd (css ! i)) k))"

lemma sorted_disjoint_lower: "sorted_disjoint ranges \<Longrightarrow> sorted_wrt (\<lambda>a b. lower a < lower b) ranges"
  by (induction ranges) (auto simp: sorted_disjoint_Cons dest: order_less_trans)

lemma sorted_disjoint_partitioned: "sorted_disjoint ranges \<Longrightarrow> partitioned (\<lambda>r. \<not> k < lower r) ranges"
proof (unfold partitioned_def, intro allI impI)
  fix i j assume "sorted_disjoint ranges" "i < j" "j < length ranges" "\<not> k < lower (ranges ! j)"
  moreover from this have "lower (ranges ! i) < lower (ranges ! j)"
    using sorted_wrt_nth_less [OF sorted_disjoint_lower] by blast
  ultimately show "\<not> k < lower (ranges ! i)" by simp
qed

lemma sorted_disjoint_search:
  assumes "sorted_disjoint ranges"
  shows "partition_point (\<lambda>r. \<not> k < lower r) ranges \<noteq> 0 \<and> k < upper (ranges ! (partition_point (\<lambda>r. \<not> k < lower r) ranges - 1))
    \<longleftrightarrow> any_covers ranges k"
  unfolding partition_point_takeWhile [OF sorted_disjoint_partitioned [OF assms]]
  using assms
proof (induction ranges)
  case (Cons r rs)
  have s: "\<forall>s \<in> set rs. upper r < lower s" "lower r < upper r" "sorted_disjoint rs"
    using Cons.prems by (auto simp: sorted_disjoint_Cons)
  let ?tw = "takeWhile (\<lambda>r. \<not> k < lower r) rs"
  show ?case
  proof (cases "k < lower r")
    case True
    then have "\<forall>s \<in> set (r # rs). k < lower s" using s by fastforce
    then show ?thesis using True by (auto simp: any_covers_def covers_def)
  next
    case low: False
    show ?thesis
    proof (cases "?tw = []")
      case True
      then have "any_covers rs k = False" using Cons.IH [OF s(3)] by simp
      then show ?thesis using low True by (simp add: covers_def not_less)
    next
      case False
      then obtain s where "s \<in> set rs" "\<not> k < lower s" by (meson last_in_set set_takeWhileD)
      then have "\<not> covers r k" using s(1) by (fastforce simp: covers_def)
      moreover have "(r # rs) ! length ?tw = rs ! (length ?tw - 1)" using False by (simp add: nth_Cons')
      ultimately show ?thesis using Cons.IH [OF s(3)] low False by simp
    qed
  qed
qed simp

lemma shadowed_by_enumerate:
  assumes "\<forall>ranges \<in> set rss. sorted_disjoint ranges"
  shows "shadowed_by (filter (\<lambda>(_, ranges). ranges \<noteq> []) (List.enumerate n rss)) j k
    \<longleftrightarrow> (\<exists>i < length rss. n + i < j \<and> any_covers (rss ! i) k)"
  using assms
proof (induction rss arbitrary: n)
  case (Cons ranges rss)
  have ih: "shadowed_by (filter (\<lambda>(_, ranges). ranges \<noteq> []) (List.enumerate (Suc n) rss)) j k
      \<longleftrightarrow> (\<exists>i < length rss. Suc n + i < j \<and> any_covers (rss ! i) k)"
    using Cons by simp
  note search = sorted_disjoint_search [of ranges k]
  have sd: "sorted_disjoint ranges" using Cons.prems by simp
  have step: "shadowed_by (filter (\<lambda>(_, ranges). ranges \<noteq> []) (List.enumerate n (ranges # rss))) j k
      \<longleftrightarrow> n < j \<and> (any_covers ranges k \<or> shadowed_by (filter (\<lambda>(_, ranges). ranges \<noteq> []) (List.enumerate (Suc n) rss)) j k)"
  proof (cases "ranges = []")
    case True
    then show ?thesis using ih by auto
  next
    case False
    then show ?thesis using search [OF sd] by (auto simp: Let_def)
  qed
  show ?case unfolding step ih by (auto simp: Ex_less_Suc2)
qed simp

section \<open>One direction of a scan\<close>

text \<open>
  What a direction relies on: an order on keys, and children that, for a condition on keys that is
  still to be visited, hold the first entry that meets it and step to the first after that. Both
  directions are instances, and the merge of such children is again one.
\<close>

locale scan =
  fixes I :: "'it internal_iterator" and lt :: "bytes \<Rightarrow> bytes \<Rightarrow> bool" and step :: "'it \<Rightarrow> 'it"
    and shows_at :: "(bytes \<Rightarrow> bool) \<Rightarrow> 'it \<Rightarrow> entry list \<Rightarrow> bool"
  assumes lt_trans: "lt a b \<Longrightarrow> lt b d \<Longrightarrow> lt a d"
    and lt_irrefl: "\<not> lt a a"
    and lt_total: "lt a b \<or> a = b \<or> lt b a"
    and shows_valid: "shows_at P c es \<Longrightarrow> ii_valid I c \<longleftrightarrow> (\<exists>e \<in> set es. P (fst e))"
    and shows_entry: "shows_at P c es \<Longrightarrow> ii_valid I c \<Longrightarrow> ii_entry I c \<in> set es \<and> P (ii_key I c)"
    and shows_first: "shows_at P c es \<Longrightarrow> e \<in> set es \<Longrightarrow> P (fst e) \<Longrightarrow> e = ii_entry I c \<or> lt (ii_key I c) (fst e)"
    and shows_step: "shows_at P c es \<Longrightarrow> ii_valid I c \<Longrightarrow> shows_at (\<lambda>k. P k \<and> lt (ii_key I c) k) (step c) es"
    and shows_cong: "shows_at P c es \<Longrightarrow> \<forall>e \<in> set es. P' (fst e) = P (fst e) \<Longrightarrow> shows_at P' c es"
    and shows_sorted: "shows_at P c es \<Longrightarrow> sorted_keys es"
begin

lemma picked:
  "(pick_index lt I cs n = None \<longleftrightarrow> (\<forall>i < n. \<not> ii_valid I (cs ! i)))
   \<and> (\<forall>j. pick_index lt I cs n = Some j \<longrightarrow> j < n \<and> ii_valid I (cs ! j)
       \<and> (\<forall>i < n. ii_valid I (cs ! i) \<longrightarrow> lt (ii_key I (cs ! j)) (ii_key I (cs ! i)) \<or> j \<le> i \<and> ii_key I (cs ! i) = ii_key I (cs ! j)))"
proof (induction n)
  case 0
  then show ?case by (simp add: pick_index_def)
next
  case (Suc n)
  have step: "pick_index lt I cs (Suc n) = (if \<not> ii_valid I (cs ! n) then pick_index lt I cs n
      else case pick_index lt I cs n of None \<Rightarrow> Some n | Some j \<Rightarrow> if lt (ii_key I (cs ! n)) (ii_key I (cs ! j)) then Some n else pick_index lt I cs n)"
    unfolding pick_index_def by simp
  show ?case
  proof (cases "ii_valid I (cs ! n)")
    case False
    then show ?thesis using Suc by (auto simp: step less_Suc_eq)
  next
    case True
    show ?thesis
    proof (cases "pick_index lt I cs n")
      case None
      then show ?thesis using Suc True by (auto simp: step less_Suc_eq)
    next
      case (Some j)
      have j: "j < n" "ii_valid I (cs ! j)"
        "\<And>i. i < n \<Longrightarrow> ii_valid I (cs ! i) \<Longrightarrow> lt (ii_key I (cs ! j)) (ii_key I (cs ! i)) \<or> j \<le> i \<and> ii_key I (cs ! i) = ii_key I (cs ! j)"
        using Suc Some by auto
      show ?thesis
      proof (cases "lt (ii_key I (cs ! n)) (ii_key I (cs ! j))")
        case better: True
        have "lt (ii_key I (cs ! n)) (ii_key I (cs ! i))" if "i < n" "ii_valid I (cs ! i)" for i
          using j(3) [OF that] better lt_trans by metis
        then show ?thesis using True Some better j by (auto simp: step less_Suc_eq)
      next
        case worse: False
        then have "lt (ii_key I (cs ! j)) (ii_key I (cs ! n)) \<or> ii_key I (cs ! n) = ii_key I (cs ! j)" using lt_total by metis
        then show ?thesis using True Some worse j by (auto simp: step less_Suc_eq)
      qed
    qed
  qed
qed

lemma pick_raw_fields [simp]: "mi_children (pick_raw lt I M) = mi_children M" "mi_carriers (pick_raw lt I M) = mi_carriers M"
  "mi_status_field (pick_raw lt I M) = mi_status_field M"
  by (simp_all add: pick_raw_def)

lemma pick_raw_idem: "pick_raw lt I (pick_raw lt I M) = pick_raw lt I M"
  by (simp add: pick_raw_def)

lemma pick_raw_None: "mi_current (pick_raw lt I M) = None \<longleftrightarrow> (\<forall>c \<in> set (mi_children M). \<not> ii_valid I c)"
  using picked [of "mi_children M" "length (mi_children M)"] by (auto simp: pick_raw_def set_conv_nth)

lemma pick_raw_Some:
  assumes "mi_current (pick_raw lt I M) = Some j"
  shows "j < length (mi_children M)" "ii_valid I (mi_children M ! j)"
    and "i < length (mi_children M) \<Longrightarrow> ii_valid I (mi_children M ! i) \<Longrightarrow>
      lt (ii_key I (mi_children M ! j)) (ii_key I (mi_children M ! i)) \<or> j \<le> i \<and> ii_key I (mi_children M ! i) = ii_key I (mi_children M ! j)"
  using assms picked [of "mi_children M" "length (mi_children M)"] by (auto simp: pick_raw_def)

lemma shadowed_carriers: "shadowed I M \<longleftrightarrow> shadowed_by (mi_carriers M) (the (mi_current M)) (fst (mi_entry I M))"
  by (simp add: shadowed_def)

text \<open>
  The pick over children that all show the same condition: its entry is that of the newest source
  with the key, and every entry of any source that meets the condition is this one or comes later.
\<close>

lemma children_sorted:
  assumes "list_all2 (\<lambda>c s. shows_at Q c (fst s)) cs css"
  shows "\<forall>c \<in> set css. sorted_keys (fst c)"
proof
  fix s assume "s \<in> set css"
  then obtain i where "i < length css" "s = css ! i" by (auto simp: in_set_conv_nth)
  then have "shows_at Q (cs ! i) (fst s)" using assms by (simp add: list_all2_conv_all_nth)
  then show "sorted_keys (fst s)" by (rule shows_sorted)
qed

lemma pick_first:
  assumes cs: "list_all2 (\<lambda>c s. shows_at Q c (fst s)) (mi_children M) css" and j: "mi_current (pick_raw lt I M) = Some j"
  defines "e \<equiv> ii_entry I (mi_children M ! j)"
  shows "j < length css" "e \<in> set (fst (css ! j))" "Q (fst e)"
    and "i < length css \<Longrightarrow> e' \<in> set (fst (css ! i)) \<Longrightarrow> Q (fst e') \<Longrightarrow> fst e' = fst e \<and> j \<le> i \<or> lt (fst e) (fst e')"
proof -
  note p = pick_raw_Some [OF j]
  have len: "length (mi_children M) = length css" using cs by (rule list_all2_lengthD)
  have sh: "shows_at Q (mi_children M ! i) (fst (css ! i))" if "i < length css" for i
    using list_all2_nthD [OF cs] that len by simp
  show "j < length css" using p(1) len by simp
  from shows_entry [OF sh [OF this] p(2)] show "e \<in> set (fst (css ! j))" "Q (fst e)" by (simp_all add: e_def ii_key_def)
  assume i: "i < length css" "e' \<in> set (fst (css ! i))" "Q (fst e')"
  have v: "ii_valid I (mi_children M ! i)" using shows_valid [OF sh [OF i(1)]] i by blast
  define k where "k = ii_key I (mi_children M ! i)"
  have "fst e' = k \<or> lt k (fst e')" using shows_first [OF sh [OF i(1)] i(2,3)] by (auto simp: ii_key_def k_def)
  moreover have "lt (fst e) k \<or> j \<le> i \<and> k = fst e" using p(3) [of i] i(1) v len by (auto simp: k_def e_def ii_key_def)
  ultimately show "fst e' = fst e \<and> j \<le> i \<or> lt (fst e) (fst e')" using lt_trans by blast
qed

lemma pick_visible:
  assumes cs: "list_all2 (\<lambda>c s. shows_at Q c (fst s)) (mi_children M) css" and j: "mi_current (pick_raw lt I M) = Some j"
    and carriers: "carries (mi_carriers M) css"
  defines "e \<equiv> ii_entry I (mi_children M ! j)"
  shows "\<not> shadowed I (pick_raw lt I M) \<Longrightarrow> e \<in> set (visible css)"
    and "shadowed I (pick_raw lt I M) \<Longrightarrow> fst e \<notin> fst ` set (visible css)"
    and "e' \<in> set (visible css) \<Longrightarrow> Q (fst e') \<Longrightarrow> fst e' = fst e \<or> lt (fst e) (fst e')"
proof -
  note p = pick_first [OF cs j, folded e_def]
  have s: "\<forall>c \<in> set css. sorted_keys (fst c)" by (rule children_sorted [OF cs])
  have sh: "shadowed I (pick_raw lt I M) \<longleftrightarrow> (\<exists>i < j. any_covers (snd (css ! i)) (fst e))"
    using carriers p(1) by (simp add: shadowed_carriers carries_def j mi_entry_def e_def)
  have newest: "fst e \<notin> fst ` set (fst (css ! i))" if "i < j" for i
  proof
    assume "fst e \<in> fst ` set (fst (css ! i))"
    then obtain x where "x \<in> set (fst (css ! i))" "fst x = fst e" by auto
    then show False using p(4) [of i x] p(1,3) that lt_irrefl by auto
  qed
  show "e \<in> set (visible css)" if "\<not> shadowed I (pick_raw lt I M)"
    using that sh newest p(1,2) by (auto simp: visible_iff [OF s])
  show "fst e \<notin> fst ` set (visible css)" if shadow: "shadowed I (pick_raw lt I M)"
  proof
    assume "fst e \<in> fst ` set (visible css)"
    then obtain x i where x: "fst x = fst e" "i < length css" "x \<in> set (fst (css ! i))"
      "\<forall>i' < i. fst x \<notin> fst ` set (fst (css ! i')) \<and> \<not> any_covers (snd (css ! i')) (fst x)"
      by (auto simp: visible_iff [OF s])
    obtain i' where i': "i' < j" "any_covers (snd (css ! i')) (fst e)" using shadow sh by blast
    have "\<not> i < j" using newest [of i] x(1,3) by (metis image_eqI)
    then show False using x(1,4) i' by auto
  qed
  assume "e' \<in> set (visible css)" "Q (fst e')"
  then show "fst e' = fst e \<or> lt (fst e) (fst e')" using p(4) [of _ e'] by (auto simp: visible_iff [OF s])
qed

lemma step_shows:
  assumes cs: "list_all2 (\<lambda>c s. shows_at Q c (fst s)) (mi_children M) css" and j: "mi_current (pick_raw lt I M) = Some j"
  defines "k \<equiv> ii_key I (mi_children M ! j)"
  shows "list_all2 (\<lambda>c s. shows_at (\<lambda>x. Q x \<and> lt k x) c (fst s)) (mi_children (step_children I step (pick_raw lt I M))) css"
proof -
  have len: "length (mi_children M) = length css" using cs by (rule list_all2_lengthD)
  note p = pick_raw_Some [OF j]
  have "shows_at (\<lambda>x. Q x \<and> lt k x) (if i = j \<or> ii_valid I c \<and> ii_key I c = k then step c else c) (fst (css ! i))"
    if i: "i < length css" "c = mi_children M ! i" for i c
  proof -
    have sh: "shows_at Q c (fst (css ! i))" using list_all2_nthD [OF cs] i len by simp
    consider "ii_valid I c" "ii_key I c = k" | "\<not> ii_valid I c" "i \<noteq> j" | "ii_valid I c" "ii_key I c \<noteq> k" "i \<noteq> j"
      using p(2) i(2) by (auto simp: k_def)
    then show ?thesis
    proof cases
      case 1
      then show ?thesis using shows_step [OF sh] by auto
    next
      case 2
      then show ?thesis using shows_valid [OF sh] by (auto intro!: shows_cong [OF sh])
    next
      case 3
      have "lt k (ii_key I c)" using p(3) [of i] i len 3 by (auto simp: k_def)
      then have "lt k (fst e)" if "e \<in> set (fst (css ! i))" "Q (fst e)" for e
        using shows_first [OF sh that] lt_trans by (auto simp: ii_key_def)
      then show ?thesis using 3 by (auto intro!: shows_cong [OF sh])
    qed
  qed
  then show ?thesis
    using len by (simp add: step_children_def j Let_def list_all2_conv_all_nth k_def split_def nth_enumerate_eq)
qed

end

text \<open>What the merge shows for a condition on keys.\<close>

definition merge_shows ::
    "((bytes \<Rightarrow> bool) \<Rightarrow> 'it \<Rightarrow> entry list \<Rightarrow> bool) \<Rightarrow> (bytes \<Rightarrow> bytes \<Rightarrow> bool) \<Rightarrow> 'it internal_iterator \<Rightarrow> source list
     \<Rightarrow> (bytes \<Rightarrow> bool) \<Rightarrow> 'it merging_iterator \<Rightarrow> bool" where
  "merge_shows shows_at lt I css P M \<longleftrightarrow>
     carries (mi_carriers M) css \<and> mi_status_field M = Ok
     \<and> (\<exists>Q. list_all2 (\<lambda>c s. shows_at Q c (fst s)) (mi_children M) css \<and> (\<forall>e \<in> set (visible css). Q (fst e) = P (fst e)))
     \<and> pick_raw lt I M = M \<and> (mi_current M \<noteq> None \<longrightarrow> \<not> shadowed I M)"

lemma merge_shows_cong:
  assumes "merge_shows shows_at lt I css P M" and "\<forall>e \<in> set (visible css). P' (fst e) = P (fst e)"
  shows "merge_shows shows_at lt I css P' M"
proof -
  obtain Q where Q: "list_all2 (\<lambda>c s. shows_at Q c (fst s)) (mi_children M) css" "\<forall>e \<in> set (visible css). Q (fst e) = P (fst e)"
    using assms(1) by (auto simp: merge_shows_def)
  moreover have "\<forall>e \<in> set (visible css). Q (fst e) = P' (fst e)" using Q(2) assms(2) by simp
  ultimately show ?thesis using assms(1) unfolding merge_shows_def by blast
qed

context scan
begin

lemma pick_loop_shows:
  assumes "list_all2 (\<lambda>c s. shows_at Q c (fst s)) (mi_children M) css" and "carries (mi_carriers M) css" and "mi_status_field M = Ok"
  shows "\<exists>M'. pick_loop lt step I M = Some M' \<and> merge_shows shows_at lt I css Q M'"
  using assms
proof (induction "card {k \<in> fst ` (\<Union>s \<in> set css. set (fst s)). Q k}" arbitrary: Q M rule: less_induct)
  case less
  let ?M = "pick_raw lt I M"
  show ?case
  proof (cases "mi_current ?M \<noteq> None \<and> shadowed I ?M")
    case False
    then have "pick_loop lt step I M = Some ?M" by (subst pick_loop.simps) (auto simp: Let_def)
    moreover have "merge_shows shows_at lt I css Q ?M"
      using False less.prems by (auto simp: merge_shows_def pick_raw_idem)
    ultimately show ?thesis by blast
  next
    case True
    then obtain j where j: "mi_current ?M = Some j" by auto
    let ?k = "ii_key I (mi_children M ! j)" and ?M' = "step_children I step ?M"
    let ?Q = "\<lambda>x. Q x \<and> lt ?k x"
    note p = pick_first [OF less.prems(1) j] and v = pick_visible [OF less.prems(1) j less.prems(2)]
    have fewer: "card {k \<in> fst ` (\<Union>s \<in> set css. set (fst s)). ?Q k} < card {k \<in> fst ` (\<Union>s \<in> set css. set (fst s)). Q k}"
    proof (rule psubset_card_mono)
      have "?k \<in> {k \<in> fst ` (\<Union>s \<in> set css. set (fst s)). Q k}" using p(1-3) nth_mem unfolding ii_key_def by blast
      then show "{k \<in> fst ` (\<Union>s \<in> set css. set (fst s)). ?Q k} \<subset> {k \<in> fst ` (\<Union>s \<in> set css. set (fst s)). Q k}"
        using lt_irrefl by blast
    qed simp
    have fields: "mi_carriers ?M' = mi_carriers M" "mi_status_field ?M' = mi_status_field M"
      by (simp_all add: step_children_def Let_def)
    from less.hyps [OF fewer step_shows [OF less.prems(1) j]] less.prems(2,3) fields
    obtain M' where M': "pick_loop lt step I ?M' = Some M'" "merge_shows shows_at lt I css ?Q M'" by auto
    have "?Q (fst e) = Q (fst e)" if "e \<in> set (visible css)" for e
      using v(2) v(3) [OF that] True that unfolding ii_key_def by (metis image_eqI)
    then have "merge_shows shows_at lt I css Q M'" using merge_shows_cong [OF M'(2)] by blast
    moreover have "pick_loop lt step I M = Some M'" using True M'(1) by (subst pick_loop.simps) (auto simp: Let_def)
    ultimately show ?thesis by blast
  qed
qed

lemma merge_shows_sorted:
  assumes "merge_shows shows_at lt I css P M"
  shows "\<forall>c \<in> set css. sorted_keys (fst c)"
  using assms children_sorted by (auto simp: merge_shows_def)

lemma merge_shows_valid:
  assumes "merge_shows shows_at lt I css P M"
  shows "mi_valid M \<longleftrightarrow> (\<exists>e \<in> set (visible css). P (fst e))"
proof -
  obtain Q where cs: "list_all2 (\<lambda>c s. shows_at Q c (fst s)) (mi_children M) css" and Q: "\<forall>e \<in> set (visible css). Q (fst e) = P (fst e)"
    and M: "pick_raw lt I M = M" "carries (mi_carriers M) css" "mi_current M \<noteq> None \<longrightarrow> \<not> shadowed I M"
    using assms by (auto simp: merge_shows_def)
  show ?thesis
  proof (cases "mi_current M")
    case None
    have "\<not> Q (fst e)" if e: "e \<in> set (visible css)" for e
    proof -
      obtain j where j: "j < length css" "e \<in> set (fst (css ! j))"
        using e by (auto simp: visible_iff [OF merge_shows_sorted [OF assms]])
      have "j < length (mi_children M)" using j(1) cs by (simp add: list_all2_lengthD)
      then have "shows_at Q (mi_children M ! j) (fst (css ! j))" "\<not> ii_valid I (mi_children M ! j)"
        using list_all2_nthD [OF cs] pick_raw_None [of M] None M(1) by auto
      then show ?thesis using shows_valid j(2) by blast
    qed
    then show ?thesis using None Q by (simp add: mi_valid_def)
  next
    case (Some j)
    then have j: "mi_current (pick_raw lt I M) = Some j" using M(1) by simp
    have "ii_entry I (mi_children M ! j) \<in> set (visible css)" using pick_visible(1) [OF cs j M(2)] M(1,3) Some by simp
    then show ?thesis using Some Q pick_first(3) [OF cs j] by (auto simp: mi_valid_def)
  qed
qed

lemma merge_shows_entry:
  assumes "merge_shows shows_at lt I css P M" and "mi_valid M"
  shows "mi_entry I M \<in> set (visible css)" "P (fst (mi_entry I M))"
    and "e \<in> set (visible css) \<Longrightarrow> P (fst e) \<Longrightarrow> e = mi_entry I M \<or> lt (fst (mi_entry I M)) (fst e)"
proof -
  obtain Q where cs: "list_all2 (\<lambda>c s. shows_at Q c (fst s)) (mi_children M) css" and Q: "\<forall>e \<in> set (visible css). Q (fst e) = P (fst e)"
    and M: "pick_raw lt I M = M" "carries (mi_carriers M) css" "mi_current M \<noteq> None \<longrightarrow> \<not> shadowed I M"
    using assms by (auto simp: merge_shows_def)
  obtain j where Some: "mi_current M = Some j" using assms(2) by (auto simp: mi_valid_def)
  then have j: "mi_current (pick_raw lt I M) = Some j" using M(1) by simp
  note v = pick_visible [OF cs j M(2)] and p = pick_first [OF cs j]
  have e: "mi_entry I M = ii_entry I (mi_children M ! j)" by (simp add: mi_entry_def Some)
  show vis: "mi_entry I M \<in> set (visible css)" using v(1) M(1,3) Some by (simp add: e)
  then show "P (fst (mi_entry I M))" using Q p(3) by (simp add: e)
  assume x: "e \<in> set (visible css)" "P (fst e)"
  have "e = mi_entry I M" if "fst e = fst (mi_entry I M)"
    by (rule sorted_keys_unique [OF visible_sorted [OF merge_shows_sorted [OF assms(1)]] x(1) vis that])
  then show "e = mi_entry I M \<or> lt (fst (mi_entry I M)) (fst e)" using v(3) [OF x(1)] x Q e by auto
qed

lemma merge_shows_step:
  assumes "merge_shows shows_at lt I css P M" and "mi_valid M"
  shows "\<exists>M'. pick_loop lt step I (step_children I step M) = Some M'
    \<and> merge_shows shows_at lt I css (\<lambda>k. P k \<and> lt (fst (mi_entry I M)) k) M'"
proof -
  obtain Q where cs: "list_all2 (\<lambda>c s. shows_at Q c (fst s)) (mi_children M) css" and Q: "\<forall>e \<in> set (visible css). Q (fst e) = P (fst e)"
    and M: "pick_raw lt I M = M" "carries (mi_carriers M) css" "mi_status_field M = Ok"
    using assms by (auto simp: merge_shows_def)
  obtain j where Some: "mi_current M = Some j" using assms(2) by (auto simp: mi_valid_def)
  then have j: "mi_current (pick_raw lt I M) = Some j" using M(1) by simp
  let ?M' = "step_children I step M"
  have "carries (mi_carriers ?M') css" "mi_status_field ?M' = Ok" using M by (simp_all add: step_children_def Let_def)
  from pick_loop_shows [OF step_shows [OF cs j, unfolded M(1)] this]
  obtain M' where "pick_loop lt step I ?M' = Some M'" "merge_shows shows_at lt I css (\<lambda>x. Q x \<and> lt (ii_key I (mi_children M ! j)) x) M'"
    by blast
  moreover have "ii_key I (mi_children M ! j) = fst (mi_entry I M)" by (simp add: mi_entry_def ii_key_def Some)
  ultimately show ?thesis using Q merge_shows_cong [of shows_at lt I css _ M' "\<lambda>k. P k \<and> lt (fst (mi_entry I M)) k"] by auto
qed

end

section \<open>Positions and conditions\<close>

text \<open>
  The position of the first entry that meets a condition, and of the last; and when the entries that
  meet it are the last ones of the list, or the first.
\<close>

definition cut_pos :: "entry list \<Rightarrow> (bytes \<Rightarrow> bool) \<Rightarrow> nat" where
  "cut_pos es P = length (takeWhile (\<lambda>e. \<not> P (fst e)) es)"

definition back_pos :: "entry list \<Rightarrow> (bytes \<Rightarrow> bool) \<Rightarrow> nat" where
  "back_pos es P = (let n = length (takeWhile (\<lambda>e. P (fst e)) es) in if n = 0 then length es else n - 1)"

definition upward :: "entry list \<Rightarrow> (bytes \<Rightarrow> bool) \<Rightarrow> bool" where
  "upward es P \<longleftrightarrow> (\<forall>x \<in> set es. \<forall>y \<in> set es. fst x \<le> fst y \<longrightarrow> P (fst x) \<longrightarrow> P (fst y))"

definition downward :: "entry list \<Rightarrow> (bytes \<Rightarrow> bool) \<Rightarrow> bool" where
  "downward es P \<longleftrightarrow> (\<forall>x \<in> set es. \<forall>y \<in> set es. fst x \<le> fst y \<longrightarrow> P (fst y) \<longrightarrow> P (fst x))"

lemma sorted_keys_le: "sorted_keys es \<Longrightarrow> i \<le> j \<Longrightarrow> j < length es \<Longrightarrow> fst (es ! i) \<le> fst (es ! j)"
  using sorted_keys_nth [of es i j] by (cases "i = j") auto

lemma upward_suffix:
  assumes "sorted_keys es" and "upward es P"
  shows "i < length es \<Longrightarrow> P (fst (es ! i)) \<longleftrightarrow> cut_pos es P \<le> i"
proof -
  assume i: "i < length es"
  show ?thesis
  proof
    assume "P (fst (es ! i))"
    show "cut_pos es P \<le> i"
    proof (rule ccontr)
      assume "\<not> cut_pos es P \<le> i"
      then have "es ! i \<in> set (takeWhile (\<lambda>e. \<not> P (fst e)) es)"
        unfolding cut_pos_def by (metis not_le nth_mem takeWhile_nth)
      then show False using \<open>P (fst (es ! i))\<close> by (auto dest: set_takeWhileD)
    qed
  next
    assume le: "cut_pos es P \<le> i"
    then have "cut_pos es P < length es" using i by simp
    then have "P (fst (es ! cut_pos es P))" unfolding cut_pos_def using nth_length_takeWhile by fastforce
    moreover have "fst (es ! cut_pos es P) \<le> fst (es ! i)" by (rule sorted_keys_le [OF assms(1) le i])
    ultimately show "P (fst (es ! i))" using assms(2) i le unfolding upward_def by (meson le_less_trans nth_mem)
  qed
qed

lemma cut_pos_le: "cut_pos es P \<le> length es"
  by (simp add: cut_pos_def length_takeWhile_le)

lemma cut_pos_unique:
  assumes "p \<le> length es" and "\<And>i. i < length es \<Longrightarrow> P (fst (es ! i)) \<longleftrightarrow> p \<le> i"
  shows "cut_pos es P = p"
proof -
  have "takeWhile (\<lambda>e. \<not> P (fst e)) es = take p es"
    using assms by (intro takeWhile_eq_take_P_nth) auto
  then show ?thesis using assms(1) by (simp add: cut_pos_def)
qed

lemma downward_prefix:
  assumes "sorted_keys es" and "downward es P"
  shows "i < length es \<Longrightarrow> P (fst (es ! i)) \<longleftrightarrow> i < length (takeWhile (\<lambda>e. P (fst e)) es)"
proof -
  have "partitioned (\<lambda>e. P (fst e)) es"
    unfolding partitioned_def using assms(2) sorted_keys_le [OF assms(1)] unfolding downward_def
    by (meson less_imp_le_nat less_trans nth_mem)
  then show "i < length es \<Longrightarrow> ?thesis" by (rule partitioned_takeWhile_nth)
qed

lemma back_pos_unique:
  assumes "n \<le> length es" and "\<And>i. i < length es \<Longrightarrow> P (fst (es ! i)) \<longleftrightarrow> i < n"
  shows "back_pos es P = (if n = 0 then length es else n - 1)"
proof -
  have "takeWhile (\<lambda>e. P (fst e)) es = take n es" using assms by (intro takeWhile_eq_take_P_nth) auto
  then show ?thesis using assms(1) by (simp add: back_pos_def)
qed

lemma positions:
  "cut_pos es (\<lambda>_. True) = 0" "cut_pos es (\<lambda>k. t \<le> k) = lower_pos es t"
  "back_pos es (\<lambda>_. True) = length es - 1" "back_pos es (\<lambda>k. k \<le> t) = floor_pos es t"
  by (simp_all add: cut_pos_def lower_pos_def back_pos_def floor_pos_def Let_def not_le takeWhile_eq_Nil_iff takeWhile_eq_all_conv [THEN iffD2])

section \<open>Both directions of a cursor\<close>

definition forward_shows :: "('it \<Rightarrow> entry list \<Rightarrow> nat \<Rightarrow> bool) \<Rightarrow> (bytes \<Rightarrow> bool) \<Rightarrow> 'it \<Rightarrow> entry list \<Rightarrow> bool" where
  "forward_shows rep P c es \<longleftrightarrow> rep c es (cut_pos es P) \<and> upward es P"

definition backward_shows :: "('it \<Rightarrow> entry list \<Rightarrow> nat \<Rightarrow> bool) \<Rightarrow> (bytes \<Rightarrow> bool) \<Rightarrow> 'it \<Rightarrow> entry list \<Rightarrow> bool" where
  "backward_shows rep P c es \<longleftrightarrow> rep c es (back_pos es P) \<and> downward es P"

locale backward_cursor =
  fixes rep :: "'it \<Rightarrow> entry list \<Rightarrow> nat \<Rightarrow> bool"
    and valid :: "'it \<Rightarrow> bool"
    and entry_of :: "'it \<Rightarrow> entry"
    and ok :: "'it \<Rightarrow> bool"
    and seek_to_last :: "'it \<Rightarrow> 'it"
    and seek_for_prev :: "'it \<Rightarrow> bytes \<Rightarrow> 'it"
    and prev_it :: "'it \<Rightarrow> 'it"
  assumes back_sorted: "rep it es i \<Longrightarrow> sorted_keys es"
    and back_bound: "rep it es i \<Longrightarrow> i \<le> length es"
    and back_valid: "rep it es i \<Longrightarrow> valid it \<longleftrightarrow> i < length es"
    and back_ok: "rep it es i \<Longrightarrow> ok it"
    and back_entry: "rep it es i \<Longrightarrow> i < length es \<Longrightarrow> entry_of it = es ! i"
    and back_last: "rep it es i \<Longrightarrow> rep (seek_to_last it) es (length es - 1)"
    and back_seek_for_prev: "rep it es i \<Longrightarrow> rep (seek_for_prev it t) es (floor_pos es t)"
    and back_prev: "rep it es i \<Longrightarrow> i < length es \<Longrightarrow> rep (prev_it it) es (if i = 0 then length es else i - 1)"

sublocale cursor \<subseteq> backward_cursor rep valid entry_of ok seek_to_last seek_for_prev prev_it
  by unfold_locales
     (simp_all add: rep_sorted rep_bound rep_valid rep_ok rep_entry rep_last [unfolded One_nat_def] rep_seek_for_prev rep_prev)

locale iterators =
  cursor rep "ii_valid I" "ii_entry I" "\<lambda>it. ii_status I it = Ok" "ii_seek_to_first I" "ii_seek I" "ii_next I"
    "ii_seek_to_last I" "ii_seek_for_prev I" "ii_prev I"
  for I :: "'it internal_iterator" and rep :: "'it \<Rightarrow> entry list \<Rightarrow> nat \<Rightarrow> bool"

lemma upward_cong: "\<forall>e \<in> set es. P' (fst e) = P (fst e) \<Longrightarrow> upward es P' = upward es P \<and> cut_pos es P' = cut_pos es P"
  by (auto simp: upward_def cut_pos_def cong: takeWhile_cong)

lemma downward_cong: "\<forall>e \<in> set es. P' (fst e) = P (fst e) \<Longrightarrow> downward es P' = downward es P \<and> back_pos es P' = back_pos es P"
  by (auto simp: downward_def back_pos_def Let_def cong: takeWhile_cong)

lemma upward_next:
  assumes s: "sorted_keys es" and u: "upward es P" and i: "cut_pos es P < length es"
  defines "k \<equiv> fst (es ! cut_pos es P)"
  shows "upward es (\<lambda>x. P x \<and> k < x)" "cut_pos es (\<lambda>x. P x \<and> k < x) = Suc (cut_pos es P)"
proof -
  show "upward es (\<lambda>x. P x \<and> k < x)" using u by (fastforce simp: upward_def)
  show "cut_pos es (\<lambda>x. P x \<and> k < x) = Suc (cut_pos es P)"
    using i upward_suffix [OF s u] sorted_keys_nth_iff [OF s i] by (intro cut_pos_unique) (auto simp: k_def)
qed

lemma downward_next:
  assumes s: "sorted_keys es" and u: "downward es P" and i: "back_pos es P < length es"
  defines "k \<equiv> fst (es ! back_pos es P)"
  shows "downward es (\<lambda>x. P x \<and> x < k)" "back_pos es (\<lambda>x. P x \<and> x < k) = (if back_pos es P = 0 then length es else back_pos es P - 1)"
proof -
  show "downward es (\<lambda>x. P x \<and> x < k)" using u by (fastforce simp: downward_def)
  have n: "length (takeWhile (\<lambda>e. P (fst e)) es) = Suc (back_pos es P)"
    using i by (auto simp: back_pos_def Let_def split: if_splits)
  have "P (fst (es ! j)) \<and> fst (es ! j) < k \<longleftrightarrow> j < back_pos es P" if j: "j < length es" for j
    using downward_prefix [OF s u j] sorted_keys_nth_iff [OF s j i] n by (auto simp: k_def)
  then show "back_pos es (\<lambda>x. P x \<and> x < k) = (if back_pos es P = 0 then length es else back_pos es P - 1)"
    using i by (intro back_pos_unique) auto
qed

context iterators
begin

lemma forward_first:
  assumes "forward_shows rep P c es"
  shows "ii_valid I c \<longleftrightarrow> (\<exists>e \<in> set es. P (fst e))"
    and "ii_valid I c \<Longrightarrow> ii_entry I c \<in> set es \<and> P (ii_key I c)"
    and "e \<in> set es \<Longrightarrow> P (fst e) \<Longrightarrow> e = ii_entry I c \<or> ii_key I c < fst e"
    and "ii_valid I c \<Longrightarrow> forward_shows rep (\<lambda>k. P k \<and> ii_key I c < k) (ii_next I c) es"
proof -
  let ?p = "cut_pos es P"
  have r: "rep c es ?p" and u: "upward es P" using assms by (simp_all add: forward_shows_def)
  have s: "sorted_keys es" using r by (rule rep_sorted)
  note suffix = upward_suffix [OF s u]
  show valid: "ii_valid I c \<longleftrightarrow> (\<exists>e \<in> set es. P (fst e))"
    unfolding rep_valid [OF r]
  proof
    assume "?p < length es"
    then show "\<exists>e \<in> set es. P (fst e)" using suffix by (intro bexI [of _ "es ! ?p"]) auto
  next
    assume "\<exists>e \<in> set es. P (fst e)"
    then obtain i where "i < length es" "P (fst (es ! i))" by (auto simp: in_set_conv_nth)
    then show "?p < length es" using suffix [of i] by simp
  qed
  show "ii_entry I c \<in> set es \<and> P (ii_key I c)" if "ii_valid I c"
    using that rep_valid [OF r] rep_entry [OF r] suffix by (simp add: ii_key_def)
  show "e = ii_entry I c \<or> ii_key I c < fst e" if e: "e \<in> set es" "P (fst e)"
  proof -
    obtain i where i: "i < length es" "e = es ! i" using e(1) by (auto simp: in_set_conv_nth)
    then have "?p \<le> i" using suffix e(2) by auto
    moreover have "ii_entry I c = es ! ?p" using rep_entry [OF r] \<open>?p \<le> i\<close> i(1) by simp
    ultimately show ?thesis using sorted_keys_nth [OF s, of ?p i] i by (cases "?p = i") (auto simp: ii_key_def)
  qed
  show "forward_shows rep (\<lambda>k. P k \<and> ii_key I c < k) (ii_next I c) es" if "ii_valid I c"
    using that rep_valid [OF r] rep_entry [OF r] rep_next [OF r] upward_next [OF s u] by (simp add: forward_shows_def ii_key_def)
qed

lemma backward_first:
  assumes "backward_shows rep P c es"
  shows "ii_valid I c \<longleftrightarrow> (\<exists>e \<in> set es. P (fst e))"
    and "ii_valid I c \<Longrightarrow> ii_entry I c \<in> set es \<and> P (ii_key I c)"
    and "e \<in> set es \<Longrightarrow> P (fst e) \<Longrightarrow> e = ii_entry I c \<or> fst e < ii_key I c"
    and "ii_valid I c \<Longrightarrow> backward_shows rep (\<lambda>k. P k \<and> k < ii_key I c) (ii_prev I c) es"
proof -
  let ?p = "back_pos es P" and ?n = "length (takeWhile (\<lambda>e. P (fst e)) es)"
  have r: "rep c es ?p" and u: "downward es P" using assms by (simp_all add: backward_shows_def)
  have s: "sorted_keys es" using r by (rule rep_sorted)
  note prefix = downward_prefix [OF s u]
  have n: "?n \<le> length es" by (rule length_takeWhile_le)
  have p: "?p < length es \<longleftrightarrow> ?n \<noteq> 0" "?n \<noteq> 0 \<Longrightarrow> ?n = Suc ?p" using n by (cases ?n; simp add: back_pos_def Let_def)+
  show valid: "ii_valid I c \<longleftrightarrow> (\<exists>e \<in> set es. P (fst e))"
    unfolding rep_valid [OF r]
  proof
    assume "?p < length es"
    then show "\<exists>e \<in> set es. P (fst e)" using prefix p by (intro bexI [of _ "es ! ?p"]) auto
  next
    assume "\<exists>e \<in> set es. P (fst e)"
    then obtain i where "i < length es" "P (fst (es ! i))" by (auto simp: in_set_conv_nth)
    then show "?p < length es" using prefix [of i] p(1) by auto
  qed
  show "ii_entry I c \<in> set es \<and> P (ii_key I c)" if "ii_valid I c"
    using that rep_valid [OF r] rep_entry [OF r] prefix p by (simp add: ii_key_def)
  show "e = ii_entry I c \<or> fst e < ii_key I c" if e: "e \<in> set es" "P (fst e)"
  proof -
    obtain i where i: "i < length es" "e = es ! i" using e(1) by (auto simp: in_set_conv_nth)
    then have "i < ?n" using prefix e(2) by auto
    then have "i \<le> ?p" "?p < length es" using p by auto
    moreover have "ii_entry I c = es ! ?p" using rep_entry [OF r] \<open>?p < length es\<close> by simp
    ultimately show ?thesis using sorted_keys_nth [OF s, of i ?p] i by (cases "?p = i") (auto simp: ii_key_def)
  qed
  show "backward_shows rep (\<lambda>k. P k \<and> k < ii_key I c) (ii_prev I c) es" if "ii_valid I c"
    using that rep_valid [OF r] rep_entry [OF r] rep_prev [OF r] downward_next [OF s u] by (simp add: backward_shows_def ii_key_def)
qed

end

sublocale iterators \<subseteq> forward: scan I "(<)" "ii_next I" "forward_shows rep"
proof unfold_locales
  fix P P' c es
  assume r: "forward_shows rep P c es"
  show "sorted_keys es" using r rep_sorted by (auto simp: forward_shows_def)
  show "forward_shows rep P' c es" if "\<forall>e \<in> set es. P' (fst e) = P (fst e)"
    using r upward_cong [OF that] by (simp add: forward_shows_def)
qed (auto simp: forward_first dest: forward_first(3,4))

sublocale iterators \<subseteq> backward: scan I "(>)" "ii_prev I" "backward_shows rep"
proof unfold_locales
  fix P P' c es
  assume r: "backward_shows rep P c es"
  show "sorted_keys es" using r rep_sorted by (auto simp: backward_shows_def)
  show "backward_shows rep P' c es" if "\<forall>e \<in> set es. P' (fst e) = P (fst e)"
    using r downward_cong [OF that] by (simp add: backward_shows_def)
qed (auto simp: backward_first dest: backward_first(3,4))

section \<open>The merge is a cursor over what is visible\<close>

text \<open>A merge whose children stand for the sources of a stack, wherever they are.\<close>

definition merge_ready :: "('it \<Rightarrow> entry list \<Rightarrow> nat \<Rightarrow> bool) \<Rightarrow> source list \<Rightarrow> 'it merging_iterator \<Rightarrow> bool" where
  "merge_ready rep css M \<longleftrightarrow>
     carries (mi_carriers M) css \<and> mi_status_field M = Ok \<and> list_all2 (\<lambda>c s. \<exists>p. rep c (fst s) p) (mi_children M) css"

definition merging_forward ::
    "('it \<Rightarrow> entry list \<Rightarrow> nat \<Rightarrow> bool) \<Rightarrow> 'it internal_iterator \<Rightarrow> 'it merging_iterator \<Rightarrow> entry list \<Rightarrow> nat \<Rightarrow> bool" where
  "merging_forward rep I M es i \<longleftrightarrow>
     (\<exists>css P. es = visible css \<and> merge_shows (forward_shows rep) (<) I css P M \<and> upward es P \<and> i = cut_pos es P)"

definition merging_backward ::
    "('it \<Rightarrow> entry list \<Rightarrow> nat \<Rightarrow> bool) \<Rightarrow> 'it internal_iterator \<Rightarrow> 'it merging_iterator \<Rightarrow> entry list \<Rightarrow> nat \<Rightarrow> bool" where
  "merging_backward rep I M es i \<longleftrightarrow>
     (\<exists>css P. es = visible css \<and> merge_shows (backward_shows rep) (>) I css P M \<and> downward es P \<and> i = back_pos es P)"

lemma MergingIterator_ready:
  assumes "list_all2 (\<lambda>c s. \<exists>p. rep c (fst s) p) children css" and "map snd css = child_ranges @ replicate n []"
    and "\<forall>ranges \<in> set child_ranges. sorted_disjoint ranges"
  shows "merge_ready rep css (MergingIterator children child_ranges)"
proof -
  have snd: "snd (css ! i) = (if i < length child_ranges then child_ranges ! i else [])" if "i < length css" for i
  proof -
    have "snd (css ! i) = (child_ranges @ replicate n []) ! i" using that assms(2) nth_map [of i css snd] by simp
    moreover have "length css = length child_ranges + n" using arg_cong [OF assms(2), of length] by simp
    ultimately show ?thesis using that by (simp add: nth_append)
  qed
  have "(\<exists>i < length child_ranges. i < j \<and> any_covers (child_ranges ! i) k) \<longleftrightarrow> (\<exists>i < j. any_covers (snd (css ! i)) k)"
    if "j < length css" for j k
    using snd that by (auto split: if_splits)
  then show ?thesis
    using assms(1) shadowed_by_enumerate [OF assms(3), of 0] by (simp add: merge_ready_def MergingIterator_def carries_def)
qed

context iterators
begin

lemma shows_ready:
  "merge_shows (forward_shows rep) (<) I css P M \<Longrightarrow> merge_ready rep css M"
  "merge_shows (backward_shows rep) (>) I css P M \<Longrightarrow> merge_ready rep css M"
  by (auto simp: merge_shows_def merge_ready_def forward_shows_def backward_shows_def elim!: list_all2_mono)

lemma ready_status: "merge_ready rep css M \<Longrightarrow> mi_status I M = Ok"
  using rep_ok by (auto simp: mi_status_def merge_ready_def list_all2_conv_all_nth in_set_conv_nth find_Some_iff split: option.splits)

lemma seek_forward:
  assumes M: "merge_ready rep css M" and up: "\<And>es. upward es P" and f: "\<And>c es p. rep c es p \<Longrightarrow> rep (f c) es (cut_pos es P)"
  shows "\<exists>M'. pick_smallest I (M\<lparr> mi_children := map f (mi_children M) \<rparr>) = Some M'
    \<and> merging_forward rep I M' (visible css) (cut_pos (visible css) P)"
proof -
  let ?M = "M\<lparr> mi_children := map f (mi_children M) \<rparr>"
  have "list_all2 (\<lambda>c s. forward_shows rep P c (fst s)) (mi_children ?M) css"
    using M f up by (auto simp: merge_ready_def forward_shows_def list_all2_map1 elim!: list_all2_mono)
  from forward.pick_loop_shows [OF this] M up show ?thesis
    unfolding pick_smallest_def merging_forward_def merge_ready_def by fastforce
qed

lemma seek_backward:
  assumes M: "merge_ready rep css M" and down: "\<And>es. downward es P" and f: "\<And>c es p. rep c es p \<Longrightarrow> rep (f c) es (back_pos es P)"
  shows "\<exists>M'. pick_largest I (M\<lparr> mi_children := map f (mi_children M) \<rparr>) = Some M'
    \<and> merging_backward rep I M' (visible css) (back_pos (visible css) P)"
proof -
  let ?M = "M\<lparr> mi_children := map f (mi_children M) \<rparr>"
  have "list_all2 (\<lambda>c s. backward_shows rep P c (fst s)) (mi_children ?M) css"
    using M f down by (auto simp: merge_ready_def backward_shows_def list_all2_map1 elim!: list_all2_mono)
  from backward.pick_loop_shows [OF this] M down show ?thesis
    unfolding pick_largest_def merging_backward_def merge_ready_def by fastforce
qed

lemma merging_seeks:
  assumes "merge_ready rep css M"
  shows "\<exists>M'. mi_seek_to_first I M = Some M' \<and> merging_forward rep I M' (visible css) 0"
    and "\<exists>M'. mi_seek I M t = Some M' \<and> merging_forward rep I M' (visible css) (lower_pos (visible css) t)"
    and "\<exists>M'. mi_seek_to_last I M = Some M' \<and> merging_backward rep I M' (visible css) (length (visible css) - 1)"
    and "\<exists>M'. mi_seek_for_prev I M t = Some M' \<and> merging_backward rep I M' (visible css) (floor_pos (visible css) t)"
proof -
  show "\<exists>M'. mi_seek_to_first I M = Some M' \<and> merging_forward rep I M' (visible css) 0"
    unfolding mi_seek_to_first_def positions(1) [symmetric, of "visible css"]
    by (rule seek_forward [OF assms]) (auto simp: upward_def positions rep_first)
  show "\<exists>M'. mi_seek I M t = Some M' \<and> merging_forward rep I M' (visible css) (lower_pos (visible css) t)"
    unfolding mi_seek_def positions(2) [symmetric]
    by (rule seek_forward [OF assms]) (auto simp: upward_def positions rep_seek)
  show "\<exists>M'. mi_seek_to_last I M = Some M' \<and> merging_backward rep I M' (visible css) (length (visible css) - 1)"
    unfolding mi_seek_to_last_def positions(3) [symmetric]
    by (rule seek_backward [OF assms]) (auto simp: downward_def positions rep_last [unfolded One_nat_def])
  show "\<exists>M'. mi_seek_for_prev I M t = Some M' \<and> merging_backward rep I M' (visible css) (floor_pos (visible css) t)"
    unfolding mi_seek_for_prev_def positions(4) [symmetric]
    by (rule seek_backward [OF assms]) (auto simp: downward_def positions rep_seek_for_prev)
qed

lemma merging_forward_step:
  assumes "merging_forward rep I M es i"
  shows "sorted_keys es" "i \<le> length es" "mi_valid M \<longleftrightarrow> i < length es" "\<exists>css. es = visible css \<and> merge_ready rep css M"
    and "i < length es \<Longrightarrow> mi_entry I M = es ! i"
    and "i < length es \<Longrightarrow> \<exists>M'. mi_next I M = Some M' \<and> merging_forward rep I M' es (Suc i)"
proof -
  obtain css P where es: "es = visible css" and sh: "merge_shows (forward_shows rep) (<) I css P M"
    and u: "upward es P" and i: "i = cut_pos es P"
    using assms by (auto simp: merging_forward_def)
  show s: "sorted_keys es" unfolding es by (rule visible_sorted [OF forward.merge_shows_sorted [OF sh]])
  show "i \<le> length es" by (simp add: i cut_pos_le)
  show "\<exists>css. es = visible css \<and> merge_ready rep css M" using es shows_ready(1) [OF sh] by blast
  note suffix = upward_suffix [OF s u]
  have "i < length es" if "e \<in> set es" "P (fst e)" for e
  proof -
    obtain j where "j < length es" "e = es ! j" using \<open>e \<in> set es\<close> by (auto simp: in_set_conv_nth)
    then show ?thesis using suffix [of j] that(2) i by simp
  qed
  moreover have "P (fst (es ! i))" if "i < length es" using suffix [OF that] i by simp
  ultimately show valid: "mi_valid M \<longleftrightarrow> i < length es" unfolding forward.merge_shows_valid [OF sh] es [symmetric] by (blast intro: nth_mem)
  assume lt: "i < length es"
  then have v: "mi_valid M" using valid by simp
  note e = forward.merge_shows_entry [OF sh v, folded es]
  have "P (fst (es ! i))" using suffix [OF lt] i by simp
  then have "es ! i = mi_entry I M \<or> fst (mi_entry I M) < fst (es ! i)" using e(3) lt by simp
  moreover obtain j where j: "j < length es" "mi_entry I M = es ! j" using e(1) by (auto simp: in_set_conv_nth)
  moreover have "i \<le> j" using suffix [OF j(1)] e(2) j(2) i by simp
  ultimately show entry: "mi_entry I M = es ! i" using sorted_keys_le [OF s, of i j] by auto
  obtain M' where loop: "pick_loop (<) (ii_next I) I (step_children I (ii_next I) M) = Some M'"
    and sh': "merge_shows (forward_shows rep) (<) I css (\<lambda>k. P k \<and> fst (mi_entry I M) < k) M'"
    using forward.merge_shows_step [OF sh v] by blast
  have current: "mi_current M \<noteq> None" using v by (simp add: mi_valid_def)
  have "merging_forward rep I M' es (Suc i)"
    unfolding merging_forward_def
    by (rule exI [of _ css], rule exI [of _ "\<lambda>k. P k \<and> fst (mi_entry I M) < k"]) (use upward_next [OF s u] lt sh' in \<open>simp add: entry i es\<close>)
  with loop current show "\<exists>M'. mi_next I M = Some M' \<and> merging_forward rep I M' es (Suc i)"
    unfolding mi_next_def step_forward_def pick_smallest_def by auto
qed

lemma merging_backward_step:
  assumes "merging_backward rep I M es i"
  shows "sorted_keys es" "i \<le> length es" "mi_valid M \<longleftrightarrow> i < length es" "\<exists>css. es = visible css \<and> merge_ready rep css M"
    and "i < length es \<Longrightarrow> mi_entry I M = es ! i"
    and "i < length es \<Longrightarrow> \<exists>M'. mi_prev I M = Some M' \<and> merging_backward rep I M' es (if i = 0 then length es else i - 1)"
proof -
  obtain css P where es: "es = visible css" and sh: "merge_shows (backward_shows rep) (>) I css P M"
    and u: "downward es P" and i: "i = back_pos es P"
    using assms by (auto simp: merging_backward_def)
  let ?n = "length (takeWhile (\<lambda>e. P (fst e)) es)"
  show s: "sorted_keys es" unfolding es by (rule visible_sorted [OF backward.merge_shows_sorted [OF sh]])
  have n: "?n \<le> length es" by (rule length_takeWhile_le)
  then show "i \<le> length es" by (auto simp: i back_pos_def Let_def)
  show "\<exists>css. es = visible css \<and> merge_ready rep css M" using es shows_ready(2) [OF sh] by blast
  note prefix = downward_prefix [OF s u]
  have p: "i < length es \<longleftrightarrow> ?n \<noteq> 0" "?n \<noteq> 0 \<Longrightarrow> ?n = Suc i" using n by (cases ?n; simp add: i back_pos_def Let_def)+
  have "i < length es" if "e \<in> set es" "P (fst e)" for e
  proof -
    obtain j where "j < length es" "e = es ! j" using \<open>e \<in> set es\<close> by (auto simp: in_set_conv_nth)
    then show ?thesis using prefix that(2) p(1) by auto
  qed
  moreover have "P (fst (es ! i))" if "i < length es" using prefix [OF that] p that by simp
  ultimately show valid: "mi_valid M \<longleftrightarrow> i < length es" unfolding backward.merge_shows_valid [OF sh] es [symmetric] by (blast intro: nth_mem)
  assume lt: "i < length es"
  then have v: "mi_valid M" using valid by simp
  note e = backward.merge_shows_entry [OF sh v, folded es]
  have "P (fst (es ! i))" using prefix [OF lt] p lt by simp
  then have "es ! i = mi_entry I M \<or> fst (es ! i) < fst (mi_entry I M)" using e(3) lt by simp
  moreover obtain j where j: "j < length es" "mi_entry I M = es ! j" using e(1) by (auto simp: in_set_conv_nth)
  moreover have "j \<le> i" using prefix [OF j(1)] e(2) j(2) p lt by simp
  ultimately show entry: "mi_entry I M = es ! i" using sorted_keys_le [OF s, of j i] lt by auto
  obtain M' where loop: "pick_loop (>) (ii_prev I) I (step_children I (ii_prev I) M) = Some M'"
    and sh': "merge_shows (backward_shows rep) (>) I css (\<lambda>k. P k \<and> fst (mi_entry I M) > k) M'"
    using backward.merge_shows_step [OF sh v] by blast
  have current: "mi_current M \<noteq> None" using v by (simp add: mi_valid_def)
  have "merging_backward rep I M' es (if i = 0 then length es else i - 1)"
    unfolding merging_backward_def
    by (rule exI [of _ css], rule exI [of _ "\<lambda>k. P k \<and> fst (mi_entry I M) > k"]) (use downward_next [OF s u] lt sh' in \<open>simp add: entry i es\<close>)
  with loop current show "\<exists>M'. mi_prev I M = Some M' \<and> merging_backward rep I M' es (if i = 0 then length es else i - 1)"
    unfolding mi_prev_def step_backward_def pick_largest_def by auto
qed

end

sublocale iterators \<subseteq> merged: forward_cursor "merging_forward rep I" mi_valid "mi_entry I" "\<lambda>M. mi_status I M = Ok"
  "\<lambda>M. the (mi_seek_to_first I M)" "\<lambda>M t. the (mi_seek I M t)" "\<lambda>M. the (mi_next I M)"
proof unfold_locales
  fix M es i t
  assume r: "merging_forward rep I M es i"
  note step = merging_forward_step [OF r]
  obtain css where css: "es = visible css" "merge_ready rep css M" using step(4) by blast
  show "sorted_keys es" "i \<le> length es" "mi_valid M = (i < length es)" by (fact step)+
  show "mi_status I M = Ok" by (rule ready_status [OF css(2)])
  show "merging_forward rep I (the (mi_seek_to_first I M)) es 0" using merging_seeks(1) [OF css(2)] css(1) by auto
  show "merging_forward rep I (the (mi_seek I M t)) es (lower_pos es t)" using merging_seeks(2) [OF css(2), of t] css(1) by auto
  assume lt: "i < length es"
  show "mi_entry I M = es ! i" by (rule step(5) [OF lt])
  show "merging_forward rep I (the (mi_next I M)) es (Suc i)" using step(6) [OF lt] by auto
qed

sublocale iterators \<subseteq> merged_back: backward_cursor "merging_backward rep I" mi_valid "mi_entry I" "\<lambda>M. mi_status I M = Ok"
  "\<lambda>M. the (mi_seek_to_last I M)" "\<lambda>M t. the (mi_seek_for_prev I M t)" "\<lambda>M. the (mi_prev I M)"
proof unfold_locales
  fix M es i t
  assume r: "merging_backward rep I M es i"
  note step = merging_backward_step [OF r]
  obtain css where css: "es = visible css" "merge_ready rep css M" using step(4) by blast
  show "sorted_keys es" "i \<le> length es" "mi_valid M = (i < length es)" by (fact step)+
  show "mi_status I M = Ok" by (rule ready_status [OF css(2)])
  show "merging_backward rep I (the (mi_seek_to_last I M)) es (length es - 1)" using merging_seeks(3) [OF css(2)] css(1) by auto
  show "merging_backward rep I (the (mi_seek_for_prev I M t)) es (floor_pos es t)" using merging_seeks(4) [OF css(2), of t] css(1) by auto
  assume lt: "i < length es"
  show "mi_entry I M = es ! i" by (rule step(5) [OF lt])
  show "merging_backward rep I (the (mi_prev I M)) es (if i = 0 then length es else i - 1)" using step(6) [OF lt] by auto
qed

end
