(* ===== verification/Checksum.thy ===== *)
theory Checksum
  imports Format
begin

text \<open>
  The checksum and the hash of the engine: src/sst/crc32c.cpp and src/sst/xxhash.hpp.

  The table-driven loop \<open>crc32c_table\<close> and the loops \<open>crc32c_hardware\<close> over the instructions of x86 and
  ARM processors are shown equal to the bit-serial division they compute, so \<open>crc32c\<close> does not depend
  on the processor it runs on. From the bit-serial form follow the two facts the file formats rely on: a message followed
  by its own checksum leaves the register at one fixed residue, and no change confined to four
  consecutive bytes of such a message leaves it there.
\<close>

section \<open>CRC-32C\<close>

definition kPolynomial :: u32 where "kPolynomial = 0x82F63B78"

definition crc_bit :: "u32 \<Rightarrow> u32" where
  "crc_bit crc = (if crc AND 1 \<noteq> 0 then drop_bit 1 crc XOR kPolynomial else drop_bit 1 crc)"

definition make_table :: "u32 list" where
  "make_table = map (\<lambda>i. (crc_bit ^^ 8) (of_nat i)) [0..<256]"

definition crc32c_table :: "bytes \<Rightarrow> u32 \<Rightarrow> u32" where
  "crc32c_table data crc =
     fold (\<lambda>b crc. make_table ! unat ((crc XOR ucast b) AND 0xFF) XOR drop_bit 8 crc) data crc"

text \<open>
  The instructions of the processors are arguments. An x86 build has \<open>_mm_crc32_u64\<close> and \<open>_mm_crc32_u8\<close>, an
  ARM build \<open>crc32cx\<close> and \<open>crc32cb\<close>, whose byte is in a 32-bit register; other builds have neither. The
  conversions between the widths are those of the source.
\<close>

datatype crc_target =
    X86_64 "u64 \<Rightarrow> u64 \<Rightarrow> u64" "u32 \<Rightarrow> byte \<Rightarrow> u32"
  | AArch64 "u32 \<Rightarrow> u64 \<Rightarrow> u32" "u32 \<Rightarrow> u32 \<Rightarrow> u32"
  | Other_target

fun have_hardware :: "crc_target \<Rightarrow> bool \<Rightarrow> bool" where
  "have_hardware Other_target detected = False"
| "have_hardware _ detected = detected"

fun crc_words :: "(u32 \<Rightarrow> u64 \<Rightarrow> u32) \<Rightarrow> (u32 \<Rightarrow> byte \<Rightarrow> u32) \<Rightarrow> nat \<Rightarrow> bytes \<Rightarrow> u32 \<Rightarrow> u32" where
  "crc_words word8 word1 0 data crc = fold (\<lambda>b crc. word1 crc b) data crc"
| "crc_words word8 word1 (Suc n) data crc =
     crc_words word8 word1 n (drop 8 data) (word8 crc (decode_fixed64 (take 8 data)))"

definition crc32c_hardware :: "crc_target \<Rightarrow> bytes \<Rightarrow> u32 \<Rightarrow> u32" where
  "crc32c_hardware target data crc =
     (case target of
        X86_64 mm_crc32_u64 mm_crc32_u8 \<Rightarrow>
          crc_words (\<lambda>crc chunk. ucast (mm_crc32_u64 (ucast crc) chunk)) mm_crc32_u8 (length data div 8) data crc
      | AArch64 crc32cx crc32cb \<Rightarrow>
          crc_words crc32cx (\<lambda>crc b. crc32cb crc (ucast b)) (length data div 8) data crc
      | Other_target \<Rightarrow> crc32c_table data crc)"

definition crc32c :: "crc_target \<Rightarrow> bool \<Rightarrow> bytes \<Rightarrow> u32 \<Rightarrow> u32" where
  "crc32c target detected data seed =
     (let crc = seed XOR 0xFFFFFFFF;
          crc = (if have_hardware target detected then crc32c_hardware target data crc else crc32c_table data crc)
      in crc XOR 0xFFFFFFFF)"

definition crc32c_portable :: "bytes \<Rightarrow> u32 \<Rightarrow> u32" where
  "crc32c_portable data seed = crc32c_table data (seed XOR 0xFFFFFFFF) XOR 0xFFFFFFFF"

subsection \<open>What the processors document\<close>

text \<open>
  Both manuals describe the instruction by polynomials over the two-element field: the bits of the
  register and of an operand of \<open>n\<close> bits are reversed, the register is shifted up by \<open>n\<close> and the operand by
  32, and their sum is divided by the Castagnoli polynomial, whose coefficients are \<open>0x11EDC6F41\<close>; the
  remainder, reversed, is the result.
\<close>

definition reflect :: "nat \<Rightarrow> int \<Rightarrow> int" where
  "reflect n x = horner_sum of_bool 2 (map (\<lambda>i. bit x (n - 1 - i)) [0..<n])"

fun poly_mod2 :: "nat \<Rightarrow> int \<Rightarrow> int" where
  "poly_mod2 0 x = x"
| "poly_mod2 (Suc n) x = poly_mod2 n (if bit x (32 + n) then x XOR push_bit n 0x11EDC6F41 else x)"

definition documented_crc :: "nat \<Rightarrow> u32 \<Rightarrow> 'a::len word \<Rightarrow> u32" where
  "documented_crc n crc operand =
     word_of_int (reflect 32 (poly_mod2 n (push_bit n (reflect 32 (uint crc)) XOR push_bit 32 (reflect n (uint operand)))))"

fun documented :: "crc_target \<Rightarrow> bool" where
  "documented (X86_64 mm_crc32_u64 mm_crc32_u8) \<longleftrightarrow>
     (\<forall>crc chunk. mm_crc32_u64 crc chunk = ucast (documented_crc 64 (ucast crc) chunk))
     \<and> (\<forall>crc b. mm_crc32_u8 crc b = documented_crc 8 crc b)"
| "documented (AArch64 crc32cx crc32cb) \<longleftrightarrow>
     (\<forall>crc chunk. crc32cx crc chunk = documented_crc 64 crc chunk)
     \<and> (\<forall>crc reg. crc32cb crc reg = documented_crc 8 crc reg)"
| "documented Other_target \<longleftrightarrow> True"

subsection \<open>The bit-serial register\<close>

definition crc_byte :: "u32 \<Rightarrow> byte \<Rightarrow> u32" where
  "crc_byte crc b = (crc_bit ^^ 8) (crc XOR ucast b)"

lemma xor_move: "a XOR b = c \<longleftrightarrow> a = c XOR b" for a b c :: "'a::len word"
  by (auto simp: xor.assoc)

lemma xor_cancel:
  "a XOR c = b XOR c \<longleftrightarrow> a = b" "c XOR a = c XOR b \<longleftrightarrow> a = b" for a b c :: "'a::len word"
  using xor_move [of a c "b XOR c"] by (auto simp: xor.assoc xor.commute [of c])

lemma crc_bit_alt: "crc_bit c = drop_bit 1 c XOR (if bit c 0 then kPolynomial else 0)"
proof -
  have "c AND 1 \<noteq> 0 \<longleftrightarrow> bit c 0"
    by (simp add: and_one_eq bit_0 odd_iff_mod_2_eq_one)
  then show ?thesis by (simp add: crc_bit_def)
qed

lemma crc_bit_xor: "crc_bit (a XOR b) = crc_bit a XOR crc_bit b"
  unfolding crc_bit_alt by (rule bit_word_eqI) (auto simp: bit_simps)

lemma crc_bits_xor: "(crc_bit ^^ n) (a XOR b) = (crc_bit ^^ n) a XOR (crc_bit ^^ n) b"
  by (induction n) (simp_all add: crc_bit_xor)

lemma bit_kPolynomial_31: "bit kPolynomial 31"
  by (simp add: kPolynomial_def)

text \<open>The top bit of the quotient register tells which bit was shifted out, so no step loses one.\<close>

lemma crc_bit_inj: "inj crc_bit"
proof (rule injI)
  fix a b assume eq: "crc_bit a = crc_bit b"
  have top: "bit (crc_bit c) 31 \<longleftrightarrow> bit c 0" for c
    unfolding crc_bit_alt using bit_kPolynomial_31 bit_imp_le_length [of c 32]
    by (auto simp: bit_simps)
  have zero: "bit a 0 = bit b 0" using eq top by metis
  have "drop_bit 1 c = crc_bit c XOR (if bit c 0 then kPolynomial else 0)" for c
    unfolding crc_bit_alt by (rule bit_word_eqI) (auto simp: bit_xor_iff)
  with eq zero have "drop_bit 1 a = drop_bit 1 b" by simp
  show "a = b"
  proof (rule bit_word_eqI)
    fix n assume "n < LENGTH(32)"
    show "bit a n = bit b n"
    proof (cases n)
      case 0
      with zero show ?thesis by simp
    next
      case (Suc m)
      have "bit (drop_bit 1 a) m = bit (drop_bit 1 b) m"
        using \<open>drop_bit 1 a = drop_bit 1 b\<close> by simp
      then show ?thesis using Suc by (simp only: bit_drop_bit_eq) simp
    qed
  qed
qed

lemma crc_bits_inj: "inj (crc_bit ^^ n)"
  by (induction n) (auto simp: inj_def dest: injD [OF crc_bit_inj])


lemma crc_bits_shift: "\<forall>i < n. \<not> bit c i \<Longrightarrow> (crc_bit ^^ n) c = drop_bit n c"
proof (induction n)
  case (Suc n)
  then have "(crc_bit ^^ Suc n) c = crc_bit (drop_bit n c)" by simp
  also have "\<dots> = drop_bit 1 (drop_bit n c)"
    using Suc.prems by (simp add: crc_bit_alt bit_drop_bit_eq)
  finally show ?case by (simp add: drop_bit_drop_bit)
qed simp

lemma table_entry: "make_table ! unat (x AND 0xFF) = (crc_bit ^^ 8) (x AND 0xFF)"
proof -
  have "unat (x AND 0xFF) \<le> unat (0xFF :: u32)"
    by (rule word_le_nat_alt [THEN iffD1]) (rule word_and_le1)
  then have "unat (x AND 0xFF) < 256 - 0" by simp
  then show ?thesis
    unfolding make_table_def by (simp only: nth_map_upt add_0 of_nat_unat unsigned_ucast_eq) simp
qed

lemma crc32c_table_bitwise: "crc32c_table data crc = fold (\<lambda>b crc. crc_byte crc b) data crc"
proof -
  have "make_table ! unat ((crc XOR ucast b) AND 0xFF) XOR drop_bit 8 crc = crc_byte crc b"
    for crc :: u32 and b :: byte
  proof -
    let ?x = "crc XOR ucast b"
    define m :: u32 where "m = mask 8"
    have m: "0xFF = m" by (simp add: m_def mask_eq_exp_minus_1)
    have low: "bit m n \<longleftrightarrow> n < 8" for n
      by (auto simp: m_def bit_mask_iff)
    have split: "?x = (?x AND m) XOR (?x AND NOT m)"
      by (rule bit_word_eqI) (auto simp: bit_simps)
    have "(crc_bit ^^ 8) (?x AND NOT m) = drop_bit 8 (?x AND NOT m)"
      by (rule crc_bits_shift) (simp add: bit_and_iff bit_not_iff low)
    also have "\<dots> = drop_bit 8 crc"
      by (rule bit_word_eqI) (auto simp: bit_simps low dest: bit_imp_le_length)
    finally have "(crc_bit ^^ 8) ?x = (crc_bit ^^ 8) (?x AND m) XOR drop_bit 8 crc"
      using crc_bits_xor [of 8 "?x AND m" "?x AND NOT m"] split by simp
    then show ?thesis
      using table_entry [of ?x] unfolding m crc_byte_def by simp
  qed
  then show ?thesis by (simp add: crc32c_table_def)
qed

lemma bit_reflect [simp]: "bit (reflect n x) i \<longleftrightarrow> i < n \<and> bit x (n - 1 - i)"
  by (auto simp: reflect_def bit_horner_sum_bit_iff)

text \<open>The register on integers, so that it can hold an operand longer than itself.\<close>

definition crc_step :: "int \<Rightarrow> int" where
  "crc_step y = drop_bit 1 y XOR (if bit y 0 then 0x82F63B78 else 0)"

lemma crc_step_xor: "crc_step (a XOR b) = crc_step a XOR crc_step b"
  unfolding crc_step_def by (rule bit_eqI) (auto simp: bit_simps)

lemma crc_steps_xor: "(crc_step ^^ n) (a XOR b) = (crc_step ^^ n) a XOR (crc_step ^^ n) b"
  by (induction n) (simp_all add: crc_step_xor)

lemma crc_steps_shift: "(crc_step ^^ n) (push_bit n a) = a"
proof (induction n)
  case (Suc n)
  have "\<not> bit (push_bit (Suc n) a) 0" by (simp only: bit_push_bit_iff) simp
  moreover have "drop_bit 1 (push_bit (Suc n) a) = push_bit n a"
    by (rule bit_eqI) (simp only: bit_drop_bit_eq o_apply bit_push_bit_iff, auto)
  ultimately have "crc_step (push_bit (Suc n) a) = push_bit n a" by (simp only: crc_step_def) simp
  with Suc show ?case by (simp only: funpow_Suc_right o_apply)
qed simp

text \<open>The constant of the source is the Castagnoli polynomial with its bits reversed.\<close>

lemma polynomial_reversed: "bit (0x82F63B78 :: int) k \<longleftrightarrow> k \<le> 31 \<and> bit (0x11EDC6F41 :: int) (31 - k)"
proof (cases "k \<le> 31")
  case True
  then have "k \<in> set [0..<32]" by simp
  moreover have "list_all (\<lambda>k. bit (0x82F63B78 :: int) k = bit (0x11EDC6F41 :: int) (31 - k)) [0..<32]" by code_simp
  ultimately show ?thesis using True by (simp only: list_all_iff) blast
next
  case False
  have "(0x82F63B78 :: int) < 2 ^ 32" by simp
  then have "take_bit 32 (0x82F63B78 :: int) = 0x82F63B78" by (simp add: take_bit_int_eq_self)
  then have "bit (0x82F63B78 :: int) k \<longleftrightarrow> k < 32 \<and> bit (0x82F63B78 :: int) k" by (metis bit_take_bit_iff)
  with False show ?thesis by simp
qed

lemma poly_mod2_steps:
  "\<forall>i \<ge> 32 + n. \<not> bit x i \<Longrightarrow> reflect 32 (poly_mod2 n x) = (crc_step ^^ n) (reflect (32 + n) x)"
proof (induction n arbitrary: x)
  case (Suc n)
  let ?x = "if bit x (32 + n) then x XOR push_bit n 0x11EDC6F41 else x"
  have top: "bit (push_bit n 0x11EDC6F41 :: int) i \<longleftrightarrow> i = 32 + n" if "32 + n \<le> i" for i
  proof (cases "i = 32 + n")
    case False
    then have "33 \<le> i - n" using that by simp
    moreover have "take_bit 33 (0x11EDC6F41 :: int) = 0x11EDC6F41" by (simp add: take_bit_int_eq_self)
    ultimately have "\<not> bit (0x11EDC6F41 :: int) (i - n)" by (metis bit_take_bit_iff not_less)
    then show ?thesis using False by (simp add: bit_push_bit_iff)
  qed (simp add: bit_push_bit_iff)
  have "\<forall>i \<ge> 32 + n. \<not> bit ?x i"
  proof (intro allI impI)
    fix i assume i: "32 + n \<le> i"
    show "\<not> bit ?x i" using Suc.prems top [OF i] i by (cases "i = 32 + n") (auto simp: bit_xor_iff)
  qed
  from Suc.IH [OF this] have "reflect 32 (poly_mod2 (Suc n) x) = (crc_step ^^ n) (reflect (32 + n) ?x)" by simp
  also have "reflect (32 + n) ?x = crc_step (reflect (32 + Suc n) x)"
  proof (rule bit_eqI)
    fix i
    have "bit (push_bit n 0x11EDC6F41 :: int) (31 + n - i) \<longleftrightarrow> bit (0x82F63B78 :: int) i" if "i < 32 + n"
      using that polynomial_reversed [of i] by (auto simp: bit_push_bit_iff)
    moreover have "\<not> bit (0x82F63B78 :: int) i" if "\<not> i < 32 + n" using that polynomial_reversed [of i] by simp
    ultimately show "bit (reflect (32 + n) ?x) i \<longleftrightarrow> bit (crc_step (reflect (32 + Suc n) x)) i"
      by (auto simp: crc_step_def bit_simps)
  qed
  finally show ?case by (simp add: funpow_swap1)
qed simp

lemma documented_steps:
  assumes "n \<le> LENGTH('a)"
  shows "documented_crc n crc (operand :: 'a::len word) = word_of_int ((crc_step ^^ n) (uint crc XOR take_bit n (uint operand)))"
proof -
  let ?x = "push_bit n (reflect 32 (uint crc)) XOR push_bit 32 (reflect n (uint operand))"
  have wide: "\<not> bit (uint crc) i" if "32 \<le> i" for i using that bit_uint_iff [of crc i] by simp
  have "\<forall>i \<ge> 32 + n. \<not> bit ?x i" by (auto simp: bit_simps)
  moreover have "reflect (32 + n) ?x = uint crc XOR take_bit n (uint operand)"
  proof (rule bit_eqI)
    fix i
    have "bit (push_bit n (reflect 32 (uint crc))) (31 + n - i) \<longleftrightarrow> bit (uint crc) i" if "i < 32 + n"
    proof (cases "i \<le> 31")
      case True
      then have "31 + n - i - n = 31 - i" "31 - (31 - i) = i" by simp_all
      then show ?thesis using True by (auto simp: bit_push_bit_iff)
    qed (use wide that in \<open>simp add: bit_push_bit_iff\<close>)
    moreover have "bit (push_bit 32 (reflect n (uint operand))) (31 + n - i) \<longleftrightarrow> i < n \<and> bit (uint operand) i" if "i < 32 + n"
    proof (cases "i < n")
      case True
      then have "31 + n - i - 32 = n - 1 - i" "n - 1 - (n - 1 - i) = i" by simp_all
      then show ?thesis using True by (auto simp: bit_push_bit_iff)
    qed (use that in \<open>auto simp: bit_push_bit_iff\<close>)
    ultimately show "bit (reflect (32 + n) ?x) i \<longleftrightarrow> bit (uint crc XOR take_bit n (uint operand)) i"
      using wide [of i] by (cases "i < 32 + n") (auto simp: bit_xor_iff bit_take_bit_iff)
  qed
  ultimately show ?thesis by (simp add: documented_crc_def poly_mod2_steps)
qed


lemma crc_step_word: "crc_step (uint c) = uint (crc_bit c)"
proof (rule bit_eqI)
  fix n
  have "bit (word_of_int 0x82F63B78 :: u32) n \<longleftrightarrow> n < LENGTH(32) \<and> bit (0x82F63B78 :: int) n"
    by (rule bit_word_of_int_iff)
  then have "bit kPolynomial n \<longleftrightarrow> n < LENGTH(32) \<and> bit (0x82F63B78 :: int) n" by (simp add: kPolynomial_def)
  then show "bit (crc_step (uint c)) n \<longleftrightarrow> bit (uint (crc_bit c)) n"
    using polynomial_reversed [of n] bit_imp_le_length [of c "Suc n"]
    by (auto simp: crc_step_def crc_bit_alt bit_uint_iff bit_xor_iff bit_drop_bit_eq)
qed

lemma crc_steps_word: "(crc_step ^^ n) (uint c) = uint ((crc_bit ^^ n) c)"
  by (induction n) (simp_all add: crc_step_word)

lemma uint_xor_byte: "uint crc XOR uint b = uint (crc XOR ucast b)" for crc :: u32 and b :: byte
  by (rule bit_eqI) (auto simp: bit_uint_iff bit_xor_iff bit_ucast_iff dest: bit_imp_le_length)

text \<open>Bytes as one integer, the first the least significant.\<close>

fun le_int :: "bytes \<Rightarrow> int" where
  "le_int [] = 0"
| "le_int (b # bs) = uint b XOR push_bit 8 (le_int bs)"

lemma bit_le_int: "bit (le_int p) i \<longleftrightarrow> i div 8 < length p \<and> bit (p ! (i div 8)) (i mod 8)"
proof (induction p arbitrary: i)
  case (Cons b p)
  show ?case
  proof (cases "i < 8")
    case True
    then show ?thesis by (auto simp: bit_xor_iff bit_push_bit_iff bit_uint_iff)
  next
    case False
    then have "i div 8 = Suc ((i - 8) div 8)" "i mod 8 = (i - 8) mod 8" by (simp_all add: le_div_geq le_mod_geq not_less)
    with False Cons [of "i - 8"] show ?thesis by (simp add: bit_xor_iff bit_push_bit_iff bit_uint_iff)
  qed
qed simp

lemma crc_steps_bytes:
  "(crc_step ^^ (8 * length p)) (uint crc XOR le_int p) = uint (fold (\<lambda>b crc. crc_byte crc b) p crc)"
proof (induction p arbitrary: crc)
  case (Cons b p)
  have "(crc_step ^^ 8) (uint crc XOR le_int (b # p)) = (crc_step ^^ 8) ((uint crc XOR uint b) XOR push_bit 8 (le_int p))"
    by (simp add: xor.assoc)
  also have "\<dots> = uint (crc_byte crc b) XOR le_int p"
    unfolding crc_steps_xor [of 8] crc_steps_shift uint_xor_byte crc_steps_word crc_byte_def ..
  finally have "(crc_step ^^ (8 * length (b # p))) (uint crc XOR le_int (b # p))
      = (crc_step ^^ (8 * length p)) (uint (crc_byte crc b) XOR le_int p)"
    by (simp only: length_Cons mult_Suc_right add.commute [of 8] funpow_add o_apply)
  with Cons show ?case by simp
qed simp

lemma documented_byte: "documented_crc 8 crc (b :: byte) = crc_byte crc b"
  "documented_crc 8 crc (ucast b :: u32) = crc_byte crc b"
proof -
  have "take_bit 8 (uint (ucast b :: u32)) = uint b" "take_bit 8 (uint b) = uint b"
    by (rule bit_eqI, auto simp: bit_take_bit_iff bit_uint_iff bit_ucast_iff)+
  then show "documented_crc 8 crc b = crc_byte crc b" "documented_crc 8 crc (ucast b :: u32) = crc_byte crc b"
    by (simp_all add: documented_steps uint_xor_byte crc_steps_word crc_byte_def)
qed

lemma documented_word:
  assumes "length p = 8"
  shows "documented_crc 64 crc (decode_fixed64 p) = fold (\<lambda>b crc. crc_byte crc b) p crc"
proof -
  have "uint (decode_fixed64 p) = le_int (put_fixed64 (decode_fixed64 p))"
  proof (rule bit_eqI)
    fix i :: nat
    let ?v = "decode_fixed64 p"
    have "put_fixed64 ?v = map (\<lambda>j. ucast (drop_bit (8 * j) ?v)) [0..<8]"
      by (simp add: put_fixed64_def upt_rec)
    moreover have "8 * (i div 8) + i mod 8 = i" by (rule mult_div_mod_eq)
    ultimately show "bit (uint ?v) i \<longleftrightarrow> bit (le_int (put_fixed64 ?v)) i"
      by (auto simp: bit_le_int bit_uint_iff bit_ucast_iff bit_drop_bit_eq dest: bit_imp_le_length)
  qed
  then have "uint (decode_fixed64 p) = le_int p" using put_decode_fixed64 [OF assms] by simp
  moreover have "take_bit 64 (uint (decode_fixed64 p)) = uint (decode_fixed64 p)"
    by (rule bit_eqI) (auto simp: bit_take_bit_iff bit_uint_iff)
  ultimately show ?thesis using crc_steps_bytes [of p crc] assms by (simp add: documented_steps)
qed

lemma crc_words_bitwise:
  assumes "\<And>crc p. length p = 8 \<Longrightarrow> word8 crc (decode_fixed64 p) = fold (\<lambda>b crc. crc_byte crc b) p crc"
    and "\<And>crc b. word1 crc b = crc_byte crc b"
  shows "8 * n \<le> length data \<Longrightarrow> crc_words word8 word1 n data crc = fold (\<lambda>b crc. crc_byte crc b) data crc"
proof (induction n arbitrary: data crc)
  case (Suc n)
  then have "crc_words word8 word1 (Suc n) data crc = fold (\<lambda>b crc. crc_byte crc b) (take 8 data @ drop 8 data) crc"
    by (simp del: append_take_drop_id add: assms(1))
  then show ?case by simp
qed (simp add: assms(2))

lemma crc32c_hardware_bitwise:
  assumes "documented target"
  shows "crc32c_hardware target data crc = fold (\<lambda>b crc. crc_byte crc b) data crc"
proof (cases target)
  case (X86_64 word8 word1)
  have "8 * (length data div 8) \<le> length data" by simp
  from crc_words_bitwise [OF _ _ this, of "\<lambda>crc chunk. ucast (word8 (ucast crc) chunk)" word1 crc] show ?thesis
    using assms X86_64 by (simp add: crc32c_hardware_def documented_byte documented_word ucast_up_ucast_id is_up)
next
  case (AArch64 word8 word1)
  have "8 * (length data div 8) \<le> length data" by simp
  from crc_words_bitwise [OF _ _ this, of word8 "\<lambda>crc b. word1 crc (ucast b)" crc] show ?thesis
    using assms AArch64 by (simp add: crc32c_hardware_def documented_byte documented_word)
qed (simp add: crc32c_hardware_def crc32c_table_bitwise)

text \<open>
  [C24] The table-driven loop and the loops over the instructions of the processors, which eat eight bytes
  at a time, compute the same checksum on every input and from every seed, whatever the build and
  whether or not the processor has the instructions: a file written on one machine is readable on any
  other. The instructions are taken to divide by the Castagnoli polynomial, as the manuals of the
  processors say; that the constant of the source is this polynomial reversed is part of the proof.
\<close>

theorem crc32c_implementation_independent:
  assumes "documented target"
  shows "crc32c target detected data seed = crc32c_portable data seed"
  using assms by (simp add: crc32c_def crc32c_portable_def crc32c_table_bitwise crc32c_hardware_bitwise Let_def)

definition sample_x86 :: crc_target where
  "sample_x86 = X86_64 (\<lambda>crc chunk. ucast (documented_crc 64 (ucast crc) chunk)) (\<lambda>crc b. documented_crc 8 crc b)"

definition sample_arm :: crc_target where
  "sample_arm = AArch64 (\<lambda>crc chunk. documented_crc 64 crc chunk) (\<lambda>crc reg. documented_crc 8 crc reg)"

theorem crc32c_implementation_independent_witness:
  "crc32c sample_x86 True [0x61] 0 = 0xC1D04330 \<and> crc32c sample_arm True [0x61] 0 = 0xC1D04330"
proof -
  have "documented sample_x86" "documented sample_arm" by (simp_all add: sample_x86_def sample_arm_def)
  moreover have "crc32c_portable [0x61] 0 = 0xC1D04330"
    unfolding crc32c_portable_def crc32c_table_bitwise by code_simp
  ultimately show ?thesis by (simp add: crc32c_implementation_independent)
qed

subsection \<open>Error detection\<close>

text \<open>
  The one-argument overload of crc32c.hpp, which every caller uses. Which loop runs underneath is
  immaterial by the theorem above.
\<close>

definition crc32c_slice :: "bytes \<Rightarrow> u32" where
  "crc32c_slice data = crc32c_portable data 0"

abbreviation crc_run :: "bytes \<Rightarrow> u32 \<Rightarrow> u32" where
  "crc_run \<equiv> fold (\<lambda>b crc. crc_byte crc b)"

lemma crc32c_slice_run: "crc32c_slice data = crc_run data 0xFFFFFFFF XOR 0xFFFFFFFF"
  by (simp add: crc32c_slice_def crc32c_portable_def crc32c_table_bitwise)

lemma crc_bits_absorb:
  assumes "n \<le> 24"
  shows "(crc_bit ^^ n) x XOR ucast (b :: byte) = (crc_bit ^^ n) (x XOR push_bit n (ucast b))"
proof -
  have "(crc_bit ^^ n) (push_bit n (ucast b)) = drop_bit n (push_bit n (ucast b))"
    by (rule crc_bits_shift) (simp add: bit_push_bit_iff)
  also have "\<dots> = ucast b"
    using assms by (intro bit_word_eqI) (auto simp: bit_simps dest: bit_imp_le_length)
  finally show ?thesis by (simp add: crc_bits_xor)
qed

lemma crc_run_word:
  assumes "length p = 4"
  shows "crc_run p s = (crc_bit ^^ 32) (s XOR decode_fixed32 p)"
proof -
  obtain a b c d where p: "p = [a, b, c, d]" using length4 [OF assms] by auto
  have add: "(crc_bit ^^ m) ((crc_bit ^^ n) x) = (crc_bit ^^ (m + n)) x" for m n x
    by (simp add: funpow_add)
  have word: "s XOR decode_fixed32 p
      = s XOR ucast a XOR push_bit 8 (ucast b) XOR push_bit 16 (ucast c) XOR push_bit 24 (ucast d)"
    unfolding p decode_fixed32_def
    by (rule bit_word_eqI) (auto simp: bit_simps dest: bit_imp_le_length)
  show ?thesis
    unfolding word by (simp add: p crc_byte_def crc_bits_absorb add xor.assoc)
qed

lemma crc_run_inj: "crc_run p s = crc_run p t \<Longrightarrow> s = t"
proof (induction p arbitrary: s t)
  case (Cons b p)
  then have "crc_byte s b = crc_byte t b" by (auto dest: Cons.IH)
  then have "s XOR ucast b = t XOR ucast b"
    unfolding crc_byte_def by (rule injD [OF crc_bits_inj])
  then show ?case by (simp add: xor_cancel)
qed simp

lemma crc_run_burst:
  assumes "length x = length y" and "length x \<le> 4" and "crc_run x s = crc_run y s"
  shows "x = y"
proof -
  let ?z = "replicate (4 - length x) 0"
  have len: "length (x @ ?z) = 4" "length (y @ ?z) = 4" using assms by auto
  have "crc_run (x @ ?z) s = crc_run (y @ ?z) s" using assms(3) by simp
  then have "s XOR decode_fixed32 (x @ ?z) = s XOR decode_fixed32 (y @ ?z)"
    unfolding crc_run_word [OF len(1)] crc_run_word [OF len(2)] by (rule injD [OF crc_bits_inj])
  then have "decode_fixed32 (x @ ?z) = decode_fixed32 (y @ ?z)"
    by (simp only: xor_cancel)
  then have "put_fixed32 (decode_fixed32 (x @ ?z)) = put_fixed32 (decode_fixed32 (y @ ?z))"
    by (rule arg_cong)
  then have "x @ ?z = y @ ?z"
    unfolding put_decode_fixed32 [OF len(1)] put_decode_fixed32 [OF len(2)] .
  then show ?thesis by simp
qed

text \<open>A message followed by its checksum drives the register to one fixed value, and only then.\<close>

lemma crc_residue:
  assumes "length t = 4"
  shows "crc32c_slice m = decode_fixed32 t \<longleftrightarrow> crc_run (m @ t) 0xFFFFFFFF = (crc_bit ^^ 32) 0xFFFFFFFF"
proof -
  let ?s = "crc_run m 0xFFFFFFFF" and ?d = "decode_fixed32 t"
  have "?s XOR 0xFFFFFFFF = ?d \<longleftrightarrow> ?s = ?d XOR 0xFFFFFFFF" by (rule xor_move)
  also have "\<dots> \<longleftrightarrow> ?s XOR ?d = 0xFFFFFFFF" by (subst xor_move) (simp only: xor.commute)
  also have "\<dots> \<longleftrightarrow> (crc_bit ^^ 32) (?s XOR ?d) = (crc_bit ^^ 32) 0xFFFFFFFF"
    by (simp only: inj_eq [OF crc_bits_inj])
  finally show ?thesis
    by (simp add: crc32c_slice_run crc_run_word [OF assms])
qed

lemma crc_detects_burst:
  assumes "crc32c_slice m = decode_fixed32 t" and "length t = 4"
    and "m @ t = pre @ x @ post" and "m' @ t' = pre @ y @ post" and "length t' = 4"
    and "length x = length y" and "length x \<le> 4" and "x \<noteq> y"
  shows "crc32c_slice m' \<noteq> decode_fixed32 t'"
proof
  assume "crc32c_slice m' = decode_fixed32 t'"
  then have "crc_run (pre @ x @ post) 0xFFFFFFFF = crc_run (pre @ y @ post) 0xFFFFFFFF"
    using crc_residue [OF assms(2), of m] crc_residue [OF assms(5), of m'] assms(1,3,4) by simp
  then have "crc_run x (crc_run pre 0xFFFFFFFF) = crc_run y (crc_run pre 0xFFFFFFFF)"
    by (simp add: crc_run_inj)
  with assms show False using crc_run_burst by blast
qed

section \<open>XXH64\<close>

definition kPrime1 :: u64 where "kPrime1 = 0x9E3779B185EBCA87"
definition kPrime2 :: u64 where "kPrime2 = 0xC2B2AE3D27D4EB4F"
definition kPrime3 :: u64 where "kPrime3 = 0x165667B19E3779F9"
definition kPrime4 :: u64 where "kPrime4 = 0x85EBCA77C2B2AE63"
definition kPrime5 :: u64 where "kPrime5 = 0x27D4EB2F165667C5"

definition rotl64 :: "u64 \<Rightarrow> nat \<Rightarrow> u64" where
  "rotl64 x r = push_bit r x OR drop_bit (64 - r) x"

definition xxh_round :: "u64 \<Rightarrow> u64 \<Rightarrow> u64" where
  "xxh_round acc input = rotl64 (acc + input * kPrime2) 31 * kPrime1"

definition merge_round :: "u64 \<Rightarrow> u64 \<Rightarrow> u64" where
  "merge_round acc val = (acc XOR xxh_round 0 val) * kPrime1 + kPrime4"

text \<open>
  The unaligned reads copy the bytes into an integer; on the little-endian targets of the engine
  that is \<^const>\<open>decode_fixed64\<close> and \<^const>\<open>decode_fixed32\<close>.
\<close>

function xxh_stripes :: "u64 \<times> u64 \<times> u64 \<times> u64 \<Rightarrow> bytes \<Rightarrow> (u64 \<times> u64 \<times> u64 \<times> u64) \<times> bytes" where
  "xxh_stripes (v1, v2, v3, v4) p =
     (if 32 \<le> length p
      then xxh_stripes (xxh_round v1 (decode_fixed64 p), xxh_round v2 (decode_fixed64 (drop 8 p)),
             xxh_round v3 (decode_fixed64 (drop 16 p)), xxh_round v4 (decode_fixed64 (drop 24 p)))
             (drop 32 p)
      else ((v1, v2, v3, v4), p))"
  by pat_completeness auto
termination by (relation "measure (\<lambda>(_, p). length p)") auto

declare xxh_stripes.simps [simp del]

function xxh_words :: "u64 \<Rightarrow> bytes \<Rightarrow> u64 \<times> bytes" where
  "xxh_words h p =
     (if 8 \<le> length p
      then xxh_words (rotl64 (h XOR xxh_round 0 (decode_fixed64 p)) 27 * kPrime1 + kPrime4) (drop 8 p)
      else (h, p))"
  by pat_completeness auto
termination by (relation "measure (\<lambda>(_, p). length p)") auto

declare xxh_words.simps [simp del]

definition xxhash64 :: "bytes \<Rightarrow> u64 \<Rightarrow> u64" where
  "xxhash64 data seed =
     (let (h, p) =
        (if 32 \<le> length data
         then let ((v1, v2, v3, v4), p) = xxh_stripes
                    (seed + kPrime1 + kPrime2, seed + kPrime2, seed, seed - kPrime1) data
              in (fold (\<lambda>v h. merge_round h v) [v1, v2, v3, v4]
                    (rotl64 v1 1 + rotl64 v2 7 + rotl64 v3 12 + rotl64 v4 18), p)
         else (seed + kPrime5, data));
        h = h + of_nat (length data);
        (h, p) = xxh_words h p;
        (h, p) = (if 4 \<le> length p
                  then (rotl64 (h XOR ucast (decode_fixed32 p) * kPrime1) 23 * kPrime2 + kPrime3,
                        drop 4 p)
                  else (h, p));
        h = fold (\<lambda>b h. rotl64 (h XOR ucast b * kPrime5) 11 * kPrime1) p h;
        h = (h XOR drop_bit 33 h) * kPrime2;
        h = (h XOR drop_bit 29 h) * kPrime3
      in h XOR drop_bit 32 h)"

text \<open>Published test vectors of the two functions.\<close>

lemma crc32c_vector: "crc32c_slice [0x61] = 0xC1D04330"
  unfolding crc32c_slice_run by code_simp

lemma xxhash64_vectors:
  "xxhash64 [] 0 = 0xEF46DB3751D8E999"
  "xxhash64 [0x61, 0x62, 0x63] 0 = 0x44BC2CF5AD770999"
  by code_simp+

end
