(* ===== verification/Framing.thy ===== *)
theory Framing
  imports Checksum
begin

text \<open>
  Block framing, src/sst/compression.cpp: the payload, its uncompressed length, the codec byte and
  a CRC over all three. The LZ4 and Zstandard libraries are parameters, a record of the functions
  the file calls; \<open>codecs_ok\<close> is what their documentation promises of them: decompressing what
  was compressed, into a buffer of the original size, gives the original back.
\<close>

section \<open>Codecs\<close>

datatype compression = None_codec | Lz4 | Zstd

definition compression_byte :: "compression \<Rightarrow> byte" where
  "compression_byte c = (case c of None_codec \<Rightarrow> 0 | Lz4 \<Rightarrow> 1 | Zstd \<Rightarrow> 2)"

definition is_known_compression :: "byte \<Rightarrow> bool" where
  "is_known_compression raw \<longleftrightarrow> raw \<le> compression_byte Zstd"

definition compression_of :: "byte \<Rightarrow> compression" where
  "compression_of raw = (if raw = 0 then None_codec else if raw = 1 then Lz4 else Zstd)"

text \<open>
  A compressor is given the content and the capacity of its output buffer (and Zstandard its
  level); a decompressor the payload and the capacity. \<^const>\<open>None\<close> is the library's error return:
  a result of zero or less for LZ4, a code for which \<open>ZSTD_isError\<close> holds for Zstandard.
\<close>

record codec_library =
  LZ4_compressBound :: "int \<Rightarrow> int"
  LZ4_compress_default :: "bytes \<Rightarrow> int \<Rightarrow> bytes option"
  LZ4_decompress_safe :: "bytes \<Rightarrow> int \<Rightarrow> bytes option"
  ZSTD_compressBound :: "nat \<Rightarrow> nat"
  ZSTD_compress :: "bytes \<Rightarrow> nat \<Rightarrow> int \<Rightarrow> bytes option"
  ZSTD_decompress :: "bytes \<Rightarrow> nat \<Rightarrow> bytes option"

definition LZ4_MAX_INPUT_SIZE :: nat where "LZ4_MAX_INPUT_SIZE = 0x7E000000"

definition codecs_ok :: "codec_library \<Rightarrow> bool" where
  "codecs_ok L \<longleftrightarrow>
     (\<forall>c b z. LZ4_compress_default L c b = Some z \<longrightarrow> LZ4_decompress_safe L z (int (length c)) = Some c)
     \<and> (\<forall>c b l z. ZSTD_compress L c b l = Some z \<longrightarrow> ZSTD_decompress L z (length c) = Some c)"

section \<open>Framing a block\<close>

text \<open>Each appends to \<open>out\<close>; an error leaves \<open>out\<close> as it found it.\<close>

definition compress_lz4 :: "codec_library \<Rightarrow> bytes \<Rightarrow> bytes \<Rightarrow> status \<times> bytes" where
  "compress_lz4 L content out =
     (if LZ4_MAX_INPUT_SIZE < length content then (Io, out)
      else let bound = LZ4_compressBound L (int (length content)) in
        if bound \<le> 0 then (Io, out)
        else case LZ4_compress_default L content bound of
               None \<Rightarrow> (Io, out)
             | Some z \<Rightarrow> (Ok, out @ z))"

definition compress_zstd :: "codec_library \<Rightarrow> bytes \<Rightarrow> bytes \<Rightarrow> status \<times> bytes" where
  "compress_zstd L content out =
     (let bound = ZSTD_compressBound L (length content) in
      case ZSTD_compress L content bound 3 of
        None \<Rightarrow> (Io, out)
      | Some z \<Rightarrow> (Ok, out @ z))"

definition frame_block :: "codec_library \<Rightarrow> bytes \<Rightarrow> compression \<Rightarrow> bytes \<Rightarrow> status \<times> bytes" where
  "frame_block L content codec out =
     (if 2 ^ 32 - 1 < length content then (Io, out)
      else
        let payload_start = length out;
            (s, out1) = (case codec of
                None_codec \<Rightarrow> (Ok, out @ content)
              | Lz4 \<Rightarrow> compress_lz4 L content out
              | Zstd \<Rightarrow> compress_zstd L content out)
        in if s \<noteq> Ok then (Io, out1)
           else
             let (out2, stored) =
                   (if codec \<noteq> None_codec \<and> length content \<le> length out1 - payload_start
                    then (take payload_start out1 @ content, None_codec)
                    else (out1, codec));
                 out3 = out2 @ put_fixed32 (of_nat (length content)) @ [compression_byte stored];
                 framed = drop payload_start out3
             in (Ok, out3 @ put_fixed32 (crc32c_slice framed)))"

definition unframe_block :: "codec_library \<Rightarrow> bytes \<Rightarrow> nat \<Rightarrow> bytes res" where
  "unframe_block L raw max_uncompressed =
     (if length raw < kBlockTrailerLength then Inl Corrupt
      else
        let covered = length raw - 4;
            stored_crc = decode_fixed32 (drop covered raw)
        in if crc32c_slice (take covered raw) \<noteq> stored_crc then Inl Corrupt
        else
          let codec_byte = raw ! (covered - 1) in
          if \<not> is_known_compression codec_byte then Inl Corrupt
          else
            let codec = compression_of codec_byte;
                uncompressed_len = decode_fixed32 (drop (covered - 5) raw)
            in if max_uncompressed < unat uncompressed_len then Inl Corrupt
            else
              let payload_len = length raw - kBlockTrailerLength;
                  payload = take payload_len raw
              in case codec of
                   None_codec \<Rightarrow>
                     (if payload_len \<noteq> unat uncompressed_len then Inl Corrupt else Inr payload)
                 | Lz4 \<Rightarrow>
                     (if 2 ^ 31 - 1 < payload_len then Inl Corrupt
                      else case LZ4_decompress_safe L payload (sint uncompressed_len) of
                             None \<Rightarrow> Inl Corrupt
                           | Some out \<Rightarrow>
                               if length out \<noteq> unat uncompressed_len then Inl Corrupt else Inr out)
                 | Zstd \<Rightarrow>
                     (case ZSTD_decompress L payload (unat uncompressed_len) of
                        None \<Rightarrow> Inl Corrupt
                      | Some out \<Rightarrow>
                          if length out \<noteq> unat uncompressed_len then Inl Corrupt else Inr out))"

lemma compression_of_byte [simp]:
  "compression_of (compression_byte c) = c" "is_known_compression (compression_byte c)"
  by (cases c; simp add: compression_of_def compression_byte_def is_known_compression_def)+

text \<open>What a successful call has appended, and how the payload came about.\<close>

definition stored_as :: "codec_library \<Rightarrow> bytes \<Rightarrow> compression \<Rightarrow> bytes \<Rightarrow> bool" where
  "stored_as L content stored payload \<longleftrightarrow>
     (case stored of
        None_codec \<Rightarrow> payload = content
      | Lz4 \<Rightarrow> length content \<le> LZ4_MAX_INPUT_SIZE \<and> length payload < length content
          \<and> (\<exists>b. LZ4_compress_default L content b = Some payload)
      | Zstd \<Rightarrow> length payload < length content
          \<and> (\<exists>b l. ZSTD_compress L content b l = Some payload))"

definition frame_body :: "bytes \<Rightarrow> nat \<Rightarrow> compression \<Rightarrow> bytes" where
  "frame_body payload n stored = payload @ put_fixed32 (of_nat n) @ [compression_byte stored]"

lemma frame_block_shape:
  assumes "frame_block L content codec out = (Ok, out')"
  shows "length content < 2 ^ 32 \<and>
    (\<exists>payload stored. stored_as L content stored payload
      \<and> out' = out @ frame_body payload (length content) stored
          @ put_fixed32 (crc32c_slice (frame_body payload (length content) stored)))"
proof -
  have small: "length content < 2 ^ 32"
    using assms by (auto simp: frame_block_def split: if_splits)
  have fin: ?thesis
    if "stored_as L content stored payload"
      "out' = out @ payload @ put_fixed32 (of_nat (length content)) @ [compression_byte stored]
          @ put_fixed32 (crc32c_slice (payload @ put_fixed32 (of_nat (length content))
              @ [compression_byte stored]))" for payload stored
    using that small by (auto simp: frame_body_def)
  show ?thesis
  proof (cases codec)
    case None_codec
    then show ?thesis
      using assms small by (intro fin [of None_codec content])
        (auto simp: frame_block_def stored_as_def)
  next
    case Lz4
    then obtain z where z: "LZ4_compress_default L content (LZ4_compressBound L (int (length content)))
        = Some z" "length content \<le> LZ4_MAX_INPUT_SIZE"
      using assms small
      by (auto simp: frame_block_def compress_lz4_def Let_def split: if_splits option.splits)
    then show ?thesis
    proof (cases "length content \<le> length z")
      case True
      then show ?thesis
        using assms small Lz4 z by (intro fin [of None_codec content])
          (auto simp: frame_block_def compress_lz4_def stored_as_def Let_def split: if_splits)
    next
      case False
      then show ?thesis
        using assms small Lz4 z by (intro fin [of Lz4 z])
          (auto simp: frame_block_def compress_lz4_def stored_as_def Let_def split: if_splits)
    qed
  next
    case Zstd
    then obtain z where z: "ZSTD_compress L content (ZSTD_compressBound L (length content)) 3 = Some z"
      using assms small
      by (auto simp: frame_block_def compress_zstd_def Let_def split: if_splits option.splits)
    then show ?thesis
    proof (cases "length content \<le> length z")
      case True
      then show ?thesis
        using assms small Zstd z by (intro fin [of None_codec content])
          (auto simp: frame_block_def compress_zstd_def stored_as_def Let_def split: if_splits)
    next
      case False
      then show ?thesis
        using assms small Zstd z by (intro fin [of Zstd z])
          (auto simp: frame_block_def compress_zstd_def stored_as_def Let_def split: if_splits)
    qed
  qed
qed

lemma frame_block_none: "length content < 2 ^ 32 \<Longrightarrow> fst (frame_block L content None_codec out) = Ok"
  by (simp add: frame_block_def Let_def)

section \<open>Reading a frame back\<close>

lemma length_frame_body [simp]: "length (frame_body payload n stored) = length payload + 5"
  by (simp add: frame_body_def)

lemma unat_of_nat_u32: "n < 2 ^ 32 \<Longrightarrow> unat (of_nat n :: u32) = n"
  by (simp add: unsigned_of_nat take_bit_nat_eq_self)

lemma unframe_frame:
  assumes "n < 2 ^ 32"
  shows "unframe_block L (frame_body payload n stored @ put_fixed32 (crc32c_slice (frame_body payload n stored))) m =
    (if m < n then Inl Corrupt
     else case stored of
       None_codec \<Rightarrow> if length payload \<noteq> n then Inl Corrupt else Inr payload
     | Lz4 \<Rightarrow>
         if 2 ^ 31 - 1 < length payload then Inl Corrupt
         else (case LZ4_decompress_safe L payload (sint (of_nat n :: u32)) of
                 None \<Rightarrow> Inl Corrupt
               | Some out \<Rightarrow> if length out \<noteq> n then Inl Corrupt else Inr out)
     | Zstd \<Rightarrow>
         (case ZSTD_decompress L payload n of
            None \<Rightarrow> Inl Corrupt
          | Some out \<Rightarrow> if length out \<noteq> n then Inl Corrupt else Inr out))"
    (is "_ = ?rhs")
proof -
  define body raw where "body = frame_body payload n stored"
    and "raw = body @ put_fixed32 (crc32c_slice body)"
  have len: "length raw = length payload + 9" by (simp add: raw_def body_def)
  have byte: "raw ! (length payload + 4) = compression_byte stored"
    by (simp add: raw_def body_def frame_body_def nth_append)
  have size: "decode_fixed32 (drop (length payload) raw) = of_nat n"
    by (simp add: raw_def body_def frame_body_def codec_simps)
  have "drop (length payload + 5) raw = put_fixed32 (crc32c_slice body)"
    by (simp add: raw_def body_def)
  then have crc: "decode_fixed32 (drop (length payload + 5) raw) = crc32c_slice body"
    using decode_put_fixed32 [of "crc32c_slice body" "[]"] by simp
  have payload: "take (length payload) raw = payload" "take (length payload + 5) raw = body"
    by (simp_all add: raw_def body_def frame_body_def)
  have idx: "length raw - 4 = length payload + 5" "length payload + 5 - 1 = length payload + 4"
    "length payload + 5 - 5 = length payload" "length raw - 9 = length payload"
    "\<not> length raw < 9"
    using len by auto
  have "unframe_block L raw m = ?rhs"
    unfolding unframe_block_def Let_def kBlockTrailerLength_def idx byte size crc payload
      unat_of_nat_u32 [OF assms]
    using idx(5) by (cases stored) simp_all
  then show ?thesis by (simp only: raw_def body_def)
qed

lemma sint_of_nat_u32: "n \<le> LZ4_MAX_INPUT_SIZE \<Longrightarrow> sint (of_nat n :: u32) = int n"
  by (simp add: LZ4_MAX_INPUT_SIZE_def signed_of_nat signed_take_bit_int_eq_self)

lemma unframe_framed:
  assumes "codecs_ok L" and "frame_block L content codec [] = (Ok, raw)"
  shows "unframe_block L raw m = (if m < length content then Inl Corrupt else Inr content)"
proof -
  from frame_block_shape [OF assms(2)] obtain payload stored
    where n: "length content < 2 ^ 32" and as: "stored_as L content stored payload"
      and raw: "raw = frame_body payload (length content) stored
          @ put_fixed32 (crc32c_slice (frame_body payload (length content) stored))"
    by auto
  show ?thesis
    using assms(1) as unfolding raw
    by (auto simp: unframe_frame [OF n] stored_as_def codecs_ok_def sint_of_nat_u32
        LZ4_MAX_INPUT_SIZE_def split: compression.splits)
qed

lemma frame_block_out:
  "frame_block L c codec out = (fst (frame_block L c codec []), out @ snd (frame_block L c codec []))"
  by (cases codec)
     (auto simp: frame_block_def compress_lz4_def compress_zstd_def Let_def split: option.split)

lemma frame_block_length: "frame_block L c codec [] = (Ok, raw) \<Longrightarrow> 9 \<le> length raw"
  using frame_block_shape [of L c codec "[]" raw] by auto

text \<open>
  Framing round trips: whatever codec is asked for, and whether or not the block was stored
  raw because the codec did not shrink it, a block that was framed is read back exactly when it
  fits the reader's bound, and refused as corrupt when it does not.
\<close>

theorem frame_round_trip:
  assumes "codecs_ok L" and "frame_block L content codec out = (Ok, out')"
  shows "\<exists>raw. out' = out @ raw \<and>
    unframe_block L raw m = (if m < length content then Inl Corrupt else Inr content)"
proof -
  have "frame_block L content codec [] = (Ok, snd (frame_block L content codec []))"
      "out' = out @ snd (frame_block L content codec [])"
    using assms(2) frame_block_out [of L content codec out] by (auto intro: prod_eqI)
  then show ?thesis using unframe_framed [OF assms(1)] by blast
qed

lemma unframe_burst:
  assumes "frame_block L content codec [] = (Ok, pre @ x @ post)"
    and "length x = length y" and "length x \<le> 4" and "x \<noteq> y"
  shows "unframe_block L' (pre @ y @ post) m = Inl Corrupt"
proof -
  from frame_block_shape [OF assms(1)] obtain body
    where raw: "pre @ x @ post = body @ put_fixed32 (crc32c_slice body)" by auto
  let ?raw = "pre @ y @ post"
  have len: "length ?raw = length body + 4"
    using arg_cong [OF raw, of length] assms(2) by simp
  let ?t = "drop (length ?raw - 4) ?raw"
  have "crc32c_slice (take (length ?raw - 4) ?raw) \<noteq> decode_fixed32 ?t"
  proof (rule crc_detects_burst [where pre = pre and x = x and post = post])
    show "crc32c_slice body = decode_fixed32 (put_fixed32 (crc32c_slice body))"
      using decode_put_fixed32 [of _ "[]"] by simp
    show "body @ put_fixed32 (crc32c_slice body) = pre @ x @ post" using raw by simp
    show "take (length ?raw - 4) ?raw @ ?t = ?raw" by (rule append_take_drop_id)
    show "length ?t = 4" using len by simp
  qed (use assms in simp_all)
  then show ?thesis by (simp add: unframe_block_def Let_def)
qed

text \<open>
  [C22] Every change of a framed block that keeps its length and is confined to four consecutive
  bytes, wherever they lie (payload, length, codec byte, checksum, or across a border), is reported
  as corruption, before the decompressor sees any of it.
\<close>

theorem frame_burst_detected:
  assumes "frame_block L content codec [] = (Ok, pre @ x @ post)"
    and "length x = length y" and "length x \<le> 4" and "x \<noteq> y"
  shows "unframe_block L' (pre @ y @ post) m = Inl Corrupt"
  using assms by (rule unframe_burst)

text \<open>
  Whatever the bytes of a block are, and whatever the codec libraries make of them, the block
  the reader hands on is never larger than the bound its caller chose.
\<close>

theorem unframe_bounded:
  "case unframe_block L raw m of Inl s \<Rightarrow> s = Corrupt | Inr content \<Rightarrow> length content \<le> m"
  by (auto simp: unframe_block_def Let_def split: sum.split compression.split option.split)

subsection \<open>Witnesses\<close>

text \<open>A pair of codecs that shortens runs of zeros and tags everything else.\<close>

definition zero_run_compress :: "bytes \<Rightarrow> bytes option" where
  "zero_run_compress c =
     Some (if length c < 256 \<and> c = replicate (length c) 0 then [0, of_nat (length c)] else 1 # c)"

definition zero_run_decompress :: "bytes \<Rightarrow> bytes option" where
  "zero_run_decompress z =
     (case z of
        [] \<Rightarrow> None
      | t # c \<Rightarrow> if t = 0 then Some (replicate (unat (hd c)) 0) else Some c)"

definition zero_run_codecs :: codec_library where
  "zero_run_codecs = \<lparr> LZ4_compressBound = (\<lambda>n. n + 16),
     LZ4_compress_default = (\<lambda>c _. zero_run_compress c),
     LZ4_decompress_safe = (\<lambda>z _. zero_run_decompress z),
     ZSTD_compressBound = (\<lambda>n. n + 16), ZSTD_compress = (\<lambda>c _ _. zero_run_compress c),
     ZSTD_decompress = (\<lambda>z _. zero_run_decompress z) \<rparr>"

lemma zero_run_codecs_ok: "codecs_ok zero_run_codecs"
proof -
  have "zero_run_decompress z = Some c" if "zero_run_compress c = Some z" for c z
    using that by (auto simp: zero_run_compress_def zero_run_decompress_def unsigned_of_nat
        take_bit_nat_eq_self split: if_splits)
  then show ?thesis by (simp add: codecs_ok_def zero_run_codecs_def)
qed

lemma zero_run_frame:
  "frame_block zero_run_codecs (replicate 20 0) Lz4 [] =
     (Ok, frame_body [0, 20] 20 Lz4 @ put_fixed32 (crc32c_slice (frame_body [0, 20] 20 Lz4)))"
  by (simp add: frame_block_def compress_lz4_def zero_run_codecs_def zero_run_compress_def
      LZ4_MAX_INPUT_SIZE_def frame_body_def compression_byte_def)

theorem frame_round_trip_witness:
  "\<exists>raw. snd (frame_block zero_run_codecs (replicate 20 0) Lz4 []) = raw
     \<and> unframe_block zero_run_codecs raw 64 = Inr (replicate 20 0)
     \<and> unframe_block zero_run_codecs raw 64 \<noteq> Inl Corrupt"
  using frame_round_trip [OF zero_run_codecs_ok zero_run_frame, of 64] by (auto simp: zero_run_frame)

theorem frame_burst_detected_witness:
  "fst (frame_block zero_run_codecs (replicate 20 0) Lz4 []) = Ok
   \<and> unframe_block zero_run_codecs
       ([0, 21] @ drop 2 (snd (frame_block zero_run_codecs (replicate 20 0) Lz4 []))) 64 = Inl Corrupt"
proof -
  define post where "post = drop 2 (snd (frame_block zero_run_codecs (replicate 20 0) Lz4 []))"
  have frame: "frame_block zero_run_codecs (replicate 20 0) Lz4 [] = (Ok, [] @ [0, 20] @ post)"
    by (simp add: zero_run_frame frame_body_def post_def)
  have "unframe_block zero_run_codecs ([] @ [0, 21] @ post) 64 = Inl Corrupt"
    by (rule frame_burst_detected [OF frame]) simp_all
  then show ?thesis by (simp add: zero_run_frame post_def)
qed

end
