(* ===== verification/Watermark.thy ===== *)
theory Watermark
  imports Prelude
begin

text \<open>
  The embedder's durability frontier: the intervals of src/version/watermark.hpp and the part of
  src/db/db\_impl.cpp that carries them from the memtable over files and losses to the position
  recovery reports. The last part is the argument that this position is safe.
\<close>

section \<open>Intervals, floors and the recovery rule\<close>

record watermark_interval =
  wm_low :: "u64 option"
  wm_high :: "u64 option"

definition no_watermark :: watermark_interval where
  "no_watermark = \<lparr> wm_low = None, wm_high = None \<rparr>"

definition wm_empty :: "watermark_interval \<Rightarrow> bool" where
  "wm_empty w \<longleftrightarrow> wm_low w = None \<and> wm_high w = None"

definition wm_merge :: "watermark_interval \<Rightarrow> watermark_interval \<Rightarrow> watermark_interval" where
  "wm_merge w other =
     \<lparr> wm_low = (case wm_low other of
          None \<Rightarrow> None
        | Some m \<Rightarrow> (case wm_low w of None \<Rightarrow> None | Some l \<Rightarrow> Some (min l m))),
       wm_high = (case wm_high other of
          None \<Rightarrow> wm_high w
        | Some m \<Rightarrow> (case wm_high w of None \<Rightarrow> Some m | Some h \<Rightarrow> Some (max h m))) \<rparr>"

definition accumulate_min :: "u64 option \<Rightarrow> u64 option \<Rightarrow> u64 option" where
  "accumulate_min into value =
     (case value of None \<Rightarrow> into
      | Some v \<Rightarrow> (case into of None \<Rightarrow> Some v | Some i \<Rightarrow> Some (min i v)))"

definition accumulate_max :: "u64 option \<Rightarrow> u64 option \<Rightarrow> u64 option" where
  "accumulate_max into value =
     (case value of None \<Rightarrow> into
      | Some v \<Rightarrow> (case into of None \<Rightarrow> Some v | Some i \<Rightarrow> Some (max i v)))"

record watermark_floor =
  fl_position :: "u64 option"

definition lower_to :: "watermark_floor \<Rightarrow> u64 option \<Rightarrow> watermark_floor" where
  "lower_to f bound =
     (case fl_position f of
        None \<Rightarrow> f
      | Some p \<Rightarrow>
          (case bound of
             None \<Rightarrow> f\<lparr> fl_position := None \<rparr>
           | Some b \<Rightarrow> if b < p then f\<lparr> fl_position := Some b \<rparr> else f))"

record recovery_watermark =
  rw_anything_discarded :: bool
  rw_discarded_lower_bound_absent :: bool
  rw_discarded_lower_bound :: "u64 option"
  rw_surviving_upper_bound :: "u64 option"

definition RecoveryWatermark :: recovery_watermark where
  "RecoveryWatermark = \<lparr> rw_anything_discarded = False, rw_discarded_lower_bound_absent = False,
     rw_discarded_lower_bound = None, rw_surviving_upper_bound = None \<rparr>"

definition observe_discarded :: "recovery_watermark \<Rightarrow> watermark_interval \<Rightarrow> recovery_watermark" where
  "observe_discarded r w =
     (let r = r\<lparr> rw_anything_discarded := True \<rparr> in
      if wm_low w = None then r\<lparr> rw_discarded_lower_bound_absent := True \<rparr>
      else r\<lparr> rw_discarded_lower_bound := accumulate_min (rw_discarded_lower_bound r) (wm_low w) \<rparr>)"

definition observe_survivor :: "recovery_watermark \<Rightarrow> watermark_interval \<Rightarrow> recovery_watermark" where
  "observe_survivor r w =
     r\<lparr> rw_surviving_upper_bound := accumulate_max (rw_surviving_upper_bound r) (wm_high w) \<rparr>"

definition discarded_lower_bound :: "recovery_watermark \<Rightarrow> u64 option" where
  "discarded_lower_bound r =
     (if rw_discarded_lower_bound_absent r then None else rw_discarded_lower_bound r)"

definition resume_after :: "recovery_watermark \<Rightarrow> u64 option" where
  "resume_after r =
     (if rw_anything_discarded r then discarded_lower_bound r else rw_surviving_upper_bound r)"

text \<open>\<open>Compaction::watermark\<close>: the interval of a compaction's outputs, from those of its inputs.\<close>

fun compaction_watermark :: "watermark_interval list \<Rightarrow> watermark_interval" where
  "compaction_watermark [] = no_watermark"
| "compaction_watermark (w # ws) = fold (\<lambda>w m. wm_merge m w) ws w"

section \<open>The watermark's way through the database\<close>

text \<open>
  The state the watermark depends on. A memtable has its interval and the positions written into it,
  a file its store, its interval and the positions whose effect it holds. \<open>wd_history\<close>, \<open>wd_session\<close>,
  \<open>wd_asserted\<close> and \<open>wd_exposed\<close> are not state of the program but of the argument: every position ever
  written, those written since the instance was opened, every position ever established as a watermark,
  and the positions that were in a memtable when a floor was cleared and that no flush has written since.
\<close>

record wm_table =
  wt_interval :: watermark_interval
  wt_positions :: "u64 set"

record wm_file =
  wf_store :: nat
  wf_interval :: watermark_interval
  wf_positions :: "u64 set"

record wm_db =
  wd_established :: "u64 option"
  wd_recovered :: "u64 option"
  wd_mem :: wm_table
  wd_imm :: "wm_table option"
  wd_files :: "wm_file list"
  wd_floor :: "watermark_floor option"
  wd_history :: "u64 set"
  wd_session :: "u64 set"
  wd_asserted :: "u64 set"
  wd_exposed :: "u64 set"

definition bounds_at :: "u64 option \<Rightarrow> watermark_interval" where
  "bounds_at e = (case e of None \<Rightarrow> no_watermark | Some p \<Rightarrow> \<lparr> wm_low = Some p, wm_high = Some p \<rparr>)"

text \<open>\<open>DbImpl::new_memtable\<close>: the interval starts closed at what is established.\<close>

definition wm_new_memtable :: "u64 option \<Rightarrow> wm_table" where
  "wm_new_memtable established = \<lparr> wt_interval = bounds_at established, wt_positions = {} \<rparr>"

definition wm_write :: "u64 \<Rightarrow> wm_db \<Rightarrow> wm_db" where
  "wm_write p d =
     d\<lparr> wd_mem := (wd_mem d)\<lparr> wt_positions := insert p (wt_positions (wd_mem d)) \<rparr>,
        wd_history := insert p (wd_history d), wd_session := insert p (wd_session d) \<rparr>"

text \<open>What the instance is when a call comes in: opened to read only, failed for good, or with a background error.\<close>

record wm_instance =
  wi_read_only :: bool
  wi_unusable :: bool
  wi_bg_error :: status

definition wm_set_watermark :: "wm_instance \<Rightarrow> u64 \<Rightarrow> wm_db \<Rightarrow> status \<times> wm_db" where
  "wm_set_watermark i position d =
     (if wi_read_only i then (Config, d)
      else if wi_unusable i then (Unusable, d)
      else if wi_bg_error i \<noteq> Ok \<and> is_terminal (wi_bg_error i) then (wi_bg_error i, d)
      else if (case wd_established d of None \<Rightarrow> False | Some e \<Rightarrow> position < e) then (Config, d)
      else
        let m = wd_mem d;
            m = (if wt_positions m = {}
                 then m\<lparr> wt_interval := \<lparr> wm_low = Some position, wm_high = Some position \<rparr> \<rparr>
                 else m\<lparr> wt_interval := (wt_interval m)\<lparr> wm_high := Some position \<rparr> \<rparr>)
        in (Ok, d\<lparr> wd_established := Some position, wd_mem := m,
                   wd_asserted := insert position (wd_asserted d) \<rparr>))"

text \<open>Freezing the memtable, possible while no frozen one waits, and flushing the frozen one.\<close>

definition wm_freeze :: "wm_db \<Rightarrow> wm_db" where
  "wm_freeze d = d\<lparr> wd_imm := Some (wd_mem d), wd_mem := wm_new_memtable (wd_established d) \<rparr>"

definition wm_flush :: "nat \<Rightarrow> wm_db \<Rightarrow> wm_db" where
  "wm_flush store d =
     (case wd_imm d of
        None \<Rightarrow> d
      | Some m \<Rightarrow>
          d\<lparr> wd_files := wd_files d @ [\<lparr> wf_store = store, wf_interval = wt_interval m, wf_positions = wt_positions m \<rparr>],
             wd_imm := None, wd_exposed := wd_exposed d - wt_positions m \<rparr>)"

text \<open>
  Open after a crash. \<open>wm_discard\<close> is the loop of \<open>verify_stores_and_discard\<close> over one lost store,
  \<open>wm_adopt\<close> is \<open>adopt_recovered_watermark\<close>.
\<close>

definition wm_discard :: "nat \<Rightarrow> recovery_watermark \<times> wm_db \<Rightarrow> recovery_watermark \<times> wm_db" where
  "wm_discard store rd =
     (case rd of (r, d) \<Rightarrow>
      if \<not> list_ex (\<lambda>f. wf_store f = store) (wd_files d) then (r, d)
      else
        let r = fold (\<lambda>f r. observe_discarded r (wf_interval f)) (filter (\<lambda>f. wf_store f = store) (wd_files d)) r;
            floor = (case wd_floor d of None \<Rightarrow> \<lparr> fl_position = discarded_lower_bound r \<rparr> | Some f \<Rightarrow> f);
            floor = lower_to floor (discarded_lower_bound r)
        in (r, d\<lparr> wd_files := filter (\<lambda>f. wf_store f \<noteq> store) (wd_files d), wd_floor := Some floor \<rparr>))"

definition floor_resume :: "watermark_floor option \<Rightarrow> u64 option \<Rightarrow> u64 option" where
  "floor_resume floor resume =
     (case floor of
        None \<Rightarrow> resume
      | Some f \<Rightarrow>
          (case fl_position f of
             None \<Rightarrow> None
           | Some p \<Rightarrow> (case resume of Some q \<Rightarrow> Some (min q p) | None \<Rightarrow> Some p)))"

definition wm_adopt :: "recovery_watermark \<times> wm_db \<Rightarrow> wm_db" where
  "wm_adopt rd =
     (case rd of (r, d) \<Rightarrow>
      let r = fold (\<lambda>f r. observe_survivor r (wf_interval f)) (wd_files d) r;
          recovered = floor_resume (wd_floor d) (resume_after r)
      in d\<lparr> wd_recovered := recovered, wd_established := recovered,
            wd_mem := wm_new_memtable recovered \<rparr>)"

definition wm_reopen :: "nat list \<Rightarrow> wm_db \<Rightarrow> wm_db" where
  "wm_reopen lost d =
     wm_adopt (fold wm_discard lost
       (RecoveryWatermark, d\<lparr> wd_imm := None, wd_mem := wm_new_memtable None, wd_session := {} \<rparr>))"

definition in_memory :: "wm_db \<Rightarrow> u64 set" where
  "in_memory d = wt_positions (wd_mem d) \<union> (case wd_imm d of None \<Rightarrow> {} | Some m \<Rightarrow> wt_positions m)"

text \<open>\<open>applied\<close> is the status of the manifest write that clears the floor.\<close>

definition wm_mark_recovery_complete :: "wm_instance \<Rightarrow> status \<Rightarrow> wm_db \<Rightarrow> status \<times> wm_db" where
  "wm_mark_recovery_complete i applied d =
     (if wi_read_only i then (Ok, d)
      else if wd_floor d = None then (Ok, d)
      else if applied \<noteq> Ok then (applied, d)
      else (Ok, d\<lparr> wd_floor := None, wd_exposed := wd_exposed d \<union> in_memory d \<rparr>))"

definition wm_start :: wm_db where
  "wm_start = \<lparr> wd_established = None, wd_recovered = None, wd_mem = wm_new_memtable None, wd_imm = None,
     wd_files = [], wd_floor = None, wd_history = {}, wd_session = {}, wd_asserted = {}, wd_exposed = {} \<rparr>"

text \<open>\<open>Stats::durable_watermark\<close>; \<open>transient\<close> says which stores may be lost.\<close>

definition durable_watermark :: "(nat \<Rightarrow> bool) \<Rightarrow> wm_db \<Rightarrow> u64 option" where
  "durable_watermark transient d =
     (let fs = wd_files d;
          high = fold (\<lambda>f a. accumulate_max a (wm_high (wf_interval f))) fs None;
          ts = filter (\<lambda>f. transient (wf_store f)) fs;
          low = fold (\<lambda>f a. accumulate_min a (wm_low (wf_interval f))) ts None
      in if ts = [] then high
         else if list_ex (\<lambda>f. wm_low (wf_interval f) = None) ts then None else low)"

section \<open>What the embedder promises\<close>

text \<open>
  A position is written after the established watermark only, and either again, in a replay, or
  above everything ever established. A watermark is set when everything up to it has been written
  since the recovered position. Completion of a replay is declared when everything above the
  recovered position has been written again.
\<close>

definition may_write :: "u64 \<Rightarrow> wm_db \<Rightarrow> bool" where
  "may_write p d \<longleftrightarrow>
     (\<forall>e. wd_established d = Some e \<longrightarrow> e < p) \<and> (p \<in> wd_history d \<or> (\<forall>a \<in> wd_asserted d. a < p))"

definition recovered_or_written :: "u64 \<Rightarrow> wm_db \<Rightarrow> bool" where
  "recovered_or_written q d \<longleftrightarrow> (\<exists>r. wd_recovered d = Some r \<and> q \<le> r) \<or> q \<in> wd_session d"

definition may_set_watermark :: "u64 \<Rightarrow> wm_db \<Rightarrow> bool" where
  "may_set_watermark m d \<longleftrightarrow> (\<forall>q \<in> wd_history d. q \<le> m \<longrightarrow> recovered_or_written q d)"

definition replay_written :: "wm_db \<Rightarrow> bool" where
  "replay_written d \<longleftrightarrow> (\<forall>q \<in> wd_history d. recovered_or_written q d)"

definition positions_of :: "wm_file list \<Rightarrow> u64 set" where
  "positions_of fs = (\<Union>f \<in> set fs. wf_positions f)"

inductive wm_reach :: "wm_db \<Rightarrow> bool" where
  do_start: "wm_reach wm_start"
| do_write: "wm_reach d \<Longrightarrow> may_write p d \<Longrightarrow> wm_reach (wm_write p d)"
| do_set_watermark: "wm_reach d \<Longrightarrow> may_set_watermark m d \<Longrightarrow> wm_reach (snd (wm_set_watermark i m d))"
| do_freeze: "wm_reach d \<Longrightarrow> wd_imm d = None \<Longrightarrow> wm_reach (wm_freeze d)"
| do_flush: "wm_reach d \<Longrightarrow> wm_reach (wm_flush store d)"
| do_compact: "wm_reach d \<Longrightarrow> set ins = set (filter sel (wd_files d)) \<Longrightarrow> ins \<noteq> [] \<Longrightarrow>
    \<forall>f \<in> set outs. wf_interval f = compaction_watermark (map wf_interval ins) \<Longrightarrow>
    positions_of outs = positions_of ins \<Longrightarrow>
    wm_reach (d\<lparr> wd_files := filter (\<lambda>f. \<not> sel f) (wd_files d) @ outs \<rparr>)"
| do_reopen: "wm_reach d \<Longrightarrow> wm_reach (wm_reopen lost d)"
| do_complete: "wm_reach d \<Longrightarrow> replay_written d \<Longrightarrow> wm_reach (snd (wm_mark_recovery_complete i applied d))"

section \<open>The invariant\<close>

definition covered :: "u64 set \<Rightarrow> u64 set \<Rightarrow> u64 \<Rightarrow> bool" where
  "covered H X a \<longleftrightarrow> (\<forall>q \<in> H. q \<le> a \<longrightarrow> q \<in> X)"

lemma covered_mono: "covered H X a \<Longrightarrow> X \<subseteq> Y \<Longrightarrow> b \<le> a \<Longrightarrow> covered H Y b"
  by (force simp: covered_def)

lemma covered_insert: "covered H X a \<Longrightarrow> p \<in> H \<or> a < p \<Longrightarrow> covered (insert p H) X a"
  by (auto simp: covered_def)

text \<open>An interval is sound for the positions it is attached to: nothing at or below its lower bound.\<close>

definition interval_ok :: "u64 set \<Rightarrow> watermark_interval \<Rightarrow> u64 set \<Rightarrow> bool" where
  "interval_ok A w ps \<longleftrightarrow>
     (\<forall>l. wm_low w = Some l \<longrightarrow> l \<in> A \<and> (\<forall>q \<in> ps. l < q) \<and> (\<exists>h. wm_high w = Some h \<and> l \<le> h))
     \<and> (\<forall>h. wm_high w = Some h \<longrightarrow> h \<in> A)"

definition files_ok :: "u64 set \<Rightarrow> wm_file list \<Rightarrow> bool" where
  "files_ok A fs \<longleftrightarrow> (\<forall>f \<in> set fs. interval_ok A (wf_interval f) (wf_positions f))"

definition floor_ok :: "u64 set \<Rightarrow> u64 set \<Rightarrow> u64 set \<Rightarrow> wm_file list \<Rightarrow> watermark_floor option \<Rightarrow> bool" where
  "floor_ok A H X fs floor \<longleftrightarrow>
     (case floor of
        None \<Rightarrow> \<forall>f \<in> set fs. \<forall>h. wm_high (wf_interval f) = Some h \<longrightarrow> covered H (positions_of fs \<union> X) h
      | Some fl \<Rightarrow> \<forall>p. fl_position fl = Some p \<longrightarrow> p \<in> A \<and> covered H (positions_of fs \<union> X) p)"

definition wm_inv :: "wm_db \<Rightarrow> bool" where
  "wm_inv d \<longleftrightarrow>
     (let A = wd_asserted d; H = wd_history d; F = positions_of (wd_files d) \<union> wd_exposed d; X = F \<union> in_memory d; m = wd_mem d in
      files_ok A (wd_files d) \<and> floor_ok A H (wd_exposed d) (wd_files d) (wd_floor d)
      \<and> interval_ok A (wt_interval m) (wt_positions m)
      \<and> (\<forall>l. wm_low (wt_interval m) = Some l \<longrightarrow> (\<exists>e. wd_established d = Some e \<and> l \<le> e))
      \<and> (\<forall>h. wm_high (wt_interval m) = Some h \<longrightarrow> covered H X h)
      \<and> (\<forall>i. wd_imm d = Some i \<longrightarrow> interval_ok A (wt_interval i) (wt_positions i)
           \<and> (\<forall>h. wm_high (wt_interval i) = Some h \<longrightarrow> covered H (F \<union> wt_positions i) h))
      \<and> (\<forall>e. wd_established d = Some e \<longrightarrow> e \<in> A \<and> covered H X e)
      \<and> (\<forall>r. wd_recovered d = Some r \<longrightarrow> r \<in> A \<and> covered H F r)
      \<and> wd_session d \<subseteq> X)"

lemmas wm_inv_defs = wm_inv_def Let_def files_ok_def floor_ok_def in_memory_def

lemma wm_inv_start: "wm_inv wm_start"
  by (simp add: wm_inv_defs wm_start_def wm_new_memtable_def bounds_at_def no_watermark_def interval_ok_def)

lemma floor_ok_insert:
  "floor_ok A H X fs fl \<Longrightarrow> files_ok A fs \<Longrightarrow> p \<in> H \<or> (\<forall>a \<in> A. a < p) \<Longrightarrow> floor_ok A (insert p H) X fs fl"
  by (auto simp: floor_ok_def files_ok_def interval_ok_def intro: covered_insert split: option.splits)

lemma wm_inv_write:
  assumes inv: "wm_inv d" and p: "may_write p d"
  shows "wm_inv (wm_write p d)"
proof -
  let ?A = "wd_asserted d" and ?H = "wd_history d" and ?F = "positions_of (wd_files d)"
  have new: "p \<in> ?H \<or> (\<forall>a \<in> ?A. a < p)" using p by (simp add: may_write_def)
  have cov: "covered (insert p ?H) Y a" if "covered ?H X a" "a \<in> ?A" "X \<subseteq> Y" for X Y a
    using covered_insert [OF that(1), of p] new that(2,3) covered_mono [of _ X a Y a] by auto
  have low: "l < p" if "wm_low (wt_interval (wd_mem d)) = Some l" for l
    using that inv p by (fastforce simp: wm_inv_defs may_write_def)
  have high: "h \<in> ?A" if "wm_high (wt_interval (wd_mem d)) = Some h" for h
    using that inv by (simp add: wm_inv_defs interval_ok_def)
  have imm: "h \<in> ?A" if "wd_imm d = Some i" "wm_high (wt_interval i) = Some h" for i h
    using that inv by (simp add: wm_inv_defs interval_ok_def)
  have "floor_ok ?A (insert p ?H) (wd_exposed d) (wd_files d) (wd_floor d)"
    using inv new by (intro floor_ok_insert) (simp_all add: wm_inv_def Let_def)
  then show ?thesis
    using inv low high imm
    unfolding wm_inv_def Let_def wm_write_def in_memory_def
    by (auto simp: interval_ok_def intro: cov split: option.splits)
qed

lemma covered_written:
  assumes "wm_inv d" and "may_set_watermark m d"
  shows "covered (wd_history d) (positions_of (wd_files d) \<union> wd_exposed d \<union> in_memory d) m"
  unfolding covered_def
proof (intro ballI impI)
  fix q assume "q \<in> wd_history d" "q \<le> m"
  with assms(2) have "recovered_or_written q d" by (simp add: may_set_watermark_def)
  then show "q \<in> positions_of (wd_files d) \<union> wd_exposed d \<union> in_memory d"
    using assms(1) \<open>q \<in> wd_history d\<close>
    by (auto simp: recovered_or_written_def wm_inv_def Let_def covered_def)
qed

lemma wm_inv_set_watermark:
  assumes inv: "wm_inv d" and m: "may_set_watermark m d"
  shows "wm_inv (snd (wm_set_watermark i m d))"
proof -
  note cov = covered_written [OF inv m]
  have mono: "interval_ok (insert m (wd_asserted d)) w ps" if "interval_ok (wd_asserted d) w ps" for w ps
    using that by (auto simp: interval_ok_def)
  have fl: "files_ok (insert m (wd_asserted d)) (wd_files d)"
    "floor_ok (insert m (wd_asserted d)) (wd_history d) (wd_exposed d) (wd_files d) (wd_floor d)"
    using inv mono by (auto simp: wm_inv_defs split: option.splits)
  show ?thesis
  proof (cases "fst (wm_set_watermark i m d) = Ok \<and> snd (wm_set_watermark i m d) \<noteq> d")
    case False
    then have "snd (wm_set_watermark i m d) = d"
      by (auto simp: wm_set_watermark_def Let_def split: if_splits option.splits)
    then show ?thesis using inv by simp
  next
    case True
    then have est: "\<And>e. wd_established d = Some e \<Longrightarrow> e \<le> m" by (auto simp: wm_set_watermark_def split: if_splits)
    have low: "l \<le> m" if "wm_low (wt_interval (wd_mem d)) = Some l" for l
      using that inv est by (fastforce simp: wm_inv_def Let_def)
    have st: "snd (wm_set_watermark i m d) = d\<lparr> wd_established := Some m,
        wd_mem := (if wt_positions (wd_mem d) = {}
           then (wd_mem d)\<lparr> wt_interval := \<lparr> wm_low = Some m, wm_high = Some m \<rparr> \<rparr>
           else (wd_mem d)\<lparr> wt_interval := (wt_interval (wd_mem d))\<lparr> wm_high := Some m \<rparr> \<rparr>),
        wd_asserted := insert m (wd_asserted d) \<rparr>"
      using True by (auto simp: wm_set_watermark_def Let_def split: option.splits if_splits)
    show ?thesis
      using inv cov fl mono low unfolding st wm_inv_def Let_def in_memory_def
      by (cases "wt_positions (wd_mem d) = {}") (auto simp: interval_ok_def)
  qed
qed

lemma interval_ok_bounds:
  "(\<And>e. est = Some e \<Longrightarrow> e \<in> A) \<Longrightarrow> interval_ok A (bounds_at est) {}"
  by (auto simp: interval_ok_def bounds_at_def no_watermark_def split: option.splits)

lemma wm_inv_freeze:
  assumes inv: "wm_inv d" and "wd_imm d = None"
  shows "wm_inv (wm_freeze d)"
proof -
  have "interval_ok (wd_asserted d) (bounds_at (wd_established d)) {}"
    using inv by (intro interval_ok_bounds) (simp add: wm_inv_def Let_def)
  then show ?thesis
    using assms unfolding wm_inv_def Let_def in_memory_def wm_freeze_def wm_new_memtable_def
    by (auto simp: bounds_at_def no_watermark_def split: option.splits)
qed

lemma positions_of_append: "positions_of (fs @ gs) = positions_of fs \<union> positions_of gs"
  by (auto simp: positions_of_def)

lemma wm_inv_flush:
  assumes inv: "wm_inv d"
  shows "wm_inv (wm_flush store d)"
proof (cases "wd_imm d")
  case None
  with inv show ?thesis by (simp add: wm_flush_def)
next
  case (Some i)
  have X: "positions_of (wd_files d @ [\<lparr> wf_store = store, wf_interval = w, wf_positions = ps \<rparr>])
      = positions_of (wd_files d) \<union> ps" for w ps
    by (auto simp: positions_of_def)
  show ?thesis
    using inv Some
    unfolding wm_inv_def Let_def in_memory_def wm_flush_def floor_ok_def files_ok_def X
    by (auto simp: X Un_assoc Un_commute Un_left_commute split: option.splits intro: covered_mono)
qed

lemma wm_inv_complete:
  assumes inv: "wm_inv d" and "replay_written d"
  shows "wm_inv (snd (wm_mark_recovery_complete i applied d))"
proof (cases "snd (wm_mark_recovery_complete i applied d) = d")
  case False
  then have d': "snd (wm_mark_recovery_complete i applied d) = d\<lparr> wd_floor := None, wd_exposed := wd_exposed d \<union> in_memory d \<rparr>"
    by (auto simp: wm_mark_recovery_complete_def)
  have all: "covered (wd_history d) (positions_of (wd_files d) \<union> (wd_exposed d \<union> in_memory d)) h" for h
    using assms unfolding covered_def wm_inv_def Let_def replay_written_def recovered_or_written_def by blast
  have "covered (wd_history d) (positions_of (wd_files d) \<union> (wd_exposed d \<union> in_memory d) \<union> Y) h" for h Y
    using covered_mono [OF all] by blast
  then show ?thesis
    using inv all unfolding d' wm_inv_def Let_def by (auto simp: floor_ok_def in_memory_def)
qed (use inv in simp)

subsection \<open>Compaction\<close>

text \<open>What a merged interval has to do with those it was merged from.\<close>

definition merged_from :: "watermark_interval \<Rightarrow> watermark_interval set \<Rightarrow> bool" where
  "merged_from m ws \<longleftrightarrow>
     (\<forall>l. wm_low m = Some l \<longrightarrow> (\<forall>w \<in> ws. \<exists>k. wm_low w = Some k \<and> l \<le> k) \<and> (\<exists>w \<in> ws. wm_low w = Some l))
     \<and> (\<forall>h. wm_high m = Some h \<longrightarrow> (\<exists>w \<in> ws. wm_high w = Some h))
     \<and> (\<forall>w \<in> ws. \<forall>k. wm_high w = Some k \<longrightarrow> (\<exists>h. wm_high m = Some h \<and> k \<le> h))"

lemma merged_from_merge: "merged_from m ws \<Longrightarrow> merged_from (wm_merge m w) (insert w ws)"
  unfolding merged_from_def wm_merge_def
  by (auto simp: min_def max_def split: option.splits if_splits) (force+)?

lemma merged_from_fold: "merged_from m ws \<Longrightarrow> merged_from (fold (\<lambda>w m. wm_merge m w) vs m) (set vs \<union> ws)"
proof (induction vs arbitrary: m ws)
  case (Cons v vs)
  from Cons.IH [OF merged_from_merge [OF Cons.prems]] show ?case by simp
qed simp

lemma merged_from_compaction: "ws \<noteq> [] \<Longrightarrow> merged_from (compaction_watermark ws) (set ws)"
proof (cases ws)
  case (Cons w vs)
  have "merged_from w {w}" by (auto simp: merged_from_def)
  from merged_from_fold [OF this, of vs] show ?thesis by (simp add: Cons)
qed simp

lemma merged_interval_ok:
  assumes "merged_from m (wf_interval ` set fs)" and "files_ok A fs" and "ps \<subseteq> positions_of fs"
  shows "interval_ok A m ps"
proof -
  have "l \<in> A \<and> (\<forall>q \<in> ps. l < q) \<and> (\<exists>h. wm_high m = Some h \<and> l \<le> h)" if low: "wm_low m = Some l" for l
  proof -
    obtain f where f: "f \<in> set fs" "wm_low (wf_interval f) = Some l"
      using assms(1) low unfolding merged_from_def by blast
    from f assms(2) obtain k where k: "l \<in> A" "wm_high (wf_interval f) = Some k" "l \<le> k"
      unfolding files_ok_def interval_ok_def by blast
    then obtain h where "wm_high m = Some h" "k \<le> h"
      using assms(1) f(1) unfolding merged_from_def by blast
    moreover have "l < q" if q: "q \<in> ps" for q
    proof -
      obtain g where g: "g \<in> set fs" "q \<in> wf_positions g" using q assms(3) by (auto simp: positions_of_def)
      then obtain j where "wm_low (wf_interval g) = Some j" "l \<le> j"
        using assms(1) low unfolding merged_from_def by blast
      moreover have "j < q" using g assms(2) calculation(1) unfolding files_ok_def interval_ok_def by blast
      ultimately show ?thesis by simp
    qed
    ultimately show ?thesis using k by auto
  qed
  moreover have "h \<in> A" if "wm_high m = Some h" for h
    using assms that unfolding merged_from_def files_ok_def interval_ok_def by blast
  ultimately show ?thesis unfolding interval_ok_def by blast
qed

lemma wm_inv_compact:
  assumes inv: "wm_inv d" and ins: "set ins = set (filter sel (wd_files d))" "ins \<noteq> []"
    and outs: "\<forall>f \<in> set outs. wf_interval f = compaction_watermark (map wf_interval ins)"
    and pos: "positions_of outs = positions_of ins"
  shows "wm_inv (d\<lparr> wd_files := filter (\<lambda>f. \<not> sel f) (wd_files d) @ outs \<rparr>)"
proof -
  let ?fs = "filter (\<lambda>f. \<not> sel f) (wd_files d) @ outs"
  have P: "positions_of ?fs = positions_of (wd_files d)"
    using ins(1) unfolding positions_of_append pos by (auto simp: positions_of_def)
  have m: "merged_from (compaction_watermark (map wf_interval ins)) (wf_interval ` set ins)"
    using merged_from_compaction [of "map wf_interval ins"] ins(2) by simp
  have ok: "files_ok (wd_asserted d) (wd_files d)" using inv by (simp add: wm_inv_def Let_def)
  then have "files_ok (wd_asserted d) ins" using ins(1) by (simp add: files_ok_def)
  then have "interval_ok (wd_asserted d) (compaction_watermark (map wf_interval ins)) (wf_positions f)"
    if "f \<in> set outs" for f
    using that pos by (intro merged_interval_ok [OF m]) (auto simp: positions_of_def)
  then have files: "files_ok (wd_asserted d) ?fs" using ok outs by (auto simp: files_ok_def)
  have "\<exists>g \<in> set (wd_files d). wm_high (wf_interval g) = Some h"
    if "f \<in> set ?fs" "wm_high (wf_interval f) = Some h" for f h
    using that outs m ins(1) unfolding merged_from_def by fastforce
  then have "floor_ok (wd_asserted d) (wd_history d) (wd_exposed d) ?fs (wd_floor d)"
    using inv unfolding wm_inv_def Let_def floor_ok_def P by (fastforce split: option.splits)
  with files show ?thesis using inv unfolding wm_inv_def Let_def in_memory_def by (simp add: P)
qed

subsection \<open>Loss and recovery\<close>

text \<open>
  The state of an open that has dropped the files \<open>lost\<close>: its fold over their intervals, and the floor,
  which by then is at or below every lower bound among them.
\<close>

definition observed :: "wm_file list \<Rightarrow> recovery_watermark \<Rightarrow> bool" where
  "observed lost r \<longleftrightarrow>
     (rw_anything_discarded r \<longleftrightarrow> lost \<noteq> [])
     \<and> (rw_discarded_lower_bound_absent r \<longleftrightarrow> (\<exists>f \<in> set lost. wm_low (wf_interval f) = None))
     \<and> (\<forall>b. rw_discarded_lower_bound r = Some b \<longrightarrow> (\<exists>f \<in> set lost. wm_low (wf_interval f) = Some b))
     \<and> (\<forall>f \<in> set lost. \<forall>l. wm_low (wf_interval f) = Some l \<longrightarrow> (\<exists>b. rw_discarded_lower_bound r = Some b \<and> b \<le> l))
     \<and> rw_surviving_upper_bound r = None"

lemma observed_fold:
  "observed lost r \<Longrightarrow> observed (lost @ fs) (fold (\<lambda>f r. observe_discarded r (wf_interval f)) fs r)"
proof (induction fs arbitrary: lost r)
  case (Cons f fs)
  have "observed (lost @ [f]) (observe_discarded r (wf_interval f))"
    using Cons.prems
    by (cases "wm_low (wf_interval f)"; cases "rw_discarded_lower_bound r")
       (fastforce simp: observed_def observe_discarded_def accumulate_min_def min_def)+
  from Cons.IH [OF this] show ?case by simp
qed simp

lemma observed_bound:
  assumes "observed lost r" and "discarded_lower_bound r = Some b"
  shows "\<exists>f \<in> set lost. wm_low (wf_interval f) = Some b"
    and "f \<in> set lost \<Longrightarrow> \<exists>l. wm_low (wf_interval f) = Some l \<and> b \<le> l"
  using assms unfolding observed_def discarded_lower_bound_def
  by (auto split: if_splits)

definition loss_ok :: "u64 set \<Rightarrow> u64 set \<Rightarrow> u64 set \<Rightarrow> wm_file list \<Rightarrow> recovery_watermark \<times> wm_db \<Rightarrow> bool" where
  "loss_ok A H X lost rd \<longleftrightarrow>
     (case rd of (r, d) \<Rightarrow>
        observed lost r \<and> files_ok A (lost @ wd_files d) \<and> floor_ok A H X (wd_files d) (wd_floor d)
        \<and> (lost \<noteq> [] \<longrightarrow> (\<exists>f. wd_floor d = Some f \<and>
             (\<forall>p. fl_position f = Some p \<longrightarrow> (\<exists>b. discarded_lower_bound r = Some b \<and> p \<le> b))))
        \<and> wd_asserted d = A \<and> wd_history d = H \<and> wd_exposed d = X)"

text \<open>Positions at or below every lower bound of the files on a store survive the loss of the store.\<close>

lemma covered_after_loss:
  assumes "files_ok A fs" and "covered H (positions_of fs \<union> X) p"
    and "\<And>f. f \<in> set fs \<Longrightarrow> wf_store f = store \<Longrightarrow> \<exists>l. wm_low (wf_interval f) = Some l \<and> p \<le> l"
  shows "covered H (positions_of (filter (\<lambda>f. wf_store f \<noteq> store) fs) \<union> X) p"
  unfolding covered_def
proof (intro ballI impI)
  fix q assume q: "q \<in> H" "q \<le> p"
  then consider "q \<in> X" | f where "f \<in> set fs" "q \<in> wf_positions f"
    using assms(2) by (auto simp: covered_def positions_of_def)
  then show "q \<in> positions_of (filter (\<lambda>f. wf_store f \<noteq> store) fs) \<union> X"
  proof cases
    case (2 f)
    have "wf_store f \<noteq> store"
    proof
      assume "wf_store f = store"
      with assms(3) 2 obtain l where "wm_low (wf_interval f) = Some l" "p \<le> l" by blast
      moreover have "l < q" using assms(1) 2 calculation(1) unfolding files_ok_def interval_ok_def by blast
      ultimately show False using q(2) by simp
    qed
    then show ?thesis using 2 by (auto simp: positions_of_def)
  qed simp
qed

lemma lower_to_position:
  "fl_position (lower_to f b) = Some p \<Longrightarrow>
     \<exists>p0 b0. fl_position f = Some p0 \<and> b = Some b0 \<and> p = (if b0 < p0 then b0 else p0)"
  by (cases "fl_position f"; cases b) (auto simp: lower_to_def split: if_splits)

lemma loss_ok_discard:
  assumes "loss_ok A H X lost (r, d)"
  shows "\<exists>lost'. loss_ok A H X lost' (wm_discard store (r, d))"
proof (cases "list_ex (\<lambda>f. wf_store f = store) (wd_files d)")
  case False
  then show ?thesis using assms by (auto simp: wm_discard_def)
next
  case True
  let ?gone = "filter (\<lambda>f. wf_store f = store) (wd_files d)" and ?rest = "filter (\<lambda>f. wf_store f \<noteq> store) (wd_files d)"
  define r' where "r' = fold (\<lambda>f r. observe_discarded r (wf_interval f)) ?gone r"
  define fl where "fl = lower_to (case wd_floor d of None \<Rightarrow> \<lparr> fl_position = discarded_lower_bound r' \<rparr> | Some f \<Rightarrow> f)
      (discarded_lower_bound r')"
  have st: "wm_discard store (r, d) = (r', d\<lparr> wd_files := ?rest, wd_floor := Some fl \<rparr>)"
    using True unfolding fl_def r'_def by (simp add: wm_discard_def Let_def)
  have obs: "observed (lost @ ?gone) r'"
    using assms observed_fold [of lost r ?gone] by (simp add: loss_ok_def r'_def)
  have files: "files_ok A (lost @ wd_files d)" using assms by (simp add: loss_ok_def)
  have ne: "?gone \<noteq> []" using True by (auto simp: list_ex_iff filter_empty_conv)
  have pos: "\<exists>b. discarded_lower_bound r' = Some b \<and> p \<le> b \<and> p \<in> A \<and> covered H (positions_of (wd_files d) \<union> X) p"
    if p: "fl_position fl = Some p" for p
  proof (cases "wd_floor d")
    case None
    then have b: "discarded_lower_bound r' = Some p"
      using p by (auto simp: fl_def lower_to_def split: option.splits if_splits)
    then obtain g where g: "g \<in> set (lost @ ?gone)" "wm_low (wf_interval g) = Some p"
      using observed_bound(1) [OF obs] by blast
    obtain f where f: "f \<in> set ?gone" using ne by fastforce
    then obtain l where l: "wm_low (wf_interval f) = Some l" "p \<le> l"
      using observed_bound(2) [OF obs b, of f] by auto
    then obtain h where h: "wm_high (wf_interval f) = Some h" "l \<le> h"
      using files f unfolding files_ok_def interval_ok_def by fastforce
    have "floor_ok A H X (wd_files d) None" using assms None by (simp add: loss_ok_def)
    then have "covered H (positions_of (wd_files d) \<union> X) h"
      using f h(1) by (auto simp: floor_ok_def)
    then have "covered H (positions_of (wd_files d) \<union> X) p"
      using l(2) h(2) by (elim covered_mono) auto
    moreover have "p \<in> A" using g files unfolding files_ok_def interval_ok_def by auto
    ultimately show ?thesis using b by blast
  next
    case (Some f0)
    then obtain p0 b where pb: "fl_position f0 = Some p0" "discarded_lower_bound r' = Some b"
        "p = (if b < p0 then b else p0)"
      using lower_to_position [OF p [unfolded fl_def]] by auto
    then obtain g where g: "g \<in> set (lost @ ?gone)" "wm_low (wf_interval g) = Some b"
      using observed_bound(1) [OF obs] by blast
    then have "b \<in> A" using files unfolding files_ok_def interval_ok_def by auto
    moreover have "p0 \<in> A \<and> covered H (positions_of (wd_files d) \<union> X) p0"
      using assms Some pb(1) by (simp add: loss_ok_def floor_ok_def)
    ultimately show ?thesis
      using pb covered_mono [of H "positions_of (wd_files d) \<union> X" p0 "positions_of (wd_files d) \<union> X" p]
      by (auto split: if_splits)
  qed
  have "covered H (positions_of ?rest \<union> X) p \<and> p \<in> A" if p: "fl_position fl = Some p" for p
  proof -
    obtain b where b: "discarded_lower_bound r' = Some b" "p \<le> b" "p \<in> A" "covered H (positions_of (wd_files d) \<union> X) p"
      using pos [OF p] by blast
    have "\<exists>l. wm_low (wf_interval f) = Some l \<and> p \<le> l" if "f \<in> set (wd_files d)" "wf_store f = store" for f
      using observed_bound(2) [OF obs b(1), of f] that b(2) by fastforce
    then have "covered H (positions_of ?rest \<union> X) p"
      using files b(4) by (intro covered_after_loss [of A]) (auto simp: files_ok_def)
    with b(3) show ?thesis by blast
  qed
  then have "floor_ok A H X ?rest (Some fl)" by (simp add: floor_ok_def)
  moreover have "files_ok A ((lost @ ?gone) @ ?rest)" using files by (auto simp: files_ok_def)
  moreover have "wd_asserted d = A" "wd_history d = H" "wd_exposed d = X" using assms by (simp_all add: loss_ok_def)
  ultimately have "loss_ok A H X (lost @ ?gone) (wm_discard store (r, d))"
    using obs pos unfolding st loss_ok_def by fastforce
  then show ?thesis ..
qed

lemma loss_ok_discards: "loss_ok A H X lost rd \<Longrightarrow> \<exists>lost'. loss_ok A H X lost' (fold wm_discard stores rd)"
proof (induction stores arbitrary: lost rd)
  case (Cons store stores)
  obtain r d where rd: "rd = (r, d)" by fastforce
  with loss_ok_discard Cons.prems obtain lost' where "loss_ok A H X lost' (wm_discard store rd)" by blast
  from Cons.IH [OF this] show ?case by simp
qed auto

lemma observe_survivors:
  "rw_anything_discarded (fold (\<lambda>f r. observe_survivor r (wf_interval f)) fs r) = rw_anything_discarded r"
  "discarded_lower_bound (fold (\<lambda>f r. observe_survivor r (wf_interval f)) fs r) = discarded_lower_bound r"
  "rw_surviving_upper_bound (fold (\<lambda>f r. observe_survivor r (wf_interval f)) fs r)
     = fold (\<lambda>f a. accumulate_max a (wm_high (wf_interval f))) fs (rw_surviving_upper_bound r)"
  by (induction fs arbitrary: r) (simp_all add: observe_survivor_def discarded_lower_bound_def)

lemma accumulate_max_member:
  "fold (\<lambda>f a. accumulate_max a (wm_high (wf_interval f))) fs a = Some h \<Longrightarrow>
     a = Some h \<or> (\<exists>f \<in> set fs. wm_high (wf_interval f) = Some h)"
proof (induction fs arbitrary: a)
  case (Cons f fs)
  have "accumulate_max a (wm_high (wf_interval f)) = Some h \<Longrightarrow> a = Some h \<or> wm_high (wf_interval f) = Some h"
    by (auto simp: accumulate_max_def max_def split: option.splits if_splits)
  with Cons.IH [of "accumulate_max a (wm_high (wf_interval f))"] Cons.prems show ?case by auto
qed simp

lemma adopted_covered:
  assumes "loss_ok A H X lost (r, d)" and "wd_recovered (wm_adopt (r, d)) = Some p"
  shows "p \<in> A \<and> covered H (positions_of (wd_files d) \<union> X) p"
proof -
  let ?r = "fold (\<lambda>f r. observe_survivor r (wf_interval f)) (wd_files d) r"
  have rec: "floor_resume (wd_floor d) (resume_after ?r) = Some p"
    using assms(2) by (simp add: wm_adopt_def Let_def)
  have fl: "floor_ok A H X (wd_files d) (wd_floor d)" and files: "files_ok A (wd_files d)"
    using assms(1) by (auto simp: loss_ok_def files_ok_def)
  show ?thesis
  proof (cases "wd_floor d")
    case None
    then have "lost = []" "resume_after ?r = Some p"
      using assms(1) rec by (auto simp: loss_ok_def floor_resume_def)
    then have "fold (\<lambda>f a. accumulate_max a (wm_high (wf_interval f))) (wd_files d) None = Some p"
      using assms(1) by (simp add: resume_after_def observe_survivors loss_ok_def observed_def)
    then obtain f where "f \<in> set (wd_files d)" "wm_high (wf_interval f) = Some p"
      using accumulate_max_member by fastforce
    with fl None files show ?thesis
      by (auto simp: floor_ok_def files_ok_def interval_ok_def)
  next
    case (Some f)
    with rec obtain q where q: "fl_position f = Some q" "p \<le> q"
      "p = q \<or> resume_after ?r = Some p"
      by (auto simp: floor_resume_def min_def split: option.splits if_splits)
    then have cov: "q \<in> A" "covered H (positions_of (wd_files d) \<union> X) q"
      using fl Some by (simp_all add: floor_ok_def)
    have "p \<in> A"
    proof (cases "p = q")
      case False
      then have res: "resume_after ?r = Some p" using q by blast
      show ?thesis
      proof (cases "lost = []")
        case True
        then have "fold (\<lambda>f a. accumulate_max a (wm_high (wf_interval f))) (wd_files d) None = Some p"
          using assms(1) res by (simp add: resume_after_def observe_survivors loss_ok_def observed_def)
        then obtain g where "g \<in> set (wd_files d)" "wm_high (wf_interval g) = Some p"
          using accumulate_max_member by fastforce
        with files show ?thesis by (auto simp: files_ok_def interval_ok_def)
      next
        case ne: False
        have "discarded_lower_bound r = Some p"
          using assms(1) res ne by (simp add: resume_after_def observe_survivors loss_ok_def observed_def)
        then obtain b where "q \<le> p" using assms(1) ne Some q(1) by (auto simp: loss_ok_def)
        with q(2) False show ?thesis by simp
      qed
    qed (use cov in simp)
    with cov q(2) show ?thesis by (blast intro: covered_mono)
  qed
qed

lemma wm_inv_reopen:
  assumes inv: "wm_inv d"
  shows "wm_inv (wm_reopen stores d)"
proof -
  let ?d0 = "d\<lparr> wd_imm := None, wd_mem := wm_new_memtable None, wd_session := {} \<rparr>"
  obtain r d1 where rd: "fold wm_discard stores (RecoveryWatermark, ?d0) = (r, d1)" by fastforce
  have keep: "wd_imm d2 = None \<and> wd_session d2 = {}"
    if "fold wm_discard ss (r0, d0) = (r2, d2)" "wd_imm d0 = None" "wd_session d0 = {}" for ss r0 d0 r2 d2
    using that
  proof (induction ss arbitrary: r0 d0)
    case (Cons s ss)
    obtain r1 d1 where "wm_discard s (r0, d0) = (r1, d1)" by fastforce
    moreover from this have "wd_imm d1 = None" "wd_session d1 = {}"
      using Cons.prems by (auto simp: wm_discard_def Let_def split: if_splits)
    ultimately show ?case using Cons by simp
  qed simp
  have "loss_ok (wd_asserted d) (wd_history d) (wd_exposed d) [] (RecoveryWatermark, ?d0)"
    using inv by (simp add: loss_ok_def wm_inv_def Let_def observed_def RecoveryWatermark_def)
  from loss_ok_discards [OF this, of stores] rd obtain lost
    where loss: "loss_ok (wd_asserted d) (wd_history d) (wd_exposed d) lost (r, d1)" by auto
  note cov = adopted_covered [OF loss]
  have k: "wd_imm d1 = None" "wd_session d1 = {}" using keep [OF rd] by auto
  have st: "wm_reopen stores d = wm_adopt (r, d1)" by (simp add: wm_reopen_def rd)
  define p where "p = wd_recovered (wm_adopt (r, d1))"
  have ad: "wm_adopt (r, d1) = d1\<lparr> wd_recovered := p, wd_established := p, wd_mem := wm_new_memtable p \<rparr>"
    by (simp add: wm_adopt_def p_def Let_def)
  have same: "wd_asserted d1 = wd_asserted d" "wd_history d1 = wd_history d" "wd_exposed d1 = wd_exposed d"
      "floor_ok (wd_asserted d) (wd_history d) (wd_exposed d) (wd_files d1) (wd_floor d1)" "files_ok (wd_asserted d) (wd_files d1)"
    using loss by (auto simp: loss_ok_def files_ok_def)
  have "interval_ok (wd_asserted d) (bounds_at p) {}"
    using cov by (intro interval_ok_bounds) (simp add: p_def)
  then show ?thesis
    using cov same k unfolding st ad wm_inv_def Let_def in_memory_def p_def [symmetric]
    by (auto simp: wm_new_memtable_def bounds_at_def no_watermark_def split: option.splits)
qed

lemma wm_reach_inv: "wm_reach d \<Longrightarrow> wm_inv d"
  by (induction rule: wm_reach.induct)
     (simp_all add: wm_inv_start wm_inv_write wm_inv_set_watermark wm_inv_freeze wm_inv_flush
       wm_inv_compact wm_inv_reopen wm_inv_complete)

section \<open>The live gauge\<close>

lemma discard_track:
  assumes "observed lost r" and "wd_floor d = (if lost = [] then None else Some \<lparr> fl_position = discarded_lower_bound r \<rparr>)"
    and "wm_discard store (r, d) = (r', d')" and "lost' = lost @ filter (\<lambda>f. wf_store f = store) (wd_files d)"
  shows "observed lost' r' \<and> wd_files d' = filter (\<lambda>f. wf_store f \<noteq> store) (wd_files d)
    \<and> wd_floor d' = (if lost' = [] then None else Some \<lparr> fl_position = discarded_lower_bound r' \<rparr>)"
proof (cases "list_ex (\<lambda>f. wf_store f = store) (wd_files d)")
  case False
  then have "filter (\<lambda>f. wf_store f = store) (wd_files d) = []" "filter (\<lambda>f. wf_store f \<noteq> store) (wd_files d) = wd_files d"
    by (auto simp: list_ex_iff filter_empty_conv filter_id_conv)
  with False assms show ?thesis by (simp add: wm_discard_def)
next
  case True
  let ?gone = "filter (\<lambda>f. wf_store f = store) (wd_files d)"
  have r': "r' = fold (\<lambda>f r. observe_discarded r (wf_interval f)) ?gone r"
    and d': "d' = d\<lparr> wd_files := filter (\<lambda>f. wf_store f \<noteq> store) (wd_files d),
        wd_floor := Some (lower_to (case wd_floor d of None \<Rightarrow> \<lparr> fl_position = discarded_lower_bound r' \<rparr> | Some f \<Rightarrow> f)
          (discarded_lower_bound r')) \<rparr>"
    using assms(3) True by (auto simp: wm_discard_def Let_def)
  have obs: "observed lost' r'" unfolding assms(4) r' by (rule observed_fold [OF assms(1)])
  have ne: "lost' \<noteq> []" using True by (auto simp: assms(4) list_ex_iff filter_empty_conv)
  have mono: "\<exists>b. discarded_lower_bound r = Some b \<and> b' \<le> b" if "discarded_lower_bound r' = Some b'" "lost \<noteq> []" for b'
  proof -
    have all: "\<exists>l. wm_low (wf_interval f) = Some l \<and> b' \<le> l" if "f \<in> set lost" for f
      using observed_bound(2) [OF obs \<open>discarded_lower_bound r' = Some b'\<close>, of f] that by (simp add: assms(4))
    obtain f where f: "f \<in> set lost" using \<open>lost \<noteq> []\<close> by fastforce
    from all [OF this] obtain l where "wm_low (wf_interval f) = Some l" by blast
    moreover have "\<not> rw_discarded_lower_bound_absent r" using assms(1) all unfolding observed_def by fastforce
    ultimately obtain b where b: "discarded_lower_bound r = Some b"
      using assms(1) f unfolding observed_def discarded_lower_bound_def by fastforce
    from observed_bound(1) [OF assms(1) this] all show ?thesis using b by fastforce
  qed
  have "lower_to (case wd_floor d of None \<Rightarrow> \<lparr> fl_position = discarded_lower_bound r' \<rparr> | Some f \<Rightarrow> f)
      (discarded_lower_bound r') = \<lparr> fl_position = discarded_lower_bound r' \<rparr>"
  proof (cases "lost = []")
    case True
    then show ?thesis using assms(2) by (simp add: lower_to_def split: option.split)
  next
    case False
    show ?thesis
    proof (cases "discarded_lower_bound r'")
      case None
      then show ?thesis using assms(2) False by (simp add: lower_to_def split: option.split)
    next
      case (Some b')
      with mono False obtain b where "discarded_lower_bound r = Some b" "b' \<le> b" by blast
      then show ?thesis using assms(2) False Some by (auto simp: lower_to_def)
    qed
  qed
  then show ?thesis using obs ne by (simp add: d')
qed

lemma discards_track:
  assumes "observed lost r" and "wd_floor d = (if lost = [] then None else Some \<lparr> fl_position = discarded_lower_bound r \<rparr>)"
    and "fold wm_discard stores (r, d) = (r', d')"
  shows "\<exists>lost'. observed lost' r' \<and> set lost' = set lost \<union> {f \<in> set (wd_files d). wf_store f \<in> set stores}
    \<and> wd_files d' = filter (\<lambda>f. wf_store f \<notin> set stores) (wd_files d)
    \<and> wd_floor d' = (if lost' = [] then None else Some \<lparr> fl_position = discarded_lower_bound r' \<rparr>)"
  using assms
proof (induction stores arbitrary: lost r d)
  case Nil
  then show ?case by auto
next
  case (Cons s stores)
  obtain r1 d1 where rd: "wm_discard s (r, d) = (r1, d1)" by fastforce
  note t = discard_track [OF Cons.prems(1,2) rd refl]
  from Cons.IH [OF conjunct1 [OF t] _ Cons.prems(3) [simplified, unfolded rd]] t obtain lost'
    where l: "observed lost' r'"
      "set lost' = set (lost @ filter (\<lambda>f. wf_store f = s) (wd_files d)) \<union> {f \<in> set (wd_files d1). wf_store f \<in> set stores}"
      "wd_files d' = filter (\<lambda>f. wf_store f \<notin> set stores) (wd_files d1)"
      "wd_floor d' = (if lost' = [] then None else Some \<lparr> fl_position = discarded_lower_bound r' \<rparr>)" by auto
  have f1: "wd_files d1 = filter (\<lambda>f. wf_store f \<noteq> s) (wd_files d)" using t by blast
  show ?case
  proof (intro exI conjI)
    show "observed lost' r'" by (rule l(1))
    show "set lost' = set lost \<union> {f \<in> set (wd_files d). wf_store f \<in> set (s # stores)}" using l(2) f1 by auto
    show "wd_files d' = filter (\<lambda>f. wf_store f \<notin> set (s # stores)) (wd_files d)"
      unfolding l(3) f1 filter_filter by (rule filter_cong) auto
    show "wd_floor d' = (if lost' = [] then None else Some \<lparr> fl_position = discarded_lower_bound r' \<rparr>)" by (rule l(4))
  qed
qed

lemma accumulate_min_least:
  assumes "fold (\<lambda>f a. accumulate_min a (wm_low (wf_interval f))) fs None = x"
  shows "(x = None \<longleftrightarrow> (\<forall>f \<in> set fs. wm_low (wf_interval f) = None))
    \<and> (\<forall>b. x = Some b \<longrightarrow> (\<exists>f \<in> set fs. wm_low (wf_interval f) = Some b)
         \<and> (\<forall>f \<in> set fs. \<forall>l. wm_low (wf_interval f) = Some l \<longrightarrow> b \<le> l))"
  using assms
proof (induction fs arbitrary: x rule: rev_induct)
  case (snoc f fs)
  let ?y = "fold (\<lambda>f a. accumulate_min a (wm_low (wf_interval f))) fs None"
  from snoc.IH [OF refl] snoc.prems show ?case
    by (cases ?y; cases "wm_low (wf_interval f)") (fastforce simp: accumulate_min_def min_def)+
qed simp

lemma observed_equal_bound:
  assumes "observed lost r" and "set lost = set fs" and "fs \<noteq> []" and "\<forall>f \<in> set fs. wm_low (wf_interval f) \<noteq> None"
  shows "discarded_lower_bound r = fold (\<lambda>f a. accumulate_min a (wm_low (wf_interval f))) fs None"
proof -
  define x where "x = fold (\<lambda>f a. accumulate_min a (wm_low (wf_interval f))) fs None"
  note x = accumulate_min_least [OF x_def [symmetric]]
  obtain f where "f \<in> set fs" using assms(3) by fastforce
  then have "x \<noteq> None" using x assms(4) by blast
  then obtain b where b: "x = Some b" by blast
  then obtain g where g: "g \<in> set fs" "wm_low (wf_interval g) = Some b" using x by blast
  have "\<not> rw_discarded_lower_bound_absent r" using assms(1,2,4) by (simp add: observed_def)
  moreover obtain c where c: "rw_discarded_lower_bound r = Some c" "c \<le> b"
    using assms(1,2) g unfolding observed_def by blast
  ultimately have "discarded_lower_bound r = Some c" by (simp add: discarded_lower_bound_def)
  moreover from observed_bound(1) [OF assms(1) this] obtain h where "h \<in> set fs" "wm_low (wf_interval h) = Some c"
    using assms(2) by blast
  ultimately have "discarded_lower_bound r = Some c" "b \<le> c" using x b by blast+
  with c b show ?thesis by (simp add: x_def)
qed

lemma wm_discards_history:
  "wd_history (snd (fold wm_discard stores rd)) = wd_history (snd rd) \<and> wd_exposed (snd (fold wm_discard stores rd)) = wd_exposed (snd rd)"
proof (induction stores arbitrary: rd)
  case (Cons s stores)
  have "wd_history (snd (wm_discard s rd)) = wd_history (snd rd)" "wd_exposed (snd (wm_discard s rd)) = wd_exposed (snd rd)"
    by (cases rd, simp add: wm_discard_def Let_def)+
  with Cons.IH [of "wm_discard s rd"] show ?case by simp
qed simp

lemma wm_reopen_history: "wd_history (wm_reopen lost d) = wd_history d" "wd_exposed (wm_reopen lost d) = wd_exposed d"
proof -
  have "wd_history (wm_adopt rd) = wd_history (snd rd)" "wd_exposed (wm_adopt rd) = wd_exposed (snd rd)" for rd
    by (cases rd, simp add: wm_adopt_def Let_def)+
  then show "wd_history (wm_reopen lost d) = wd_history d" "wd_exposed (wm_reopen lost d) = wd_exposed d"
    by (simp_all add: wm_reopen_def wm_discards_history)
qed

section \<open>Properties\<close>

text \<open>
  [C14] Recovery certifies no lost write, with one exception. Whatever sequence of writes, watermarks, freezes, flushes,
  compactions, losses and declared completions of replays a store has seen, when it is opened again after
  losing any set of stores and reports a position to resume after, every write ever made at or below that
  position is held by a surviving file, or it was in a memtable when \<open>mark_recovery_complete\<close> cleared a
  floor and no flush has written it since. Without such a write nothing lost is certified.
\<close>

theorem recovered_position_sound:
  assumes "wm_reach d" and "wd_recovered (wm_reopen lost d) = Some p"
    and "q \<in> wd_history d" and "q \<le> p"
  shows "(\<exists>f \<in> set (wd_files (wm_reopen lost d)). q \<in> wf_positions f) \<or> q \<in> wd_exposed d"
proof -
  have "wm_inv (wm_reopen lost d)" by (intro wm_inv_reopen wm_reach_inv assms(1))
  then have "covered (wd_history (wm_reopen lost d)) (positions_of (wd_files (wm_reopen lost d)) \<union> wd_exposed (wm_reopen lost d)) p"
    using assms(2) by (simp add: wm_inv_def Let_def)
  then show ?thesis using assms(3,4) by (auto simp: covered_def positions_of_def wm_reopen_history)
qed

text \<open>
  [C27] The live gauge is the recovery rule: while no loss is on record, \<open>Stats::durable_watermark\<close> is the
  position an open would report if every store that may be lost were lost now.
\<close>

theorem durable_watermark_is_recovery:
  assumes "wd_floor d = None" and "\<forall>f \<in> set (wd_files d). transient (wf_store f) \<longleftrightarrow> wf_store f \<in> set lost"
  shows "durable_watermark transient d = wd_recovered (wm_reopen lost d)"
proof -
  let ?d0 = "d\<lparr> wd_imm := None, wd_mem := wm_new_memtable None, wd_session := {} \<rparr>"
  let ?ts = "filter (\<lambda>f. transient (wf_store f)) (wd_files d)"
  obtain r d1 where rd: "fold wm_discard lost (RecoveryWatermark, ?d0) = (r, d1)" by fastforce
  have "observed [] RecoveryWatermark" by (simp add: observed_def RecoveryWatermark_def)
  from discards_track [OF this _ rd] assms(1) obtain ls
    where ls: "observed ls r" "set ls = {f \<in> set (wd_files d). wf_store f \<in> set lost}"
      "wd_files d1 = filter (\<lambda>f. wf_store f \<notin> set lost) (wd_files d)"
      "wd_floor d1 = (if ls = [] then None else Some \<lparr> fl_position = discarded_lower_bound r \<rparr>)" by auto
  have ts: "set ls = set ?ts" using ls(2) assms(2) by auto
  let ?r = "fold (\<lambda>f r. observe_survivor r (wf_interval f)) (wd_files d1) r"
  have rec: "wd_recovered (wm_reopen lost d) = floor_resume (wd_floor d1) (resume_after ?r)"
    by (simp add: wm_reopen_def rd wm_adopt_def Let_def)
  show ?thesis
  proof (cases "?ts = []")
    case True
    then have "ls = []" using ts by (metis set_empty)
    moreover have "wd_files d1 = wd_files d"
      unfolding ls(3) using True assms(2) by (auto simp: filter_empty_conv filter_id_conv)
    moreover have "\<not> rw_anything_discarded r" "rw_surviving_upper_bound r = None"
      using ls(1) calculation(1) by (simp_all add: observed_def)
    ultimately show ?thesis
      using True unfolding rec ls(4)
      by (simp add: durable_watermark_def floor_resume_def resume_after_def observe_survivors Let_def)
  next
    case False
    then have ne: "ls \<noteq> []" using ts by (metis set_empty)
    then have any: "resume_after ?r = discarded_lower_bound r"
      using ls(1) by (simp add: resume_after_def observe_survivors observed_def)
    have rec': "wd_recovered (wm_reopen lost d) = discarded_lower_bound r"
      unfolding rec ls(4) any using ne by (simp add: floor_resume_def split: option.split)
    show ?thesis
    proof (cases "\<exists>f \<in> set ?ts. wm_low (wf_interval f) = None")
      case True
      then have "discarded_lower_bound r = None"
        using ls(1) unfolding observed_def discarded_lower_bound_def ts by simp
      then show ?thesis unfolding rec' using True False by (simp add: durable_watermark_def Let_def list_ex_iff)
    next
      case all: False
      from observed_equal_bound [OF ls(1) ts False] all
      show ?thesis unfolding rec' using False by (auto simp: durable_watermark_def Let_def list_ex_iff)
    qed
  qed
qed

text \<open>
  A trace that loses a store. Store 0 is transient and takes position 11, store 1 is durable and takes
  position 21 under a watermark of 30; then store 0 is lost.
\<close>

definition sound_instance :: wm_instance where
  "sound_instance = \<lparr> wi_read_only = False, wi_unusable = False, wi_bg_error = Ok \<rparr>"

definition before_loss :: wm_db where
  "before_loss =
     (let d = snd (wm_set_watermark sound_instance 10 wm_start);
          d = wm_flush 0 (wm_freeze (wm_write 11 d));
          d = snd (wm_set_watermark sound_instance 20 d);
          d = snd (wm_set_watermark sound_instance 30 (wm_write 21 d))
      in wm_flush 1 (wm_freeze d))"

definition after_loss :: wm_db where "after_loss = wm_reopen [0] before_loss"

definition replayed :: wm_db where
  "replayed = snd (wm_set_watermark sound_instance 30 (wm_write 21 (wm_write 11 after_loss)))"

lemmas wm_ops = wm_set_watermark_def wm_flush_def wm_freeze_def wm_write_def wm_new_memtable_def
  bounds_at_def no_watermark_def wm_start_def sound_instance_def Let_def

lemma before_loss_eq:
  "before_loss = \<lparr> wd_established = Some 30, wd_recovered = None,
     wd_mem = \<lparr> wt_interval = \<lparr> wm_low = Some 30, wm_high = Some 30 \<rparr>, wt_positions = {} \<rparr>, wd_imm = None,
     wd_files = [\<lparr> wf_store = 0, wf_interval = \<lparr> wm_low = Some 10, wm_high = Some 10 \<rparr>, wf_positions = {11} \<rparr>,
                 \<lparr> wf_store = 1, wf_interval = \<lparr> wm_low = Some 20, wm_high = Some 30 \<rparr>, wf_positions = {21} \<rparr>],
     wd_floor = None, wd_history = {21, 11}, wd_session = {21, 11}, wd_asserted = {30, 20, 10}, wd_exposed = {} \<rparr>"
  by (simp add: before_loss_def wm_ops)

lemma after_loss_eq:
  "after_loss = \<lparr> wd_established = Some 10, wd_recovered = Some 10,
     wd_mem = \<lparr> wt_interval = \<lparr> wm_low = Some 10, wm_high = Some 10 \<rparr>, wt_positions = {} \<rparr>, wd_imm = None,
     wd_files = [\<lparr> wf_store = 1, wf_interval = \<lparr> wm_low = Some 20, wm_high = Some 30 \<rparr>, wf_positions = {21} \<rparr>],
     wd_floor = Some \<lparr> fl_position = Some 10 \<rparr>, wd_history = {21, 11}, wd_session = {}, wd_asserted = {30, 20, 10}, wd_exposed = {} \<rparr>"
  unfolding after_loss_def before_loss_eq
  by (simp add: wm_reopen_def wm_discard_def wm_adopt_def RecoveryWatermark_def observe_discarded_def
      observe_survivor_def accumulate_min_def accumulate_max_def discarded_lower_bound_def lower_to_def
      resume_after_def floor_resume_def wm_ops)

lemma replayed_eq:
  "replayed = \<lparr> wd_established = Some 30, wd_recovered = Some 10,
     wd_mem = \<lparr> wt_interval = \<lparr> wm_low = Some 10, wm_high = Some 30 \<rparr>, wt_positions = {21, 11} \<rparr>, wd_imm = None,
     wd_files = [\<lparr> wf_store = 1, wf_interval = \<lparr> wm_low = Some 20, wm_high = Some 30 \<rparr>, wf_positions = {21} \<rparr>],
     wd_floor = Some \<lparr> fl_position = Some 10 \<rparr>, wd_history = {21, 11}, wd_session = {21, 11}, wd_asserted = {30, 20, 10}, wd_exposed = {} \<rparr>"
  unfolding replayed_def after_loss_eq by (auto simp: wm_ops)

lemma before_loss_reach: "wm_reach before_loss"
proof -
  let ?d1 = "snd (wm_set_watermark sound_instance 10 wm_start)"
  have d1: "wm_reach ?d1"
    by (intro wm_reach.intros) (simp add: may_set_watermark_def wm_start_def)
  have "wm_reach (wm_write 11 ?d1)"
    by (intro wm_reach.do_write d1) (simp add: may_write_def wm_ops)
  then have "wm_reach (wm_flush 0 (wm_freeze (wm_write 11 ?d1)))" (is "wm_reach ?d2")
    by (intro wm_reach.do_flush wm_reach.do_freeze) (simp_all add: wm_ops)
  then have "wm_reach (snd (wm_set_watermark sound_instance 20 ?d2))" (is "wm_reach ?d3")
    by (intro wm_reach.do_set_watermark)
       (simp_all add: may_set_watermark_def recovered_or_written_def wm_ops)
  then have "wm_reach (wm_write 21 ?d3)"
    by (intro wm_reach.do_write) (simp_all add: may_write_def wm_ops)
  then have "wm_reach (snd (wm_set_watermark sound_instance 30 (wm_write 21 ?d3)))" (is "wm_reach ?d4")
    by (intro wm_reach.do_set_watermark)
       (simp_all add: may_set_watermark_def recovered_or_written_def wm_ops)
  then have "wm_reach (wm_flush 1 (wm_freeze ?d4))"
    by (intro wm_reach.do_flush wm_reach.do_freeze) (simp_all add: wm_ops)
  then show ?thesis by (simp add: before_loss_def Let_def)
qed

lemma replayed_reach: "wm_reach replayed"
proof -
  have "wm_reach after_loss" unfolding after_loss_def by (rule wm_reach.do_reopen [OF before_loss_reach])
  then have "wm_reach (wm_write 11 after_loss)"
    by (rule wm_reach.do_write) (simp add: may_write_def after_loss_eq)
  then have "wm_reach (wm_write 21 (wm_write 11 after_loss))"
    by (rule wm_reach.do_write) (simp add: may_write_def after_loss_eq wm_write_def)
  then show ?thesis unfolding replayed_def
    by (rule wm_reach.do_set_watermark)
       (simp add: may_set_watermark_def recovered_or_written_def after_loss_eq wm_write_def)
qed

lemmas wm_open_ops = wm_reopen_def wm_adopt_def RecoveryWatermark_def observe_survivor_def
  accumulate_max_def resume_after_def floor_resume_def wm_new_memtable_def Let_def

text \<open>
  The floor can be cleared before the replay is durable. \<open>mark_recovery_complete\<close> does not flush:
  the embedder has lost a store, has written everything above the reported position again and
  declares the replay complete, as its precondition asks. A crash before the next flush loses the
  replay, and the open that follows reports position 30 although the write at position 11 is in no file.
\<close>

theorem completed_replay_lost:
  "wm_reach replayed \<and> wd_recovered after_loss = Some 10 \<and> replay_written replayed
   \<and> wd_recovered (wm_reopen [] (snd (wm_mark_recovery_complete sound_instance Ok replayed))) = Some 30
   \<and> 11 \<in> wd_history replayed
   \<and> 11 \<notin> positions_of (wd_files (wm_reopen [] (snd (wm_mark_recovery_complete sound_instance Ok replayed))))"
proof -
  have "wd_recovered (wm_reopen [] (snd (wm_mark_recovery_complete sound_instance Ok replayed))) = Some 30"
    "wd_files (wm_reopen [] (snd (wm_mark_recovery_complete sound_instance Ok replayed)))
      = [\<lparr> wf_store = 1, wf_interval = \<lparr> wm_low = Some 20, wm_high = Some 30 \<rparr>, wf_positions = {21} \<rparr>]"
    by (simp_all add: replayed_eq wm_mark_recovery_complete_def sound_instance_def wm_open_ops)
  then show ?thesis
    using replayed_reach
    by (simp add: after_loss_eq positions_of_def) (simp add: replayed_eq replay_written_def recovered_or_written_def)
qed

text \<open>
  The live gauge forgets a recorded loss: right after the loss of store 0 the gauge reports 30,
  the upper bound of a surviving file, while recovery reports 10 then and at every later open.
\<close>

theorem durable_watermark_ignores_floor:
  "durable_watermark (\<lambda>s. s = 0) after_loss = Some 30 \<and> wd_recovered after_loss = Some 10
   \<and> wd_recovered (wm_reopen [0] after_loss) = Some 10"
  by (simp add: after_loss_eq durable_watermark_def accumulate_max_def wm_open_ops wm_discard_def)

section \<open>Witnesses\<close>

theorem recovered_position_sound_witness:
  "wd_recovered (wm_reopen [] before_loss) = Some 30
   \<and> (\<exists>f \<in> set (wd_files (wm_reopen [] before_loss)). 11 \<in> wf_positions f)"
proof -
  have p: "wd_recovered (wm_reopen [] before_loss) = Some 30"
    by (simp add: before_loss_eq wm_open_ops)
  moreover have "11 \<in> wd_history before_loss" "wd_exposed before_loss = {}" by (simp_all add: before_loss_eq)
  ultimately show ?thesis
    using recovered_position_sound [OF before_loss_reach p, of 11] by simp
qed

theorem durable_watermark_is_recovery_witness:
  "durable_watermark (\<lambda>s. s = 0) before_loss = Some 10 \<and> wd_recovered (wm_reopen [0] before_loss) = Some 10"
proof -
  have "durable_watermark (\<lambda>s. s = 0) before_loss = wd_recovered (wm_reopen [0] before_loss)"
    by (rule durable_watermark_is_recovery) (simp_all add: before_loss_eq)
  moreover have "wd_recovered after_loss = Some 10" by (simp add: after_loss_eq)
  ultimately show ?thesis by (simp add: after_loss_def)
qed

end
