(* ===== verification/Version_Edit.thy ===== *)
theory Version_Edit
  imports Framing Watermark "HOL-Library.Monad_Syntax"
begin

text \<open>
  The records of the manifest, src/version/version\_edit.hpp and version\_edit.cpp: the metadata of a
  file, the edit that adds and removes files, the snapshot of a whole version, and their encodings.
  A read pointer and its limit are the bytes that remain.

  Levels are natural numbers: the engine never makes a negative one.
\<close>

section \<open>Records\<close>

record file_metadata =
  fm_level :: nat
  fm_file_number :: u64
  fm_store_id :: bytes
  fm_smallest_key :: bytes
  fm_largest_key :: bytes
  fm_file_bytes :: u64
  fm_num_entries :: u64
  fm_num_tombstones :: u64
  fm_num_range_tombstones :: u64
  fm_smallest_range_key :: bytes
  fm_largest_range_key :: bytes
  fm_compression :: compression
  fm_min_write_time_ms :: u64
  fm_max_write_time_ms :: u64
  fm_watermark :: watermark_interval
  fm_encryption_provider :: bytes
  fm_encryption_metadata :: bytes

definition effective_smallest :: "file_metadata \<Rightarrow> bytes" where
  "effective_smallest f =
     (if fm_num_range_tombstones f = 0 then fm_smallest_key f
      else if fm_num_entries f = 0 then fm_smallest_range_key f
      else min (fm_smallest_key f) (fm_smallest_range_key f))"

definition effective_largest :: "file_metadata \<Rightarrow> bytes" where
  "effective_largest f =
     (if fm_num_range_tombstones f = 0 then fm_largest_key f
      else if fm_num_entries f = 0 then fm_largest_range_key f
      else max (fm_largest_key f) (fm_largest_range_key f))"

definition range_may_cover :: "file_metadata \<Rightarrow> bytes \<Rightarrow> bool" where
  "range_may_cover f key \<longleftrightarrow>
     fm_num_range_tombstones f \<noteq> 0 \<and> fm_smallest_range_key f \<le> key \<and> key < fm_largest_range_key f"

record file_ref =
  fr_level :: nat
  fr_file_number :: u64

datatype floor_update = Silent | Set | Clear

record version_edit =
  ve_next_file_number :: u64
  ve_added :: "file_metadata list"
  ve_deleted :: "file_ref list"
  ve_compaction_pointers :: "(nat \<times> bytes) list"
  ve_truncation_point :: bytes
  ve_floor_update :: floor_update
  ve_watermark_floor :: watermark_floor

definition no_floor :: watermark_floor where
  "no_floor = \<lparr> fl_position = None \<rparr>"

definition VersionEdit :: version_edit where
  "VersionEdit = \<lparr> ve_next_file_number = 0, ve_added = [], ve_deleted = [], ve_compaction_pointers = [],
     ve_truncation_point = [], ve_floor_update = Silent, ve_watermark_floor = no_floor \<rparr>"

definition edit_empty :: "version_edit \<Rightarrow> bool" where
  "edit_empty e \<longleftrightarrow>
     ve_added e = [] \<and> ve_deleted e = [] \<and> ve_compaction_pointers e = [] \<and> ve_truncation_point e = []
     \<and> ve_floor_update e = Silent \<and> ve_next_file_number e = 0"

record version_snapshot =
  vs_next_file_number :: u64
  vs_files :: "file_metadata list"
  vs_compaction_pointers :: "(nat \<times> bytes) list"
  vs_truncation_point :: bytes
  vs_watermark_floor :: "watermark_floor option"

section \<open>Fields\<close>

definition kEditFormatVersion :: u32 where "kEditFormatVersion = 6"
definition kSnapshotFormatVersion :: u32 where "kSnapshotFormatVersion = 6"
definition kMaxLevels :: nat where "kMaxLevels = 1024"
definition kMaxManifestBytes :: nat where "kMaxManifestBytes = 256 * 2 ^ 20"

definition put_string :: "bytes \<Rightarrow> bytes" where
  "put_string s = put_varint64 (of_nat (length s)) @ s"

definition get_string :: "bytes \<Rightarrow> (bytes \<times> bytes) option" where
  "get_string p =
     do { (size, p) \<leftarrow> get_varint64 p;
          if length p < unat size then None else Some (take (unat size) p, drop (unat size) p) }"

definition put_watermark :: "watermark_interval \<Rightarrow> bytes" where
  "put_watermark w =
     put_varint64 ((if wm_low w \<noteq> None then 1 else 0) OR (if wm_high w \<noteq> None then 2 else 0))
     @ put_varint64 (case wm_low w of Some x \<Rightarrow> x | None \<Rightarrow> 0)
     @ put_varint64 (case wm_high w of Some x \<Rightarrow> x | None \<Rightarrow> 0)"

definition get_watermark :: "bytes \<Rightarrow> (watermark_interval \<times> bytes) option" where
  "get_watermark p =
     do { (flags, p) \<leftarrow> get_varint64 p;
          if 3 < flags then None else do {
          (low, p) \<leftarrow> get_varint64 p;
          (high, p) \<leftarrow> get_varint64 p;
          if flags AND 1 \<noteq> 0 \<and> flags AND 2 = 0 then None
          else
            let w = \<lparr> wm_low = (if flags AND 1 \<noteq> 0 then Some low else None),
                      wm_high = (if flags AND 2 \<noteq> 0 then Some high else None) \<rparr>
            in if wm_low w = None \<or> wm_high w = None \<or> the (wm_low w) \<le> the (wm_high w) then Some (w, p)
               else None } }"

definition compression_number :: "compression \<Rightarrow> u64" where
  "compression_number c = (case c of None_codec \<Rightarrow> 0 | Lz4 \<Rightarrow> 1 | Zstd \<Rightarrow> 2)"

definition put_file :: "file_metadata \<Rightarrow> bytes" where
  "put_file f =
     put_varint64 (of_nat (fm_level f))
     @ put_varint64 (fm_file_number f)
     @ put_string (fm_store_id f)
     @ put_string (fm_smallest_key f)
     @ put_string (fm_largest_key f)
     @ put_varint64 (fm_file_bytes f)
     @ put_varint64 (fm_num_entries f)
     @ put_varint64 (fm_num_tombstones f)
     @ put_varint64 (fm_num_range_tombstones f)
     @ put_string (fm_smallest_range_key f)
     @ put_string (fm_largest_range_key f)
     @ put_varint64 (compression_number (fm_compression f))
     @ put_varint64 (fm_min_write_time_ms f)
     @ put_varint64 (fm_max_write_time_ms f)
     @ put_watermark (fm_watermark f)
     @ put_string (fm_encryption_provider f)
     @ put_string (fm_encryption_metadata f)"

definition get_level :: "bytes \<Rightarrow> (nat \<times> bytes) option" where
  "get_level p =
     do { (level, p) \<leftarrow> get_varint64 p; if kMaxLevels < unat level then None else Some (unat level, p) }"

definition get_file :: "bytes \<Rightarrow> (file_metadata \<times> bytes) option" where
  "get_file p =
     do { (level, p) \<leftarrow> get_level p;
          (file_number, p) \<leftarrow> get_varint64 p;
          (store_id, p) \<leftarrow> get_string p;
          (smallest_key, p) \<leftarrow> get_string p;
          (largest_key, p) \<leftarrow> get_string p;
          (file_bytes, p) \<leftarrow> get_varint64 p;
          (num_entries, p) \<leftarrow> get_varint64 p;
          (num_tombstones, p) \<leftarrow> get_varint64 p;
          (num_range_tombstones, p) \<leftarrow> get_varint64 p;
          (smallest_range_key, p) \<leftarrow> get_string p;
          (largest_range_key, p) \<leftarrow> get_string p;
          (codec, p) \<leftarrow> get_varint64 p;
          if 2 < codec then None else do {
          (min_write_time_ms, p) \<leftarrow> get_varint64 p;
          (max_write_time_ms, p) \<leftarrow> get_varint64 p;
          (watermark, p) \<leftarrow> get_watermark p;
          (encryption_provider, p) \<leftarrow> get_string p;
          (encryption_metadata, p) \<leftarrow> get_string p;
          Some (\<lparr> fm_level = level, fm_file_number = file_number, fm_store_id = store_id,
             fm_smallest_key = smallest_key, fm_largest_key = largest_key, fm_file_bytes = file_bytes,
             fm_num_entries = num_entries, fm_num_tombstones = num_tombstones,
             fm_num_range_tombstones = num_range_tombstones, fm_smallest_range_key = smallest_range_key,
             fm_largest_range_key = largest_range_key, fm_compression = compression_of (ucast codec),
             fm_min_write_time_ms = min_write_time_ms, fm_max_write_time_ms = max_write_time_ms,
             fm_watermark = watermark, fm_encryption_provider = encryption_provider,
             fm_encryption_metadata = encryption_metadata \<rparr>, p) } }"

definition put_pointer :: "nat \<times> bytes \<Rightarrow> bytes" where
  "put_pointer x = put_varint64 (of_nat (fst x)) @ put_string (snd x)"

definition put_pointers :: "(nat \<times> bytes) list \<Rightarrow> bytes" where
  "put_pointers pointers = put_varint64 (of_nat (length pointers)) @ concat (map put_pointer pointers)"

definition get_pointer :: "bytes \<Rightarrow> ((nat \<times> bytes) \<times> bytes) option" where
  "get_pointer p =
     do { (level, p) \<leftarrow> get_level p; (key, p) \<leftarrow> get_string p; Some ((level, key), p) }"

definition get_pointers :: "bytes \<Rightarrow> ((nat \<times> bytes) list \<times> bytes) option" where
  "get_pointers p = do { (count, p) \<leftarrow> get_varint64 p; get_many get_pointer (unat count) p }"

definition put_floor_update :: "floor_update \<Rightarrow> watermark_floor \<Rightarrow> bytes" where
  "put_floor_update u floor =
     put_varint64 (case u of Silent \<Rightarrow> 0 | Set \<Rightarrow> (if fl_position floor \<noteq> None then 1 else 2) | Clear \<Rightarrow> 3)
     @ put_varint64 (case fl_position floor of Some x \<Rightarrow> x | None \<Rightarrow> 0)"

definition get_floor_update :: "bytes \<Rightarrow> ((floor_update \<times> watermark_floor) \<times> bytes) option" where
  "get_floor_update p =
     do { (state, p) \<leftarrow> get_varint64 p;
          if 3 < state then None else do {
          (v, p) \<leftarrow> get_varint64 p;
          Some (if state = 0 then (Silent, no_floor)
                else if state = 1 then (Set, \<lparr> fl_position = Some v \<rparr>)
                else if state = 2 then (Set, \<lparr> fl_position = None \<rparr>)
                else (Clear, no_floor), p) } }"

definition put_floor :: "watermark_floor option \<Rightarrow> bytes" where
  "put_floor floor =
     put_varint64 (case floor of None \<Rightarrow> 0 | Some f \<Rightarrow> if fl_position f \<noteq> None then 1 else 2)
     @ put_varint64 (case floor of None \<Rightarrow> 0 | Some f \<Rightarrow> (case fl_position f of Some x \<Rightarrow> x | None \<Rightarrow> 0))"

definition get_floor :: "bytes \<Rightarrow> (watermark_floor option \<times> bytes) option" where
  "get_floor p =
     do { (state, p) \<leftarrow> get_varint64 p;
          if 2 < state then None else do {
          (v, p) \<leftarrow> get_varint64 p;
          Some (if state = 0 then None else Some \<lparr> fl_position = (if state = 1 then Some v else None) \<rparr>, p) } }"

section \<open>Edits and snapshots\<close>

text \<open>\<open>frame\<close> drops the status of \<open>frame_block\<close> and keeps what it has appended.\<close>

definition frame :: "codec_library \<Rightarrow> bytes \<Rightarrow> compression \<Rightarrow> bytes" where
  "frame L content codec = snd (frame_block L content codec [])"

definition put_ref :: "file_ref \<Rightarrow> bytes" where
  "put_ref r = put_varint64 (of_nat (fr_level r)) @ put_varint64 (fr_file_number r)"

definition get_ref :: "bytes \<Rightarrow> (file_ref \<times> bytes) option" where
  "get_ref p =
     do { (level, p) \<leftarrow> get_level p; (number, p) \<leftarrow> get_varint64 p;
          Some (\<lparr> fr_level = level, fr_file_number = number \<rparr>, p) }"

definition edit_content :: "version_edit \<Rightarrow> bytes" where
  "edit_content e =
     put_varint32 kEditFormatVersion
     @ put_varint64 (ve_next_file_number e)
     @ put_varint64 (of_nat (length (ve_added e))) @ concat (map put_file (ve_added e))
     @ put_varint64 (of_nat (length (ve_deleted e))) @ concat (map put_ref (ve_deleted e))
     @ put_pointers (ve_compaction_pointers e)
     @ put_string (ve_truncation_point e)
     @ put_floor_update (ve_floor_update e) (ve_watermark_floor e)"

definition encode_version_edit :: "codec_library \<Rightarrow> version_edit \<Rightarrow> bytes" where
  "encode_version_edit L e = frame L (edit_content e) None_codec"

definition get_edit_fields :: "bytes \<Rightarrow> (version_edit \<times> bytes) option" where
  "get_edit_fields p =
     do { (next_file_number, p) \<leftarrow> get_varint64 p;
          (n, p) \<leftarrow> get_varint64 p;
          (added, p) \<leftarrow> get_many get_file (unat n) p;
          (n, p) \<leftarrow> get_varint64 p;
          (deleted, p) \<leftarrow> get_many get_ref (unat n) p;
          (pointers, p) \<leftarrow> get_pointers p;
          (truncation_point, p) \<leftarrow> get_string p;
          ((u, floor), p) \<leftarrow> get_floor_update p;
          Some (\<lparr> ve_next_file_number = next_file_number, ve_added = added, ve_deleted = deleted,
             ve_compaction_pointers = pointers, ve_truncation_point = truncation_point,
             ve_floor_update = u, ve_watermark_floor = floor \<rparr>, p) }"

definition decode_version_edit :: "codec_library \<Rightarrow> bytes \<Rightarrow> version_edit res" where
  "decode_version_edit L bs =
     (case unframe_block L bs kMaxManifestBytes of
        Inl s \<Rightarrow> Inl s
      | Inr content \<Rightarrow>
          (case get_varint32 content of
             None \<Rightarrow> Inl Corrupt
           | Some (format, p) \<Rightarrow>
               if format \<noteq> kEditFormatVersion then Inl Unsupported
               else (case get_edit_fields p of None \<Rightarrow> Inl Corrupt | Some (e, _) \<Rightarrow> Inr e)))"

definition snapshot_content :: "version_snapshot \<Rightarrow> bytes" where
  "snapshot_content s =
     put_varint32 kSnapshotFormatVersion
     @ put_varint64 (vs_next_file_number s)
     @ put_varint64 (of_nat (length (vs_files s))) @ concat (map put_file (vs_files s))
     @ put_pointers (vs_compaction_pointers s)
     @ put_string (vs_truncation_point s)
     @ put_floor (vs_watermark_floor s)"

definition encode_version_snapshot :: "codec_library \<Rightarrow> version_snapshot \<Rightarrow> bytes" where
  "encode_version_snapshot L s = frame L (snapshot_content s) Zstd"

definition get_snapshot_fields :: "bytes \<Rightarrow> (version_snapshot \<times> bytes) option" where
  "get_snapshot_fields p =
     do { (next_file_number, p) \<leftarrow> get_varint64 p;
          (n, p) \<leftarrow> get_varint64 p;
          (files, p) \<leftarrow> get_many get_file (unat n) p;
          (pointers, p) \<leftarrow> get_pointers p;
          (truncation_point, p) \<leftarrow> get_string p;
          (floor, p) \<leftarrow> get_floor p;
          Some (\<lparr> vs_next_file_number = next_file_number, vs_files = files, vs_compaction_pointers = pointers,
             vs_truncation_point = truncation_point, vs_watermark_floor = floor \<rparr>, p) }"

definition decode_version_snapshot :: "codec_library \<Rightarrow> bytes \<Rightarrow> version_snapshot res" where
  "decode_version_snapshot L bs =
     (case unframe_block L bs kMaxManifestBytes of
        Inl s \<Rightarrow> Inl s
      | Inr content \<Rightarrow>
          (case get_varint32 content of
             None \<Rightarrow> Inl Corrupt
           | Some (format, p) \<Rightarrow>
               if format \<noteq> kSnapshotFormatVersion then Inl Unsupported
               else (case get_snapshot_fields p of None \<Rightarrow> Inl Corrupt | Some (s, _) \<Rightarrow> Inr s)))"

section \<open>Every field reads back\<close>

definition fits :: "'a list \<Rightarrow> bool" where
  "fits xs \<longleftrightarrow> length xs < 2 ^ 64"

definition watermark_ok :: "watermark_interval \<Rightarrow> bool" where
  "watermark_ok w \<longleftrightarrow>
     (case wm_low w of None \<Rightarrow> True | Some l \<Rightarrow> (case wm_high w of None \<Rightarrow> False | Some h \<Rightarrow> l \<le> h))"

definition file_ok :: "file_metadata \<Rightarrow> bool" where
  "file_ok f \<longleftrightarrow>
     fm_level f \<le> kMaxLevels \<and> watermark_ok (fm_watermark f)
     \<and> fits (fm_store_id f) \<and> fits (fm_smallest_key f) \<and> fits (fm_largest_key f)
     \<and> fits (fm_smallest_range_key f) \<and> fits (fm_largest_range_key f)
     \<and> fits (fm_encryption_provider f) \<and> fits (fm_encryption_metadata f)"

lemma unat_of_nat_fits: "length xs < 2 ^ 64 \<Longrightarrow> unat (of_nat (length xs) :: u64) = length xs"
  by (simp add: unat_of_nat take_bit_nat_eq_self)

lemma unat_of_level: "l \<le> kMaxLevels \<Longrightarrow> unat (of_nat l :: u64) = l"
  by (simp add: unat_of_nat take_bit_nat_eq_self kMaxLevels_def)

lemma get_level_put [codec_simps]:
  "l \<le> kMaxLevels \<Longrightarrow> get_level (put_varint64 (of_nat l) @ rest) = Some (l, rest)"
  by (simp add: get_level_def codec_simps unat_of_level)

interpretation string_codec: field_codec put_string get_string fits
  by unfold_locales (simp add: put_string_def get_string_def codec_simps unat_of_nat_fits fits_def)

interpretation watermark_codec: field_codec put_watermark get_watermark watermark_ok
proof
  fix w :: watermark_interval and rest
  assume "watermark_ok w"
  then show "get_watermark (put_watermark w @ rest) = Some (w, rest)"
    by (cases w) (auto simp: put_watermark_def get_watermark_def codec_simps watermark_ok_def split: option.splits)
qed

lemma compression_of_number [simp]:
  "compression_of (ucast (compression_number c)) = c" "\<not> 2 < compression_number c"
  by (cases c; simp add: compression_number_def compression_of_def)+

interpretation file_codec: field_codec put_file get_file file_ok
  by unfold_locales
     (simp add: put_file_def get_file_def codec_simps file_ok_def string_codec.get_put watermark_codec.get_put)

interpretation pointer_codec: field_codec put_pointer get_pointer "\<lambda>(l, k). l \<le> kMaxLevels \<and> fits k"
  by unfold_locales
     (auto simp: put_pointer_def get_pointer_def codec_simps string_codec.get_put)

definition pointers_ok :: "(nat \<times> bytes) list \<Rightarrow> bool" where
  "pointers_ok ps \<longleftrightarrow> fits ps \<and> list_all (\<lambda>(l, k). l \<le> kMaxLevels \<and> fits k) ps"

interpretation pointers_codec: field_codec put_pointers get_pointers pointers_ok
  by unfold_locales
     (simp add: put_pointers_def get_pointers_def codec_simps pointers_ok_def pointer_codec.get_many_put
       unat_of_nat_fits fits_def list_all_iff)

interpretation ref_codec: field_codec put_ref get_ref "\<lambda>r. fr_level r \<le> kMaxLevels"
  by unfold_locales (simp add: put_ref_def get_ref_def codec_simps)

interpretation floor_codec: field_codec put_floor get_floor "\<lambda>_. True"
proof
  fix floor :: "watermark_floor option" and rest
  show "get_floor (put_floor floor @ rest) = Some (floor, rest)"
  proof (cases floor)
    case (Some f)
    then show ?thesis by (cases f) (simp add: put_floor_def get_floor_def codec_simps split: option.split)
  qed (simp add: put_floor_def get_floor_def codec_simps)
qed

text \<open>An edit that does not set a floor does not carry one either.\<close>

definition edit_view :: "version_edit \<Rightarrow> version_edit" where
  "edit_view e = e\<lparr> ve_watermark_floor := (if ve_floor_update e = Set then ve_watermark_floor e else no_floor) \<rparr>"

definition edit_ok :: "version_edit \<Rightarrow> bool" where
  "edit_ok e \<longleftrightarrow>
     fits (ve_added e) \<and> list_all file_ok (ve_added e)
     \<and> fits (ve_deleted e) \<and> list_all (\<lambda>r. fr_level r \<le> kMaxLevels) (ve_deleted e)
     \<and> pointers_ok (ve_compaction_pointers e) \<and> fits (ve_truncation_point e)"

definition snapshot_ok :: "version_snapshot \<Rightarrow> bool" where
  "snapshot_ok s \<longleftrightarrow>
     fits (vs_files s) \<and> list_all file_ok (vs_files s)
     \<and> pointers_ok (vs_compaction_pointers s) \<and> fits (vs_truncation_point s)"

lemma get_floor_update_put:
  "get_floor_update (put_floor_update u floor @ rest) = Some ((u, if u = Set then floor else no_floor), rest)"
  by (cases u; cases floor)
     (simp_all add: put_floor_update_def get_floor_update_def codec_simps split: option.split)

lemmas record_codecs =
  string_codec.get_put watermark_codec.get_put file_codec.get_many_put pointers_codec.get_put
  ref_codec.get_many_put floor_codec.get_put get_floor_update_put

lemma get_edit_fields_put:
  assumes "edit_ok e"
  shows "get_varint32 (edit_content e) = Some (kEditFormatVersion, drop (length (put_varint32 kEditFormatVersion)) (edit_content e))"
    and "get_edit_fields (drop (length (put_varint32 kEditFormatVersion)) (edit_content e)) = Some (edit_view e, [])"
proof -
  show "get_varint32 (edit_content e) = Some (kEditFormatVersion, drop (length (put_varint32 kEditFormatVersion)) (edit_content e))"
    by (simp add: edit_content_def codec_simps)
  have rest: "get_floor_update (put_floor_update u floor) = Some ((u, if u = Set then floor else no_floor), [])" for u floor
    using get_floor_update_put [of u floor "[]"] by simp
  show "get_edit_fields (drop (length (put_varint32 kEditFormatVersion)) (edit_content e)) = Some (edit_view e, [])"
    using assms
    by (simp add: edit_content_def get_edit_fields_def codec_simps edit_ok_def record_codecs rest unat_of_nat_fits
        fits_def list_all_iff edit_view_def)
qed

lemma get_snapshot_fields_put:
  assumes "snapshot_ok s"
  shows "get_varint32 (snapshot_content s) =
      Some (kSnapshotFormatVersion, drop (length (put_varint32 kSnapshotFormatVersion)) (snapshot_content s))"
    and "get_snapshot_fields (drop (length (put_varint32 kSnapshotFormatVersion)) (snapshot_content s)) = Some (s, [])"
proof -
  show "get_varint32 (snapshot_content s) =
      Some (kSnapshotFormatVersion, drop (length (put_varint32 kSnapshotFormatVersion)) (snapshot_content s))"
    by (simp add: snapshot_content_def codec_simps)
  show "get_snapshot_fields (drop (length (put_varint32 kSnapshotFormatVersion)) (snapshot_content s)) = Some (s, [])"
    using assms
    by (simp add: snapshot_content_def get_snapshot_fields_def codec_simps snapshot_ok_def record_codecs
        floor_codec.get_put_exact unat_of_nat_fits fits_def list_all_iff)
qed

section \<open>What decodes is well-formed\<close>

lemma bind_Some: "Option.bind x f = Some y \<longleftrightarrow> (\<exists>a. x = Some a \<and> f a = Some y)"
  by (cases x) auto

lemma get_string_wf: "get_string p = Some (s, q) \<Longrightarrow> fits s"
  using unat_u64 by (auto simp: get_string_def bind_Some fits_def min_less_iff_disj split: if_splits)

lemma get_watermark_wf: "get_watermark p = Some (w, q) \<Longrightarrow> watermark_ok w"
  by (auto simp: get_watermark_def bind_Some watermark_ok_def Let_def split: if_splits)

lemma get_level_wf: "get_level p = Some (l, q) \<Longrightarrow> l \<le> kMaxLevels"
  by (auto simp: get_level_def bind_Some split: if_splits)

lemma get_file_wf: "get_file p = Some (f, q) \<Longrightarrow> file_ok f"
  by (auto simp: get_file_def bind_Some file_ok_def split: if_splits
      dest!: get_level_wf get_string_wf get_watermark_wf)

lemma get_many_wf:
  "(\<And>p a q. g p = Some (a, q) \<Longrightarrow> P a) \<Longrightarrow> get_many g n p = Some (as, q) \<Longrightarrow> list_all P as \<and> length as = n"
  by (induction n arbitrary: p as) (auto split: option.splits)

lemma get_pointers_wf:
  assumes "get_pointers p = Some (ps, q)"
  shows "pointers_ok ps"
proof -
  obtain count r where "get_many get_pointer (unat (count :: u64)) r = Some (ps, q)"
    using assms by (auto simp: get_pointers_def bind_Some)
  moreover have "get_pointer p = Some (x, q) \<Longrightarrow> (\<lambda>(l, k). l \<le> kMaxLevels \<and> fits k) x" for p x q
    by (auto simp: get_pointer_def bind_Some dest: get_level_wf get_string_wf)
  ultimately show ?thesis
    using get_many_wf [of get_pointer "\<lambda>(l, k). l \<le> kMaxLevels \<and> fits k"] unat_u64 [of count]
    by (auto simp: pointers_ok_def fits_def)
qed

lemma get_files_wf: "get_many get_file (unat (n :: u64)) p = Some (fs, q) \<Longrightarrow> fits fs \<and> list_all file_ok fs"
  using get_many_wf [of get_file file_ok] get_file_wf unat_u64 [of n] by (auto simp: fits_def)

lemma get_refs_wf:
  "get_many get_ref (unat (n :: u64)) p = Some (rs, q) \<Longrightarrow> fits rs \<and> list_all (\<lambda>r. fr_level r \<le> kMaxLevels) rs"
proof -
  have "get_ref p = Some (r, q) \<Longrightarrow> fr_level r \<le> kMaxLevels" for p r q
    by (auto simp: get_ref_def bind_Some dest: get_level_wf)
  then show "get_many get_ref (unat n) p = Some (rs, q) \<Longrightarrow> ?thesis"
    using get_many_wf [of get_ref "\<lambda>r. fr_level r \<le> kMaxLevels"] unat_u64 [of n] by (auto simp: fits_def)
qed

lemma get_edit_fields_wf: "get_edit_fields p = Some (e, q) \<Longrightarrow> edit_ok e"
  by (auto simp: get_edit_fields_def bind_Some edit_ok_def split: if_splits
      dest!: get_files_wf get_refs_wf get_pointers_wf get_string_wf)

lemma get_snapshot_fields_wf: "get_snapshot_fields p = Some (s, q) \<Longrightarrow> snapshot_ok s"
  by (auto simp: get_snapshot_fields_def bind_Some snapshot_ok_def split: if_splits
      dest!: get_files_wf get_pointers_wf get_string_wf)

section \<open>Properties\<close>

lemma decode_encode_edit:
  assumes "codecs_ok L" and "edit_ok e" and n: "length (edit_content e) < 2 ^ 32"
  shows "decode_version_edit L (encode_version_edit L e) =
    (if kMaxManifestBytes < length (edit_content e) then Inl Corrupt else Inr (edit_view e))"
proof -
  have "frame_block L (edit_content e) None_codec [] = (Ok, encode_version_edit L e)"
    using frame_block_none [OF n, of L "[]"] by (auto simp: encode_version_edit_def frame_def intro: prod_eqI)
  from unframe_framed [OF assms(1) this, of kMaxManifestBytes] get_edit_fields_put [OF assms(2)]
  show ?thesis by (simp add: decode_version_edit_def)
qed

lemma decode_encode_snapshot:
  assumes "codecs_ok L" and "snapshot_ok s" and ok: "fst (frame_block L (snapshot_content s) Zstd []) = Ok"
  shows "decode_version_snapshot L (encode_version_snapshot L s) =
    (if kMaxManifestBytes < length (snapshot_content s) then Inl Corrupt else Inr s)"
proof -
  have "frame_block L (snapshot_content s) Zstd [] = (Ok, encode_version_snapshot L s)"
    using ok by (auto simp: encode_version_snapshot_def frame_def intro: prod_eqI)
  from unframe_framed [OF assms(1) this, of kMaxManifestBytes] get_snapshot_fields_put [OF assms(2)]
  show ?thesis by (simp add: decode_version_snapshot_def)
qed

text \<open>
  [C28] A version edit is read back as it was written: whatever files it adds and removes, and whatever it
  says of the truncation point, the compaction pointers and the watermark floor. The one exception is
  an edit of more than 256 MiB, which the writer frames without complaint and the reader refuses. A
  floor that the edit does not set is not carried.
\<close>

theorem version_edit_round_trip:
  assumes "codecs_ok L" and "edit_ok e" and "length (edit_content e) < 2 ^ 32"
  shows "decode_version_edit L (encode_version_edit L e) =
    (if kMaxManifestBytes < length (edit_content e) then Inl Corrupt
     else Inr (e\<lparr> ve_watermark_floor := (if ve_floor_update e = Set then ve_watermark_floor e else no_floor) \<rparr>))"
  using decode_encode_edit [OF assms] by (simp add: edit_view_def)

text \<open>
  A snapshot of a whole version is read back as it was written, when compressing it succeeded and
  it is no longer than the reader's bound.
\<close>

theorem version_snapshot_round_trip:
  assumes "codecs_ok L" and "snapshot_ok s" and "fst (frame_block L (snapshot_content s) Zstd []) = Ok"
    and "length (snapshot_content s) \<le> kMaxManifestBytes"
  shows "decode_version_snapshot L (encode_version_snapshot L s) = Inr s"
  using decode_encode_snapshot [OF assms(1-3)] assms(4) by simp

text \<open>
  [C29] Whatever bytes a manifest holds, what decodes is well-formed: every level is at most 1024, every
  watermark interval is ordered and has an upper bound if it has a lower one, and every count and
  length fits a 64-bit word.
\<close>

theorem manifest_decodes_well_formed:
  "(\<forall>e. decode_version_edit L bs = Inr e \<longrightarrow> edit_ok e)
   \<and> (\<forall>s. decode_version_snapshot L bs = Inr s \<longrightarrow> snapshot_ok s)"
  by (auto simp: decode_version_edit_def decode_version_snapshot_def get_edit_fields_wf get_snapshot_fields_wf
      split: sum.splits option.splits if_splits)

text \<open>
  A failure to compress a snapshot is not reported: \<open>frame\<close> drops the status, the encoding is the
  empty string, and what is stored as the state of the whole store is a record that never decodes.
\<close>

theorem snapshot_failure_silent:
  assumes "fst (frame_block L (snapshot_content s) Zstd []) \<noteq> Ok"
  shows "encode_version_snapshot L s = [] \<and> decode_version_snapshot L (encode_version_snapshot L s) = Inl Corrupt"
proof -
  have "encode_version_snapshot L s = []"
    using assms
    by (auto simp: encode_version_snapshot_def frame_def frame_block_def compress_zstd_def Let_def
        split: option.splits if_splits)
  moreover have "unframe_block L [] kMaxManifestBytes = Inl Corrupt"
    by (simp add: unframe_block_def kBlockTrailerLength_def)
  ultimately show ?thesis by (simp add: decode_version_snapshot_def)
qed

section \<open>Witnesses\<close>

definition sample_file :: file_metadata where
  "sample_file = \<lparr> fm_level = 1, fm_file_number = 7, fm_store_id = [104], fm_smallest_key = [1],
     fm_largest_key = [9], fm_file_bytes = 300, fm_num_entries = 2, fm_num_tombstones = 1,
     fm_num_range_tombstones = 0, fm_smallest_range_key = [], fm_largest_range_key = [], fm_compression = Lz4,
     fm_min_write_time_ms = 5, fm_max_write_time_ms = 6, fm_watermark = \<lparr> wm_low = Some 3, wm_high = Some 4 \<rparr>,
     fm_encryption_provider = [], fm_encryption_metadata = [] \<rparr>"

definition sample_edit :: version_edit where
  "sample_edit = VersionEdit\<lparr> ve_next_file_number := 8, ve_added := [sample_file],
     ve_deleted := [\<lparr> fr_level = 0, fr_file_number = 3 \<rparr>], ve_floor_update := Set,
     ve_watermark_floor := \<lparr> fl_position = Some 2 \<rparr> \<rparr>"

definition sample_snapshot :: version_snapshot where
  "sample_snapshot = \<lparr> vs_next_file_number = 8, vs_files = [sample_file], vs_compaction_pointers = [(1, [5])],
     vs_truncation_point = [], vs_watermark_floor = Some \<lparr> fl_position = None \<rparr> \<rparr>"

lemma sample_ok: "file_ok sample_file" "edit_ok sample_edit" "snapshot_ok sample_snapshot"
  by (simp_all add: sample_file_def sample_edit_def sample_snapshot_def file_ok_def edit_ok_def snapshot_ok_def
      pointers_ok_def fits_def watermark_ok_def kMaxLevels_def VersionEdit_def)

lemma sample_sizes: "length (edit_content sample_edit) \<le> 400" "length (snapshot_content sample_snapshot) \<le> 400"
  by code_simp+

lemma zero_run_zstd: "length c < 2 ^ 32 \<Longrightarrow> fst (frame_block zero_run_codecs c Zstd []) = Ok"
  by (simp add: frame_block_def compress_zstd_def zero_run_codecs_def zero_run_compress_def Let_def split_def)

theorem version_edit_round_trip_witness:
  "decode_version_edit zero_run_codecs (encode_version_edit zero_run_codecs sample_edit) = Inr sample_edit"
proof -
  have "length (edit_content sample_edit) < 2 ^ 32" "\<not> kMaxManifestBytes < length (edit_content sample_edit)"
    using sample_sizes(1) by (simp_all add: kMaxManifestBytes_def)
  with version_edit_round_trip [OF zero_run_codecs_ok sample_ok(2)] show ?thesis
    by (simp add: sample_edit_def)
qed

theorem version_snapshot_round_trip_witness:
  "decode_version_snapshot zero_run_codecs (encode_version_snapshot zero_run_codecs sample_snapshot) = Inr sample_snapshot"
proof (rule version_snapshot_round_trip [OF zero_run_codecs_ok sample_ok(3)])
  show "fst (frame_block zero_run_codecs (snapshot_content sample_snapshot) Zstd []) = Ok"
    by (rule zero_run_zstd) (use sample_sizes(2) in simp)
  show "length (snapshot_content sample_snapshot) \<le> kMaxManifestBytes"
    using sample_sizes(2) by (simp add: kMaxManifestBytes_def)
qed

theorem manifest_decodes_well_formed_witness:
  "\<exists>e. decode_version_edit zero_run_codecs (encode_version_edit zero_run_codecs sample_edit) = Inr e
     \<and> list_all file_ok (ve_added e)"
proof -
  have "length (edit_content sample_edit) < 2 ^ 32" "\<not> kMaxManifestBytes < length (edit_content sample_edit)"
    using sample_sizes(1) by (simp_all add: kMaxManifestBytes_def)
  then obtain e where "decode_version_edit zero_run_codecs (encode_version_edit zero_run_codecs sample_edit) = Inr e"
    using decode_encode_edit [OF zero_run_codecs_ok sample_ok(2)] by auto
  with manifest_decodes_well_formed [of zero_run_codecs "encode_version_edit zero_run_codecs sample_edit"]
  show ?thesis by (auto simp: edit_ok_def)
qed

text \<open>A Zstandard that always fails, as it does when it cannot allocate.\<close>

theorem snapshot_failure_silent_witness:
  "encode_version_snapshot (zero_run_codecs\<lparr> ZSTD_compress := (\<lambda>_ _ _. None) \<rparr>) sample_snapshot = []"
proof -
  have "fst (frame_block (zero_run_codecs\<lparr> ZSTD_compress := (\<lambda>_ _ _. None) \<rparr>) (snapshot_content sample_snapshot) Zstd []) \<noteq> Ok"
    by (simp add: frame_block_def compress_zstd_def Let_def)
  from snapshot_failure_silent [OF this] show ?thesis by simp
qed

end
