(* ===== verification/Version.thy ===== *)
theory Version
  imports Version_Edit "HOL-Library.Multiset"
begin

text \<open>
  src/version/version.hpp and version.cpp: a version is the files of every level with the counters
  around them. It is never changed; \<open>version_apply\<close> makes the next one.

  The compaction pointers are a \<open>std::map\<close>, here an association list in key order. \<open>std::sort\<close> leaves
  the order of equal elements open; \<^const>\<open>sort_key\<close> is one of the orders it may produce.
\<close>

section \<open>State\<close>

record version =
  v_levels :: "file_metadata list list"
  v_carries_ranges :: "bool list"
  v_next_file_number :: u64
  v_compaction_pointers :: "(nat \<times> bytes) list"
  v_truncation_point :: bytes
  v_watermark_floor :: "watermark_floor option"

definition Version ::
    "file_metadata list list \<Rightarrow> u64 \<Rightarrow> (nat \<times> bytes) list \<Rightarrow> bytes \<Rightarrow> watermark_floor option \<Rightarrow> version" where
  "Version levels next_file_number pointers truncation_point floor =
     \<lparr> v_levels = levels,
       v_carries_ranges = map (list_ex (\<lambda>f. fm_num_range_tombstones f \<noteq> 0)) levels,
       v_next_file_number = next_file_number, v_compaction_pointers = pointers,
       v_truncation_point = truncation_point, v_watermark_floor = floor \<rparr>"

definition empty_version :: version where
  "empty_version = \<lparr> v_levels = [], v_carries_ranges = [], v_next_file_number = 1, v_compaction_pointers = [],
     v_truncation_point = [], v_watermark_floor = None \<rparr>"

section \<open>Queries\<close>

definition carries_ranges :: "version \<Rightarrow> nat \<Rightarrow> bool" where
  "carries_ranges v level \<longleftrightarrow> level < length (v_carries_ranges v) \<and> v_carries_ranges v ! level"

definition files_at :: "version \<Rightarrow> nat \<Rightarrow> file_metadata list" where
  "files_at v level = (if length (v_levels v) \<le> level then [] else v_levels v ! level)"

definition truncated :: "version \<Rightarrow> bytes \<Rightarrow> bool" where
  "truncated v key \<longleftrightarrow> v_truncation_point v \<noteq> [] \<and> key < v_truncation_point v"

definition total_bytes :: "version \<Rightarrow> nat \<Rightarrow> u64" where
  "total_bytes v level = fold (\<lambda>f total. total + fm_file_bytes f) (files_at v level) 0"

definition file_count :: "version \<Rightarrow> nat \<Rightarrow> nat" where
  "file_count v level = length (files_at v level)"

definition oldest_write_time_ms :: "version \<Rightarrow> nat \<Rightarrow> u64" where
  "oldest_write_time_ms v level =
     fold (\<lambda>f oldest. if oldest = 0 \<or> fm_min_write_time_ms f < oldest then fm_min_write_time_ms f else oldest)
       (files_at v level) 0"

text \<open>An empty upper bound is the end of the key space.\<close>

definition overlaps_half_open :: "bytes \<Rightarrow> bytes \<Rightarrow> file_metadata \<Rightarrow> bool" where
  "overlaps_half_open lo up f \<longleftrightarrow>
     (\<not> fm_largest_key f < lo \<and> \<not> (up \<noteq> [] \<and> up \<le> fm_smallest_key f))
     \<or> (fm_num_range_tombstones f \<noteq> 0 \<and> \<not> fm_largest_range_key f \<le> lo
         \<and> \<not> (up \<noteq> [] \<and> up \<le> fm_smallest_range_key f))"

definition overlapping_half_open :: "version \<Rightarrow> nat \<Rightarrow> bytes \<Rightarrow> bytes \<Rightarrow> file_metadata list" where
  "overlapping_half_open v level lo up = filter (overlaps_half_open lo up) (files_at v level)"

definition overlapping_index_range :: "version \<Rightarrow> nat \<Rightarrow> bytes \<Rightarrow> bytes \<Rightarrow> nat \<times> nat" where
  "overlapping_index_range v level lo up =
     (let files = files_at v level;
          b = partition_point (\<lambda>f. fm_largest_key f < lo) files;
          e = (if up \<noteq> [] then b + partition_point (\<lambda>f. fm_smallest_key f < up) (drop b files)
               else length files)
      in (b, e))"

definition holds_in :: "bytes \<Rightarrow> bytes \<Rightarrow> file_metadata \<Rightarrow> bool" where
  "holds_in lo up f \<longleftrightarrow>
     fm_num_entries f \<noteq> 0 \<and> \<not> fm_largest_key f < lo \<and> \<not> (up \<noteq> [] \<and> \<not> fm_smallest_key f < up)"

definition any_file_holds :: "version \<Rightarrow> bytes \<Rightarrow> bytes \<Rightarrow> bool" where
  "any_file_holds v lo up \<longleftrightarrow>
     (if up \<noteq> [] \<and> \<not> lo < up then False else list_ex (list_ex (holds_in lo up)) (v_levels v))"

definition overlapping_inclusive :: "version \<Rightarrow> nat \<Rightarrow> bytes \<Rightarrow> bytes \<Rightarrow> file_metadata list" where
  "overlapping_inclusive v level first final =
     filter (\<lambda>f. \<not> effective_largest f < first \<and> \<not> final < effective_smallest f) (files_at v level)"

definition all_files :: "version \<Rightarrow> file_metadata list" where
  "all_files v = concat (v_levels v)"

definition files_entirely_truncated :: "version \<Rightarrow> file_metadata list" where
  "files_entirely_truncated v =
     (if v_truncation_point v = [] then []
      else filter (\<lambda>f. effective_largest f < v_truncation_point v) (all_files v))"

record range_drop_candidate =
  rd_file :: file_metadata
  rd_cover :: file_metadata
  rd_exact :: bool

text \<open>Newer in the one order the engine has: a lower level, or the same level and a higher number.\<close>

definition newer_file :: "file_metadata \<Rightarrow> file_metadata \<Rightarrow> bool" where
  "newer_file a b \<longleftrightarrow>
     fm_level a < fm_level b \<or> fm_level a = fm_level b \<and> fm_file_number b < fm_file_number a"

definition may_cover :: "file_metadata \<Rightarrow> file_metadata \<Rightarrow> bool" where
  "may_cover cover f \<longleftrightarrow>
     newer_file cover f \<and> fm_smallest_range_key cover \<le> fm_smallest_key f
     \<and> fm_largest_key f < fm_largest_range_key cover"

definition range_drop_candidates :: "version \<Rightarrow> range_drop_candidate list" where
  "range_drop_candidates v =
     (let covers = filter (\<lambda>f. fm_num_range_tombstones f \<noteq> 0) (all_files v) in
      if covers = [] then []
      else List.map_filter (\<lambda>f.
             if fm_num_range_tombstones f \<noteq> 0 \<or> fm_num_entries f = 0 then None
             else (case find (\<lambda>cover. may_cover cover f) covers of
                     None \<Rightarrow> None
                   | Some cover \<Rightarrow>
                       Some \<lparr> rd_file = f, rd_cover = cover, rd_exact = (fm_num_range_tombstones cover = 1) \<rparr>))
           (all_files v))"

definition data_span_index_range :: "version \<Rightarrow> nat \<Rightarrow> bytes \<Rightarrow> bytes \<Rightarrow> nat \<times> nat" where
  "data_span_index_range v level first final =
     (let files = files_at v level;
          b = partition_point (\<lambda>f. fm_largest_key f < first) files;
          e = partition_point (\<lambda>f. \<not> final < fm_smallest_key f) files
      in if e < b then (b, b) else (b, e))"

definition older_overlap :: "file_metadata \<Rightarrow> file_metadata \<Rightarrow> bool" where
  "older_overlap f other \<longleftrightarrow>
     newer_file f other \<and> \<not> fm_largest_key other < fm_smallest_key f \<and> \<not> fm_largest_key f < fm_smallest_key other"

definition older_file_overlaps :: "version \<Rightarrow> file_metadata \<Rightarrow> bool" where
  "older_file_overlaps v f =
     list_ex (\<lambda>level.
         let others = files_at v level;
             (b, e) = (if 0 < level then data_span_index_range v level (fm_smallest_key f) (fm_largest_key f)
                       else (0, length others))
         in list_ex (older_overlap f) (take (e - b) (drop b others)))
       [fm_level f ..< length (v_levels v)]"

definition files_expired_before :: "version \<Rightarrow> u64 \<Rightarrow> file_metadata list" where
  "files_expired_before v cutoff =
     filter (\<lambda>f. fm_max_write_time_ms f \<noteq> 0 \<and> fm_max_write_time_ms f \<le> cutoff
                \<and> fm_num_range_tombstones f = 0 \<and> \<not> older_file_overlaps v f) (all_files v)"

section \<open>Applying an edit\<close>

definition sort_level :: "nat \<Rightarrow> file_metadata list \<Rightarrow> file_metadata list" where
  "sort_level level files =
     (if level = 0 then sort_key (\<lambda>f. - uint (fm_file_number f)) files
      else sort_key (\<lambda>f. (fm_smallest_key f, fm_file_number f)) files)"

definition erase_file :: "file_metadata list list \<Rightarrow> file_ref \<Rightarrow> file_metadata list list" where
  "erase_file levels ref =
     (if length levels \<le> fr_level ref then levels
      else levels[fr_level ref := filter (\<lambda>f. fm_file_number f \<noteq> fr_file_number ref) (levels ! fr_level ref)])"

definition add_file :: "file_metadata list list \<Rightarrow> file_metadata \<Rightarrow> file_metadata list list" where
  "add_file levels f =
     (let levels = (if length levels \<le> fm_level f
                    then levels @ replicate (fm_level f + 1 - length levels) [] else levels)
      in levels[fm_level f := levels ! fm_level f @ [f]])"

fun map_insert :: "nat \<Rightarrow> bytes \<Rightarrow> (nat \<times> bytes) list \<Rightarrow> (nat \<times> bytes) list" where
  "map_insert l k [] = [(l, k)]"
| "map_insert l k ((l', k') # m) =
     (if l < l' then (l, k) # (l', k') # m else if l = l' then (l, k) # m else (l', k') # map_insert l k m)"

definition version_apply :: "version \<Rightarrow> version_edit \<Rightarrow> version" where
  "version_apply base e =
     (let levels = fold (\<lambda>r ls. erase_file ls r) (ve_deleted e) (v_levels base);
          levels = fold (\<lambda>f ls. add_file ls f) (ve_added e) levels;
          levels = map (\<lambda>(level, files). sort_level level files) (List.enumerate 0 levels);
          pointers = fold (\<lambda>(l, k) m. map_insert l k m) (ve_compaction_pointers e) (v_compaction_pointers base);
          next_file_number = max (v_next_file_number base) (ve_next_file_number e);
          truncation_point = (if v_truncation_point base < ve_truncation_point e then ve_truncation_point e
                              else v_truncation_point base);
          floor = (case ve_floor_update e of Silent \<Rightarrow> v_watermark_floor base
                   | Set \<Rightarrow> Some (ve_watermark_floor e) | Clear \<Rightarrow> None)
      in Version levels next_file_number pointers truncation_point floor)"

section \<open>The invariant\<close>

text \<open>
  Every file is at the level it names; level 0 is in descending order of file numbers, the deeper
  levels in ascending order of smallest keys; the level summaries are up to date; the pointers are a
  map.
\<close>

definition placed :: "file_metadata list list \<Rightarrow> bool" where
  "placed levels \<longleftrightarrow> (\<forall>l < length levels. \<forall>f \<in> set (levels ! l). fm_level f = l)"

definition level_sorted :: "nat \<Rightarrow> file_metadata list \<Rightarrow> bool" where
  "level_sorted level files \<longleftrightarrow>
     (if level = 0 then sorted_wrt (\<lambda>a b. fm_file_number b \<le> fm_file_number a) files
      else sorted_wrt (\<lambda>a b. (fm_smallest_key a, fm_file_number a) \<le> (fm_smallest_key b, fm_file_number b)) files)"

definition version_ok :: "version \<Rightarrow> bool" where
  "version_ok v \<longleftrightarrow>
     placed (v_levels v) \<and> (\<forall>l < length (v_levels v). level_sorted l (v_levels v ! l))
     \<and> v_carries_ranges v = map (list_ex (\<lambda>f. fm_num_range_tombstones f \<noteq> 0)) (v_levels v)
     \<and> sorted_wrt (<) (map fst (v_compaction_pointers v))"

lemma empty_version_ok: "version_ok empty_version"
  by (simp add: version_ok_def empty_version_def placed_def)

lemma sort_level_sorted: "level_sorted level (sort_level level files)"
proof (cases "level = 0")
  case True
  have "sorted (map (\<lambda>f. - uint (fm_file_number f)) (sort_level 0 files))" by (simp add: sort_level_def)
  then have "sorted_wrt (\<lambda>a b. fm_file_number b \<le> fm_file_number a) (sort_level 0 files)"
    unfolding sorted_map by (rule sorted_wrt_mono_rel [rotated]) (simp add: word_le_def)
  then show ?thesis using True by (simp add: level_sorted_def)
next
  case False
  have "sorted (map (\<lambda>f. (fm_smallest_key f, fm_file_number f)) (sort_level level files))"
    using False by (simp add: sort_level_def)
  then show ?thesis using False by (simp add: level_sorted_def sorted_map)
qed

lemma mset_sort_level [simp]: "mset (sort_level level files) = mset files"
  by (simp add: sort_level_def)

lemma set_sort_level [simp]: "set (sort_level level files) = set files"
  by (simp add: sort_level_def)

text \<open>One level of the resorted list.\<close>

lemma nth_resorted:
  "l < length levels \<Longrightarrow>
   map (\<lambda>(level, files). sort_level level files) (List.enumerate 0 levels) ! l = sort_level l (levels ! l)"
  by (simp add: nth_enumerate_eq)

lemma placed_erase: "placed levels \<Longrightarrow> placed (erase_file levels r)"
  by (auto simp: placed_def erase_file_def nth_list_update)

lemma placed_add: "placed levels \<Longrightarrow> placed (add_file levels f)"
  unfolding placed_def add_file_def
  by (auto simp: nth_list_update nth_append Let_def split: if_splits)

definition removes :: "file_ref \<Rightarrow> file_metadata \<Rightarrow> bool" where
  "removes r f \<longleftrightarrow> fr_level r = fm_level f \<and> fr_file_number r = fm_file_number f"

lemma mset_concat_update:
  "l < length xss \<Longrightarrow> mset (concat (xss[l := ys])) + mset (xss ! l) = mset (concat xss) + mset ys"
proof (induction xss arbitrary: l)
  case (Cons xs xss)
  then show ?case by (cases l) (simp_all add: union_assoc union_commute union_lcomm)
qed simp

lemma mset_erase:
  assumes "placed levels"
  shows "mset (concat (erase_file levels r)) = filter_mset (\<lambda>f. \<not> removes r f) (mset (concat levels))"
proof -
  have "filter (\<lambda>f. \<not> removes r f) (levels ! l) =
      (if l = fr_level r then filter (\<lambda>f. fm_file_number f \<noteq> fr_file_number r) (levels ! l) else levels ! l)"
    if "l < length levels" for l
  proof (cases "l = fr_level r")
    case True
    have "filter (\<lambda>f. \<not> removes r f) (levels ! l) = filter (\<lambda>f. fm_file_number f \<noteq> fr_file_number r) (levels ! l)"
      using assms that True by (intro filter_cong) (auto simp: placed_def removes_def)
    then show ?thesis using True by simp
  next
    case False
    then have "\<forall>f \<in> set (levels ! l). \<not> removes r f" using assms that by (auto simp: placed_def removes_def)
    then show ?thesis using False by (simp add: filter_id_conv)
  qed
  moreover have "length (erase_file levels r) = length levels" by (simp add: erase_file_def)
  moreover have "erase_file levels r ! l =
      (if l = fr_level r then filter (\<lambda>f. fm_file_number f \<noteq> fr_file_number r) (levels ! l) else levels ! l)"
    if "l < length levels" for l
    using that by (simp add: erase_file_def nth_list_update)
  ultimately have "erase_file levels r = map (filter (\<lambda>f. \<not> removes r f)) levels"
    by (simp add: list_eq_iff_nth_eq)
  then show ?thesis by (simp only: mset_filter [symmetric] filter_concat)
qed

lemma mset_add: "mset (concat (add_file levels f)) = add_mset f (mset (concat levels))"
proof -
  let ?ls = "if length levels \<le> fm_level f then levels @ replicate (fm_level f + 1 - length levels) [] else levels"
  have l: "fm_level f < length ?ls" by simp
  have "mset (concat ?ls) = mset (concat levels)" by simp
  with mset_concat_update [OF l, of "?ls ! fm_level f @ [f]"] show ?thesis
    by (simp only: add_file_def Let_def mset_append) simp
qed

lemma fold_erase:
  "placed levels \<Longrightarrow> placed (fold (\<lambda>r ls. erase_file ls r) rs levels)
    \<and> mset (concat (fold (\<lambda>r ls. erase_file ls r) rs levels)) =
        filter_mset (\<lambda>f. \<not> list_ex (\<lambda>r. removes r f) rs) (mset (concat levels))"
proof (induction rs arbitrary: levels)
  case (Cons r rs)
  have "filter_mset (\<lambda>f. \<not> list_ex (\<lambda>r. removes r f) (r # rs)) M =
      filter_mset (\<lambda>f. \<not> list_ex (\<lambda>r. removes r f) rs) (filter_mset (\<lambda>f. \<not> removes r f) M)" for M
    by (simp add: filter_filter_mset conj_commute)
  then show ?case using Cons.IH [OF placed_erase [OF Cons.prems, of r]] mset_erase [OF Cons.prems, of r] by simp
qed simp

lemma fold_add:
  "placed levels \<Longrightarrow> placed (fold (\<lambda>f ls. add_file ls f) fs levels)
    \<and> mset (concat (fold (\<lambda>f ls. add_file ls f) fs levels)) = mset (concat levels) + mset fs"
proof (induction fs arbitrary: levels)
  case (Cons f fs)
  then show ?case using Cons.IH [OF placed_add [OF Cons.prems, of f]] mset_add [of levels f] by simp
qed simp

lemma mset_resorted:
  "mset (concat (map (\<lambda>(level, files). sort_level level files) (List.enumerate n levels))) = mset (concat levels)"
  by (induction levels arbitrary: n) simp_all

lemma sorted_map_insert:
  "sorted_wrt (<) (map fst m) \<Longrightarrow> sorted_wrt (<) (map fst (map_insert l k m))
    \<and> set (map fst (map_insert l k m)) = insert l (set (map fst m))"
  by (induction l k m rule: map_insert.induct) auto

lemma map_of_map_insert: "map_of (map_insert l k m) = (map_of m)(l \<mapsto> k)"
  by (induction l k m rule: map_insert.induct) (auto simp: fun_eq_iff)

lemma fold_map_insert:
  "sorted_wrt (<) (map fst m) \<Longrightarrow> sorted_wrt (<) (map fst (fold (\<lambda>(l, k) m. map_insert l k m) ps m))"
  by (induction ps arbitrary: m) (auto simp: sorted_map_insert)

lemma version_apply_ok:
  assumes "version_ok v"
  shows "version_ok (version_apply v e)"
proof -
  let ?ls = "fold (\<lambda>f ls. add_file ls f) (ve_added e) (fold (\<lambda>r ls. erase_file ls r) (ve_deleted e) (v_levels v))"
  let ?sorted = "map (\<lambda>(level, files). sort_level level files) (List.enumerate 0 ?ls)"
  have "placed ?ls" using assms fold_add fold_erase by (simp add: version_ok_def)
  then have "placed ?sorted" by (simp add: placed_def nth_enumerate_eq)
  moreover have "\<forall>l < length ?sorted. level_sorted l (?sorted ! l)"
    by (simp add: nth_enumerate_eq sort_level_sorted)
  ultimately show ?thesis
    using assms fold_map_insert by (simp add: version_ok_def version_apply_def Version_def Let_def)
qed

lemma mset_version_apply:
  assumes "version_ok v"
  shows "mset (all_files (version_apply v e)) =
    filter_mset (\<lambda>f. \<not> list_ex (\<lambda>r. removes r f) (ve_deleted e)) (mset (all_files v)) + mset (ve_added e)"
  using assms fold_erase [of "v_levels v" "ve_deleted e"]
    fold_add [of "fold (\<lambda>r ls. erase_file ls r) (ve_deleted e) (v_levels v)" "ve_added e"]
  by (simp add: all_files_def version_apply_def Version_def Let_def mset_resorted version_ok_def)

text \<open>The files of one level after an edit.\<close>

definition level_of :: "file_metadata list list \<Rightarrow> nat \<Rightarrow> file_metadata list" where
  "level_of levels l = (if length levels \<le> l then [] else levels ! l)"

lemma files_at_level: "files_at v l = level_of (v_levels v) l"
  by (simp add: files_at_def level_of_def)

lemma level_of_erase:
  "level_of (erase_file levels r) l =
     filter (\<lambda>f. \<not> (fr_level r = l \<and> fm_file_number f = fr_file_number r)) (level_of levels l)"
  by (auto simp: level_of_def erase_file_def nth_list_update)

lemma level_of_add: "level_of (add_file levels f) l = level_of levels l @ (if fm_level f = l then [f] else [])"
  by (auto simp: level_of_def add_file_def Let_def nth_list_update nth_append)

lemma level_of_fold_erase:
  "level_of (fold (\<lambda>r ls. erase_file ls r) rs levels) l =
     filter (\<lambda>f. \<not> list_ex (\<lambda>r. fr_level r = l \<and> fm_file_number f = fr_file_number r) rs) (level_of levels l)"
  by (induction rs arbitrary: levels) (auto simp: level_of_erase intro: filter_cong)

lemma level_of_fold_add:
  "level_of (fold (\<lambda>f ls. add_file ls f) fs levels) l = level_of levels l @ filter (\<lambda>f. fm_level f = l) fs"
  by (induction fs arbitrary: levels) (auto simp: level_of_add)

lemma level_of_resorted:
  "level_of (map (\<lambda>(level, files). sort_level level files) (List.enumerate 0 levels)) l = sort_level l (level_of levels l)"
  by (simp add: level_of_def nth_enumerate_eq) (simp add: sort_level_def)

lemma files_at_apply:
  "files_at (version_apply v e) l =
     sort_level l (filter (\<lambda>f. \<not> list_ex (\<lambda>r. fr_level r = l \<and> fm_file_number f = fr_file_number r) (ve_deleted e)) (files_at v l)
       @ filter (\<lambda>f. fm_level f = l) (ve_added e))"
  by (simp add: files_at_level version_apply_def Version_def Let_def level_of_resorted level_of_fold_add level_of_fold_erase)

lemma map_of_map_inserts: "map_of (fold (\<lambda>(l, k) m. map_insert l k m) ps m) = map_of m ++ map_of (rev ps)"
  by (induction ps arbitrary: m) (auto simp: map_of_map_insert fun_eq_iff map_add_def split: option.splits)

lemma version_apply_fields:
  "v_compaction_pointers (version_apply v e) = fold (\<lambda>(l, k) m. map_insert l k m) (ve_compaction_pointers e) (v_compaction_pointers v)"
  "v_truncation_point (version_apply v e) = max (v_truncation_point v) (ve_truncation_point e)"
  "v_watermark_floor (version_apply v e) =
     (case ve_floor_update e of Silent \<Rightarrow> v_watermark_floor v | Set \<Rightarrow> Some (ve_watermark_floor e) | Clear \<Rightarrow> None)"
  by (auto simp: version_apply_def Version_def Let_def)

lemma sort_level_id: "level_sorted l files \<Longrightarrow> sort_level l files = files"
proof (cases "l = 0")
  case True
  assume "level_sorted l files"
  then have "sorted (map (\<lambda>f. - uint (fm_file_number f)) files)"
    using True unfolding sorted_map level_sorted_def by (simp add: word_le_def)
  then show ?thesis using True by (simp add: sort_level_def sort_key_id_if_sorted)
next
  case False
  assume "level_sorted l files"
  then show ?thesis using False by (simp add: sort_level_def level_sorted_def sort_key_id_if_sorted sorted_map)
qed

lemma files_at_sorted: "version_ok v \<Longrightarrow> level_sorted l (files_at v l)"
  by (cases "l < length (v_levels v)") (simp_all add: version_ok_def files_at_def, simp add: level_sorted_def)

section \<open>Searching a level\<close>

text \<open>
  What the binary searches below level 0 rely on: neither end of the data spans decreases. A file
  with nothing but range tombstones has the empty key at both ends and comes first.
\<close>

definition spans_ordered :: "file_metadata list \<Rightarrow> bool" where
  "spans_ordered files \<longleftrightarrow> sorted (map fm_smallest_key files) \<and> sorted (map fm_largest_key files)"

definition spans_ok :: "version \<Rightarrow> bool" where
  "spans_ok v \<longleftrightarrow> (\<forall>l < length (v_levels v). 0 < l \<longrightarrow> spans_ordered (v_levels v ! l))"

lemma partitioned_sorted:
  assumes "sorted (map g xs)" and "\<And>a b. a \<le> b \<Longrightarrow> p b \<Longrightarrow> p a"
  shows "partitioned (\<lambda>x. p (g x)) xs"
  unfolding partitioned_def
proof (intro allI impI)
  fix i j assume "i < j" "j < length xs" "p (g (xs ! j))"
  then show "p (g (xs ! i))" using assms(2) sorted_nth_mono [OF assms(1), of i j] by simp
qed

lemma partitioned_spans:
  assumes "spans_ordered files"
  shows "partitioned (\<lambda>f. fm_largest_key f < k) files" "partitioned (\<lambda>f. fm_smallest_key f < k) files"
    "partitioned (\<lambda>f. \<not> k < fm_smallest_key f) files"
  using assms partitioned_sorted [of fm_largest_key files "\<lambda>x. x < k"] partitioned_sorted [of fm_smallest_key files "\<lambda>x. x < k"]
    partitioned_sorted [of fm_smallest_key files "\<lambda>x. \<not> k < x"]
  by (auto simp: spans_ordered_def)

lemma partitioned_drop: "partitioned p xs \<Longrightarrow> partitioned p (drop n xs)"
  unfolding partitioned_def by (simp add: less_diff_conv add.commute) (metis add.commute nat_add_left_cancel_less)

lemma slice_between:
  assumes p: "partitioned p xs" and q: "partitioned q xs"
  shows "take (partition_point q xs - partition_point p xs) (drop (partition_point p xs) xs) = filter (\<lambda>x. \<not> p x \<and> q x) xs"
proof -
  let ?b = "partition_point p xs" and ?e = "partition_point q xs"
  have q_nth: "q (xs ! i) \<longleftrightarrow> i < ?e" if "i < length xs" for i
    using partitioned_takeWhile_nth [OF q that] by (simp add: partition_point_takeWhile [OF q])
  have "takeWhile q (drop ?b xs) = take (?e - ?b) (drop ?b xs)"
    by (rule takeWhile_eq_take_P_nth) (auto simp: q_nth)
  moreover have "filter (\<lambda>x. \<not> p x \<and> q x) xs = filter q (drop ?b xs)"
    using partitioned_filter_drop [OF p] by (simp add: drop_partition_point [OF p] flip: filter_filter)
  ultimately show ?thesis using partitioned_filter_take [OF partitioned_drop [OF q, of ?b]] by simp
qed

lemma overlapping_index_range_filter:
  assumes "spans_ordered (files_at v level)"
    and "\<forall>f \<in> set (files_at v level). fm_num_range_tombstones f = 0"
  shows "let (b, e) = overlapping_index_range v level lo up
    in take (e - b) (drop b (files_at v level)) = overlapping_half_open v level lo up"
proof -
  let ?fs = "files_at v level" and ?p = "\<lambda>f. fm_largest_key f < lo" and ?q = "\<lambda>f. fm_smallest_key f < up"
  let ?b = "partition_point ?p ?fs"
  note part = partitioned_spans [OF assms(1)]
  have "overlapping_half_open v level lo up = filter (\<lambda>f. up = [] \<or> ?q f) (filter (\<lambda>f. \<not> ?p f) ?fs)"
    unfolding overlapping_half_open_def overlaps_half_open_def filter_filter
    using assms(2) by (intro filter_cong) (auto simp: not_le)
  also have "\<dots> = filter (\<lambda>f. up = [] \<or> ?q f) (drop ?b ?fs)"
    using partitioned_filter_drop [OF part(1)] by (simp add: drop_partition_point [OF part(1)])
  also have "\<dots> = (if up = [] then drop ?b ?fs else take (partition_point ?q (drop ?b ?fs)) (drop ?b ?fs))"
    using partitioned_filter_take [OF partitioned_drop [OF part(2), of up ?b]]
      take_partition_point [OF partitioned_drop [OF part(2), of up ?b]] by simp
  finally show ?thesis by (simp add: overlapping_index_range_def Let_def)
qed

lemma list_ex_concat: "list_ex p (concat xss) \<longleftrightarrow> list_ex (list_ex p) xss"
  by (induction xss) auto

lemma older_file_overlaps_iff:
  assumes v: "version_ok v" and s: "spans_ok v"
  shows "older_file_overlaps v f \<longleftrightarrow> list_ex (older_overlap f) (all_files v)"
proof -
  have at: "files_at v l = v_levels v ! l" if "l < length (v_levels v)" for l
    using that by (simp add: files_at_def)
  have lev: "(let others = files_at v l;
           (b, e) = (if 0 < l then data_span_index_range v l (fm_smallest_key f) (fm_largest_key f)
                     else (0, length others))
       in list_ex (older_overlap f) (take (e - b) (drop b others))) = list_ex (older_overlap f) (v_levels v ! l)"
    if l: "l < length (v_levels v)" for l
  proof (cases "0 < l")
    case True
    let ?p = "\<lambda>g. fm_largest_key g < fm_smallest_key f" and ?q = "\<lambda>g. \<not> fm_largest_key f < fm_smallest_key g"
    have o: "spans_ordered (v_levels v ! l)" using s l True by (simp add: spans_ok_def)
    have "(let (b, e) = data_span_index_range v l (fm_smallest_key f) (fm_largest_key f)
        in take (e - b) (drop b (v_levels v ! l))) = filter (\<lambda>g. \<not> ?p g \<and> ?q g) (v_levels v ! l)"
      using slice_between [OF partitioned_spans(1) [OF o, of "fm_smallest_key f"] partitioned_spans(3) [OF o, of "fm_largest_key f"]]
      by (cases "partition_point ?q (v_levels v ! l) < partition_point ?p (v_levels v ! l)")
         (simp_all add: data_span_index_range_def Let_def at [OF l])
    moreover have "list_ex (older_overlap f) (filter (\<lambda>g. \<not> ?p g \<and> ?q g) (v_levels v ! l)) =
        list_ex (older_overlap f) (v_levels v ! l)"
      by (auto simp: list_ex_iff older_overlap_def)
    ultimately show ?thesis using True at [OF l] by (simp add: Let_def split_def)
  qed (use at [OF l] in simp)
  have "older_file_overlaps v f \<longleftrightarrow> (\<exists>l. fm_level f \<le> l \<and> l < length (v_levels v) \<and> list_ex (older_overlap f) (v_levels v ! l))"
  proof -
    have "older_file_overlaps v f =
        list_ex (\<lambda>l. list_ex (older_overlap f) (v_levels v ! l)) [fm_level f ..< length (v_levels v)]"
      unfolding older_file_overlaps_def by (rule list_ex_cong [OF refl]) (use lev in simp)
    then show ?thesis by (auto simp: list_ex_iff)
  qed
  also have "\<dots> \<longleftrightarrow> (\<exists>l < length (v_levels v). list_ex (older_overlap f) (v_levels v ! l))"
  proof -
    have "fm_level f \<le> l" if l: "l < length (v_levels v)" and ex: "list_ex (older_overlap f) (v_levels v ! l)" for l
    proof -
      obtain g where "g \<in> set (v_levels v ! l)" "newer_file f g" using ex by (auto simp: list_ex_iff older_overlap_def)
      moreover from this have "fm_level g = l" using v l by (simp add: version_ok_def placed_def)
      ultimately show ?thesis by (auto simp: newer_file_def)
    qed
    then show ?thesis by blast
  qed
  also have "\<dots> \<longleftrightarrow> list_ex (older_overlap f) (all_files v)"
    unfolding all_files_def list_ex_concat by (simp add: list_ex_length)
  finally show ?thesis .
qed

section \<open>Properties\<close>

text \<open>
  [C15] Applying an edit gives a version with exactly the files that were there and were not removed, and
  those the edit adds, every one at its level; level 0 is again in order of descending file numbers and
  the deeper levels in order of their smallest keys, which is the recency order the merge relies on. The
  next file number and the truncation point never move back: each becomes the larger of the old one and
  the edit's. The compaction pointer of a level becomes the last one the edit names for it, and the
  watermark floor is kept, set or cleared as the edit says.
\<close>

theorem version_apply_correct:
  assumes "version_ok v"
  shows "version_ok (version_apply v e)
    \<and> mset (all_files (version_apply v e)) =
        filter_mset (\<lambda>f. \<not> list_ex (\<lambda>r. fr_level r = fm_level f \<and> fr_file_number r = fm_file_number f) (ve_deleted e))
          (mset (all_files v)) + mset (ve_added e)
    \<and> v_next_file_number (version_apply v e) = max (v_next_file_number v) (ve_next_file_number e)
    \<and> v_truncation_point (version_apply v e) = max (v_truncation_point v) (ve_truncation_point e)
    \<and> map_of (v_compaction_pointers (version_apply v e)) = map_of (v_compaction_pointers v) ++ map_of (rev (ve_compaction_pointers e))
    \<and> v_watermark_floor (version_apply v e) =
        (case ve_floor_update e of Silent \<Rightarrow> v_watermark_floor v | Set \<Rightarrow> Some (ve_watermark_floor e) | Clear \<Rightarrow> None)"
  using version_apply_ok [OF assms] mset_version_apply [OF assms, of e] version_apply_fields [of v e]
    map_of_map_inserts [of "ve_compaction_pointers e" "v_compaction_pointers v"]
  by (simp add: removes_def) (simp add: version_apply_def Version_def Let_def)

text \<open>
  [C18] The two binary searches of \<open>overlapping_index_range\<close> select the same files as the scan of
  \<open>overlapping_half_open\<close>, on a level whose data spans are ordered and which carries no range tombstones.
\<close>

theorem index_range_is_scan:
  assumes "spans_ordered (files_at v level)" and "\<not> carries_ranges v level" and "version_ok v"
  shows "let (b, e) = overlapping_index_range v level lo up
    in take (e - b) (drop b (files_at v level)) = overlapping_half_open v level lo up"
proof -
  have "\<forall>f \<in> set (files_at v level). fm_num_range_tombstones f = 0"
    using assms(2,3) by (auto simp: carries_ranges_def version_ok_def files_at_def list_ex_iff split: if_splits)
  then show ?thesis by (rule overlapping_index_range_filter [OF assms(1)])
qed

text \<open>
  [C17] A file that expires is unlinked without uncovering anything: its newest write is known and not after
  the cutoff, it carries no range tombstone, and no file older than it, at whatever level, overlaps its
  keys. The search that decides the last point is exact.
\<close>

theorem expired_files_shadow_nothing:
  assumes "version_ok v" and "spans_ok v"
  shows "set (files_expired_before v cutoff) =
    {f \<in> set (all_files v). 0 < fm_max_write_time_ms f \<and> fm_max_write_time_ms f \<le> cutoff \<and> fm_num_range_tombstones f = 0
      \<and> \<not> (\<exists>g \<in> set (all_files v). newer_file f g \<and> fm_smallest_key f \<le> fm_largest_key g
             \<and> fm_smallest_key g \<le> fm_largest_key f)}"
  by (auto simp: files_expired_before_def older_file_overlaps_iff [OF assms] list_ex_iff older_overlap_def not_less
      word_gt_0)

text \<open>
  A file offered for a whole-file drop on the word of the manifest alone is covered: the cover is a
  strictly newer file whose one range tombstone contains every key of the file's span.
\<close>

theorem exact_range_drop_covered:
  "list_all (\<lambda>c. rd_exact c \<longrightarrow>
      newer_file (rd_cover c) (rd_file c) \<and> fm_num_range_tombstones (rd_cover c) = 1
      \<and> (\<forall>k. fm_smallest_key (rd_file c) \<le> k \<and> k \<le> fm_largest_key (rd_file c) \<longrightarrow> range_may_cover (rd_cover c) k))
    (range_drop_candidates v)"
  by (fastforce simp: list_all_iff range_drop_candidates_def Let_def may_cover_def range_may_cover_def List.map_filter_def
      find_Some_iff split: if_splits option.splits)

section \<open>Witnesses\<close>

definition low_file :: file_metadata where
  "low_file = sample_file\<lparr> fm_file_number := 5, fm_smallest_key := [20], fm_largest_key := [30] \<rparr>"

definition cover_file :: file_metadata where
  "cover_file = sample_file\<lparr> fm_level := 0, fm_file_number := 9, fm_smallest_key := [], fm_largest_key := [],
     fm_num_entries := 0, fm_num_range_tombstones := 1, fm_smallest_range_key := [0], fm_largest_range_key := [12] \<rparr>"

definition sample_version :: version where
  "sample_version = Version [[], [sample_file, low_file]] 8 [] [] None"

lemma sample_version_ok: "version_ok sample_version" "spans_ok sample_version"
  by (auto simp: version_ok_def spans_ok_def sample_version_def Version_def placed_def level_sorted_def spans_ordered_def
      low_file_def sample_file_def less_Suc_eq nth_Cons')

theorem version_apply_correct_witness:
  "mset (all_files (version_apply sample_version
      (VersionEdit\<lparr> ve_added := [cover_file], ve_deleted := [\<lparr> fr_level = 1, fr_file_number = 5 \<rparr>] \<rparr>)))
   = mset [sample_file, cover_file]
   \<and> v_next_file_number (version_apply sample_version
      (VersionEdit\<lparr> ve_added := [cover_file], ve_deleted := [\<lparr> fr_level = 1, fr_file_number = 5 \<rparr>] \<rparr>)) = 8"
  using version_apply_correct [OF sample_version_ok(1),
      of "VersionEdit\<lparr> ve_added := [cover_file], ve_deleted := [\<lparr> fr_level = 1, fr_file_number = 5 \<rparr>] \<rparr>"]
  by (simp add: VersionEdit_def all_files_def sample_version_def Version_def low_file_def sample_file_def)

theorem index_range_is_scan_witness:
  "let (b, e) = overlapping_index_range sample_version 1 [10] []
   in take (e - b) (drop b (files_at sample_version 1)) = [low_file]"
proof -
  have "spans_ordered (files_at sample_version 1)" "\<not> carries_ranges sample_version 1"
    using sample_version_ok
    by (auto simp: files_at_def sample_version_def Version_def spans_ok_def carries_ranges_def low_file_def sample_file_def)
  from index_range_is_scan [OF this sample_version_ok(1), of "[10]" "[]"] show ?thesis
    by (simp add: overlapping_half_open_def overlaps_half_open_def files_at_def sample_version_def Version_def
        low_file_def sample_file_def)
qed

theorem expired_files_shadow_nothing_witness:
  "low_file \<in> set (files_expired_before sample_version 6)"
  unfolding expired_files_shadow_nothing [OF sample_version_ok]
  by (auto simp: all_files_def sample_version_def Version_def low_file_def sample_file_def newer_file_def)

theorem exact_range_drop_covered_witness:
  "newer_file cover_file sample_file \<and> range_may_cover cover_file [4]"
proof -
  have "range_drop_candidates (Version [[cover_file], [sample_file]] 10 [] [] None) =
      [\<lparr> rd_file = sample_file, rd_cover = cover_file, rd_exact = True \<rparr>]"
    by (simp add: range_drop_candidates_def all_files_def Version_def cover_file_def sample_file_def map_filter_simps
        may_cover_def newer_file_def)
  with exact_range_drop_covered [of "Version [[cover_file], [sample_file]] 10 [] [] None"] show ?thesis
    by (simp add: cover_file_def sample_file_def)
qed

end
