(* ===== verification/Concat.thy ===== *)
theory Concat
  imports Merging Version
begin

text \<open>
  src/sst/concat\_iterator.cpp: the files of a level one after the other, opening one at a time. A file
  is opened by a function that gives an iterator over it or a status, the same at every call; what a
  reader does when its store fails is in the iterator.
\<close>

section \<open>The iterator\<close>

record 'it concat_iterator =
  cc_files :: "file_metadata list"
  cc_begin :: nat
  cc_end :: nat
  cc_open :: "file_metadata \<Rightarrow> 'it res"
  cc_index :: nat
  cc_inner :: "'it option"
  cc_status_field :: status

definition ConcatIterator :: "file_metadata list \<Rightarrow> nat \<Rightarrow> nat \<Rightarrow> (file_metadata \<Rightarrow> 'it res) \<Rightarrow> 'it concat_iterator" where
  "ConcatIterator files b e op =
     \<lparr> cc_files = files, cc_begin = b, cc_end = e, cc_open = op, cc_index = 0, cc_inner = None, cc_status_field = Ok \<rparr>"

definition cc_valid :: "'it internal_iterator \<Rightarrow> 'it concat_iterator \<Rightarrow> bool" where
  "cc_valid I C \<longleftrightarrow> (case cc_inner C of None \<Rightarrow> False | Some it \<Rightarrow> ii_valid I it)"

definition cc_entry :: "'it internal_iterator \<Rightarrow> 'it concat_iterator \<Rightarrow> entry" where
  "cc_entry I C = ii_entry I (the (cc_inner C))"

definition cc_status :: "'it internal_iterator \<Rightarrow> 'it concat_iterator \<Rightarrow> status" where
  "cc_status I C =
     (if cc_status_field C \<noteq> Ok then cc_status_field C
      else case cc_inner C of None \<Rightarrow> Ok | Some it \<Rightarrow> ii_status I it)"

definition cc_leave :: "'it concat_iterator \<Rightarrow> 'it concat_iterator" where
  "cc_leave C = C\<lparr> cc_inner := None \<rparr>"

definition cc_enter :: "'it concat_iterator \<Rightarrow> bool \<times> 'it concat_iterator" where
  "cc_enter C =
     (case cc_open C (cc_files C ! cc_index C) of
        Inl s \<Rightarrow> (False, C\<lparr> cc_status_field := s, cc_inner := None \<rparr>)
      | Inr it \<Rightarrow> (True, C\<lparr> cc_inner := Some it \<rparr>))"

definition positioning_failed :: "'it internal_iterator \<Rightarrow> 'it concat_iterator \<Rightarrow> bool \<times> 'it concat_iterator" where
  "positioning_failed I C =
     (case cc_inner C of
        None \<Rightarrow> (False, C)
      | Some it \<Rightarrow>
          if ii_valid I it then (False, C)
          else if ii_status I it = Ok then (False, C)
          else (True, C\<lparr> cc_status_field := ii_status I it \<rparr>))"

lemma cc_enter_fields:
  "cc_enter C = (b, C') \<Longrightarrow> cc_index C' = cc_index C \<and> cc_end C' = cc_end C \<and> cc_begin C' = cc_begin C
     \<and> cc_files C' = cc_files C \<and> cc_open C' = cc_open C"
  by (auto simp: cc_enter_def split: sum.splits)

lemma positioning_failed_fields:
  "positioning_failed I C = (b, C') \<Longrightarrow> cc_index C' = cc_index C \<and> cc_end C' = cc_end C"
  by (auto simp: positioning_failed_def split: option.splits if_splits)

text \<open>
  The loop of the forward seeks: enter the file at the index and position in it, on to the next one
  while there is nothing.
\<close>

function cc_seek_loop :: "'it internal_iterator \<Rightarrow> ('it \<Rightarrow> 'it) \<Rightarrow> 'it concat_iterator \<Rightarrow> 'it concat_iterator" where
  "cc_seek_loop I position C =
     (if cc_index C < cc_end C
      then (case cc_enter C of (entered, C1) \<Rightarrow>
        if \<not> entered then C1
        else
          let C2 = C1\<lparr> cc_inner := Some (position (the (cc_inner C1))) \<rparr> in
          if cc_valid I C2 then C2
          else case positioning_failed I C2 of (failed, C3) \<Rightarrow>
            if failed then C3 else cc_seek_loop I position (C3\<lparr> cc_index := cc_index C3 + 1 \<rparr>))
      else cc_leave C)"
  by pat_completeness auto
termination
  by (relation "measure (\<lambda>(I, position, C). cc_end C - cc_index C)")
     (auto dest!: sym [of "(_, _)" "cc_enter _"] sym [of "(_, _)" "positioning_failed _ _"] cc_enter_fields positioning_failed_fields)

declare cc_seek_loop.simps [simp del]

text \<open>The loop of the backward seeks; \<open>n\<close> files are left before the current one, down to \<open>begin_\<close>.\<close>

fun cc_back_loop :: "'it internal_iterator \<Rightarrow> ('it \<Rightarrow> 'it) \<Rightarrow> nat \<Rightarrow> 'it concat_iterator \<Rightarrow> 'it concat_iterator" where
  "cc_back_loop I position n C =
     (case cc_enter C of (entered, C1) \<Rightarrow>
        if \<not> entered then C1
        else
          let C2 = C1\<lparr> cc_inner := Some (position (the (cc_inner C1))) \<rparr> in
          if cc_valid I C2 then C2
          else case positioning_failed I C2 of (failed, C3) \<Rightarrow>
            if failed then C3
            else case n of
              0 \<Rightarrow> cc_leave C3
            | Suc m \<Rightarrow> cc_back_loop I position m (C3\<lparr> cc_index := cc_index C3 - 1 \<rparr>))"

declare cc_back_loop.simps [simp del]

definition cc_seek_to_first :: "'it internal_iterator \<Rightarrow> 'it concat_iterator \<Rightarrow> 'it concat_iterator" where
  "cc_seek_to_first I C = cc_seek_loop I (ii_seek_to_first I) (C\<lparr> cc_index := cc_begin C \<rparr>)"

definition cc_seek_to_last :: "'it internal_iterator \<Rightarrow> 'it concat_iterator \<Rightarrow> 'it concat_iterator" where
  "cc_seek_to_last I C =
     (if cc_end C \<le> cc_begin C then cc_leave C
      else cc_back_loop I (ii_seek_to_last I) (cc_end C - 1 - cc_begin C) (C\<lparr> cc_index := cc_end C - 1 \<rparr>))"

definition cc_window :: "'it concat_iterator \<Rightarrow> file_metadata list" where
  "cc_window C = take (cc_end C - cc_begin C) (drop (cc_begin C) (cc_files C))"

definition cc_seek :: "'it internal_iterator \<Rightarrow> 'it concat_iterator \<Rightarrow> bytes \<Rightarrow> 'it concat_iterator" where
  "cc_seek I C target =
     cc_seek_loop I (\<lambda>it. ii_seek I it target)
       (C\<lparr> cc_index := cc_begin C + partition_point (\<lambda>f. fm_largest_key f < target) (cc_window C) \<rparr>)"

definition cc_seek_for_prev :: "'it internal_iterator \<Rightarrow> 'it concat_iterator \<Rightarrow> bytes \<Rightarrow> 'it concat_iterator" where
  "cc_seek_for_prev I C target =
     (let after = partition_point (\<lambda>f. \<not> target < fm_smallest_key f) (cc_window C) in
      if after = 0 then cc_leave C
      else cc_back_loop I (\<lambda>it. ii_seek_for_prev I it target) (after - 1) (C\<lparr> cc_index := cc_begin C + after - 1 \<rparr>))"

function cc_next_loop :: "'it internal_iterator \<Rightarrow> 'it concat_iterator \<Rightarrow> 'it concat_iterator" where
  "cc_next_loop I C =
     (if ii_valid I (the (cc_inner C)) then C
      else if ii_status I (the (cc_inner C)) \<noteq> Ok then C
      else if cc_end C \<le> cc_index C + 1 then cc_leave C
      else case cc_enter (C\<lparr> cc_index := cc_index C + 1 \<rparr>) of (entered, C1) \<Rightarrow>
        if \<not> entered then C1
        else cc_next_loop I (C1\<lparr> cc_inner := Some (ii_seek_to_first I (the (cc_inner C1))) \<rparr>))"
  by pat_completeness auto
termination
  by (relation "measure (\<lambda>(I, C). cc_end C - cc_index C)") (auto dest!: sym [of "(_, _)" "cc_enter _"] cc_enter_fields)

declare cc_next_loop.simps [simp del]

definition cc_next :: "'it internal_iterator \<Rightarrow> 'it concat_iterator \<Rightarrow> 'it concat_iterator" where
  "cc_next I C =
     (case cc_inner C of None \<Rightarrow> C | Some it \<Rightarrow> cc_next_loop I (C\<lparr> cc_inner := Some (ii_next I it) \<rparr>))"

text \<open>Stepping back; \<open>n\<close> files are left before the current one.\<close>

fun cc_prev_loop :: "'it internal_iterator \<Rightarrow> nat \<Rightarrow> 'it concat_iterator \<Rightarrow> 'it concat_iterator" where
  "cc_prev_loop I n C =
     (if ii_valid I (the (cc_inner C)) then C
      else if ii_status I (the (cc_inner C)) \<noteq> Ok then C
      else case n of
        0 \<Rightarrow> cc_leave C
      | Suc m \<Rightarrow>
          (case cc_enter (C\<lparr> cc_index := cc_index C - 1 \<rparr>) of (entered, C1) \<Rightarrow>
             if \<not> entered then C1
             else cc_prev_loop I m (C1\<lparr> cc_inner := Some (ii_seek_to_last I (the (cc_inner C1))) \<rparr>)))"

declare cc_prev_loop.simps [simp del]

definition cc_prev :: "'it internal_iterator \<Rightarrow> 'it concat_iterator \<Rightarrow> 'it concat_iterator" where
  "cc_prev I C =
     (case cc_inner C of
        None \<Rightarrow> C
      | Some it \<Rightarrow> cc_prev_loop I (cc_index C - cc_begin C) (C\<lparr> cc_inner := Some (ii_prev I it) \<rparr>))"

section \<open>Positions in a concatenation\<close>

definition seg_off :: "'a list list \<Rightarrow> nat \<Rightarrow> nat" where
  "seg_off segs j = length (concat (take j segs))"

lemma segs_split: "j < length segs \<Longrightarrow> concat segs = concat (take j segs) @ segs ! j @ concat (drop (Suc j) segs)"
  by (metis concat.simps(2) concat_append id_take_nth_drop)

lemma segs_nth: "j < length segs \<Longrightarrow> p < length (segs ! j) \<Longrightarrow> concat segs ! (seg_off segs j + p) = segs ! j ! p"
  by (simp add: segs_split seg_off_def nth_append)

lemma seg_off_Suc: "j < length segs \<Longrightarrow> seg_off segs (Suc j) = seg_off segs j + length (segs ! j)"
  by (simp add: seg_off_def take_Suc_conv_app_nth)

lemma seg_off_less: "j < length segs \<Longrightarrow> p < length (segs ! j) \<Longrightarrow> seg_off segs j + p < length (concat segs)"
  by (simp add: segs_split seg_off_def)

lemma seg_off_all: "seg_off segs (length segs) = length (concat segs)"
  by (simp add: seg_off_def)

lemma cut_pos_append:
  "cut_pos (xs @ ys) P = (if \<exists>x \<in> set xs. P (fst x) then cut_pos xs P else length xs + cut_pos ys P)"
  by (induction xs) (auto simp: cut_pos_def)

lemma concat_Ball: "(\<forall>e \<in> set (concat segs). Q e) \<longleftrightarrow> (\<forall>m < length segs. \<forall>e \<in> set (segs ! m). Q e)"
  by (simp add: all_set_conv_all_nth [symmetric, of segs "\<lambda>s. \<forall>e \<in> set s. Q e"])

lemma cut_pos_segment:
  assumes "j < length segs" and "\<forall>m < j. \<forall>e \<in> set (segs ! m). \<not> P (fst e)" and "\<exists>e \<in> set (segs ! j). P (fst e)"
  shows "cut_pos (concat segs) P = seg_off segs j + cut_pos (segs ! j) P"
proof -
  have "\<forall>x \<in> set (concat (take j segs)). \<not> P (fst x)" unfolding concat_Ball using assms(1,2) by simp
  then show ?thesis using assms(3) unfolding segs_split [OF assms(1)] cut_pos_append seg_off_def by auto
qed

lemma cut_pos_less: "cut_pos es P < length es \<longleftrightarrow> (\<exists>e \<in> set es. P (fst e))"
  by (induction es) (auto simp: cut_pos_def)

lemma cut_pos_none: "\<forall>e \<in> set es. \<not> P (fst e) \<Longrightarrow> cut_pos es P = length es"
  by (simp add: cut_pos_def takeWhile_eq_all_conv [THEN iffD2])

lemma back_pos_segment:
  assumes "j < length segs" and "\<forall>m < j. \<forall>e \<in> set (segs ! m). P (fst e)" and "\<forall>m. j < m \<longrightarrow> m < length segs \<longrightarrow> (\<forall>e \<in> set (segs ! m). \<not> P (fst e))"
    and "\<exists>e \<in> set (segs ! j). P (fst e)" and "downward (segs ! j) P" and "sorted_keys (segs ! j)"
  shows "back_pos (concat segs) P = seg_off segs j + back_pos (segs ! j) P"
proof -
  let ?n = "length (takeWhile (\<lambda>e. P (fst e)) (segs ! j))"
  have all: "\<forall>e \<in> set (concat (take j segs)). P (fst e)" unfolding concat_Ball using assms(1,2) by simp
  have none: "\<forall>e \<in> set (concat (drop (Suc j) segs)). \<not> P (fst e)" unfolding concat_Ball
  proof (intro allI impI ballI)
    fix m e assume "m < length (drop (Suc j) segs)" "e \<in> set (drop (Suc j) segs ! m)"
    then show "\<not> P (fst e)" using assms(3) [rule_format, of "Suc (j + m)" e] by simp
  qed
  obtain i where "i < length (segs ! j)" "P (fst (segs ! j ! i))" using assms(4) by (auto simp: in_set_conv_nth)
  then have n: "0 < ?n" using downward_prefix [OF assms(6,5)] by (metis gr_implies_not_zero gr0I)
  have "takeWhile (\<lambda>e. P (fst e)) xs = []" if "\<forall>e \<in> set xs. \<not> P (fst e)" for xs using that by (cases xs) auto
  from this [OF none] have "takeWhile (\<lambda>e. P (fst e)) (concat segs) = concat (take j segs) @ takeWhile (\<lambda>e. P (fst e)) (segs ! j)"
    using all by (simp add: segs_split [OF assms(1)] takeWhile_append takeWhile_eq_all_conv [THEN iffD2])
  then show ?thesis using n by (cases ?n) (simp_all add: back_pos_def Let_def seg_off_def)
qed

lemma back_pos_less:
  assumes "sorted_keys es" and "downward es P"
  shows "back_pos es P < length es \<longleftrightarrow> (\<exists>e \<in> set es. P (fst e))"
proof
  assume "back_pos es P < length es"
  then have "takeWhile (\<lambda>e. P (fst e)) es \<noteq> []" by (auto simp: back_pos_def split: if_splits)
  then show "\<exists>e \<in> set es. P (fst e)" by (cases es) (auto split: if_splits)
next
  assume "\<exists>e \<in> set es. P (fst e)"
  then obtain i where "i < length es" "P (fst (es ! i))" by (auto simp: in_set_conv_nth)
  then have "i < length (takeWhile (\<lambda>e. P (fst e)) es)" using downward_prefix [OF assms] by blast
  then show "back_pos es P < length es" using length_takeWhile_le [of "\<lambda>e. P (fst e)" es] by (auto simp: back_pos_def Let_def)
qed

lemma back_pos_none: "\<forall>e \<in> set es. \<not> P (fst e) \<Longrightarrow> back_pos es P = length es"
  by (cases es) (simp_all add: back_pos_def)

section \<open>A level\<close>

text \<open>
  The files of the window open, hold their entries between their smallest and largest keys, and lie
  one after the other.
\<close>

definition level_ready :: "('it \<Rightarrow> entry list \<Rightarrow> nat \<Rightarrow> bool) \<Rightarrow> (file_metadata \<Rightarrow> entry list) \<Rightarrow> 'it concat_iterator \<Rightarrow> bool" where
  "level_ready rep ents C \<longleftrightarrow>
     cc_begin C \<le> cc_end C \<and> cc_end C \<le> length (cc_files C) \<and> cc_status_field C = Ok
     \<and> (\<forall>f \<in> set (cc_window C). (\<exists>it p. cc_open C f = Inr it \<and> rep it (ents f) p)
          \<and> (\<forall>e \<in> set (ents f). fm_smallest_key f \<le> fst e \<and> fst e \<le> fm_largest_key f) \<and> fm_smallest_key f \<le> fm_largest_key f)
     \<and> sorted_wrt (\<lambda>f g. fm_largest_key f < fm_smallest_key g) (cc_window C)"

text \<open>The iterator is at an entry of one of the files.\<close>

definition level_at ::
    "('it \<Rightarrow> entry list \<Rightarrow> nat \<Rightarrow> bool) \<Rightarrow> (file_metadata \<Rightarrow> entry list) \<Rightarrow> 'it concat_iterator \<Rightarrow> nat \<Rightarrow> nat \<Rightarrow> bool" where
  "level_at rep ents C j p \<longleftrightarrow>
     (\<exists>it. cc_inner C = Some it \<and> rep it (ents (cc_window C ! j)) p) \<and> p < length (ents (cc_window C ! j))
     \<and> j < length (cc_window C) \<and> cc_index C = cc_begin C + j"

definition concat_rep :: "('it \<Rightarrow> entry list \<Rightarrow> nat \<Rightarrow> bool) \<Rightarrow> 'it concat_iterator \<Rightarrow> entry list \<Rightarrow> nat \<Rightarrow> bool" where
  "concat_rep rep C es i \<longleftrightarrow>
     (\<exists>ents. level_ready rep ents C \<and> es = concat (map ents (cc_window C)) \<and>
        (i = length es \<and> cc_inner C = None
         \<or> (\<exists>j p. level_at rep ents C j p \<and> i = seg_off (map ents (cc_window C)) j + p)))"

lemma window_length: "level_ready rep ents C \<Longrightarrow> length (cc_window C) = cc_end C - cc_begin C"
  by (auto simp: level_ready_def cc_window_def)

lemma window_nth: "level_ready rep ents C \<Longrightarrow> j < length (cc_window C) \<Longrightarrow> cc_window C ! j = cc_files C ! (cc_begin C + j)"
  by (auto simp: level_ready_def cc_window_def)

lemma level_fields [simp]:
  "cc_window (C\<lparr> cc_index := n \<rparr>) = cc_window C" "cc_window (C\<lparr> cc_inner := x \<rparr>) = cc_window C"
  "level_ready rep ents (C\<lparr> cc_index := n \<rparr>) = level_ready rep ents C"
  "level_ready rep ents (C\<lparr> cc_inner := x \<rparr>) = level_ready rep ents C"
  by (simp_all add: cc_window_def level_ready_def)

lemma enter_window:
  assumes "level_ready rep ents C" and "j < length (cc_window C)" and "cc_index C = cc_begin C + j"
  shows "\<exists>it p. cc_enter C = (True, C\<lparr> cc_inner := Some it \<rparr>) \<and> rep it (ents (cc_window C ! j)) p"
proof -
  have "\<exists>it p. cc_open C (cc_window C ! j) = Inr it \<and> rep it (ents (cc_window C ! j)) p"
    using assms(1) nth_mem [OF assms(2)] unfolding level_ready_def by blast
  then show ?thesis using window_nth [OF assms(1,2)] assms(3) by (auto simp: cc_enter_def)
qed

lemma level_keys:
  assumes "level_ready rep ents C" and "i < j" and "j < length (cc_window C)"
    and "x \<in> set (ents (cc_window C ! i))" and "y \<in> set (ents (cc_window C ! j))"
  shows "fst x < fst y"
proof -
  have "fm_largest_key (cc_window C ! i) < fm_smallest_key (cc_window C ! j)"
    using assms(1-3) sorted_wrt_nth_less unfolding level_ready_def by blast
  moreover have "fst x \<le> fm_largest_key (cc_window C ! i)" "fm_smallest_key (cc_window C ! j) \<le> fst y"
    using assms nth_mem [OF assms(3)] nth_mem [OF less_trans [OF assms(2,3)]] unfolding level_ready_def by blast+
  ultimately show ?thesis by order
qed

lemma sorted_keys_append: "sorted_keys (xs @ ys) \<longleftrightarrow> sorted_keys xs \<and> sorted_keys ys \<and> (\<forall>x \<in> set xs. \<forall>y \<in> set ys. fst x < fst y)"
  by (auto simp: sorted_keys_def sorted_wrt_append)

lemma sorted_keys_concat:
  assumes "\<forall>seg \<in> set segs. sorted_keys seg"
    and "\<And>i j x y. i < j \<Longrightarrow> j < length segs \<Longrightarrow> x \<in> set (segs ! i) \<Longrightarrow> y \<in> set (segs ! j) \<Longrightarrow> fst x < fst y"
  shows "sorted_keys (concat segs)"
  using assms
proof (induction segs)
  case (Cons seg segs)
  have "sorted_keys (concat segs)"
  proof (rule Cons.IH)
    show "\<forall>seg \<in> set segs. sorted_keys seg" using Cons.prems(1) by simp
    show "fst x < fst y" if "i < j" "j < length segs" "x \<in> set (segs ! i)" "y \<in> set (segs ! j)" for i j x y
      using Cons.prems(2) [of "Suc i" "Suc j" x y] that by simp
  qed
  moreover have "fst x < fst y" if x: "x \<in> set seg" and y: "y \<in> set (concat segs)" for x y
  proof -
    obtain seg' where "seg' \<in> set segs" "y \<in> set seg'" using y by auto
    then obtain j where "j < length segs" "y \<in> set (segs ! j)" by (metis in_set_conv_nth)
    then show ?thesis using Cons.prems(2) [of 0 "Suc j" x y] x by simp
  qed
  ultimately show ?case using Cons.prems(1) by (simp add: sorted_keys_append)
qed (simp add: sorted_keys_def)

context iterators
begin

lemma level_segment: "level_ready rep ents C \<Longrightarrow> f \<in> set (cc_window C) \<Longrightarrow> sorted_keys (ents f)"
  using rep_sorted unfolding level_ready_def by blast

lemma level_sorted:
  assumes "level_ready rep ents C"
  shows "sorted_keys (concat (map ents (cc_window C)))"
  by (rule sorted_keys_concat) (use level_segment [OF assms] level_keys [OF assms] in auto)

lemma level_at_rep:
  assumes "level_ready rep ents C" and "level_at rep ents C j p"
  shows "concat_rep rep C (concat (map ents (cc_window C))) (seg_off (map ents (cc_window C)) j + p)"
  using assms unfolding concat_rep_def by blast

lemma level_left_rep:
  assumes "level_ready rep ents C"
  shows "concat_rep rep (cc_leave C) (concat (map ents (cc_window C))) (length (concat (map ents (cc_window C))))"
  using assms unfolding concat_rep_def cc_leave_def by (intro exI [of _ ents]) simp

lemma seek_loop_rep:
  assumes "level_ready rep ents C" and "cc_index C = cc_begin C + j" and "j \<le> length (cc_window C)"
    and f: "\<And>it es p. rep it es p \<Longrightarrow> rep (f it) es (cut_pos es P)" and up: "\<And>es. upward es P"
    and "\<forall>m < j. \<forall>e \<in> set (ents (cc_window C ! m)). \<not> P (fst e)"
  shows "concat_rep rep (cc_seek_loop I f C) (concat (map ents (cc_window C))) (cut_pos (concat (map ents (cc_window C))) P)"
  using assms
proof (induction "length (cc_window C) - j" arbitrary: C j)
  case 0
  let ?segs = "map ents (cc_window C)"
  have "\<forall>e \<in> set (concat ?segs). \<not> P (fst e)" unfolding concat_Ball using 0 by simp
  moreover have "\<not> cc_index C < cc_end C" using 0 window_length [OF 0(2)] by auto
  ultimately show ?case using level_left_rep [OF 0(2)] by (subst cc_seek_loop.simps) (simp add: cut_pos_none)
next
  case (Suc n)
  let ?segs = "map ents (cc_window C)" and ?es = "ents (cc_window C ! j)"
  have j: "j < length (cc_window C)" "cc_index C < cc_end C" using Suc(2,4) window_length [OF Suc(3)] by auto
  obtain it p where enter: "cc_enter C = (True, C\<lparr> cc_inner := Some it \<rparr>)" and it: "rep it ?es p"
    using enter_window [OF Suc(3) j(1) Suc(4)] by blast
  note r = f [OF it]
  let ?C = "C\<lparr> cc_inner := Some (f it) \<rparr>"
  show ?case
  proof (cases "\<exists>e \<in> set ?es. P (fst e)")
    case True
    then have lt: "cut_pos ?es P < length ?es" by (simp add: cut_pos_less)
    then have "ii_valid I (f it)" using rep_valid [OF r] by simp
    then have "cc_seek_loop I f C = ?C" using j(2) enter by (subst cc_seek_loop.simps) (simp add: Let_def cc_valid_def)
    moreover have "level_at rep ents ?C j (cut_pos ?es P)" using r lt j(1) Suc(4) by (simp add: level_at_def)
    ultimately show ?thesis
      using level_at_rep [of ents ?C j] Suc(3) cut_pos_segment [of j ?segs P] True Suc(8) j(1) by simp
  next
    case False
    then have "cut_pos ?es P = length ?es" by (simp add: cut_pos_none)
    then have "\<not> ii_valid I (f it)" "ii_status I (f it) = Ok" using rep_valid [OF r] rep_ok [OF r] by auto
    then have loop: "cc_seek_loop I f C = cc_seek_loop I f (?C\<lparr> cc_index := cc_index C + 1 \<rparr>)"
      using j(2) enter by (subst cc_seek_loop.simps) (simp add: Let_def cc_valid_def positioning_failed_def)
    let ?C' = "?C\<lparr> cc_index := cc_index C + 1 \<rparr>"
    have "concat_rep rep (cc_seek_loop I f ?C') (concat (map ents (cc_window ?C'))) (cut_pos (concat (map ents (cc_window ?C'))) P)"
      by (rule Suc(1) [of ?C' "Suc j"]) (use Suc(2,3,4,8) j(1) f up False in \<open>auto simp: less_Suc_eq\<close>)
    then show ?thesis by (simp add: loop)
  qed
qed

lemma back_loop_rep:
  assumes "level_ready rep ents C" and "cc_index C = cc_begin C + n" and "n < length (cc_window C)"
    and f: "\<And>it es p. rep it es p \<Longrightarrow> rep (f it) es (back_pos es P)" and down: "\<And>es. downward es P"
    and "\<forall>m. n < m \<longrightarrow> m < length (cc_window C) \<longrightarrow> (\<forall>e \<in> set (ents (cc_window C ! m)). \<not> P (fst e))"
  shows "concat_rep rep (cc_back_loop I f n C) (concat (map ents (cc_window C))) (back_pos (concat (map ents (cc_window C))) P)"
  using assms
proof (induction n arbitrary: C rule: less_induct)
  case (less n C)
  let ?segs = "map ents (cc_window C)" and ?es = "ents (cc_window C ! n)"
  obtain it p where enter: "cc_enter C = (True, C\<lparr> cc_inner := Some it \<rparr>)" and it: "rep it ?es p"
    using enter_window [OF less(2) less(4) less(3)] by blast
  note r = f [OF it]
  let ?C = "C\<lparr> cc_inner := Some (f it) \<rparr>"
  show ?case
  proof (cases "\<exists>e \<in> set ?es. P (fst e)")
    case True
    then obtain y where y: "y \<in> set ?es" "P (fst y)" by blast
    have before: "P (fst x)" if "m < n" "x \<in> set (ents (cc_window C ! m))" for m x
      using level_keys [OF less(2) that(1) less(4) that(2) y(1)] down [of "[x, y]"] y(2) by (auto simp: downward_def)
    have lt: "back_pos ?es P < length ?es" using True back_pos_less [OF rep_sorted [OF r] down] by simp
    then have "ii_valid I (f it)" using rep_valid [OF r] by simp
    then have "cc_back_loop I f n C = ?C" using enter by (subst cc_back_loop.simps) (simp add: Let_def cc_valid_def)
    moreover have "level_at rep ents ?C n (back_pos ?es P)" using r lt less(3,4) by (simp add: level_at_def)
    moreover have "back_pos (concat ?segs) P = seg_off ?segs n + back_pos ?es P"
      using back_pos_segment [of n ?segs P] True before less(4,7) down rep_sorted [OF r] by simp
    ultimately show ?thesis using level_at_rep [of ents ?C n] less(2) by simp
  next
    case False
    then have "back_pos ?es P = length ?es" by (simp add: back_pos_none)
    then have invalid: "\<not> ii_valid I (f it)" "ii_status I (f it) = Ok" using rep_valid [OF r] rep_ok [OF r] by auto
    show ?thesis
    proof (cases n)
      case 0
      have "\<forall>e \<in> set (concat ?segs). \<not> P (fst e)" unfolding concat_Ball using False less(7) 0 by (metis gr0I length_map nth_map)
      moreover have "cc_back_loop I f n C = cc_leave ?C"
        using enter invalid 0 by (subst cc_back_loop.simps) (simp add: Let_def cc_valid_def positioning_failed_def)
      ultimately show ?thesis using level_left_rep [of ents ?C] less(2) by (simp add: back_pos_none)
    next
      case (Suc m)
      let ?C' = "?C\<lparr> cc_index := cc_index C - 1 \<rparr>"
      have loop: "cc_back_loop I f n C = cc_back_loop I f m ?C'"
        using enter invalid Suc by (subst cc_back_loop.simps) (simp add: Let_def cc_valid_def positioning_failed_def)
      have later: "\<forall>e \<in> set (ents (cc_window C ! k)). \<not> P (fst e)" if "m < k" "k < length (cc_window C)" for k
        using less(7) [rule_format, of k] False Suc that by (cases "k = n") auto
      have "concat_rep rep (cc_back_loop I f m ?C') (concat (map ents (cc_window ?C'))) (back_pos (concat (map ents (cc_window ?C'))) P)"
        by (rule less(1) [of m ?C']) (use less(2-4) Suc f down later in auto)
      then show ?thesis by (simp add: loop)
    qed
  qed
qed

lemma next_loop_rep:
  assumes "level_ready rep ents C" and "cc_index C = cc_begin C + j" and "j < length (cc_window C)"
    and "cc_inner C = Some it" and "rep it (ents (cc_window C ! j)) q"
  shows "concat_rep rep (cc_next_loop I C) (concat (map ents (cc_window C))) (seg_off (map ents (cc_window C)) j + q)"
  using assms
proof (induction "length (cc_window C) - j" arbitrary: C j it q rule: less_induct)
  case (less C j it q)
  let ?segs = "map ents (cc_window C)" and ?es = "ents (cc_window C ! j)"
  show ?case
  proof (cases "q < length ?es")
    case True
    then have "cc_next_loop I C = C" using rep_valid [OF less(6)] less(5) by (subst cc_next_loop.simps) simp
    moreover have "level_at rep ents C j q" using True less by (simp add: level_at_def)
    ultimately show ?thesis using level_at_rep [OF less(2)] by simp
  next
    case False
    then have q: "q = length ?es" using rep_bound [OF less(6)] by simp
    have off: "seg_off ?segs j + q = seg_off ?segs (Suc j)" using seg_off_Suc [of j ?segs] less(4) q by simp
    have invalid: "\<not> ii_valid I it" "ii_status I it = Ok" using rep_valid [OF less(6)] rep_ok [OF less(6)] q by auto
    show ?thesis
    proof (cases "Suc j < length (cc_window C)")
      case True
      let ?C = "C\<lparr> cc_index := cc_index C + 1 \<rparr>"
      obtain it' p where enter: "cc_enter ?C = (True, ?C\<lparr> cc_inner := Some it' \<rparr>)" and it': "rep it' (ents (cc_window C ! Suc j)) p"
        using enter_window [of rep ents ?C "Suc j"] less(2,3) True by auto
      let ?C' = "?C\<lparr> cc_inner := Some (ii_seek_to_first I it') \<rparr>"
      have "\<not> cc_end C \<le> cc_index C + 1" using True less(3) window_length [OF less(2)] by simp
      then have loop: "cc_next_loop I C = cc_next_loop I ?C'"
        using invalid enter less(5) by (subst cc_next_loop.simps) simp
      have "concat_rep rep (cc_next_loop I ?C') (concat (map ents (cc_window ?C'))) (seg_off (map ents (cc_window ?C')) (Suc j) + 0)"
        by (rule less(1) [of ?C' "Suc j" "ii_seek_to_first I it'" 0]) (use less(2,3,4) True rep_first [OF it'] in auto)
      then show ?thesis by (simp add: loop off)
    next
      case False
      then have "cc_end C \<le> cc_index C + 1" "Suc j = length ?segs" using less(3,4) window_length [OF less(2)] by auto
      moreover from this have "cc_next_loop I C = cc_leave C" using invalid less(5) by (subst cc_next_loop.simps) simp
      ultimately show ?thesis using level_left_rep [OF less(2)] by (metis off seg_off_all)
    qed
  qed
qed

lemma prev_loop_rep:
  assumes "level_ready rep ents C" and "cc_index C = cc_begin C + n" and "n < length (cc_window C)"
    and "cc_inner C = Some it" and "rep it (ents (cc_window C ! n)) q"
  shows "concat_rep rep (cc_prev_loop I n C) (concat (map ents (cc_window C)))
    (if q < length (ents (cc_window C ! n)) then seg_off (map ents (cc_window C)) n + q
     else if seg_off (map ents (cc_window C)) n = 0 then length (concat (map ents (cc_window C)))
     else seg_off (map ents (cc_window C)) n - 1)"
  using assms
proof (induction n arbitrary: C it q rule: less_induct)
  case (less n C it q)
  let ?segs = "map ents (cc_window C)" and ?es = "ents (cc_window C ! n)"
  show ?case
  proof (cases "q < length ?es")
    case True
    then have "cc_prev_loop I n C = C" using rep_valid [OF less(6)] less(5) by (subst cc_prev_loop.simps) simp
    moreover have "level_at rep ents C n q" using True less by (simp add: level_at_def)
    ultimately show ?thesis using level_at_rep [OF less(2)] True by simp
  next
    case False
    then have invalid: "\<not> ii_valid I it" "ii_status I it = Ok" using rep_valid [OF less(6)] rep_ok [OF less(6)] by auto
    show ?thesis
    proof (cases n)
      case 0
      then have "cc_prev_loop I n C = cc_leave C" using invalid less(5) by (subst cc_prev_loop.simps) simp
      moreover have "seg_off ?segs n = 0" by (simp add: 0 seg_off_def)
      ultimately show ?thesis using level_left_rep [OF less(2)] False by simp
    next
      case (Suc m)
      let ?C = "C\<lparr> cc_index := cc_index C - 1 \<rparr>" and ?es' = "ents (cc_window C ! m)"
      have m: "m < length (cc_window C)" using less(4) Suc by simp
      obtain it' p where enter: "cc_enter ?C = (True, ?C\<lparr> cc_inner := Some it' \<rparr>)" and it': "rep it' ?es' p"
        using enter_window [of rep ents ?C m] less(2,3) m Suc by auto
      let ?C' = "?C\<lparr> cc_inner := Some (ii_seek_to_last I it') \<rparr>"
      have loop: "cc_prev_loop I n C = cc_prev_loop I m ?C'"
        using invalid enter less(5) Suc by (subst cc_prev_loop.simps) simp
      have off: "seg_off ?segs n = seg_off ?segs m + length ?es'" using seg_off_Suc [of m ?segs] m Suc by simp
      have "concat_rep rep (cc_prev_loop I m ?C') (concat (map ents (cc_window ?C')))
        (if length ?es' - 1 < length ?es' then seg_off ?segs m + (length ?es' - 1)
         else if seg_off ?segs m = 0 then length (concat ?segs) else seg_off ?segs m - 1)"
        using less(1) [of m ?C' "ii_seek_to_last I it'" "length ?es' - 1", unfolded level_fields] less(2,3) m Suc rep_last [OF it']
        by simp
      then show ?thesis using False by (cases "?es'") (auto simp: loop off)
    qed
  qed
qed

lemma concat_rep_basic:
  assumes "concat_rep rep C es i"
  shows "sorted_keys es" "i \<le> length es" "cc_valid I C \<longleftrightarrow> i < length es" "cc_status I C = Ok"
    and "i < length es \<Longrightarrow> cc_entry I C = es ! i"
proof -
  obtain ents where l: "level_ready rep ents C" and es: "es = concat (map ents (cc_window C))"
    and c: "i = length es \<and> cc_inner C = None \<or> (\<exists>j p. level_at rep ents C j p \<and> i = seg_off (map ents (cc_window C)) j + p)"
    using assms by (auto simp: concat_rep_def)
  show "sorted_keys es" unfolding es by (rule level_sorted [OF l])
  from c have "i \<le> length es \<and> cc_valid I C = (i < length es) \<and> cc_status I C = Ok \<and> (i < length es \<longrightarrow> cc_entry I C = es ! i)"
  proof (elim disjE exE conjE)
    assume "i = length es" "cc_inner C = None"
    then show "i \<le> length es \<and> cc_valid I C = (i < length es) \<and> cc_status I C = Ok \<and> (i < length es \<longrightarrow> cc_entry I C = es ! i)"
      using l by (simp add: cc_valid_def cc_status_def level_ready_def)
  next
    fix j p assume at: "level_at rep ents C j p" and i: "i = seg_off (map ents (cc_window C)) j + p"
    then obtain it where it: "cc_inner C = Some it" "rep it (ents (cc_window C ! j)) p" "p < length (ents (cc_window C ! j))" "j < length (cc_window C)"
      by (auto simp: level_at_def)
    have "i < length es" using seg_off_less [of j "map ents (cc_window C)" p] it i es by simp
    moreover have "es ! i = ents (cc_window C ! j) ! p" using segs_nth [of j "map ents (cc_window C)" p] it i es by simp
    ultimately show "i \<le> length es \<and> cc_valid I C = (i < length es) \<and> cc_status I C = Ok \<and> (i < length es \<longrightarrow> cc_entry I C = es ! i)"
      using l it rep_valid [OF it(2)] rep_ok [OF it(2)] rep_entry [OF it(2,3)]
      by (simp add: cc_valid_def cc_status_def cc_entry_def level_ready_def)
  qed
  then show "i \<le> length es" "cc_valid I C \<longleftrightarrow> i < length es" "cc_status I C = Ok" "i < length es \<Longrightarrow> cc_entry I C = es ! i"
    by simp_all
qed

lemma level_partitioned:
  assumes "level_ready rep ents C"
  shows "partitioned (\<lambda>f. fm_largest_key f < t) (cc_window C)" "partitioned (\<lambda>f. \<not> t < fm_smallest_key f) (cc_window C)"
proof -
  have step: "fm_largest_key (cc_window C ! i) < fm_smallest_key (cc_window C ! j)"
      "fm_smallest_key (cc_window C ! i) \<le> fm_largest_key (cc_window C ! i)" "fm_smallest_key (cc_window C ! j) \<le> fm_largest_key (cc_window C ! j)"
    if "i < j" "j < length (cc_window C)" for i j
    using assms that sorted_wrt_nth_less [of _ "cc_window C" i j] nth_mem [of j "cc_window C"] nth_mem [of i "cc_window C"]
    unfolding level_ready_def by (blast intro: less_trans)+
  show "partitioned (\<lambda>f. fm_largest_key f < t) (cc_window C)" "partitioned (\<lambda>f. \<not> t < fm_smallest_key f) (cc_window C)"
    unfolding partitioned_def using step by (meson le_less_trans less_le_trans less_trans not_less)+
qed

lemma concat_seeks:
  assumes l: "level_ready rep ents C"
  defines "es \<equiv> concat (map ents (cc_window C))"
  shows "concat_rep rep (cc_seek_to_first I C) es 0" "concat_rep rep (cc_seek I C t) es (lower_pos es t)"
    and "concat_rep rep (cc_seek_to_last I C) es (length es - 1)" "concat_rep rep (cc_seek_for_prev I C t) es (floor_pos es t)"
proof -
  have up: "upward es (\<lambda>_. True)" "upward es (\<lambda>k. t \<le> k)" "downward es (\<lambda>_. True)" "downward es (\<lambda>k. k \<le> t)" for es t
    by (auto simp: upward_def downward_def)
  have bounds: "fm_smallest_key (cc_window C ! m) \<le> fst e" "fst e \<le> fm_largest_key (cc_window C ! m)"
    if "m < length (cc_window C)" "e \<in> set (ents (cc_window C ! m))" for m e
    using l that nth_mem unfolding level_ready_def by blast+
  show "concat_rep rep (cc_seek_to_first I C) es 0"
    unfolding cc_seek_to_first_def es_def
    using seek_loop_rep [of ents "C\<lparr> cc_index := cc_begin C \<rparr>" 0 "ii_seek_to_first I" "\<lambda>_. True"] l rep_first
    by (simp add: positions up)
  let ?b = "partition_point (\<lambda>f. fm_largest_key f < t) (cc_window C)"
  have b: "?b \<le> length (cc_window C)" by (rule partition_point_le [OF level_partitioned(1) [OF l]])
  have "fst e < t" if "m < ?b" "e \<in> set (ents (cc_window C ! m))" for m e
  proof -
    have "m < length (cc_window C)" using that b by simp
    then have "fm_largest_key (cc_window C ! m) < t"
      using partitioned_takeWhile_nth [OF level_partitioned(1) [OF l], of m t] that(1) by (simp add: partition_point_takeWhile [OF level_partitioned(1) [OF l]])
    then show ?thesis using bounds(2) [OF \<open>m < length (cc_window C)\<close> that(2)] by simp
  qed
  then have none: "\<forall>m < ?b. \<forall>e \<in> set (ents (cc_window C ! m)). \<not> t \<le> fst e" by (simp add: not_le)
  show "concat_rep rep (cc_seek I C t) es (lower_pos es t)"
    unfolding cc_seek_def es_def
    using seek_loop_rep [of ents "C\<lparr> cc_index := cc_begin C + ?b \<rparr>" ?b "\<lambda>it. ii_seek I it t" "\<lambda>k. t \<le> k"] l rep_seek b none
    by (simp add: positions up)
  show "concat_rep rep (cc_seek_to_last I C) es (length es - 1)"
  proof (cases "cc_end C \<le> cc_begin C")
    case True
    then have "cc_window C = []" by (simp add: cc_window_def)
    then show ?thesis using level_left_rep [OF l] True by (simp add: cc_seek_to_last_def es_def)
  next
    case False
    let ?n = "cc_end C - 1 - cc_begin C" and ?C = "C\<lparr> cc_index := cc_end C - 1 \<rparr>"
    have n: "?n < length (cc_window C)" "cc_end C - 1 = cc_begin C + ?n" "\<not> (?n < m \<and> m < length (cc_window C))" for m
      using False window_length [OF l] by auto
    have "concat_rep rep (cc_back_loop I (ii_seek_to_last I) ?n ?C) (concat (map ents (cc_window ?C)))
        (back_pos (concat (map ents (cc_window ?C))) (\<lambda>_. True))"
      by (rule back_loop_rep) (use l n rep_last up in \<open>auto simp: positions\<close>)
    then show ?thesis using False by (simp add: cc_seek_to_last_def es_def positions)
  qed
  let ?a = "partition_point (\<lambda>f. \<not> t < fm_smallest_key f) (cc_window C)"
  have a: "?a \<le> length (cc_window C)" by (rule partition_point_le [OF level_partitioned(2) [OF l]])
  have above: "\<not> fst e \<le> t" if "?a \<le> m" "m < length (cc_window C)" "e \<in> set (ents (cc_window C ! m))" for m e
  proof -
    have "t < fm_smallest_key (cc_window C ! m)"
      using partitioned_takeWhile_nth [OF level_partitioned(2) [OF l] that(2), of t] that(1)
      by (simp add: partition_point_takeWhile [OF level_partitioned(2) [OF l]])
    then show ?thesis using bounds(1) [OF that(2,3)] by auto
  qed
  show "concat_rep rep (cc_seek_for_prev I C t) es (floor_pos es t)"
  proof (cases "?a = 0")
    case True
    then have "\<forall>e \<in> set es. \<not> fst e \<le> t" unfolding es_def concat_Ball using above by simp
    then have "floor_pos es t = length es" unfolding positions(4) [symmetric] by (rule back_pos_none)
    then show ?thesis using level_left_rep [OF l] True by (simp add: cc_seek_for_prev_def es_def)
  next
    case False
    let ?C = "C\<lparr> cc_index := cc_begin C + ?a - 1 \<rparr>"
    have n: "?a - 1 < length (cc_window C)" "cc_begin C + ?a - 1 = cc_begin C + (?a - 1)" using False a by auto
    have none: "\<not> fst e \<le> t" if "?a - 1 < m" "m < length (cc_window C)" "e \<in> set (ents (cc_window C ! m))" for m e
      using above [of m e] that by simp
    have "concat_rep rep (cc_back_loop I (\<lambda>it. ii_seek_for_prev I it t) (?a - 1) ?C) (concat (map ents (cc_window ?C)))
        (back_pos (concat (map ents (cc_window ?C))) (\<lambda>k. k \<le> t))"
      by (rule back_loop_rep) (use l n rep_seek_for_prev up none in \<open>simp_all add: positions\<close>)
    then show ?thesis using False by (simp add: cc_seek_for_prev_def es_def positions Let_def)
  qed
qed

end

sublocale iterators \<subseteq> concatenated: cursor "concat_rep rep" "cc_valid I" "cc_entry I" "\<lambda>C. cc_status I C = Ok"
  "cc_seek_to_first I" "cc_seek I" "cc_next I" "cc_seek_to_last I" "cc_seek_for_prev I" "cc_prev I"
proof unfold_locales
  fix C es i t
  assume r: "concat_rep rep C es i"
  then obtain ents where l: "level_ready rep ents C" and es: "es = concat (map ents (cc_window C))"
    and c: "i = length es \<and> cc_inner C = None \<or> (\<exists>j p. level_at rep ents C j p \<and> i = seg_off (map ents (cc_window C)) j + p)"
    by (auto simp: concat_rep_def)
  show "sorted_keys es" "i \<le> length es" "cc_valid I C = (i < length es)" "cc_status I C = Ok" by (fact concat_rep_basic [OF r])+
  show "concat_rep rep (cc_seek_to_first I C) es 0" "concat_rep rep (cc_seek I C t) es (lower_pos es t)"
    "concat_rep rep (cc_seek_to_last I C) es (length es - 1)" "concat_rep rep (cc_seek_for_prev I C t) es (floor_pos es t)"
    using concat_seeks [OF l] es by simp_all
  assume lt: "i < length es"
  show "cc_entry I C = es ! i" by (rule concat_rep_basic(5) [OF r lt])
  obtain j p it where at: "cc_inner C = Some it" "rep it (ents (cc_window C ! j)) p" "p < length (ents (cc_window C ! j))"
    "j < length (cc_window C)" "cc_index C = cc_begin C + j" "i = seg_off (map ents (cc_window C)) j + p"
    using c lt by (auto simp: level_at_def)
  show "concat_rep rep (cc_next I C) es (Suc i)"
    using next_loop_rep [of ents "C\<lparr> cc_inner := Some (ii_next I it) \<rparr>" j "ii_next I it" "Suc p"] rep_next [OF at(2,3)] at l es
    by (simp add: cc_next_def)
  show "concat_rep rep (cc_prev I C) es (if i = 0 then length es else i - 1)"
    using prev_loop_rep [of ents "C\<lparr> cc_inner := Some (ii_prev I it) \<rparr>" j "ii_prev I it"
        "if p = 0 then length (ents (cc_window C ! j)) else p - 1"] rep_prev [OF at(2,3)] at l es
    by (auto simp: cc_prev_def split: if_splits)
qed

end
