(* ===== verification/Memory.thy ===== *)
theory Memory
  imports Prelude
begin

text \<open>
  Memory accounting: the process-wide budget of include/elysiumkv/memory\_budget.hpp, a charge held
  for the life of a buffer (src/util/budget\_charge.hpp) and the bump allocator of
  src/memtable/arena.cpp. An address is a block number and an offset into the block; a fresh block is
  maximally aligned, as the C++ standard guarantees for \<open>operator new[]\<close>.
\<close>

section \<open>The budget\<close>

record memory_budget =
  mb_total :: u64
  mb_used :: u64

definition try_acquire :: "memory_budget \<Rightarrow> u64 \<Rightarrow> bool \<times> memory_budget" where
  "try_acquire b n =
     (if mb_total b < mb_used b + n then (False, b) else (True, b\<lparr> mb_used := mb_used b + n \<rparr>))"

definition try_acquire_over :: "memory_budget \<Rightarrow> u64 \<Rightarrow> bool \<times> memory_budget" where
  "try_acquire_over b n = (mb_used b + n \<le> mb_total b, b\<lparr> mb_used := mb_used b + n \<rparr>)"

definition mb_release :: "memory_budget \<Rightarrow> u64 \<Rightarrow> memory_budget" where
  "mb_release b n = b\<lparr> mb_used := mb_used b - n \<rparr>"

definition overage :: "memory_budget \<Rightarrow> u64" where
  "overage b = (if mb_total b < mb_used b then mb_used b - mb_total b else 0)"

text \<open>\<open>BudgetCharge\<close>: what its constructor does to the budget it is given, if any, and its destructor.\<close>

definition budget_charge :: "memory_budget option \<Rightarrow> u64 \<Rightarrow> memory_budget option" where
  "budget_charge b n =
     (case b of None \<Rightarrow> None | Some b \<Rightarrow> Some (if n \<noteq> 0 then snd (try_acquire_over b n) else b))"

definition budget_uncharge :: "memory_budget option \<Rightarrow> u64 \<Rightarrow> memory_budget option" where
  "budget_uncharge b n =
     (case b of None \<Rightarrow> None | Some b \<Rightarrow> Some (if n \<noteq> 0 then mb_release b n else b))"

section \<open>The arena\<close>

record arena =
  ar_budget :: "memory_budget option"
  ar_block :: nat
  ar_offset :: nat
  ar_remaining :: nat
  ar_blocks :: "nat list"
  ar_usage :: u64

definition kArenaBlockBytes :: nat where "kArenaBlockBytes = 4096"
definition kAlignment :: nat where "kAlignment = 16"

definition Arena :: arena where
  "Arena = \<lparr> ar_budget = None, ar_block = 0, ar_offset = 0, ar_remaining = 0, ar_blocks = [], ar_usage = 0 \<rparr>"

text \<open>
  Replacing the budget; \<open>same\<close> says that it is the object already in use. The one given up gets back
  what was charged to it; it is the second component of the result.
\<close>

definition arena_set_budget ::
    "arena \<Rightarrow> bool \<Rightarrow> memory_budget option \<Rightarrow> arena \<times> memory_budget option" where
  "arena_set_budget a same budget =
     (if same then (a, None) else
      let held = ar_usage a;
          old = (case ar_budget a of None \<Rightarrow> None | Some b \<Rightarrow> Some (mb_release b held));
          new = (case budget of
                   None \<Rightarrow> None
                 | Some b \<Rightarrow> Some (if 0 < held then snd (try_acquire_over b held) else b))
      in (a\<lparr> ar_budget := new \<rparr>, old))"

definition arena_destroy :: "arena \<Rightarrow> memory_budget option" where
  "arena_destroy a =
     (case ar_budget a of None \<Rightarrow> None | Some b \<Rightarrow> Some (mb_release b (ar_usage a)))"

type_synonym address = "nat \<times> nat"

definition allocate_new_block :: "arena \<Rightarrow> nat \<Rightarrow> nat \<times> arena" where
  "allocate_new_block a block_bytes =
     (let charge = of_nat block_bytes + 8 in
      (length (ar_blocks a),
       a\<lparr> ar_blocks := ar_blocks a @ [block_bytes], ar_usage := ar_usage a + charge,
          ar_budget := (case ar_budget a of
                          None \<Rightarrow> None
                        | Some b \<Rightarrow> Some (snd (try_acquire_over b charge))) \<rparr>))"

definition allocate_fallback :: "arena \<Rightarrow> nat \<Rightarrow> address \<times> arena" where
  "allocate_fallback a n =
     (if kArenaBlockBytes div 4 < n
      then (case allocate_new_block a n of (b, a) \<Rightarrow> ((b, 0), a))
      else (case allocate_new_block a kArenaBlockBytes of
              (b, a) \<Rightarrow> ((b, 0), a\<lparr> ar_block := b, ar_offset := n, ar_remaining := kArenaBlockBytes - n \<rparr>)))"

definition arena_allocate :: "arena \<Rightarrow> nat \<Rightarrow> address \<times> arena" where
  "arena_allocate a n =
     (let n = (if n = 0 then 1 else n) in
      if n \<le> ar_remaining a
      then ((ar_block a, ar_offset a), a\<lparr> ar_offset := ar_offset a + n, ar_remaining := ar_remaining a - n \<rparr>)
      else allocate_fallback a n)"

definition allocate_aligned :: "arena \<Rightarrow> nat \<Rightarrow> address \<times> arena" where
  "allocate_aligned a n =
     (let slop = ar_offset a mod kAlignment;
          padding = (if slop = 0 then 0 else kAlignment - slop)
      in if n + padding \<le> ar_remaining a
         then ((ar_block a, ar_offset a + padding),
               a\<lparr> ar_offset := ar_offset a + (n + padding), ar_remaining := ar_remaining a - (n + padding) \<rparr>)
         else allocate_fallback a n)"

section \<open>Properties\<close>

text \<open>
  The accounting invariant: the current block has room for what is said to remain, the usage is what
  the blocks cost, and the budget was charged with all of it on top of what it was at the start.
\<close>

definition blocks_cost :: "nat list \<Rightarrow> u64" where
  "blocks_cost bs = sum_list (map (\<lambda>n. of_nat n + 8) bs)"

definition arena_ok :: "memory_budget option \<Rightarrow> arena \<Rightarrow> bool" where
  "arena_ok base a \<longleftrightarrow>
     (0 < ar_remaining a \<longrightarrow> ar_block a < length (ar_blocks a)
        \<and> ar_offset a + ar_remaining a \<le> ar_blocks a ! ar_block a)
     \<and> ar_usage a = blocks_cost (ar_blocks a)
     \<and> ar_budget a = map_option (\<lambda>b. b\<lparr> mb_used := mb_used b + ar_usage a \<rparr>) base"

text \<open>A request and the two ways to make it.\<close>

datatype request = Bytes nat | Aligned nat

fun serve :: "arena \<Rightarrow> request \<Rightarrow> address \<times> arena" where
  "serve a (Bytes n) = arena_allocate a n"
| "serve a (Aligned n) = allocate_aligned a n"

fun request_size :: "request \<Rightarrow> nat" where
  "request_size (Bytes n) = n" | "request_size (Aligned n) = n"

fun serve_all :: "arena \<Rightarrow> request list \<Rightarrow> (address \<times> nat) list \<times> arena" where
  "serve_all a [] = ([], a)"
| "serve_all a (r # rs) =
     (case serve a r of (p, a) \<Rightarrow>
      case serve_all a rs of (ps, a) \<Rightarrow> ((p, request_size r) # ps, a))"

definition in_bounds :: "arena \<Rightarrow> address \<times> nat \<Rightarrow> bool" where
  "in_bounds a p \<longleftrightarrow>
     (case p of ((b, off), n) \<Rightarrow> b < length (ar_blocks a) \<and> off + n \<le> ar_blocks a ! b)"

definition apart :: "address \<times> nat \<Rightarrow> address \<times> nat \<Rightarrow> bool" where
  "apart p q \<longleftrightarrow>
     (case (p, q) of (((b, off), n), ((c, off'), m)) \<Rightarrow> b \<noteq> c \<or> off + n \<le> off' \<or> off' + m \<le> off)"

text \<open>A region lies before everything the arena may still hand out.\<close>

definition behind :: "arena \<Rightarrow> address \<times> nat \<Rightarrow> bool" where
  "behind a p \<longleftrightarrow>
     in_bounds a p \<and> (case p of ((b, off), n) \<Rightarrow> b = ar_block a \<and> 0 < ar_remaining a \<longrightarrow> off + n \<le> ar_offset a)"

lemmas arena_defs = arena_ok_def behind_def in_bounds_def apart_def blocks_cost_def
  allocate_new_block_def kArenaBlockBytes_def try_acquire_over_def Let_def

lemma fallback_ok:
  assumes "arena_ok base a" and "allocate_fallback a n = (p, a')"
  shows "arena_ok base a' \<and> behind a' (p, n) \<and> snd p = 0"
    and "behind a q \<Longrightarrow> behind a' q \<and> apart q (p, n)"
proof -
  show "arena_ok base a' \<and> behind a' (p, n) \<and> snd p = 0"
  proof (cases "1024 < n")
    case True
    then show ?thesis
      using assms by (auto simp: allocate_fallback_def arena_defs nth_append split: option.splits)
  next
    case False
    then show ?thesis
      using assms by (auto simp: allocate_fallback_def arena_defs nth_append split: option.splits)
  qed
  assume "behind a q"
  then show "behind a' q \<and> apart q (p, n)"
    using assms(2)
    by (auto simp: allocate_fallback_def arena_defs nth_append split: if_splits prod.splits)
qed

lemma bump_ok:
  assumes "arena_ok base a" and "pad + n \<le> ar_remaining a" and "0 < pad + n"
    and "a' = a\<lparr> ar_offset := ar_offset a + (pad + n), ar_remaining := ar_remaining a - (pad + n) \<rparr>"
  shows "arena_ok base a' \<and> behind a' ((ar_block a, ar_offset a + pad), n)"
    and "behind a q \<Longrightarrow> behind a' q \<and> apart q ((ar_block a, ar_offset a + pad), n)"
  using assms by (auto simp: arena_defs split: option.splits)

lemma behind_shorter: "behind a (p, n) \<Longrightarrow> m \<le> n \<Longrightarrow> behind a (p, m)"
  by (auto simp: arena_defs)

lemma apart_shorter: "apart q (p, n) \<Longrightarrow> m \<le> n \<Longrightarrow> apart q (p, m)"
  by (auto simp: arena_defs)

lemma align_up: "(off + (if off mod k = 0 then 0 else k - off mod k)) mod k = 0" if "0 < k" for off k :: nat
proof (cases "off mod k = 0")
  case False
  have "off + (k - off mod k) = off div k * k + k"
    using that mod_less_divisor [OF that, of off] div_mult_mod_eq [of off k] by linarith
  then show ?thesis using False by simp
qed simp

lemma serve_bytes_ok:
  assumes "arena_ok base a" and "arena_allocate a n = (p, a')"
  shows "arena_ok base a' \<and> behind a' (p, n)" and "behind a q \<Longrightarrow> behind a' q \<and> apart q (p, n)"
proof -
  define m where "m = (if n = 0 then 1 else n)"
  have m: "0 < m" "n \<le> m" by (simp_all add: m_def)
  have "arena_ok base a' \<and> behind a' (p, m) \<and> (behind a q \<longrightarrow> behind a' q \<and> apart q (p, m))"
  proof (cases "m \<le> ar_remaining a")
    case True
    then have "p = (ar_block a, ar_offset a + 0)"
        "a' = a\<lparr> ar_offset := ar_offset a + (0 + m), ar_remaining := ar_remaining a - (0 + m) \<rparr>"
      using assms(2) by (auto simp: arena_allocate_def m_def [symmetric] Let_def)
    with bump_ok [OF assms(1), of 0 m a'] True m show ?thesis by auto
  next
    case False
    then have "allocate_fallback a m = (p, a')"
      using assms(2) by (simp add: arena_allocate_def m_def [symmetric] Let_def)
    from fallback_ok [OF assms(1) this] show ?thesis by blast
  qed
  then show "arena_ok base a' \<and> behind a' (p, n)" "behind a q \<Longrightarrow> behind a' q \<and> apart q (p, n)"
    using m behind_shorter apart_shorter by blast+
qed

lemma serve_aligned_ok:
  assumes "arena_ok base a" and "allocate_aligned a n = (p, a')" and "0 < n"
  shows "arena_ok base a' \<and> behind a' (p, n) \<and> snd p mod kAlignment = 0"
    and "behind a q \<Longrightarrow> behind a' q \<and> apart q (p, n)"
proof -
  define pad where "pad = (if ar_offset a mod kAlignment = 0 then 0 else kAlignment - ar_offset a mod kAlignment)"
  have k: "0 < kAlignment" by (simp add: kAlignment_def)
  have "arena_ok base a' \<and> behind a' (p, n) \<and> snd p mod kAlignment = 0
      \<and> (behind a q \<longrightarrow> behind a' q \<and> apart q (p, n))"
  proof (cases "n + pad \<le> ar_remaining a")
    case True
    then have "p = (ar_block a, ar_offset a + pad)"
        "a' = a\<lparr> ar_offset := ar_offset a + (pad + n), ar_remaining := ar_remaining a - (pad + n) \<rparr>"
      using assms(2) by (auto simp: allocate_aligned_def pad_def [symmetric] Let_def add.commute [of n])
    with bump_ok [OF assms(1), of pad n a'] True assms(3) align_up [OF k, of "ar_offset a"]
    show ?thesis by (auto simp: pad_def add.commute)
  next
    case False
    then have "allocate_fallback a n = (p, a')"
      using assms(2) by (auto simp: allocate_aligned_def pad_def [symmetric] Let_def split: if_splits)
    from fallback_ok [OF assms(1) this] show ?thesis by auto
  qed
  then show "arena_ok base a' \<and> behind a' (p, n) \<and> snd p mod kAlignment = 0"
    "behind a q \<Longrightarrow> behind a' q \<and> apart q (p, n)" by blast+
qed

definition proper :: "request \<Rightarrow> bool" where
  "proper r \<longleftrightarrow> (case r of Bytes _ \<Rightarrow> True | Aligned n \<Rightarrow> 0 < n)"

lemma serve_ok:
  assumes "arena_ok base a" and "serve a r = (p, a')" and "proper r"
  shows "arena_ok base a' \<and> behind a' (p, request_size r)
      \<and> (case r of Bytes _ \<Rightarrow> True | Aligned _ \<Rightarrow> snd p mod kAlignment = 0)"
    and "behind a q \<Longrightarrow> behind a' q \<and> apart q (p, request_size r)"
  using assms serve_bytes_ok [of base a _ p a'] serve_aligned_ok [of base a _ p a']
  by (cases r; simp add: proper_def)+

lemma serve_all_ok:
  assumes "arena_ok base a" and "serve_all a rs = (ps, a')" and "list_all proper rs"
  shows "arena_ok base a' \<and> list_all (behind a') ps \<and> (\<forall>q. behind a q \<longrightarrow> behind a' q \<and> list_all (apart q) ps)
    \<and> sorted_wrt apart ps
    \<and> list_all2 (\<lambda>r p. snd p = request_size r \<and> (case r of Bytes _ \<Rightarrow> True | Aligned _ \<Rightarrow> snd (fst p) mod kAlignment = 0)) rs ps"
  using assms
proof (induction rs arbitrary: a ps)
  case (Cons r rs)
  obtain p a1 where p: "serve a r = (p, a1)" by fastforce
  obtain ps1 where ps1: "serve_all a1 rs = (ps1, a')" "ps = (p, request_size r) # ps1"
    using Cons.prems(2) p by (auto split: prod.splits)
  note s = serve_ok [OF Cons.prems(1) p] Cons.prems(3)
  from s have "arena_ok base a1" by simp
  moreover have "list_all proper rs" using s(3) by simp
  ultimately have ih: "arena_ok base a'" "list_all (behind a') ps1"
      "\<And>q. behind a1 q \<Longrightarrow> behind a' q \<and> list_all (apart q) ps1" "sorted_wrt apart ps1"
      "list_all2 (\<lambda>r p. snd p = request_size r \<and> (case r of Bytes _ \<Rightarrow> True | Aligned _ \<Rightarrow> snd (fst p) mod kAlignment = 0)) rs ps1"
    using Cons.IH [OF _ ps1(1)] by blast+
  have new: "behind a1 (p, request_size r)" using s by simp
  have old: "behind a1 q \<and> apart q (p, request_size r)" if "behind a q" for q using s(2,3) that by simp
  show ?case
    unfolding ps1(2) using ih(1,2,4,5) ih(3) [OF new] s(1,3) ih(3) old
    by (auto simp: list_all_iff split: request.split)
qed auto

text \<open>
  [C26] The arena: whatever sequence of requests it serves, every region it returns lies inside a block
  it owns, no two regions overlap, aligned requests are aligned, and the usage it reports is exactly
  the cost of its blocks, all of it charged to its budget on top of what others hold.
\<close>

theorem arena_regions_disjoint:
  assumes "list_all proper rs" and "serve_all (fst (arena_set_budget Arena False budget)) rs = (ps, a)"
  shows "sorted_wrt apart ps \<and> list_all (in_bounds a) ps
    \<and> list_all2 (\<lambda>r p. snd p = request_size r \<and> (case r of Bytes _ \<Rightarrow> True | Aligned _ \<Rightarrow> snd (fst p) mod kAlignment = 0)) rs ps
    \<and> ar_usage a = blocks_cost (ar_blocks a)
    \<and> ar_budget a = map_option (\<lambda>b. b\<lparr> mb_used := mb_used b + ar_usage a \<rparr>) budget"
proof -
  have "arena_ok budget (fst (arena_set_budget Arena False budget))"
    by (cases budget) (simp_all add: arena_ok_def arena_set_budget_def Arena_def blocks_cost_def)
  from serve_all_ok [OF this assms(2,1)] show ?thesis
    by (auto simp: arena_ok_def behind_def list_all_iff)
qed

theorem arena_regions_disjoint_witness:
  "\<exists>a. serve_all (fst (arena_set_budget Arena False (Some \<lparr> mb_total = 10000, mb_used = 5 \<rparr>))) [Bytes 3, Aligned 40, Bytes 5000]
      = ([((0, 0), 3), ((0, 16), 40), ((1, 0), 5000)], a)
    \<and> ar_usage a = 9112 \<and> ar_budget a = Some \<lparr> mb_total = 10000, mb_used = 9117 \<rparr>
    \<and> sorted_wrt apart [((0, 0), 3), ((0, 16), 40), ((1, 0), 5000)]"
proof -
  let ?b = "Some \<lparr> mb_total = 10000, mb_used = 5 \<rparr> :: memory_budget option" and ?rs = "[Bytes 3, Aligned 40, Bytes 5000]"
  define a where "a = snd (serve_all (fst (arena_set_budget Arena False ?b)) ?rs)"
  have r: "serve_all (fst (arena_set_budget Arena False ?b)) ?rs = ([((0, 0), 3), ((0, 16), 40), ((1, 0), 5000)], a)"
    "ar_blocks a = [4096, 5000]"
    by (simp_all add: a_def arena_set_budget_def Arena_def arena_allocate_def allocate_aligned_def
        allocate_fallback_def arena_defs kAlignment_def)
  have "list_all proper ?rs" by (simp add: proper_def)
  from arena_regions_disjoint [OF this r(1)] r show ?thesis by (auto simp: blocks_cost_def)
qed

end
