(* ===== verification/Memtable.thy ===== *)
theory Memtable
  imports Cursor Memory Watermark
begin

text \<open>
  The memtable: the skip list over a bump arena of src/memtable/skiplist\_memtable.cpp. Nodes are
  addressed by their index in the list of all nodes ever allocated, since the arena never frees one
  before the whole table dies; node 0 is the head. A value pointer to an immutable record is the
  record itself, and replacing it in place is a list update.

  The descents follow pointers and are written as a partial function, whose result is \<^const>\<open>None\<close> if a
  descent does not end. That no descent from a reachable table fails to end is part of what is shown.
\<close>

section \<open>State\<close>

record node =
  n_value :: "(value_type \<times> bytes) option"
  n_key :: bytes
  n_height :: nat
  n_next :: "nat \<Rightarrow> nat option"

record memtable =
  mt_arena :: arena
  mt_nodes :: "node list"
  mt_max_height :: nat
  mt_entries :: u64
  mt_tombstones :: u64
  mt_range_count :: u64
  mt_ranges :: "range_tombstone list"
  mt_creation_time_ms :: u64
  mt_sealed_time_ms :: u64
  mt_watermark :: watermark_interval
  mt_rng_state :: u32

definition kMaxHeight :: nat where "kMaxHeight = 12"

text \<open>The sizes of \<open>Node\<close>, \<open>ValueRecord\<close> and \<open>RangeNode\<close>, and of a pointer, on a 64-bit target.\<close>

definition sizeof_node :: nat where "sizeof_node = 32"
definition sizeof_value_record :: nat where "sizeof_value_record = 8"
definition sizeof_range_node :: nat where "sizeof_range_node = 40"
definition sizeof_pointer :: nat where "sizeof_pointer = 8"

definition head_node :: nat where "head_node = 0"

abbreviation node_at :: "memtable \<Rightarrow> nat \<Rightarrow> node" where
  "node_at m i \<equiv> mt_nodes m ! i"

section \<open>Operations\<close>

text \<open>
  What a pointer and a 32-bit length read back of bytes that were copied whole. The lengths of keys and of
  values are \<open>uint32_t\<close>.
\<close>

definition slice32 :: "bytes \<Rightarrow> bytes" where
  "slice32 bs = take (unat (of_nat (length bs) :: u32)) bs"

text \<open>The node goes to the end of the list of nodes; its address is returned.\<close>

definition new_node :: "memtable \<Rightarrow> bytes \<Rightarrow> nat \<Rightarrow> nat \<times> memtable" where
  "new_node m key height =
     (let (_, a) = allocate_aligned (mt_arena m) (sizeof_node + sizeof_pointer * (height - 1));
          a = (if key = [] then a else snd (arena_allocate a (length key)))
      in (length (mt_nodes m),
          m\<lparr> mt_arena := a,
             mt_nodes := mt_nodes m @ [\<lparr> n_value = None, n_key = slice32 key, n_height = height, n_next = (\<lambda>_. None) \<rparr>] \<rparr>))"

definition new_value :: "memtable \<Rightarrow> value_type \<Rightarrow> bytes \<Rightarrow> (value_type \<times> bytes) \<times> memtable" where
  "new_value m type value =
     ((type, slice32 value),
      m\<lparr> mt_arena := snd (allocate_aligned (mt_arena m) (sizeof_value_record + length value)) \<rparr>)"

lemma slice32_short [simp]: "length bs < 2 ^ 32 \<Longrightarrow> slice32 bs = bs"
  by (simp add: slice32_def unsigned_of_nat take_bit_nat_eq_self)

lemma slice32_Nil [simp]: "slice32 [] = []"
  by (simp add: slice32_def)

definition SkiplistMemtable :: memtable where
  "SkiplistMemtable =
     snd (new_node \<lparr> mt_arena = Arena, mt_nodes = [], mt_max_height = 1, mt_entries = 0, mt_tombstones = 0,
       mt_range_count = 0, mt_ranges = [], mt_creation_time_ms = 0, mt_sealed_time_ms = 0,
       mt_watermark = no_watermark, mt_rng_state = 0x2545F491 \<rparr> [] kMaxHeight)"

definition mt_set_memory_budget :: "memtable \<Rightarrow> memory_budget option \<Rightarrow> memtable" where
  "mt_set_memory_budget m budget = m\<lparr> mt_arena := fst (arena_set_budget (mt_arena m) False budget) \<rparr>"

definition mt_approximate_bytes :: "memtable \<Rightarrow> u64" where
  "mt_approximate_bytes m = ar_usage (mt_arena m)"

definition mt_empty :: "memtable \<Rightarrow> bool" where
  "mt_empty m \<longleftrightarrow> mt_entries m = 0 \<and> mt_range_count m = 0"

definition set_creation_time_ms :: "memtable \<Rightarrow> u64 \<Rightarrow> memtable" where
  "set_creation_time_ms m ms = m\<lparr> mt_creation_time_ms := ms \<rparr>"

definition set_sealed_time_ms :: "memtable \<Rightarrow> u64 \<Rightarrow> memtable" where
  "set_sealed_time_ms m ms = m\<lparr> mt_sealed_time_ms := ms \<rparr>"

definition set_watermark_high :: "memtable \<Rightarrow> u64 \<Rightarrow> memtable" where
  "set_watermark_high m position = m\<lparr> mt_watermark := (mt_watermark m)\<lparr> wm_high := Some position \<rparr> \<rparr>"

definition set_watermark_bounds :: "memtable \<Rightarrow> watermark_interval \<Rightarrow> memtable" where
  "set_watermark_bounds m bounds = m\<lparr> mt_watermark := bounds \<rparr>"

definition xorshift32 :: "u32 \<Rightarrow> u32" where
  "xorshift32 x =
     (let x = x XOR push_bit 13 x; x = x XOR drop_bit 17 x in x XOR push_bit 5 x)"

fun height_of_bits :: "nat \<Rightarrow> nat \<Rightarrow> u32 \<Rightarrow> nat" where
  "height_of_bits 0 height bits = height"
| "height_of_bits (Suc n) height bits =
     (if bits AND 3 = 0 then height_of_bits n (height + 1) (drop_bit 2 bits) else height)"

definition random_height :: "memtable \<Rightarrow> nat \<times> memtable" where
  "random_height m =
     (let s = xorshift32 (mt_rng_state m)
      in (height_of_bits (kMaxHeight - 1) 1 s, m\<lparr> mt_rng_state := s \<rparr>))"

text \<open>
  The loop of the three descents. \<open>go\<close> is the test on the next node; the result is the last node of
  each level visited, the node where the descent stopped, and the node after it.
\<close>

partial_function (option) descend ::
    "(node \<Rightarrow> bool) \<Rightarrow> memtable \<Rightarrow> nat \<Rightarrow> nat \<Rightarrow> (nat \<Rightarrow> nat) \<Rightarrow> ((nat \<Rightarrow> nat) \<times> nat \<times> nat option) option" where
  "descend go m node level prev =
     (let nxt = n_next (node_at m node) level in
      if (case nxt of None \<Rightarrow> False | Some i \<Rightarrow> go (node_at m i)) then descend go m (the nxt) level prev
      else
        let prev = prev(level := node) in
        if level = 0 then Some (prev, node, nxt) else descend go m node (level - 1) prev)"

definition find_greater_or_equal :: "memtable \<Rightarrow> bytes \<Rightarrow> ((nat \<Rightarrow> nat) \<times> nat option) option" where
  "find_greater_or_equal m key =
     map_option (\<lambda>(prev, _, nxt). (prev, nxt))
       (descend (\<lambda>n. n_key n < key) m head_node (mt_max_height m - 1) (\<lambda>_. head_node))"

definition find_less_than :: "memtable \<Rightarrow> bytes \<Rightarrow> nat option" where
  "find_less_than m key =
     map_option (\<lambda>(_, node, _). node)
       (descend (\<lambda>n. n_key n < key) m head_node (mt_max_height m - 1) (\<lambda>_. head_node))"

definition find_last :: "memtable \<Rightarrow> nat option" where
  "find_last m =
     map_option (\<lambda>(_, node, _). node)
       (descend (\<lambda>_. True) m head_node (mt_max_height m - 1) (\<lambda>_. head_node))"

definition set_next :: "nat \<Rightarrow> nat \<Rightarrow> nat option \<Rightarrow> memtable \<Rightarrow> memtable" where
  "set_next i level p m =
     m\<lparr> mt_nodes := (mt_nodes m)[i := (node_at m i)\<lparr> n_next := (n_next (node_at m i))(level := p) \<rparr>] \<rparr>"

definition splice :: "nat \<Rightarrow> (nat \<Rightarrow> nat) \<Rightarrow> nat \<Rightarrow> memtable \<Rightarrow> memtable" where
  "splice node prev i m =
     set_next (prev i) i (Some node) (set_next node i (n_next (node_at m (prev i)) i) m)"

definition insert_new :: "memtable \<Rightarrow> bytes \<Rightarrow> value_type \<Rightarrow> bytes \<Rightarrow> (nat \<Rightarrow> nat) \<Rightarrow> memtable" where
  "insert_new m key type value prev =
     (let (height, m) = random_height m;
          previous_height = mt_max_height m;
          (prev, m) =
            (if previous_height < height
             then (\<lambda>i. if previous_height \<le> i \<and> i < height then head_node else prev i, m\<lparr> mt_max_height := height \<rparr>)
             else (prev, m));
          (node, m) = new_node m key height;
          (v, m) = new_value m type value;
          m = m\<lparr> mt_nodes := (mt_nodes m)[node := (node_at m node)\<lparr> n_value := Some v \<rparr>] \<rparr>;
          m = fold (splice node prev) [0..<height] m
      in m\<lparr> mt_entries := mt_entries m + 1,
            mt_tombstones := (if type = Delete then mt_tombstones m + 1 else mt_tombstones m) \<rparr>)"

definition replace_value :: "memtable \<Rightarrow> nat \<Rightarrow> value_type \<Rightarrow> bytes \<Rightarrow> memtable" where
  "replace_value m i type value =
     (let was_delete = (case n_value (node_at m i) of Some (t, _) \<Rightarrow> t = Delete | None \<Rightarrow> False);
          is_delete = (type = Delete);
          (v, m) = new_value m type value;
          m = m\<lparr> mt_nodes := (mt_nodes m)[i := (node_at m i)\<lparr> n_value := Some v \<rparr>] \<rparr>
      in if was_delete \<noteq> is_delete
         then m\<lparr> mt_tombstones := mt_tombstones m + (if is_delete then 1 else - 1) \<rparr> else m)"

definition mt_insert :: "memtable \<Rightarrow> bytes \<Rightarrow> value_type \<Rightarrow> bytes \<Rightarrow> memtable option" where
  "mt_insert m key type value =
     map_option (\<lambda>(prev, nxt).
        case nxt of
          Some i \<Rightarrow> if n_key (node_at m i) = key then replace_value m i type value
                    else insert_new m key type value prev
        | None \<Rightarrow> insert_new m key type value prev)
       (find_greater_or_equal m key)"

definition mt_put :: "memtable \<Rightarrow> bytes \<Rightarrow> bytes \<Rightarrow> memtable option" where
  "mt_put m key value = mt_insert m key Put value"

definition mt_remove :: "memtable \<Rightarrow> bytes \<Rightarrow> memtable option" where
  "mt_remove m key = mt_insert m key Delete []"

definition mt_get :: "memtable \<Rightarrow> bytes \<Rightarrow> (value_type \<times> bytes) option option" where
  "mt_get m key =
     map_option (\<lambda>(_, nxt).
        case nxt of
          None \<Rightarrow> None
        | Some i \<Rightarrow> if n_key (node_at m i) \<noteq> key then None else n_value (node_at m i))
       (find_greater_or_equal m key)"

section \<open>Iteration\<close>

record skiplist_iter =
  sl_node :: "nat option"
  sl_value :: "(value_type \<times> bytes) option"

definition SkiplistIterator :: skiplist_iter where
  "SkiplistIterator = \<lparr> sl_node = None, sl_value = None \<rparr>"

definition sl_load :: "memtable \<Rightarrow> nat option \<Rightarrow> skiplist_iter" where
  "sl_load m p = \<lparr> sl_node = p, sl_value = (case p of None \<Rightarrow> None | Some i \<Rightarrow> n_value (node_at m i)) \<rparr>"

definition sl_set :: "memtable \<Rightarrow> nat \<Rightarrow> skiplist_iter" where
  "sl_set m i = sl_load m (if i = head_node then None else Some i)"

definition sl_valid :: "skiplist_iter \<Rightarrow> bool" where
  "sl_valid it \<longleftrightarrow> sl_node it \<noteq> None"

definition sl_key :: "memtable \<Rightarrow> skiplist_iter \<Rightarrow> bytes" where
  "sl_key m it = n_key (node_at m (the (sl_node it)))"

definition sl_type :: "skiplist_iter \<Rightarrow> value_type" where
  "sl_type it = (case sl_value it of None \<Rightarrow> Put | Some (t, _) \<Rightarrow> t)"

definition sl_bytes :: "skiplist_iter \<Rightarrow> bytes" where
  "sl_bytes it = (case sl_value it of None \<Rightarrow> [] | Some (_, v) \<Rightarrow> v)"

definition sl_entry :: "memtable \<Rightarrow> skiplist_iter \<Rightarrow> entry" where
  "sl_entry m it = (sl_key m it, sl_type it, sl_bytes it)"

definition sl_seek_to_first :: "memtable \<Rightarrow> skiplist_iter" where
  "sl_seek_to_first m = sl_load m (n_next (node_at m head_node) 0)"

definition sl_next :: "memtable \<Rightarrow> skiplist_iter \<Rightarrow> skiplist_iter" where
  "sl_next m it =
     (case sl_node it of None \<Rightarrow> it | Some i \<Rightarrow> sl_load m (n_next (node_at m i) 0))"

definition sl_seek :: "memtable \<Rightarrow> bytes \<Rightarrow> skiplist_iter option" where
  "sl_seek m target = map_option (\<lambda>(_, nxt). sl_load m nxt) (find_greater_or_equal m target)"

definition sl_seek_to_last :: "memtable \<Rightarrow> skiplist_iter option" where
  "sl_seek_to_last m = map_option (sl_set m) (find_last m)"

definition sl_seek_for_prev :: "memtable \<Rightarrow> bytes \<Rightarrow> skiplist_iter option" where
  "sl_seek_for_prev m target =
     Option.bind (find_greater_or_equal m target) (\<lambda>(_, nxt).
       case nxt of
         Some i \<Rightarrow> if n_key (node_at m i) = target then Some (sl_set m i)
                   else map_option (sl_set m) (find_less_than m target)
       | None \<Rightarrow> map_option (sl_set m) (find_less_than m target))"

definition sl_prev :: "memtable \<Rightarrow> skiplist_iter \<Rightarrow> skiplist_iter option" where
  "sl_prev m it =
     (case sl_node it of
        None \<Rightarrow> Some it
      | Some i \<Rightarrow> map_option (sl_set m) (find_less_than m (n_key (node_at m i))))"

text \<open>The four ways to start an iteration.\<close>

definition mt_ascending :: "memtable \<Rightarrow> skiplist_iter" where
  "mt_ascending m = sl_seek_to_first m"

definition mt_ascending_from :: "memtable \<Rightarrow> bytes \<Rightarrow> skiplist_iter option" where
  "mt_ascending_from m key = sl_seek m key"

definition mt_descending :: "memtable \<Rightarrow> skiplist_iter option" where
  "mt_descending m = sl_seek_to_last m"

definition mt_descending_from :: "memtable \<Rightarrow> bytes \<Rightarrow> skiplist_iter option" where
  "mt_descending_from m key = sl_seek_for_prev m key"

section \<open>Range deletes\<close>

partial_function (option) delete_loop :: "memtable \<Rightarrow> skiplist_iter \<Rightarrow> bytes \<Rightarrow> memtable option" where
  "delete_loop m it up =
     (if \<not> sl_valid it \<or> \<not> sl_key m it < up then Some m
      else Option.bind (if sl_type it = Delete then Some m else mt_insert m (sl_key m it) Delete [])
             (\<lambda>m. delete_loop m (sl_next m it) up))"

definition record_range :: "memtable \<Rightarrow> bytes \<Rightarrow> bytes \<Rightarrow> memtable" where
  "record_range m lo up =
     (let a = snd (allocate_aligned (mt_arena m) sizeof_range_node);
          a = snd (arena_allocate a (length lo));
          a = snd (arena_allocate a (length up))
      in m\<lparr> mt_arena := a, mt_ranges := \<lparr> lower = lo, upper = up \<rparr> # mt_ranges m,
            mt_range_count := mt_range_count m + 1 \<rparr>)"

definition mt_delete_range :: "memtable \<Rightarrow> bytes \<Rightarrow> bytes \<Rightarrow> memtable option" where
  "mt_delete_range m lo up =
     (if \<not> lo < up then Some m
      else Option.bind (sl_seek m lo) (\<lambda>it.
             map_option (\<lambda>m. record_range m lo up) (delete_loop m it up)))"

definition mt_range_deletes :: "memtable \<Rightarrow> bytes \<Rightarrow> bool" where
  "mt_range_deletes m key \<longleftrightarrow> list_ex (\<lambda>r. lower r \<le> key \<and> key < upper r) (mt_ranges m)"

definition mt_range_tombstones :: "memtable \<Rightarrow> range_tombstone list" where
  "mt_range_tombstones m = merge_ranges (mt_ranges m)"

section \<open>Chains\<close>

text \<open>The nodes reached from \<open>p\<close> along the pointers \<open>nx\<close> of one level are exactly \<open>xs\<close>.\<close>

fun links :: "(nat \<Rightarrow> nat option) \<Rightarrow> nat \<Rightarrow> nat list \<Rightarrow> bool" where
  "links nx p [] \<longleftrightarrow> nx p = None"
| "links nx p (x # xs) \<longleftrightarrow> nx p = Some x \<and> links nx x xs"

lemma links_cong: "(\<And>i. i \<in> set (p # xs) \<Longrightarrow> nx i = nx' i) \<Longrightarrow> links nx p xs = links nx' p xs"
  by (induction xs arbitrary: p) auto

lemma links_split: "links nx p (xs @ ys) \<Longrightarrow> links nx (last (p # xs)) ys"
  by (induction xs arbitrary: p) auto

lemma links_insert:
  assumes "links nx p (xs @ ys)" and "distinct (p # xs @ ys)" and "n \<notin> set (p # xs @ ys)"
  shows "links (nx(n := nx (last (p # xs)), last (p # xs) := Some n)) p (xs @ n # ys)"
  using assms
proof (induction xs arbitrary: p)
  case Nil
  let ?nx = "nx(n := nx p, p := Some n)"
  have "links ?nx n ys"
  proof (cases ys)
    case (Cons y zs)
    then have "links nx y zs = links ?nx y zs" using Nil.prems by (intro links_cong) auto
    then show ?thesis using Nil.prems Cons by auto
  qed (use Nil.prems in auto)
  then show ?case using Nil by (simp add: fun_upd_def)
next
  case (Cons x xs)
  let ?q = "last (x # xs)" and ?nx = "\<lambda>q. nx(n := nx q, q := Some n)"
  have "links (?nx ?q) x (xs @ n # ys)" by (rule Cons.IH) (use Cons.prems in auto)
  moreover have "?nx ?q p = Some x" using Cons.prems last_in_set [of "x # xs"] by auto
  moreover have "last (p # x # xs) = ?q" by simp
  ultimately show ?case unfolding append_Cons links.simps by metis
qed

text \<open>The nodes of a list that reach up to a level.\<close>

definition on_level :: "memtable \<Rightarrow> nat \<Rightarrow> nat list \<Rightarrow> nat list" where
  "on_level m l ids = filter (\<lambda>i. l < n_height (node_at m i)) ids"

definition level_next :: "memtable \<Rightarrow> nat \<Rightarrow> nat \<Rightarrow> nat option" where
  "level_next m l i = n_next (node_at m i) l"

definition shape :: "memtable \<Rightarrow> nat list \<Rightarrow> bool" where
  "shape m ids \<longleftrightarrow>
     distinct (head_node # ids) \<and> (\<forall>i \<in> set (head_node # ids). i < length (mt_nodes m))
     \<and> (\<forall>i \<in> set ids. 0 < n_height (node_at m i) \<and> n_height (node_at m i) \<le> mt_max_height m
          \<and> n_value (node_at m i) \<noteq> None)
     \<and> 0 < mt_max_height m \<and> mt_max_height m \<le> kMaxHeight
     \<and> sorted_wrt (<) (map (\<lambda>i. n_key (node_at m i)) ids)
     \<and> (\<forall>l < kMaxHeight. links (level_next m l) head_node (on_level m l ids))"

section \<open>Descents end and find\<close>

definition first_of :: "'a list \<Rightarrow> 'a option" where
  "first_of xs = (case xs of [] \<Rightarrow> None | x # _ \<Rightarrow> Some x)"

text \<open>One level: the descent walks over the nodes that satisfy the test and stops.\<close>

lemma descend_level:
  "links (level_next m l) p xs \<Longrightarrow>
   descend go m p l prev =
     (let q = last (p # takeWhile (\<lambda>i. go (node_at m i)) xs) in
      if l = 0 then Some (prev(0 := q), q, first_of (dropWhile (\<lambda>i. go (node_at m i)) xs))
      else descend go m q (l - 1) (prev(l := q)))"
proof (induction xs arbitrary: p)
  case Nil
  then show ?case by (subst descend.simps) (simp add: level_next_def first_of_def Let_def)
next
  case (Cons x xs)
  show ?case
  proof (cases "go (node_at m x)")
    case True
    then have "descend go m p l prev = descend go m x l prev"
      using Cons.prems by (subst descend.simps) (simp add: level_next_def Let_def)
    with Cons.IH [of x] Cons.prems True show ?thesis by simp
  next
    case False
    then show ?thesis
      using Cons.prems by (subst descend.simps) (simp add: level_next_def first_of_def Let_def)
  qed
qed

lemma takeWhile_closed: "sorted_wrt (\<lambda>i j. P j \<longrightarrow> P i) xs \<Longrightarrow> takeWhile P xs = filter P xs"
proof (induction xs)
  case (Cons x xs)
  then show ?case by (cases "P x") (auto simp: filter_empty_conv)
qed simp

lemma dropWhile_closed: "sorted_wrt (\<lambda>i j. P j \<longrightarrow> P i) xs \<Longrightarrow> dropWhile P xs = filter (\<lambda>i. \<not> P i) xs"
proof (induction xs)
  case (Cons x xs)
  then show ?case by (cases "P x") (auto simp: filter_id_conv)
qed simp

definition last_below :: "(node \<Rightarrow> bool) \<Rightarrow> memtable \<Rightarrow> nat list \<Rightarrow> nat" where
  "last_below go m xs = last (head_node # filter (\<lambda>i. go (node_at m i)) xs)"

lemma descend_step:
  assumes sh: "shape m ids" and closed: "sorted_wrt (\<lambda>i j. go (node_at m j) \<longrightarrow> go (node_at m i)) ids"
    and l: "l < kMaxHeight" and p: "p = head_node \<or> p \<in> set (on_level m l ids) \<and> go (node_at m p)"
    and q: "q = last_below go m (on_level m l ids)"
  shows "descend go m p l prev =
    (if l = 0 then Some (prev(0 := q), q, first_of (filter (\<lambda>i. \<not> go (node_at m i)) (on_level m l ids)))
     else descend go m q (l - 1) (prev(l := q)))"
proof -
  let ?go = "\<lambda>i. go (node_at m i)"
  have lk: "links (level_next m l) head_node (on_level m l ids)" using sh l by (simp add: shape_def)
  have cl: "sorted_wrt (\<lambda>i j. ?go j \<longrightarrow> ?go i) (on_level m l ids)"
    unfolding on_level_def by (rule sorted_wrt_filter [OF closed])
  from p show ?thesis
  proof
    assume "p = head_node"
    moreover note descend_level [OF lk, of go prev, unfolded takeWhile_closed [OF cl] dropWhile_closed [OF cl]]
    ultimately show ?thesis by (simp only: q last_below_def Let_def)
  next
    assume "p \<in> set (on_level m l ids) \<and> ?go p"
    then obtain us ys where uys: "on_level m l ids = us @ p # ys" and gp: "?go p"
      by (meson split_list)
    have ys: "sorted_wrt (\<lambda>i j. ?go j \<longrightarrow> ?go i) ys" and us: "\<forall>u \<in> set us. ?go u"
      using cl gp unfolding uys by (auto simp: sorted_wrt_append)
    have "links (level_next m l) (last (head_node # us @ [p])) ys"
      using lk links_split [of "level_next m l" head_node "us @ [p]" ys] by (simp add: uys)
    then have lp: "links (level_next m l) p ys" by simp
    have "filter ?go (on_level m l ids) = us @ p # filter ?go ys"
      using us gp by (simp add: uys filter_id_conv)
    then have q': "q = last (p # filter ?go ys)" by (simp add: q last_below_def)
    have "filter (\<lambda>i. \<not> ?go i) (on_level m l ids) = filter (\<lambda>i. \<not> ?go i) ys"
      using us gp by (simp add: uys)
    moreover note descend_level [OF lp, of go prev, unfolded takeWhile_closed [OF ys] dropWhile_closed [OF ys]]
    ultimately show ?thesis by (simp only: q' Let_def)
  qed
qed

lemma on_level_0: "shape m ids \<Longrightarrow> on_level m 0 ids = ids"
  by (simp add: on_level_def shape_def filter_id_conv)

lemma last_below_in:
  "last_below go m xs = head_node \<or> last_below go m xs \<in> set xs \<and> go (node_at m (last_below go m xs))"
proof (cases "filter (\<lambda>i. go (node_at m i)) xs = []")
  case False
  then have "last_below go m xs \<in> set (filter (\<lambda>i. go (node_at m i)) xs)"
    by (simp add: last_below_def) (use last_in_set in fastforce)
  then show ?thesis by simp
qed (simp add: last_below_def)

lemma descend_found:
  assumes sh: "shape m ids" and closed: "sorted_wrt (\<lambda>i j. go (node_at m j) \<longrightarrow> go (node_at m i)) ids"
    and "l < kMaxHeight" and "p = head_node \<or> p \<in> set (on_level m l ids) \<and> go (node_at m p)"
  shows "\<exists>prev'. descend go m p l prev =
      Some (prev', last_below go m ids, first_of (filter (\<lambda>i. \<not> go (node_at m i)) ids))
    \<and> (\<forall>j \<le> l. prev' j = last_below go m (on_level m j ids)) \<and> (\<forall>j > l. prev' j = prev j)"
  using assms(3,4)
proof (induction l arbitrary: p prev)
  case 0
  then show ?case
    using descend_step [OF sh closed 0(1,2) refl, of prev] on_level_0 [OF sh] by auto
next
  case (Suc l)
  let ?q = "last_below go m (on_level m (Suc l) ids)"
  have st: "descend go m p (Suc l) prev = descend go m ?q l (prev(Suc l := ?q))"
    using descend_step [OF sh closed Suc.prems refl, of prev] by simp
  have q: "?q = head_node \<or> ?q \<in> set (on_level m l ids) \<and> go (node_at m ?q)"
    using last_below_in [of go m "on_level m (Suc l) ids"] by (auto simp: on_level_def)
  have "l < kMaxHeight" using Suc.prems(1) by simp
  from Suc.IH [OF this q, of "prev(Suc l := ?q)"]
  obtain prev' where "descend go m ?q l (prev(Suc l := ?q)) =
        Some (prev', last_below go m ids, first_of (filter (\<lambda>i. \<not> go (node_at m i)) ids))"
    and lo: "\<forall>j \<le> l. prev' j = last_below go m (on_level m j ids)" and hi: "\<forall>j > l. prev' j = (prev(Suc l := ?q)) j"
    by blast
  moreover have "\<forall>j \<le> Suc l. prev' j = last_below go m (on_level m j ids)" using lo hi by (auto simp: le_Suc_eq)
  moreover have "\<forall>j > Suc l. prev' j = prev j" using hi by simp
  ultimately show ?case using st by metis
qed

lemma key_closed:
  "shape m ids \<Longrightarrow> sorted_wrt (\<lambda>i j. n_key (node_at m j) < key \<longrightarrow> n_key (node_at m i) < key) ids"
  unfolding shape_def sorted_wrt_map by (auto elim!: sorted_wrt_mono_rel [rotated])

definition below :: "memtable \<Rightarrow> bytes \<Rightarrow> nat list \<Rightarrow> nat list" where
  "below m key ids = filter (\<lambda>i. n_key (node_at m i) < key) ids"

definition not_below :: "memtable \<Rightarrow> bytes \<Rightarrow> nat list \<Rightarrow> nat list" where
  "not_below m key ids = filter (\<lambda>i. \<not> n_key (node_at m i) < key) ids"

lemma find_greater_or_equal_found:
  assumes sh: "shape m ids"
  shows "\<exists>prev. find_greater_or_equal m key = Some (prev, first_of (not_below m key ids))
    \<and> (\<forall>j < mt_max_height m. prev j = last (head_node # below m key (on_level m j ids)))"
proof -
  have "mt_max_height m - 1 < kMaxHeight" "0 < mt_max_height m" using sh by (auto simp: shape_def)
  with descend_found [OF sh key_closed [OF sh, of key], of "mt_max_height m - 1" head_node "\<lambda>_. head_node"]
  show ?thesis
    by (fastforce simp: find_greater_or_equal_def last_below_def below_def not_below_def)
qed

lemma find_less_than_found:
  assumes sh: "shape m ids"
  shows "find_less_than m key = Some (last (head_node # below m key ids))"
proof -
  have "mt_max_height m - 1 < kMaxHeight" using sh by (auto simp: shape_def)
  with descend_found [OF sh key_closed [OF sh, of key], of "mt_max_height m - 1" head_node "\<lambda>_. head_node"]
  show ?thesis by (fastforce simp: find_less_than_def last_below_def below_def)
qed

lemma find_last_found:
  assumes sh: "shape m ids"
  shows "find_last m = Some (last (head_node # ids))"
proof -
  have "mt_max_height m - 1 < kMaxHeight" using sh by (auto simp: shape_def)
  with descend_found [OF sh, of "\<lambda>_. True" "mt_max_height m - 1" head_node "\<lambda>_. head_node"]
  show ?thesis by (fastforce simp: find_last_def last_below_def)
qed

section \<open>Splicing a node in\<close>

text \<open>What a splice leaves alone: everything about a node but its pointers.\<close>

definition node_core :: "node \<Rightarrow> (value_type \<times> bytes) option \<times> bytes \<times> nat" where
  "node_core x = (n_value x, n_key x, n_height x)"

lemma node_core_next [simp]: "node_core (x\<lparr> n_next := f \<rparr>) = node_core x"
  by (simp add: node_core_def)

lemma node_core_eq:
  "node_core x = node_core y \<longleftrightarrow> n_value x = n_value y \<and> n_key x = n_key y \<and> n_height x = n_height y"
  by (auto simp: node_core_def)

lemma map_core_set_next [simp]: "map node_core (mt_nodes (set_next i l p m)) = map node_core (mt_nodes m)"
  by (cases "i < length (mt_nodes m)")
    (simp_all add: set_next_def map_update list_update_same_conv list_update_beyond)

lemma set_next_only: "set_next i l p m = m\<lparr> mt_nodes := mt_nodes (set_next i l p m) \<rparr>"
  by (simp add: set_next_def)

lemma level_next_set_next:
  "i < length (mt_nodes m) \<Longrightarrow>
   level_next (set_next i l p m) = (\<lambda>l'. if l' = l then (level_next m l)(i := p) else level_next m l')"
  by (auto simp: fun_eq_iff level_next_def set_next_def nth_list_update)

lemma length_set_next [simp]: "length (mt_nodes (set_next i l p m)) = length (mt_nodes m)"
  by (simp add: set_next_def)

lemma length_splice [simp]: "length (mt_nodes (splice n prev i m)) = length (mt_nodes m)"
  by (simp add: splice_def)

lemma map_core_splice [simp]: "map node_core (mt_nodes (splice n prev i m)) = map node_core (mt_nodes m)"
  by (simp add: splice_def)

lemma splice_only: "splice n prev i m = m\<lparr> mt_nodes := mt_nodes (splice n prev i m) \<rparr>"
  by (simp add: splice_def set_next_def)

definition spliced :: "(nat \<Rightarrow> nat option) \<Rightarrow> nat \<Rightarrow> nat \<Rightarrow> nat \<Rightarrow> nat option" where
  "spliced nx n q = nx(n := nx q, q := Some n)"

lemma level_next_splice:
  "n < length (mt_nodes m) \<Longrightarrow> prev i < length (mt_nodes m) \<Longrightarrow>
   level_next (splice n prev i m) l = (if l = i then spliced (level_next m i) n (prev i) else level_next m l)"
  by (simp add: splice_def level_next_set_next spliced_def level_next_def)

lemma splice_all:
  assumes "n < length (mt_nodes m)" and "\<forall>i < h. prev i < length (mt_nodes m)"
  shows "map node_core (mt_nodes (fold (splice n prev) [0..<h] m)) = map node_core (mt_nodes m)
    \<and> fold (splice n prev) [0..<h] m = m\<lparr> mt_nodes := mt_nodes (fold (splice n prev) [0..<h] m) \<rparr>
    \<and> (\<forall>l. level_next (fold (splice n prev) [0..<h] m) l =
          (if l < h then spliced (level_next m l) n (prev l) else level_next m l))"
  using assms(2)
proof (induction h)
  case (Suc h)
  let ?f = "fold (splice n prev) [0..<h] m"
  have IH: "map node_core (mt_nodes ?f) = map node_core (mt_nodes m)"
    "?f = m\<lparr> mt_nodes := mt_nodes ?f \<rparr>"
    "\<And>l. level_next ?f l = (if l < h then spliced (level_next m l) n (prev l) else level_next m l)"
    using Suc by auto
  have len: "length (mt_nodes ?f) = length (mt_nodes m)" using IH(1) by (rule map_eq_imp_length_eq)
  have st: "fold (splice n prev) [0..<Suc h] m = splice n prev h ?f" by simp
  have "splice n prev h ?f = m\<lparr> mt_nodes := mt_nodes (splice n prev h ?f) \<rparr>"
    using splice_only [of n prev h ?f] by (subst (asm) (2) IH(2)) simp
  moreover have "level_next (splice n prev h ?f) l =
      (if l < Suc h then spliced (level_next m l) n (prev l) else level_next m l)" for l
    using level_next_splice [of n ?f prev h l] assms(1) Suc.prems len by (auto simp: IH(3) less_Suc_eq)
  ultimately show ?case unfolding st using IH(1) by simp
qed simp

lemma below_split:
  assumes "shape m ids"
  shows "on_level m l ids = below m key (on_level m l ids) @ not_below m key (on_level m l ids)"
    and "ids = below m key ids @ not_below m key ids"
proof -
  have *: "xs = below m key xs @ not_below m key xs"
    if "sorted_wrt (\<lambda>i j. n_key (node_at m j) < key \<longrightarrow> n_key (node_at m i) < key) xs" for xs
    using takeWhile_dropWhile_id [of "\<lambda>i. n_key (node_at m i) < key" xs]
    by (simp add: below_def not_below_def takeWhile_closed [OF that] dropWhile_closed [OF that])
  show "ids = below m key ids @ not_below m key ids" by (rule * [OF key_closed [OF assms]])
  show "on_level m l ids = below m key (on_level m l ids) @ not_below m key (on_level m l ids)"
    unfolding on_level_def by (rule * [OF sorted_wrt_filter [OF key_closed [OF assms]]])
qed

lemma shape_insert:
  assumes sh: "shape m ids" and n: "n = length (mt_nodes m)"
    and old: "\<And>i. i < n \<Longrightarrow> node_core (node_at m' i) = node_core (node_at m i)"
    and new: "node_core (node_at m' n) = (Some v, key, h)" "0 < h" "h \<le> kMaxHeight"
    and len: "length (mt_nodes m') = Suc n"
    and hi: "mt_max_height m' = max (mt_max_height m) h"
    and nx: "\<And>l i. l < kMaxHeight \<Longrightarrow> i < n \<or> i = n \<and> l < h \<Longrightarrow> level_next m' l i =
      (if l < h then spliced (level_next m l) n (last (head_node # below m key (on_level m l ids))) i
       else level_next m l i)"
    and fresh: "\<forall>i \<in> set ids. n_key (node_at m i) \<noteq> key"
  shows "shape m' (below m key ids @ n # not_below m key ids)"
proof -
  let ?as = "below m key ids" and ?bs = "not_below m key ids"
  have ids: "ids = ?as @ ?bs" by (rule below_split(2) [OF sh])
  have set_ids: "set ids = set ?as \<union> set ?bs" by (subst ids) simp
  have lt: "\<And>i. i \<in> set ids \<Longrightarrow> i < n" and h0: "head_node < n" and d: "distinct (head_node # ids)"
    using sh by (auto simp: shape_def n)
  have core: "n_value (node_at m' i) = n_value (node_at m i)" "n_key (node_at m' i) = n_key (node_at m i)"
      "n_height (node_at m' i) = n_height (node_at m i)" if "i < n" for i
    using old [OF that] by (auto simp: node_core_eq)
  have newn: "n_value (node_at m' n) = Some v" "n_key (node_at m' n) = key" "n_height (node_at m' n) = h"
    using new(1) by (auto simp: node_core_def)
  have lev: "on_level m' l xs = on_level m l xs" if "set xs \<subseteq> set ids" for l xs
    unfolding on_level_def using that lt core by (intro filter_cong) auto
  have sub: "set ?as \<subseteq> set ids" "set ?bs \<subseteq> set ids" by (auto simp: set_ids)
  have "distinct (head_node # ?as @ n # ?bs)"
    using d lt h0 set_ids by (subst (asm) ids) auto
  moreover have "\<forall>i \<in> set (head_node # ?as @ n # ?bs). i < length (mt_nodes m')"
    using lt h0 set_ids by (auto simp: len less_Suc_eq)
  moreover have "\<forall>i \<in> set (?as @ n # ?bs). 0 < n_height (node_at m' i)
      \<and> n_height (node_at m' i) \<le> mt_max_height m' \<and> n_value (node_at m' i) \<noteq> None"
    using sh lt core new(2) newn set_ids by (auto simp: shape_def hi le_max_iff_disj)
  moreover have "0 < mt_max_height m'" "mt_max_height m' \<le> kMaxHeight"
    using sh new by (auto simp: shape_def hi)
  moreover have "sorted_wrt (<) (map (\<lambda>i. n_key (node_at m' i)) (?as @ n # ?bs))"
  proof -
    have "map (\<lambda>i. n_key (node_at m' i)) xs = map (\<lambda>i. n_key (node_at m i)) xs" if "set xs \<subseteq> set ids" for xs
      using that lt core by auto
    then have mp: "map (\<lambda>i. n_key (node_at m' i)) (?as @ n # ?bs) =
        map (\<lambda>i. n_key (node_at m i)) ?as @ key # map (\<lambda>i. n_key (node_at m i)) ?bs"
      using sub newn by simp
    have "sorted_wrt (<) (map (\<lambda>i. n_key (node_at m i)) (?as @ ?bs))"
      using sh ids by (simp add: shape_def)
    moreover have "\<forall>i \<in> set ?as. n_key (node_at m i) < key" by (simp add: below_def)
    moreover have "\<forall>i \<in> set ?bs. key < n_key (node_at m i)"
      using fresh by (auto simp: not_below_def not_less order.order_iff_strict)
    ultimately show ?thesis unfolding mp by (simp add: sorted_wrt_append)
  qed
  moreover have "links (level_next m' l) head_node (on_level m' l (?as @ n # ?bs))" if l: "l < kMaxHeight" for l
  proof -
    let ?xs = "below m key (on_level m l ids)" and ?ys = "not_below m key (on_level m l ids)"
    have lk: "links (level_next m l) head_node (?xs @ ?ys)"
      using sh l by (simp add: shape_def flip: below_split(1) [OF sh])
    have xy: "on_level m' l ?as = ?xs" "on_level m' l ?bs = ?ys"
      unfolding lev [OF sub(1)] lev [OF sub(2)]
      by (simp_all add: on_level_def below_def not_below_def conj_commute cong: filter_cong)
    have in_n: "i < n" if "i \<in> set (head_node # ?xs @ ?ys)" for i
      using that lt h0 by (auto simp: below_def not_below_def on_level_def)
    show ?thesis
    proof (cases "l < h")
      case True
      have "distinct (head_node # ?xs @ ?ys)"
        using d by (auto simp: on_level_def below_def not_below_def)
      then have "links (spliced (level_next m l) n (last (head_node # ?xs))) head_node (?xs @ n # ?ys)"
        unfolding spliced_def using in_n by (intro links_insert [OF lk]) auto
      moreover have "links (spliced (level_next m l) n (last (head_node # ?xs))) head_node (?xs @ n # ?ys) =
          links (level_next m' l) head_node (?xs @ n # ?ys)"
        using nx [OF l] True in_n by (intro links_cong) auto
      moreover have "on_level m' l (?as @ n # ?bs) = ?xs @ n # ?ys"
        unfolding xy [symmetric] using True newn by (simp add: on_level_def)
      ultimately show ?thesis by simp
    next
      case False
      have "links (level_next m l) head_node (?xs @ ?ys) = links (level_next m' l) head_node (?xs @ ?ys)"
        using nx [OF l] False in_n by (intro links_cong) auto
      moreover have "on_level m' l (?as @ n # ?bs) = ?xs @ ?ys"
        unfolding xy [symmetric] using False newn by (simp add: on_level_def)
      ultimately show ?thesis using lk by simp
    qed
  qed
  ultimately show ?thesis unfolding shape_def by blast
qed

section \<open>The table's contents\<close>

definition node_entry :: "node \<Rightarrow> entry" where
  "node_entry x = (n_key x, (case n_value x of Some (t, v) \<Rightarrow> (t, v) | None \<Rightarrow> (Put, [])))"

text \<open>
  What a table holds: \<open>es\<close> are the keys in order, each with the last thing written to it, and the
  counters count them.
\<close>

definition holds_by :: "memtable \<Rightarrow> nat list \<Rightarrow> entry list \<Rightarrow> bool" where
  "holds_by m ids es \<longleftrightarrow>
     shape m ids \<and> es = map (\<lambda>i. node_entry (node_at m i)) ids
     \<and> mt_entries m = of_nat (length es)
     \<and> mt_tombstones m = of_nat (length (filter (\<lambda>(_, t, _). t = Delete) es))
     \<and> mt_range_count m = of_nat (length (mt_ranges m))"

definition holds :: "memtable \<Rightarrow> entry list \<Rightarrow> bool" where
  "holds m es \<longleftrightarrow> (\<exists>ids. holds_by m ids es)"

definition upsert :: "bytes \<Rightarrow> value_type \<Rightarrow> bytes \<Rightarrow> entry list \<Rightarrow> entry list" where
  "upsert key type value es =
     filter (\<lambda>(k, _). k < key) es @ (key, type, value) # filter (\<lambda>(k, _). key < k) es"

lemma height_of_bits_bounds: "h \<le> height_of_bits k h b \<and> height_of_bits k h b \<le> h + k"
proof (induction k arbitrary: h b)
  case (Suc k)
  from Suc [of "h + 1" "drop_bit 2 b"] show ?case by auto
qed simp

lemma random_height_bounds: "0 < fst (random_height m) \<and> fst (random_height m) \<le> kMaxHeight"
  using height_of_bits_bounds [of 1 "kMaxHeight - 1" "xorshift32 (mt_rng_state m)"]
  by (auto simp: random_height_def Let_def kMaxHeight_def)

text \<open>The table just before the new node is linked in.\<close>

definition unlinked :: "memtable \<Rightarrow> bytes \<Rightarrow> value_type \<Rightarrow> bytes \<Rightarrow> memtable" where
  "unlinked m key type value =
     (let (height, m) = random_height m;
          m = (if mt_max_height m < height then m\<lparr> mt_max_height := height \<rparr> else m);
          (node, m) = new_node m key height;
          (v, m) = new_value m type value
      in m\<lparr> mt_nodes := (mt_nodes m)[node := (node_at m node)\<lparr> n_value := Some v \<rparr>] \<rparr>)"

lemma unlinked_fields:
  "mt_nodes (unlinked m key type value) =
     mt_nodes m @ [\<lparr> n_value = Some (type, slice32 value), n_key = slice32 key, n_height = fst (random_height m), n_next = (\<lambda>_. None) \<rparr>]"
  "mt_max_height (unlinked m key type value) = max (mt_max_height m) (fst (random_height m))"
  "mt_entries (unlinked m key type value) = mt_entries m"
  "mt_tombstones (unlinked m key type value) = mt_tombstones m"
  "mt_range_count (unlinked m key type value) = mt_range_count m"
  "mt_ranges (unlinked m key type value) = mt_ranges m"
  by (simp_all add: unlinked_def random_height_def new_node_def new_value_def Let_def case_prod_beta)

lemma insert_new_unlinked:
  fixes m key type "value"
  defines "h \<equiv> fst (random_height m)" and "u \<equiv> unlinked m key type value"
  shows "insert_new m key type value prev =
    (let f = fold (splice (length (mt_nodes m)) (\<lambda>i. if mt_max_height m \<le> i \<and> i < h then head_node else prev i)) [0..<h] u
     in f\<lparr> mt_entries := mt_entries f + 1,
           mt_tombstones := (if type = Delete then mt_tombstones f + 1 else mt_tombstones f) \<rparr>)"
proof (cases "mt_max_height m < h")
  case True
  then show ?thesis
    by (simp add: insert_new_def u_def h_def unlinked_def random_height_def new_node_def new_value_def Let_def case_prod_beta)
next
  case False
  then have "(\<lambda>i. if mt_max_height m \<le> i \<and> i < h then head_node else prev i) = prev" by auto
  with False show ?thesis
    by (simp add: insert_new_def u_def h_def unlinked_def random_height_def new_node_def new_value_def Let_def case_prod_beta)
qed

lemma last_in: "last (x # xs) \<in> set (x # xs)"
  by (rule last_in_set) simp

lemma insert_new_shape:
  assumes short: "length key < 2 ^ 32" "length value < 2 ^ 32"
    and sh: "shape m ids" and fresh: "\<forall>i \<in> set ids. n_key (node_at m i) \<noteq> key"
    and prev: "\<forall>j < mt_max_height m. prev j = last (head_node # below m key (on_level m j ids))"
  shows "let m' = insert_new m key type value prev; n = length (mt_nodes m) in
      shape m' (below m key ids @ n # not_below m key ids)
    \<and> node_core (node_at m' n) = (Some (type, value), key, fst (random_height m))
    \<and> (\<forall>i < n. node_core (node_at m' i) = node_core (node_at m i))
    \<and> mt_entries m' = mt_entries m + 1
    \<and> mt_tombstones m' = (if type = Delete then mt_tombstones m + 1 else mt_tombstones m)
    \<and> mt_range_count m' = mt_range_count m \<and> mt_ranges m' = mt_ranges m"
proof -
  let ?h = "fst (random_height m)" and ?n = "length (mt_nodes m)" and ?u = "unlinked m key type value"
  let ?q = "\<lambda>l. last (head_node # below m key (on_level m l ids))"
  let ?prev = "\<lambda>i. if mt_max_height m \<le> i \<and> i < ?h then head_node else prev i"
  let ?f = "fold (splice ?n ?prev) [0..<?h] ?u" and ?m' = "insert_new m key type value prev"
  have q: "?prev l = ?q l" if "l < ?h" for l
  proof (cases "mt_max_height m \<le> l")
    case True
    then have "on_level m l ids = []" using sh by (auto simp: on_level_def shape_def filter_empty_conv)
    then show ?thesis using True that by (simp add: below_def)
  qed (use prev that in simp)
  have qn: "?q l < ?n" for l
    using last_in [of head_node "below m key (on_level m l ids)"] sh
    by (auto simp: shape_def below_def on_level_def)
  have "\<forall>i < ?h. ?prev i < length (mt_nodes ?u)" using q qn by (simp add: unlinked_fields less_SucI)
  from splice_all [OF _ this, of ?n]
  have core: "map node_core (mt_nodes ?f) = map node_core (mt_nodes ?u)"
    and only: "?f = ?u\<lparr> mt_nodes := mt_nodes ?f \<rparr>"
    and nx: "\<And>l. level_next ?f l = (if l < ?h then spliced (level_next ?u l) ?n (?prev l) else level_next ?u l)"
    by (simp_all add: unlinked_fields)
  have fields: "mt_max_height ?f = mt_max_height ?u" "mt_entries ?f = mt_entries ?u" "mt_tombstones ?f = mt_tombstones ?u"
     "mt_range_count ?f = mt_range_count ?u" "mt_ranges ?f = mt_ranges ?u"
    by (subst only, simp)+
  note m' = insert_new_unlinked [of m key type "value" prev, unfolded Let_def]
  have lenu: "length (mt_nodes ?u) = Suc ?n" by (simp add: unlinked_fields)
  then have len: "length (mt_nodes ?f) = Suc ?n" using map_eq_imp_length_eq [OF core] by simp
  have at: "node_core (node_at ?m' i) = node_core (node_at ?u i)" if "i < Suc ?n" for i
    using arg_cong [OF core, of "\<lambda>xs. xs ! i"] that len lenu by (simp add: m')
  have lu: "level_next ?u l i = level_next m l i" if "i < ?n" for l i
    using that by (simp add: level_next_def unlinked_fields nth_append)
  have "shape ?m' (below m key ids @ ?n # not_below m key ids)"
  proof (rule shape_insert [OF sh refl])
    show "node_core (node_at ?m' ?n) = (Some (type, value), key, ?h)"
      using at [of ?n] short by (simp add: unlinked_fields node_core_def)
    show "length (mt_nodes ?m') = Suc ?n" by (simp add: m' len)
    show "mt_max_height ?m' = max (mt_max_height m) ?h" by (simp add: m' fields unlinked_fields)
    show "node_core (node_at ?m' i) = node_core (node_at m i)" if "i < ?n" for i
      using at [of i] that by (simp add: unlinked_fields nth_append)
    show "level_next ?m' l i = (if l < ?h then spliced (level_next m l) ?n (?q l) i else level_next m l i)"
      if "l < kMaxHeight" "i < ?n \<or> i = ?n \<and> l < ?h" for l i
    proof -
      have "level_next ?m' l i = level_next ?f l i" by (simp add: m' level_next_def)
      also have "\<dots> = (if l < ?h then spliced (level_next m l) ?n (?q l) i else level_next m l i)"
        using that(2) q qn [of l] by (auto simp: nx spliced_def lu)
      finally show ?thesis .
    qed
  qed (use fresh random_height_bounds [of m] in auto)
  moreover have "\<forall>i < ?n. node_core (node_at ?m' i) = node_core (node_at m i)"
    using at by (simp add: unlinked_fields nth_append)
  moreover have "node_core (node_at ?m' ?n) = (Some (type, value), key, ?h)"
    using at [of ?n] short by (simp add: unlinked_fields node_core_def)
  moreover have "mt_tombstones ?f = mt_tombstones m" by (simp add: fields unlinked_fields)
  then have "mt_tombstones ?m' = (if type = Delete then mt_tombstones m + 1 else mt_tombstones m)"
    unfolding m' by (cases "type = Delete") simp_all
  moreover have "mt_entries ?m' = mt_entries m + 1"
    "mt_range_count ?m' = mt_range_count m" "mt_ranges ?m' = mt_ranges m"
    by (simp_all add: m' fields unlinked_fields)
  ultimately show ?thesis unfolding Let_def by blast
qed

lemma node_entry_core: "node_core x = node_core y \<Longrightarrow> node_entry x = node_entry y"
  by (simp add: node_core_def node_entry_def)

lemma fst_node_entry [simp]: "fst (node_entry x) = n_key x"
  by (simp add: node_entry_def)

lemma sorted_split:
  assumes sh: "shape m (as @ i # bs)"
  shows "\<forall>j \<in> set as. n_key (node_at m j) < n_key (node_at m i)"
    and "\<forall>j \<in> set bs. n_key (node_at m i) < n_key (node_at m j)"
  using sh by (auto simp: shape_def sorted_wrt_append)

lemma not_below_present:
  assumes sh: "shape m (as @ i # bs)" and key: "n_key (node_at m i) = key"
  shows "not_below m key (as @ i # bs) = i # bs" and "below m key (as @ i # bs) = as"
  using sorted_split [OF sh] key
  by (auto simp: not_below_def below_def filter_empty_conv filter_id_conv dest: less_imp_not_less)

lemma upsert_present:
  assumes sh: "shape m (as @ i # bs)" and key: "n_key (node_at m i) = key"
  shows "upsert key t v (map (\<lambda>i. node_entry (node_at m i)) (as @ i # bs)) =
    map (\<lambda>i. node_entry (node_at m i)) as @ (key, t, v) # map (\<lambda>i. node_entry (node_at m i)) bs"
proof -
  let ?k = "\<lambda>i. n_key (node_at m i)"
  have "filter (\<lambda>j. ?k j < key) as = as" "filter (\<lambda>j. key < ?k j) as = []"
    "filter (\<lambda>j. ?k j < key) bs = []" "filter (\<lambda>j. key < ?k j) bs = bs"
    using sorted_split [OF sh] key
    by (auto simp: filter_empty_conv filter_id_conv dest: less_imp_not_less)
  then show ?thesis using key by (simp add: upsert_def filter_map comp_def case_prod_beta)
qed

lemma shape_core:
  assumes sh: "shape m ids"
    and core: "length (mt_nodes m') = length (mt_nodes m)" "mt_max_height m' = mt_max_height m"
      "\<And>i. n_key (node_at m' i) = n_key (node_at m i) \<and> n_height (node_at m' i) = n_height (node_at m i)
          \<and> n_next (node_at m' i) = n_next (node_at m i)
          \<and> (n_value (node_at m i) \<noteq> None \<longrightarrow> n_value (node_at m' i) \<noteq> None)"
  shows "shape m' ids"
proof -
  have "on_level m' l ids = on_level m l ids" "level_next m' l = level_next m l" for l
    using core(3) by (auto simp: on_level_def level_next_def)
  then show ?thesis using sh core by (auto simp: shape_def)
qed

lemma replace_value_fields:
  fixes m i type "value"
  defines "m' \<equiv> replace_value m i type value"
  shows "mt_nodes m' = (mt_nodes m)[i := (node_at m i)\<lparr> n_value := Some (type, slice32 value) \<rparr>]"
    and "mt_max_height m' = mt_max_height m" and "mt_entries m' = mt_entries m"
    and "mt_range_count m' = mt_range_count m" and "mt_ranges m' = mt_ranges m"
    and "mt_tombstones m' = mt_tombstones m
      - (case n_value (node_at m i) of Some (t, _) \<Rightarrow> of_bool (t = Delete) | None \<Rightarrow> 0) + of_bool (type = Delete)"
  by (auto simp: m'_def replace_value_def new_value_def Let_def split: option.split)

lemma replace_value_holds:
  assumes short: "length v < 2 ^ 32" and h: "holds_by m (as @ i # bs) es" and key: "n_key (node_at m i) = key"
  shows "holds_by (replace_value m i t v) (as @ i # bs) (upsert key t v es)"
proof -
  let ?m' = "replace_value m i t v" and ?e = "\<lambda>m i. node_entry (node_at m i)"
  have sh: "shape m (as @ i # bs)" and es: "es = map (?e m) (as @ i # bs)"
    using h by (auto simp: holds_by_def)
  have i: "i < length (mt_nodes m)" and d: "i \<notin> set as" "i \<notin> set bs" and ex: "n_value (node_at m i) \<noteq> None"
    using sh by (auto simp: shape_def)
  have sh': "shape ?m' (as @ i # bs)"
    using i by (intro shape_core [OF sh]) (auto simp: replace_value_fields nth_list_update)
  have new: "map (?e ?m') (as @ i # bs) = map (?e m) as @ (key, t, v) # map (?e m) bs"
    using i d key short by (auto simp: replace_value_fields nth_list_update node_entry_def)
  have ups: "upsert key t v es = map (?e m) as @ (key, t, v) # map (?e m) bs"
    unfolding es by (rule upsert_present [OF sh key])
  obtain t0 v0 where old: "n_value (node_at m i) = Some (t0, v0)" using ex by auto
  then have "?e m i = (key, t0, v0)" using key by (simp add: node_entry_def)
  then have "mt_tombstones ?m' = of_nat (length (filter (\<lambda>(_, t, _). t = Delete) (upsert key t v es)))"
    using h old unfolding ups by (simp add: holds_by_def replace_value_fields es)
  then show ?thesis using h sh' new ups by (simp add: holds_by_def replace_value_fields)
qed

lemma mt_insert_present:
  assumes h: "holds_by m ids es" and i: "i \<in> set ids" and key: "n_key (node_at m i) = key"
  shows "mt_insert m key t v = Some (replace_value m i t v)"
    and "length v < 2 ^ 32 \<Longrightarrow> holds_by (replace_value m i t v) ids (upsert key t v es)"
proof -
  obtain as bs where ids: "ids = as @ i # bs" using i by (meson split_list)
  have sh: "shape m (as @ i # bs)" using h by (simp add: holds_by_def ids)
  show "mt_insert m key t v = Some (replace_value m i t v)"
    using find_greater_or_equal_found [OF sh, of key] key
    by (auto simp: mt_insert_def not_below_present [OF sh key] first_of_def)
  show "holds_by (replace_value m i t v) ids (upsert key t v es)" if "length v < 2 ^ 32"
    using replace_value_holds [OF that] h key unfolding ids by blast
qed

lemma mt_insert_absent:
  assumes short: "length key < 2 ^ 32" "length v < 2 ^ 32"
    and h: "holds_by m ids es" and fresh: "\<forall>i \<in> set ids. n_key (node_at m i) \<noteq> key"
  shows "\<exists>m'. mt_insert m key t v = Some m' \<and> mt_ranges m' = mt_ranges m
    \<and> holds_by m' (below m key ids @ length (mt_nodes m) # not_below m key ids) (upsert key t v es)"
proof -
  let ?n = "length (mt_nodes m)" and ?e = "\<lambda>m i. node_entry (node_at m i)"
  have sh: "shape m ids" and es: "es = map (?e m) ids" using h by (auto simp: holds_by_def)
  obtain prev where fge: "find_greater_or_equal m key = Some (prev, first_of (not_below m key ids))"
    and prev: "\<forall>j < mt_max_height m. prev j = last (head_node # below m key (on_level m j ids))"
    using find_greater_or_equal_found [OF sh, of key] by blast
  let ?m' = "insert_new m key t v prev"
  have ins: "mt_insert m key t v = Some ?m'"
  proof (cases "not_below m key ids")
    case (Cons i bs)
    then have "i \<in> set (not_below m key ids)" by simp
    then have "n_key (node_at m i) \<noteq> key" using fresh by (simp add: not_below_def)
    then show ?thesis using Cons by (simp add: mt_insert_def fge first_of_def)
  qed (simp add: mt_insert_def fge first_of_def)
  note new = insert_new_shape [OF short sh fresh prev, where type = t, unfolded Let_def]
  have old: "?e ?m' i = ?e m i" if "i < ?n" for i using new that node_entry_core by blast
  have lt: "i < ?n" if "i \<in> set ids" for i using sh that by (auto simp: shape_def)
  have "?e ?m' ?n = (key, t, v)" using new by (simp add: node_core_def node_entry_def)
  then have "map (?e ?m') (below m key ids @ ?n # not_below m key ids) =
      map (?e m) (below m key ids) @ (key, t, v) # map (?e m) (not_below m key ids)"
    using old lt by (auto simp: below_def not_below_def)
  moreover have "filter (\<lambda>i. key < n_key (node_at m i)) ids = not_below m key ids"
    unfolding not_below_def using fresh by (intro filter_cong) auto
  then have ups: "upsert key t v es = map (?e m) (below m key ids) @ (key, t, v) # map (?e m) (not_below m key ids)"
    by (simp add: es upsert_def filter_map comp_def case_prod_beta below_def)
  moreover have "es = map (?e m) (below m key ids) @ map (?e m) (not_below m key ids)"
    unfolding es by (subst below_split(2) [OF sh, of key]) simp
  ultimately have "holds_by ?m' (below m key ids @ ?n # not_below m key ids) (upsert key t v es)"
    using h new by (simp add: holds_by_def ups)
  then show ?thesis using ins new by blast
qed

lemma mt_insert_holds:
  assumes short: "length key < 2 ^ 32" "length v < 2 ^ 32" and "holds m es"
  shows "\<exists>m'. mt_insert m key t v = Some m' \<and> holds m' (upsert key t v es) \<and> mt_ranges m' = mt_ranges m"
proof -
  obtain ids where h: "holds_by m ids es" using assms(3) by (auto simp: holds_def)
  show ?thesis
  proof (cases "\<exists>i \<in> set ids. n_key (node_at m i) = key")
    case True
    then obtain i where "i \<in> set ids" "n_key (node_at m i) = key" by blast
    from mt_insert_present [OF h this, where t = t and v = v] short show ?thesis
      by (auto simp: holds_def replace_value_fields)
  next
    case False
    then show ?thesis using mt_insert_absent [OF short h, where t = t] by (auto simp: holds_def)
  qed
qed

lemma mt_get_holds:
  assumes "holds m es"
  shows "mt_get m key = Some (map_of es key)"
proof -
  obtain ids where h: "holds_by m ids es" using assms by (auto simp: holds_def)
  then have sh: "shape m ids" and es: "es = map (\<lambda>i. node_entry (node_at m i)) ids" by (auto simp: holds_by_def)
  show ?thesis
  proof (cases "\<exists>i \<in> set ids. n_key (node_at m i) = key")
    case True
    then obtain i as bs where key: "n_key (node_at m i) = key" and ids: "ids = as @ i # bs" by (metis split_list)
    note sh = sh [unfolded ids]
    have "map_of (map (\<lambda>i. node_entry (node_at m i)) as) key = None"
      using sorted_split(1) [OF sh] key by (auto simp: map_of_eq_None_iff)
    moreover obtain t v where "n_value (node_at m i) = Some (t, v)" using sh by (auto simp: shape_def)
    ultimately have "map_of es key = n_value (node_at m i)"
      using key by (simp add: es ids map_add_def node_entry_def)
    then show ?thesis
      using find_greater_or_equal_found [OF sh, of key] key
      by (auto simp: mt_get_def ids not_below_present [OF sh key] first_of_def)
  next
    case False
    then have "map_of es key = None" by (auto simp: es map_of_eq_None_iff)
    moreover have "\<forall>i \<in> set (not_below m key ids). n_key (node_at m i) \<noteq> key"
      using False by (simp add: not_below_def)
    ultimately show ?thesis
      using find_greater_or_equal_found [OF sh, of key]
      by (auto simp: mt_get_def first_of_def split: list.split)
  qed
qed

section \<open>Range deletes\<close>

lemma links_first: "links nx p xs \<Longrightarrow> nx p = first_of xs"
  by (cases xs) (simp_all add: first_of_def)

lemma links_level_0: "shape m ids \<Longrightarrow> links (level_next m 0) head_node ids"
  by (frule on_level_0) (metis shape_def kMaxHeight_def zero_less_numeral)

lemma next_of_head: "shape m ids \<Longrightarrow> n_next (node_at m head_node) 0 = first_of ids"
  using links_first [OF links_level_0] by (simp add: level_next_def)

lemma next_of_node:
  assumes "shape m (as @ i # bs)"
  shows "n_next (node_at m i) 0 = first_of bs"
proof -
  have "links (level_next m 0) head_node ((as @ [i]) @ bs)" using links_level_0 [OF assms] by simp
  from links_split [OF this] show ?thesis using links_first [of "level_next m 0" i bs] by (simp add: level_next_def)
qed

text \<open>What a range delete does to one entry below its upper end.\<close>

definition bury :: "bytes \<Rightarrow> entry \<Rightarrow> entry" where
  "bury up = (\<lambda>(k, t, v). if k < up \<and> t \<noteq> Delete then (k, Delete, []) else (k, t, v))"

lemma bury_above: "\<not> fst e < up \<Longrightarrow> bury up e = e"
  by (cases e) (simp add: bury_def)

lemma sl_load_Cons:
  assumes "shape m (as @ i # bs)"
  shows "sl_valid (sl_load m (first_of (i # bs)))" "sl_key m (sl_load m (first_of (i # bs))) = n_key (node_at m i)"
    "sl_entry m (sl_load m (first_of (i # bs))) = node_entry (node_at m i)"
    "sl_next m' (sl_load m (first_of (i # bs))) = sl_load m' (n_next (node_at m' i) 0)"
  using assms
  by (auto simp: sl_load_def first_of_def sl_valid_def sl_key_def sl_entry_def sl_type_def sl_bytes_def node_entry_def
      sl_next_def shape_def)

lemma delete_loop_holds:
  assumes "holds_by m (as @ bs) es"
  shows "\<exists>m'. delete_loop m (sl_load m (first_of bs)) up = Some m' \<and> mt_ranges m' = mt_ranges m
    \<and> holds_by m' (as @ bs) (take (length as) es @ map (bury up) (drop (length as) es))"
  using assms
proof (induction bs arbitrary: as m es)
  case Nil
  then show ?case
    by (subst delete_loop.simps) (simp add: sl_load_def first_of_def sl_valid_def holds_by_def)
next
  case (Cons i bs)
  let ?it = "sl_load m (first_of (i # bs))" and ?k = "n_key (node_at m i)"
  have sh: "shape m (as @ i # bs)" and es: "es = map (\<lambda>i. node_entry (node_at m i)) (as @ i # bs)"
    using Cons.prems by (auto simp: holds_by_def)
  note it = sl_load_Cons [OF sh]
  obtain t v where e: "node_entry (node_at m i) = (?k, t, v)" by (cases "node_entry (node_at m i)") (metis fst_conv fst_node_entry)
  have ty: "sl_type ?it = t" using it(3) e by (simp add: sl_entry_def)
  show ?case
  proof (cases "?k < up")
    case False
    then have "\<forall>j \<in> set (i # bs). \<not> n_key (node_at m j) < up" using sorted_split(2) [OF sh] by force
    then have "map (bury up) (drop (length as) es) = drop (length as) es"
      by (auto simp: es intro!: bury_above)
    then show ?thesis using Cons.prems it(1,2) False by (subst delete_loop.simps) simp
  next
    case True
    let ?m1 = "if t = Delete then m else replace_value m i Delete []"
    let ?es1 = "take (length as) es @ bury up (node_entry (node_at m i)) # drop (Suc (length as)) es"
    have step: "(if sl_type ?it = Delete then Some m else mt_insert m (sl_key m ?it) Delete []) = Some ?m1"
      using mt_insert_present(1) [OF Cons.prems, of i ?k Delete "[]"] by (simp add: ty it(2))
    have h1: "holds_by ?m1 (as @ i # bs) ?es1"
    proof (cases "t = Delete")
      case True
      then show ?thesis using Cons.prems e by (simp add: bury_def es)
    next
      case False
      have "upsert ?k Delete [] es = ?es1"
        unfolding es by (subst upsert_present [OF sh refl]) (use True False e in \<open>simp add: bury_def\<close>)
      then show ?thesis using replace_value_holds [OF _ Cons.prems refl, of "[]" Delete] False by simp
    qed
    then have sh1: "shape ?m1 (as @ i # bs)" by (simp add: holds_by_def)
    have "delete_loop m ?it up = delete_loop ?m1 (sl_next ?m1 ?it) up"
      using it(1,2) True step by (subst delete_loop.simps) simp
    also have "sl_next ?m1 ?it = sl_load ?m1 (first_of bs)"
      unfolding it(4) next_of_node [OF sh1] ..
    finally have loop: "delete_loop m ?it up = delete_loop ?m1 (sl_load ?m1 (first_of bs)) up" .
    have r: "mt_ranges ?m1 = mt_ranges m" by (simp add: replace_value_fields)
    have "holds_by ?m1 ((as @ [i]) @ bs) ?es1" using h1 by simp
    from Cons.IH [OF this] obtain m' where "delete_loop ?m1 (sl_load ?m1 (first_of bs)) up = Some m'"
      "mt_ranges m' = mt_ranges ?m1" and
      "holds_by m' (as @ i # bs) (take (Suc (length as)) ?es1 @ map (bury up) (drop (Suc (length as)) ?es1))"
      by auto
    moreover have "take (Suc (length as)) ?es1 @ map (bury up) (drop (Suc (length as)) ?es1) =
        take (length as) es @ map (bury up) (drop (length as) es)"
      by (simp add: es)
    ultimately show ?thesis using loop r by metis
  qed
qed

definition bury_range :: "bytes \<Rightarrow> bytes \<Rightarrow> entry list \<Rightarrow> entry list" where
  "bury_range lo up es =
     (if lo < up then map (\<lambda>(k, t, v). if lo \<le> k \<and> k < up \<and> t \<noteq> Delete then (k, Delete, []) else (k, t, v)) es else es)"

lemma record_range_holds:
  assumes "holds_by m ids es"
  shows "holds_by (record_range m lo up) ids es"
proof -
  have "shape (record_range m lo up) ids"
    by (rule shape_core [of m ids]) (use assms in \<open>simp_all add: holds_by_def record_range_def Let_def\<close>)
  then show ?thesis using assms by (simp add: holds_by_def record_range_def Let_def)
qed

lemma mt_delete_range_holds:
  assumes "holds m es"
  shows "\<exists>m'. mt_delete_range m lo up = Some m' \<and> holds m' (bury_range lo up es)
    \<and> mt_ranges m' = (if lo < up then [\<lparr> lower = lo, upper = up \<rparr>] else []) @ mt_ranges m"
proof (cases "lo < up")
  case True
  obtain ids where h: "holds_by m ids es" using assms by (auto simp: holds_def)
  let ?as = "below m lo ids" and ?bs = "not_below m lo ids"
  have sh: "shape m ids" and es: "es = map (\<lambda>i. node_entry (node_at m i)) ids" using h by (auto simp: holds_by_def)
  note split = below_split(2) [OF sh, of lo]
  have "holds_by m (?as @ ?bs) es" using h by (simp flip: split)
  from delete_loop_holds [OF this, of up] obtain m' where
    loop: "delete_loop m (sl_load m (first_of ?bs)) up = Some m'" and r: "mt_ranges m' = mt_ranges m"
    and h': "holds_by m' ids (take (length ?as) es @ map (bury up) (drop (length ?as) es))"
    by (auto simp flip: split)
  have seek: "sl_seek m lo = Some (sl_load m (first_of ?bs))"
    using find_greater_or_equal_found [OF sh, of lo] by (auto simp: sl_seek_def)
  have es': "es = map (\<lambda>i. node_entry (node_at m i)) ?as @ map (\<lambda>i. node_entry (node_at m i)) ?bs"
    unfolding es by (subst split) simp
  have "take (length ?as) es @ map (bury up) (drop (length ?as) es) = bury_range lo up es"
    using True unfolding es'
    by (auto simp: bury_range_def bury_def below_def not_below_def node_entry_def split: option.splits)
  then have "holds (record_range m' lo up) (bury_range lo up es)"
    using record_range_holds [OF h'] by (auto simp: holds_def)
  then show ?thesis
    using True loop seek r by (simp add: mt_delete_range_def record_range_def Let_def)
qed (use assms in \<open>simp add: mt_delete_range_def bury_range_def\<close>)

section \<open>The iterator is a cursor\<close>

definition at_pos :: "'a list \<Rightarrow> nat \<Rightarrow> 'a option" where
  "at_pos xs i = (if i < length xs then Some (xs ! i) else None)"

lemma first_of_drop: "first_of (drop i xs) = at_pos xs i"
  by (cases "drop i xs") (auto simp: first_of_def at_pos_def nth_via_drop dest: arg_cong [where f = length])

lemma below_pos:
  assumes "holds_by m ids es"
  shows "below m key ids = take (lower_pos es key) ids" and "not_below m key ids = drop (lower_pos es key) ids"
proof -
  let ?P = "\<lambda>i. n_key (node_at m i) < key"
  have sh: "shape m ids" and es: "es = map (\<lambda>i. node_entry (node_at m i)) ids" using assms by (auto simp: holds_by_def)
  have "lower_pos es key = length (takeWhile ?P ids)"
    by (simp add: lower_pos_def es takeWhile_map comp_def)
  moreover have "below m key ids = takeWhile ?P ids" "not_below m key ids = dropWhile ?P ids"
    using takeWhile_closed [OF key_closed [OF sh]] dropWhile_closed [OF key_closed [OF sh]]
    by (simp_all add: below_def not_below_def)
  ultimately show "below m key ids = take (lower_pos es key) ids" "not_below m key ids = drop (lower_pos es key) ids"
    using takeWhile_eq_take [of ?P ids] dropWhile_eq_drop [of ?P ids] by simp_all
qed

lemma holds_by_length: "holds_by m ids es \<Longrightarrow> length ids = length es"
  by (simp add: holds_by_def)

lemma holds_by_sorted: "holds_by m ids es \<Longrightarrow> sorted_keys es"
  by (auto simp: holds_by_def shape_def sorted_keys_def comp_def)

lemma holds_by_not_head:
  assumes "holds_by m ids es" and "i < length es"
  shows "ids ! i \<noteq> head_node"
proof -
  have "ids ! i \<in> set ids" using assms by (simp add: holds_by_length)
  then show ?thesis using assms(1) by (auto simp: holds_by_def shape_def)
qed

lemma sl_set_pos:
  assumes h: "holds_by m ids es" and p: "p \<le> length es"
  shows "sl_set m (last (head_node # take p ids)) = sl_load m (at_pos ids (if p = 0 then length es else p - 1))"
proof (cases p)
  case (Suc j)
  then have j: "j < length ids" using p holds_by_length [OF h] by simp
  then have "ids ! j \<noteq> head_node" using holds_by_not_head [OF h] holds_by_length [OF h] by simp
  moreover have "last (head_node # take p ids) = ids ! j"
    using Suc j by (simp add: take_Suc_conv_app_nth)
  ultimately show ?thesis using Suc j by (simp add: sl_set_def at_pos_def)
qed (use holds_by_length [OF h] in \<open>simp add: sl_set_def at_pos_def\<close>)

lemma sl_seek_pos:
  assumes h: "holds_by m ids es"
  shows "sl_seek m t = Some (sl_load m (at_pos ids (lower_pos es t)))"
proof -
  have "shape m ids" using h by (simp add: holds_by_def)
  from find_greater_or_equal_found [OF this, of t] show ?thesis
    by (auto simp: sl_seek_def below_pos [OF h] first_of_drop)
qed

lemma sl_load_entry:
  assumes h: "holds_by m ids es" and i: "i < length es"
  shows "sl_entry m (sl_load m (at_pos ids i)) = es ! i" and "n_key (node_at m (ids ! i)) = fst (es ! i)"
proof -
  have "i < length ids" using i holds_by_length [OF h] by simp
  moreover from this have "n_value (node_at m (ids ! i)) \<noteq> None"
    using h nth_mem by (auto simp: holds_by_def shape_def)
  ultimately show "sl_entry m (sl_load m (at_pos ids i)) = es ! i" "n_key (node_at m (ids ! i)) = fst (es ! i)"
    using h by (auto simp: holds_by_def at_pos_def sl_load_def sl_entry_def sl_key_def sl_type_def sl_bytes_def node_entry_def)
qed

lemma sl_back_pos:
  assumes h: "holds_by m ids es"
  shows "map_option (sl_set m) (find_less_than m t) =
    Some (sl_load m (at_pos ids (if lower_pos es t = 0 then length es else lower_pos es t - 1)))"
proof -
  have "shape m ids" using h by (simp add: holds_by_def)
  from find_less_than_found [OF this, of t] show ?thesis
    by (simp only: below_pos [OF h] option.map sl_set_pos [OF h lower_pos_le])
qed

lemma sl_seek_for_prev_pos:
  assumes h: "holds_by m ids es"
  shows "sl_seek_for_prev m t = Some (sl_load m (at_pos ids (floor_pos es t)))"
proof -
  have sh: "shape m ids" using h by (simp add: holds_by_def)
  let ?l = "lower_pos es t"
  obtain prev where fge: "find_greater_or_equal m t = Some (prev, at_pos ids ?l)"
    using find_greater_or_equal_found [OF sh, of t] by (auto simp: below_pos [OF h] first_of_drop)
  note len = holds_by_length [OF h] and floor = floor_pos_lower [OF holds_by_sorted [OF h], of t]
  have seek: "sl_seek_for_prev m t =
      (if ?l < length es \<and> n_key (node_at m (ids ! ?l)) = t then Some (sl_set m (ids ! ?l))
       else map_option (sl_set m) (find_less_than m t))"
    by (simp add: sl_seek_for_prev_def fge at_pos_def len)
  show ?thesis
  proof (cases "?l < length es \<and> fst (es ! ?l) = t")
    case True
    then have "sl_set m (ids ! ?l) = sl_load m (at_pos ids ?l)"
      using holds_by_not_head [OF h] len by (simp add: sl_set_def at_pos_def)
    then show ?thesis using True sl_load_entry(2) [OF h, of ?l] by (simp add: seek floor)
  next
    case False
    then have "sl_seek_for_prev m t = map_option (sl_set m) (find_less_than m t)"
      using sl_load_entry(2) [OF h, of ?l] by (auto simp: seek)
    also have "\<dots> = Some (sl_load m (at_pos ids (floor_pos es t)))"
      unfolding sl_back_pos [OF h] floor if_not_P [OF False] ..
    finally show ?thesis .
  qed
qed

lemma sl_prev_pos:
  assumes h: "holds_by m ids es" and i: "i < length es"
  shows "sl_prev m (sl_load m (at_pos ids i)) = Some (sl_load m (at_pos ids (if i = 0 then length es else i - 1)))"
proof -
  have "lower_pos es (fst (es ! i)) = i"
    using i sorted_keys_nth [OF holds_by_sorted [OF h]] by (intro lower_pos_unique [OF holds_by_sorted [OF h]]) auto
  moreover have "sl_prev m (sl_load m (at_pos ids i)) = map_option (sl_set m) (find_less_than m (fst (es ! i)))"
    using sl_load_entry(2) [OF h i] i holds_by_length [OF h] by (simp add: sl_prev_def sl_load_def at_pos_def)
  ultimately show ?thesis using sl_back_pos [OF h, of "fst (es ! i)"] by simp
qed

lemma sl_next_pos:
  assumes h: "holds_by m ids es" and i: "i < length es"
  shows "sl_next m (sl_load m (at_pos ids i)) = sl_load m (at_pos ids (Suc i))"
proof -
  have l: "i < length ids" using i holds_by_length [OF h] by simp
  have "shape m (take i ids @ ids ! i # drop (Suc i) ids)" using h l by (simp add: holds_by_def id_take_nth_drop [symmetric])
  from next_of_node [OF this] l show ?thesis
    by (simp add: sl_next_def sl_load_def at_pos_def first_of_drop)
qed

text \<open>
  An iterator keeps a pointer to its table. The seeks return, as shown above, so a pair of the table
  and the iterator is the state of a total cursor.
\<close>

type_synonym memtable_cursor = "memtable \<times> skiplist_iter"

definition mtc_with :: "memtable_cursor \<Rightarrow> (memtable \<Rightarrow> skiplist_iter \<Rightarrow> skiplist_iter option) \<Rightarrow> memtable_cursor" where
  "mtc_with c f = (case c of (m, it) \<Rightarrow> (m, case f m it of None \<Rightarrow> it | Some it' \<Rightarrow> it'))"

definition memtable_rep :: "memtable_cursor \<Rightarrow> entry list \<Rightarrow> nat \<Rightarrow> bool" where
  "memtable_rep c es i \<longleftrightarrow>
     (\<exists>ids. holds_by (fst c) ids es \<and> i \<le> length es \<and> snd c = sl_load (fst c) (at_pos ids i))"

lemma sl_seek_to_first_pos: "holds_by m ids es \<Longrightarrow> sl_seek_to_first m = sl_load m (at_pos ids 0)"
  using next_of_head [of m ids] first_of_drop [of 0 ids] by (simp add: sl_seek_to_first_def holds_by_def)

lemma sl_seek_to_last_pos:
  assumes h: "holds_by m ids es"
  shows "sl_seek_to_last m = Some (sl_load m (at_pos ids (length es - 1)))"
proof -
  have "find_last m = Some (last (head_node # take (length es) ids))"
    using find_last_found [of m ids] h holds_by_length [OF h] by (simp add: holds_by_def)
  then have "sl_seek_to_last m = Some (sl_load m (at_pos ids (if length es = 0 then length es else length es - 1)))"
    by (simp only: sl_seek_to_last_def option.map sl_set_pos [OF h order_refl])
  then show ?thesis by simp
qed

lemma floor_pos_le: "floor_pos es t \<le> length es"
  using length_takeWhile_le [of "\<lambda>e. fst e \<le> t" es] by (auto simp: floor_pos_def Let_def)

interpretation memtable: cursor memtable_rep "\<lambda>c. sl_valid (snd c)" "\<lambda>c. sl_entry (fst c) (snd c)" "\<lambda>_. True"
    "\<lambda>c. mtc_with c (\<lambda>m _. Some (sl_seek_to_first m))" "\<lambda>c t. mtc_with c (\<lambda>m _. sl_seek m t)"
    "\<lambda>c. mtc_with c (\<lambda>m it. Some (sl_next m it))"
    "\<lambda>c. mtc_with c (\<lambda>m _. sl_seek_to_last m)" "\<lambda>c t. mtc_with c (\<lambda>m _. sl_seek_for_prev m t)"
    "\<lambda>c. mtc_with c (\<lambda>m it. sl_prev m it)"
proof unfold_locales
  fix c es i t
  assume r: "memtable_rep c es i"
  obtain m it where c: "c = (m, it)" by (cases c)
  obtain ids where h: "holds_by m ids es" and i: "i \<le> length es" and it: "it = sl_load m (at_pos ids i)"
    using r by (auto simp: memtable_rep_def c)
  note defs = mtc_with_def memtable_rep_def c it
  show "sorted_keys es" by (rule holds_by_sorted [OF h])
  show "i \<le> length es" by (rule i)
  show "sl_valid (snd c) \<longleftrightarrow> i < length es"
    using holds_by_length [OF h] by (simp add: c it sl_valid_def sl_load_def at_pos_def)
  show "memtable_rep (mtc_with c (\<lambda>m _. Some (sl_seek_to_first m))) es 0"
    using h sl_seek_to_first_pos [OF h] by (auto simp: defs)
  show "memtable_rep (mtc_with c (\<lambda>m _. sl_seek m t)) es (lower_pos es t)"
    using h sl_seek_pos [OF h, of t] lower_pos_le [of es t] by (auto simp: defs)
  show "memtable_rep (mtc_with c (\<lambda>m _. sl_seek_to_last m)) es (length es - 1)"
    using h sl_seek_to_last_pos [OF h] by (auto simp: defs)
  show "memtable_rep (mtc_with c (\<lambda>m _. sl_seek_for_prev m t)) es (floor_pos es t)"
    using h sl_seek_for_prev_pos [OF h, of t] floor_pos_le [of es t] by (auto simp: defs)
  assume lt: "i < length es"
  show "sl_entry (fst c) (snd c) = es ! i" using sl_load_entry(1) [OF h lt] by (simp add: c it)
  show "memtable_rep (mtc_with c (\<lambda>m it. Some (sl_next m it))) es (Suc i)"
    using h sl_next_pos [OF h lt] lt by (auto simp: defs)
  show "memtable_rep (mtc_with c (\<lambda>m it. sl_prev m it)) es (if i = 0 then length es else i - 1)"
    using h sl_prev_pos [OF h lt] lt by (auto simp: defs)
qed simp

section \<open>Sequences of operations\<close>

datatype memtable_op = MPut bytes bytes | MRemove bytes | MDeleteRange bytes bytes

fun mt_apply :: "memtable \<Rightarrow> memtable_op \<Rightarrow> memtable option" where
  "mt_apply m (MPut k v) = mt_put m k v"
| "mt_apply m (MRemove k) = mt_remove m k"
| "mt_apply m (MDeleteRange lo up) = mt_delete_range m lo up"

fun mt_run :: "memtable \<Rightarrow> memtable_op list \<Rightarrow> memtable option" where
  "mt_run m [] = Some m"
| "mt_run m (x # xs) = Option.bind (mt_apply m x) (\<lambda>m. mt_run m xs)"

text \<open>The same operations on a map from keys to what was last written to them.\<close>

fun model_apply :: "memtable_op \<Rightarrow> (bytes \<rightharpoonup> value_type \<times> bytes) \<Rightarrow> (bytes \<rightharpoonup> value_type \<times> bytes)" where
  "model_apply (MPut k v) f = f(k \<mapsto> (Put, v))"
| "model_apply (MRemove k) f = f(k \<mapsto> (Delete, []))"
| "model_apply (MDeleteRange lo up) f =
     (\<lambda>k. if lo \<le> k \<and> k < up then map_option (\<lambda>(t, v). if t = Delete then (t, v) else (Delete, [])) (f k) else f k)"

definition model_of :: "memtable_op list \<Rightarrow> (bytes \<rightharpoonup> value_type \<times> bytes)" where
  "model_of ops = fold model_apply ops Map.empty"

definition range_deleted :: "memtable_op list \<Rightarrow> bytes \<Rightarrow> bool" where
  "range_deleted ops k \<longleftrightarrow>
     list_ex (\<lambda>x. case x of MDeleteRange lo up \<Rightarrow> lo \<le> k \<and> k < up | _ \<Rightarrow> False) ops"

lemma map_of_upsert: "map_of (upsert key t v es) = (map_of es)(key \<mapsto> (t, v))"
  by (auto simp: upsert_def map_add_def map_of_filter_key fun_eq_iff split: option.split)

lemma map_of_bury_range:
  "map_of (bury_range lo up es) k =
    (if lo \<le> k \<and> k < up then map_option (\<lambda>(t, v). if t = Delete then (t, v) else (Delete, [])) (map_of es k)
     else map_of es k)"
proof (cases "lo < up")
  case True
  then show ?thesis unfolding bury_range_def by (induction es) auto
qed (auto simp: bury_range_def)

lemma fresh_holds: "holds SkiplistMemtable []"
proof -
  have "holds_by SkiplistMemtable [] []"
    by (simp add: holds_by_def shape_def SkiplistMemtable_def new_node_def Let_def case_prod_beta kMaxHeight_def
        head_node_def on_level_def level_next_def)
  then show ?thesis by (auto simp: holds_def)
qed

text \<open>The operations whose keys and values have lengths that fit their fields.\<close>

fun op_fits :: "memtable_op \<Rightarrow> bool" where
  "op_fits (MPut k v) \<longleftrightarrow> length k < 2 ^ 32 \<and> length v < 2 ^ 32"
| "op_fits (MRemove k) \<longleftrightarrow> length k < 2 ^ 32"
| "op_fits (MDeleteRange lo up) \<longleftrightarrow> True"

definition implements :: "memtable \<Rightarrow> memtable_op list \<Rightarrow> bool" where
  "implements m ops \<longleftrightarrow> (\<exists>es. holds m es \<and> map_of es = model_of ops \<and> (\<forall>k. mt_range_deletes m k = range_deleted ops k)
     \<and> (\<forall>r \<in> set (mt_ranges m). lower r < upper r))"

lemma model_of_snoc: "model_of (ops @ [x]) = model_apply x (model_of ops)"
  by (simp add: model_of_def)

lemma range_deleted_snoc: "range_deleted (ops @ [x]) k \<longleftrightarrow> range_deleted ops k \<or> range_deleted [x] k"
  by (simp add: range_deleted_def)

lemma mt_apply_implements:
  assumes "implements m ops" and fits: "op_fits x"
  shows "\<exists>m'. mt_apply m x = Some m' \<and> implements m' (ops @ [x])"
proof -
  obtain es where h: "holds m es" and es: "map_of es = model_of ops"
    and r: "\<And>k. mt_range_deletes m k = range_deleted ops k" and w: "\<forall>r \<in> set (mt_ranges m). lower r < upper r"
    using assms(1) by (auto simp: implements_def)
  show ?thesis
  proof (cases x)
    case (MPut k v)
    then show ?thesis
      using mt_insert_holds [OF _ _ h, of k v Put] fits es r w
      by (auto simp: implements_def mt_put_def model_of_snoc range_deleted_snoc map_of_upsert mt_range_deletes_def
          range_deleted_def intro!: exI [of _ "upsert k Put v es"])
  next
    case (MRemove k)
    then show ?thesis
      using mt_insert_holds [OF _ _ h, of k "[]" Delete] fits es r w
      by (auto simp: implements_def mt_remove_def model_of_snoc range_deleted_snoc map_of_upsert mt_range_deletes_def
          range_deleted_def intro!: exI [of _ "upsert k Delete [] es"])
  next
    case (MDeleteRange lo up)
    obtain m' where m': "mt_delete_range m lo up = Some m'" "holds m' (bury_range lo up es)"
      and r': "mt_ranges m' = (if lo < up then [\<lparr> lower = lo, upper = up \<rparr>] else []) @ mt_ranges m"
      using mt_delete_range_holds [OF h] by blast
    have "mt_range_deletes m' k = range_deleted (ops @ [x]) k" for k
      using r [of k] MDeleteRange unfolding range_deleted_snoc mt_range_deletes_def r'
      by (auto simp: range_deleted_def)
    moreover have "map_of (bury_range lo up es) = model_of (ops @ [x])"
      using es MDeleteRange by (simp add: model_of_snoc map_of_bury_range fun_eq_iff)
    moreover have "\<forall>r \<in> set (mt_ranges m'). lower r < upper r" using w by (auto simp: r')
    ultimately show ?thesis using m' MDeleteRange by (auto simp: implements_def)
  qed
qed

lemma mt_run_implements: "implements m ops \<Longrightarrow> \<forall>x \<in> set xs. op_fits x \<Longrightarrow> \<exists>m'. mt_run m xs = Some m' \<and> implements m' (ops @ xs)"
proof (induction xs arbitrary: m ops)
  case (Cons x xs)
  obtain m1 where "mt_apply m x = Some m1" "implements m1 (ops @ [x])" using mt_apply_implements [OF Cons.prems(1)] Cons.prems(2) by auto
  with Cons.IH [of m1 "ops @ [x]"] Cons.prems(2) show ?case by simp
qed simp

lemma fresh_implements: "implements SkiplistMemtable []"
  using fresh_holds
  by (auto simp: implements_def model_of_def range_deleted_def mt_range_deletes_def SkiplistMemtable_def new_node_def
      Let_def case_prod_beta intro!: exI [of _ "[]"])

lemma mt_run_fresh: "\<forall>x \<in> set ops. op_fits x \<Longrightarrow> \<exists>m. mt_run SkiplistMemtable ops = Some m \<and> implements m ops"
  using mt_run_implements [OF fresh_implements] by simp

section \<open>Properties\<close>

lemma implements_ranges:
  assumes "implements m ops"
  shows "any_covers (mt_range_tombstones m) k = range_deleted ops k"
proof -
  have "mt_range_deletes m k = range_deleted ops k" using assms by (auto simp: implements_def)
  moreover have "any_covers (mt_ranges m) k = mt_range_deletes m k"
    by (auto simp: mt_range_deletes_def any_covers_def list_ex_iff covers_def)
  ultimately show ?thesis by (simp add: mt_range_tombstones_def merge_ranges_covers)
qed

lemma sorted_card:
  assumes "sorted_keys es"
  shows "card (dom (map_of es)) = length es"
    and "card {k. \<exists>v. map_of es k = Some (Delete, v)} = length (filter (\<lambda>(_, t, _). t = Delete) es)"
proof -
  have d: "distinct (keys_of es)" using assms by (simp add: sorted_keys_def strict_sorted_iff)
  then show "card (dom (map_of es)) = length es" by (simp add: dom_map_of_conv_image_fst distinct_card flip: set_map)
  let ?fs = "filter (\<lambda>(_, t, _). t = Delete) es"
  have "{k. \<exists>v. map_of es k = Some (Delete, v)} = set (keys_of ?fs)"
    using d by (force simp: map_of_eq_Some_iff)
  moreover have "distinct (keys_of ?fs)" using d by (rule distinct_map_filter)
  ultimately show "card {k. \<exists>v. map_of es k = Some (Delete, v)} = length ?fs"
    using distinct_card [of "keys_of ?fs"] by simp
qed

text \<open>
  [C11] Any sequence of puts, removes and range deletes on a fresh memtable, of keys and values shorter than
  \<open>2 ^ 32\<close> bytes, returns, whatever heights the generator draws: no descent of the skip list loops or follows a pointer off its level. The
  result answers every point lookup with what was last written to the key, a range delete having
  turned the puts it found into deletes, and its range test and its normalised range tombstones
  report exactly the keys some range delete of the sequence covered.
\<close>

theorem memtable_correct:
  assumes "\<forall>x \<in> set ops. op_fits x"
  shows "\<exists>m. mt_run SkiplistMemtable ops = Some m
     \<and> (\<forall>k. mt_get m k = Some (model_of ops k))
     \<and> (\<forall>k. mt_range_deletes m k = range_deleted ops k)
     \<and> (\<forall>k. any_covers (mt_range_tombstones m) k = range_deleted ops k)
     \<and> sorted_disjoint (mt_range_tombstones m)"
proof -
  obtain m where m: "mt_run SkiplistMemtable ops = Some m" "implements m ops" using mt_run_fresh [OF assms] by blast
  moreover have "mt_get m k = Some (model_of ops k)" "mt_range_deletes m k = range_deleted ops k" for k
    using m(2) mt_get_holds by (auto simp: implements_def)
  ultimately show ?thesis
    using implements_ranges by (auto simp: mt_range_tombstones_def merge_ranges_sorted_disjoint)
qed

text \<open>
  [C12] Scanning the memtable a sequence of operations leaves, of keys and values shorter than \<open>2 ^ 32\<close> bytes, visits every key written exactly once,
  in ascending order, with what was last written to it, and scanning backwards visits the same
  entries in reverse; the counters of entries and of tombstones are their numbers.
\<close>

theorem memtable_scan_correct:
  assumes "\<forall>x \<in> set ops. op_fits x"
  shows "\<exists>m es. mt_run SkiplistMemtable ops = Some m \<and> sorted_keys es \<and> map_of es = model_of ops
     \<and> fst (drain (\<lambda>c. sl_valid (snd c)) (\<lambda>c. sl_entry (fst c) (snd c))
          (\<lambda>c. mtc_with c (\<lambda>m it. Some (sl_next m it))) (length es + extra) (m, mt_ascending m)) = es
     \<and> mt_descending m \<noteq> None
     \<and> fst (drain (\<lambda>c. sl_valid (snd c)) (\<lambda>c. sl_entry (fst c) (snd c))
          (\<lambda>c. mtc_with c (\<lambda>m it. sl_prev m it)) (length es + extra) (m, the (mt_descending m))) = rev es
     \<and> mt_entries m = of_nat (card (dom (model_of ops)))
     \<and> mt_tombstones m = of_nat (card {k. \<exists>v. model_of ops k = Some (Delete, v)})"
proof -
  obtain m where m: "mt_run SkiplistMemtable ops = Some m" and "implements m ops" using mt_run_fresh [OF assms] by blast
  then obtain es ids where h: "holds_by m ids es" and es: "map_of es = model_of ops"
    by (auto simp: implements_def holds_def)
  have r: "memtable_rep (m, mt_ascending m) es 0"
    using h sl_seek_to_first_pos [OF h] by (auto simp: memtable_rep_def mt_ascending_def)
  have l: "memtable_rep (m, the (mt_descending m)) es (length es - 1)" and d: "mt_descending m \<noteq> None"
    using h sl_seek_to_last_pos [OF h] by (auto simp: memtable_rep_def mt_descending_def)
  have "mt_entries m = of_nat (length es)" "mt_tombstones m = of_nat (length (filter (\<lambda>(_, t, _). t = Delete) es))"
    using h by (simp_all add: holds_by_def)
  then have c: "mt_entries m = of_nat (card (dom (model_of ops)))"
    "mt_tombstones m = of_nat (card {k. \<exists>v. model_of ops k = Some (Delete, v)})"
    by (simp_all add: sorted_card [OF holds_by_sorted [OF h], unfolded es])
  show ?thesis
    using m es c d holds_by_sorted [OF h] memtable.drain_rep [OF r, of "length es + extra"]
      memtable.drain_back [OF l, of "length es + extra"]
    by (intro exI [of _ m] exI [of _ es]) simp
qed

section \<open>Witnesses\<close>

definition sample_ops :: "memtable_op list" where
  "sample_ops = [MPut [2] [20], MPut [1] [10], MDeleteRange [2] [3], MRemove [1], MPut [1] [11]]"

lemma sample_ops_fit: "\<forall>x \<in> set sample_ops. op_fits x"
  by (simp add: sample_ops_def)

theorem memtable_correct_witness:
  "\<exists>m. mt_run SkiplistMemtable sample_ops = Some m \<and> mt_get m [1] = Some (Some (Put, [11]))
     \<and> mt_get m [2] = Some (Some (Delete, [])) \<and> mt_range_deletes m [2, 7] \<and> \<not> mt_range_deletes m [3]"
proof -
  obtain m where "mt_run SkiplistMemtable sample_ops = Some m" "\<forall>k. mt_get m k = Some (model_of sample_ops k)"
    "\<forall>k. mt_range_deletes m k = range_deleted sample_ops k"
    using memtable_correct [OF sample_ops_fit] by blast
  then show ?thesis
    by (intro exI [of _ m]) (simp add: sample_ops_def model_of_def range_deleted_def)
qed

theorem memtable_scan_correct_witness:
  "\<exists>m es. mt_run SkiplistMemtable sample_ops = Some m \<and> sorted_keys es \<and> mt_entries m = 2 \<and> mt_tombstones m = 1
     \<and> fst (drain (\<lambda>c. sl_valid (snd c)) (\<lambda>c. sl_entry (fst c) (snd c))
          (\<lambda>c. mtc_with c (\<lambda>m it. Some (sl_next m it))) (length es) (m, mt_ascending m)) = es"
proof -
  have m: "model_of sample_ops = [[1] \<mapsto> (Put, [11]), [2] \<mapsto> (Delete, [])]"
    by (auto simp: sample_ops_def model_of_def fun_eq_iff)
  have "{k. \<exists>v. model_of sample_ops k = Some (Delete, v)} = {[2]}" by (auto simp: m split: if_splits)
  moreover have "card (dom (model_of sample_ops)) = 2" by (simp add: m)
  ultimately show ?thesis using memtable_scan_correct [OF sample_ops_fit, of 0] by auto
qed

end
