(* ===== verification/Sources.thy ===== *)
theory Sources
  imports Concat Memtable
begin

text \<open>
  The iterators a read is made of: over a memtable, over a table, over a level of tables, and the one
  of src/db/db\_impl.cpp that yields nothing but a status. Together they are one type of iterator, so
  that the merge takes any mixture of them.
\<close>

datatype 't source_iterator =
  Memtable_It memtable_cursor
| Table_It 't
| Level_It "'t concat_iterator"
| Error_It status

fun src_valid :: "'t internal_iterator \<Rightarrow> 't source_iterator \<Rightarrow> bool" where
  "src_valid T (Memtable_It c) = sl_valid (snd c)"
| "src_valid T (Table_It t) = ii_valid T t"
| "src_valid T (Level_It l) = cc_valid T l"
| "src_valid T (Error_It s) = False"

fun src_entry :: "'t internal_iterator \<Rightarrow> 't source_iterator \<Rightarrow> entry" where
  "src_entry T (Memtable_It c) = sl_entry (fst c) (snd c)"
| "src_entry T (Table_It t) = ii_entry T t"
| "src_entry T (Level_It l) = cc_entry T l"
| "src_entry T (Error_It s) = ([], Put, [])"

fun src_status :: "'t internal_iterator \<Rightarrow> 't source_iterator \<Rightarrow> status" where
  "src_status T (Memtable_It c) = Ok"
| "src_status T (Table_It t) = ii_status T t"
| "src_status T (Level_It l) = cc_status T l"
| "src_status T (Error_It s) = s"

text \<open>One operation of the interface, by the kind of iterator; the one with a status only ignores it.\<close>

fun src_map ::
    "(memtable_cursor \<Rightarrow> memtable_cursor) \<Rightarrow> ('t \<Rightarrow> 't) \<Rightarrow> ('t concat_iterator \<Rightarrow> 't concat_iterator) \<Rightarrow> 't source_iterator \<Rightarrow> 't source_iterator" where
  "src_map m t l (Memtable_It c) = Memtable_It (m c)"
| "src_map m t l (Table_It it) = Table_It (t it)"
| "src_map m t l (Level_It c) = Level_It (l c)"
| "src_map m t l (Error_It s) = Error_It s"

definition source_ops :: "'t internal_iterator \<Rightarrow> 't source_iterator internal_iterator" where
  "source_ops T =
     \<lparr> ii_valid = src_valid T, ii_entry = src_entry T, ii_status = src_status T,
       ii_seek_to_first = src_map (\<lambda>c. mtc_with c (\<lambda>m _. Some (sl_seek_to_first m))) (ii_seek_to_first T) (cc_seek_to_first T),
       ii_seek = (\<lambda>it t. src_map (\<lambda>c. mtc_with c (\<lambda>m _. sl_seek m t)) (\<lambda>it. ii_seek T it t) (\<lambda>c. cc_seek T c t) it),
       ii_next = src_map (\<lambda>c. mtc_with c (\<lambda>m it. Some (sl_next m it))) (ii_next T) (cc_next T),
       ii_seek_to_last = src_map (\<lambda>c. mtc_with c (\<lambda>m _. sl_seek_to_last m)) (ii_seek_to_last T) (cc_seek_to_last T),
       ii_seek_for_prev = (\<lambda>it t. src_map (\<lambda>c. mtc_with c (\<lambda>m _. sl_seek_for_prev m t)) (\<lambda>it. ii_seek_for_prev T it t)
                             (\<lambda>c. cc_seek_for_prev T c t) it),
       ii_prev = src_map (\<lambda>c. mtc_with c (\<lambda>m it. sl_prev m it)) (ii_prev T) (cc_prev T) \<rparr>"

fun source_rep :: "('t \<Rightarrow> entry list \<Rightarrow> nat \<Rightarrow> bool) \<Rightarrow> 't source_iterator \<Rightarrow> entry list \<Rightarrow> nat \<Rightarrow> bool" where
  "source_rep rep (Memtable_It c) es i = memtable_rep c es i"
| "source_rep rep (Table_It t) es i = rep t es i"
| "source_rep rep (Level_It l) es i = concat_rep rep l es i"
| "source_rep rep (Error_It s) es i = False"

context iterators
begin

lemma source_iterators: "iterators (source_ops I) (source_rep rep)"
proof unfold_locales
  fix it es i t
  assume r: "source_rep rep it es i"
  note laws = memtable.rep_sorted memtable.rep_bound memtable.rep_valid memtable.rep_entry memtable.rep_first memtable.rep_seek memtable.rep_next
    memtable.rep_last memtable.rep_seek_for_prev memtable.rep_prev
    rep_sorted rep_bound rep_valid rep_ok rep_entry rep_first rep_seek rep_next rep_last rep_seek_for_prev rep_prev
    concatenated.rep_sorted concatenated.rep_bound concatenated.rep_valid concatenated.rep_ok concatenated.rep_entry
    concatenated.rep_first concatenated.rep_seek concatenated.rep_next concatenated.rep_last concatenated.rep_seek_for_prev
    concatenated.rep_prev
  show "sorted_keys es" "i \<le> length es" "ii_valid (source_ops I) it = (i < length es)" "ii_status (source_ops I) it = Ok"
    "source_rep rep (ii_seek_to_first (source_ops I) it) es 0" "source_rep rep (ii_seek (source_ops I) it t) es (lower_pos es t)"
    "source_rep rep (ii_seek_to_last (source_ops I) it) es (length es - 1)"
    "source_rep rep (ii_seek_for_prev (source_ops I) it t) es (floor_pos es t)"
    using r laws by (cases it; simp add: source_ops_def)+
  assume lt: "i < length es"
  show "ii_entry (source_ops I) it = es ! i" "source_rep rep (ii_next (source_ops I) it) es (Suc i)"
    "source_rep rep (ii_prev (source_ops I) it) es (if i = 0 then length es else i - 1)"
    using r lt laws by (cases it; simp add: source_ops_def)+
qed

end

end
