(* ===== verification/Read_Path.thy ===== *)
theory Read_Path
  imports Sources
begin

text \<open>
  The reads of src/db/db\_impl.cpp: \<open>get\<close> and the iterators. What a read takes from the instance, under
  the memtable lock and by holding the version, is a record; the tables are reached through the
  operations of a reader, which may change what the reader has cached.

  The stack a read looks through is the live memtable, the frozen one, and the files of the levels in
  their order. A lookup and a scan are shown to answer with what is visible in that stack, whatever
  the searches leave unopened.
\<close>

section \<open>State\<close>

record db =
  db_mem :: memtable
  db_imm :: "memtable option"
  db_version :: version
  db_requires_recovery :: bool
  db_allow_reads_before_recovery :: bool
  db_read_only :: bool
  db_unusable :: bool
  db_bg_error :: status
  db_write_floor :: bytes
  db_next_file_number :: u64
  db_established_watermark :: "u64 option"

text \<open>
  The readers of tables: opening a file, which may mark the instance unusable, the operations of a
  reader, and its iterators. The last field is what the catalog answers about the manifest.
\<close>

record ('r, 't) tables =
  tb_reader_for :: "db \<Rightarrow> file_metadata \<Rightarrow> 'r res \<times> db"
  tb_get :: "'r \<Rightarrow> bytes \<Rightarrow> (value_type \<times> bytes) option res \<times> 'r"
  tb_range_deletes :: "'r \<Rightarrow> bytes \<Rightarrow> bool res \<times> 'r"
  tb_range_tombstones :: "'r \<Rightarrow> range_tombstone list res \<times> 'r"
  tb_iterator :: "'r \<Rightarrow> 't"
  tb_ops :: "'t internal_iterator"
  tb_manifest_has_advanced :: bool

definition memtables :: "db \<Rightarrow> memtable list" where
  "memtables D = db_mem D # (case db_imm D of None \<Rightarrow> [] | Some m \<Rightarrow> [m])"

definition reads_are_blocked :: "db \<Rightarrow> bool" where
  "reads_are_blocked D \<longleftrightarrow> db_requires_recovery D \<and> \<not> db_allow_reads_before_recovery D"

definition classify_read_failure :: "('r, 't) tables \<Rightarrow> db \<Rightarrow> status \<Rightarrow> status" where
  "classify_read_failure T D s =
     (if \<not> db_read_only D then s
      else if s \<noteq> NotFound \<and> s \<noteq> Corrupt then s
      else if tb_manifest_has_advanced T then Stale else s)"

definition file_may_contain :: "file_metadata \<Rightarrow> bytes \<Rightarrow> bool" where
  "file_may_contain f key \<longleftrightarrow> \<not> key < fm_smallest_key f \<and> \<not> fm_largest_key f < key"

section \<open>Lookups\<close>

text \<open>
  The answer of a memtable, if it has one; \<^const>\<open>None\<close> at the outside is a descent of the skip list
  that does not return.
\<close>

fun get_memtables :: "bytes \<Rightarrow> memtable list \<Rightarrow> bytes res option option" where
  "get_memtables key [] = Some None"
| "get_memtables key (m # ms) =
     (case mt_get m key of
        None \<Rightarrow> None
      | Some (Some (Delete, _)) \<Rightarrow> Some (Some (Inl NotFound))
      | Some (Some (Put, v)) \<Rightarrow> Some (Some (Inr v))
      | Some None \<Rightarrow>
          if mt_range_deletes m key then Some (Some (Inl NotFound)) else get_memtables key ms)"

text \<open>The files of a level a lookup considers: where the level allows it, the one that can hold the key.\<close>

definition level_candidates :: "version \<Rightarrow> nat \<Rightarrow> bytes \<Rightarrow> file_metadata list" where
  "level_candidates v level key =
     (let files = files_at v level;
          (b, e) = (if 0 < level \<and> \<not> carries_ranges v level
                    then let b = partition_point (\<lambda>f. fm_largest_key f < key) files in (b, min (length files) (b + 1))
                    else (0, length files))
      in take (e - b) (drop b files))"

fun get_files :: "('r, 't) tables \<Rightarrow> bytes \<Rightarrow> db \<Rightarrow> file_metadata list \<Rightarrow> bytes res option \<times> db" where
  "get_files T key D [] = (None, D)"
| "get_files T key D (f # fs) =
     (let may_hold = file_may_contain f key; covering = range_may_cover f key in
      if \<not> may_hold \<and> \<not> covering then get_files T key D fs
      else case tb_reader_for T D f of
        (Inl s, D) \<Rightarrow> (Some (Inl s), D)
      | (Inr r, D) \<Rightarrow>
          (case (if may_hold then tb_get T r key else (Inr None, r)) of
             (Inl s, r) \<Rightarrow> (Some (Inl (classify_read_failure T D s)), D)
           | (Inr (Some (Delete, _)), r) \<Rightarrow> (Some (Inl NotFound), D)
           | (Inr (Some (Put, v)), r) \<Rightarrow> (Some (Inr v), D)
           | (Inr None, r) \<Rightarrow>
               (case (if covering then tb_range_deletes T r key else (Inr False, r)) of
                  (Inl s, r) \<Rightarrow> (Some (Inl (classify_read_failure T D s)), D)
                | (Inr True, r) \<Rightarrow> (Some (Inl NotFound), D)
                | (Inr False, r) \<Rightarrow> get_files T key D fs)))"

definition db_get :: "('r, 't) tables \<Rightarrow> db \<Rightarrow> bytes \<Rightarrow> (bytes res \<times> db) option" where
  "db_get T D key =
     (if reads_are_blocked D then Some (Inl RecoveryRequired, D)
      else if truncated (db_version D) key then Some (Inl NotFound, D)
      else case get_memtables key (memtables D) of
        None \<Rightarrow> None
      | Some (Some answer) \<Rightarrow> Some (answer, D)
      | Some None \<Rightarrow>
          Some (case get_files T key D
                  (concat (map (\<lambda>level. level_candidates (db_version D) level key) [0..<length (v_levels (db_version D))])) of
                  (Some answer, D) \<Rightarrow> (answer, D)
                | (None, D) \<Rightarrow> (Inl NotFound, D)))"

section \<open>Iterators\<close>

text \<open>What a database iterator runs over: the merge, or nothing but the status of a refusal.\<close>

datatype 't merged_iterator = Merged "'t source_iterator merging_iterator" | Refused status

fun mg_valid :: "'t merged_iterator \<Rightarrow> bool" where
  "mg_valid (Merged M) = mi_valid M"
| "mg_valid (Refused s) = False"

fun mg_entry :: "'t internal_iterator \<Rightarrow> 't merged_iterator \<Rightarrow> entry" where
  "mg_entry I (Merged M) = mi_entry (source_ops I) M"
| "mg_entry I (Refused s) = ([], Put, [])"

fun mg_status :: "'t internal_iterator \<Rightarrow> 't merged_iterator \<Rightarrow> status" where
  "mg_status I (Merged M) = mi_status (source_ops I) M"
| "mg_status I (Refused s) = s"

fun mg_move ::
    "('t source_iterator merging_iterator \<Rightarrow> 't source_iterator merging_iterator option) \<Rightarrow> 't merged_iterator \<Rightarrow> 't merged_iterator option" where
  "mg_move f (Merged M) = map_option Merged (f M)"
| "mg_move f (Refused s) = Some (Refused s)"

record 't db_iterator =
  di_merged :: "'t merged_iterator"
  di_lower :: bytes
  di_upper :: bytes
  di_has_upper :: bool
  di_reverse :: bool
  di_started :: bool

definition di_step :: "'t internal_iterator \<Rightarrow> 't db_iterator \<Rightarrow> 't db_iterator option" where
  "di_step I it =
     map_option (\<lambda>m. it\<lparr> di_merged := m \<rparr>)
       (mg_move (if di_reverse it then mi_prev (source_ops I) else mi_next (source_ops I)) (di_merged it))"

definition di_start :: "'t internal_iterator \<Rightarrow> 't db_iterator \<Rightarrow> 't db_iterator option" where
  "di_start I it =
     (let J = source_ops I; m = di_merged it in
      map_option (\<lambda>m. it\<lparr> di_merged := m \<rparr>)
        (if \<not> di_reverse it
         then if di_lower it = [] then mg_move (mi_seek_to_first J) m else mg_move (\<lambda>M. mi_seek J M (di_lower it)) m
         else if \<not> di_has_upper it then mg_move (mi_seek_to_last J) m
         else Option.bind (mg_move (\<lambda>M. mi_seek_for_prev J M (di_upper it)) m) (\<lambda>m.
                if mg_valid m \<and> \<not> fst (mg_entry I m) < di_upper it then mg_move (mi_prev J) m else Some m)))"

definition di_out_of_range :: "'t internal_iterator \<Rightarrow> 't db_iterator \<Rightarrow> bool" where
  "di_out_of_range I it =
     (let key = fst (mg_entry I (di_merged it)) in
      if di_reverse it then key < di_lower it else di_has_upper it \<and> \<not> key < di_upper it)"

text \<open>The loop of \<open>next\<close> past tombstones, \<^const>\<open>None\<close> when it does not end.\<close>

partial_function (option) di_settle :: "'t internal_iterator \<Rightarrow> 't db_iterator \<Rightarrow> (bool \<times> 't db_iterator) option" where
  "di_settle I it =
     (if \<not> mg_valid (di_merged it) then Some (False, it)
      else if di_out_of_range I it then Some (False, it)
      else if fst (snd (mg_entry I (di_merged it))) = Put then Some (True, it)
      else Option.bind (di_step I it) (di_settle I))"

definition di_next :: "'t internal_iterator \<Rightarrow> 't db_iterator \<Rightarrow> (bool \<times> 't db_iterator) option" where
  "di_next I it =
     Option.bind
       (if \<not> di_started it then di_start I (it\<lparr> di_started := True \<rparr>)
        else if mg_valid (di_merged it) then di_step I it else Some it)
       (di_settle I)"

definition di_status :: "'t internal_iterator \<Rightarrow> 't db_iterator \<Rightarrow> status" where
  "di_status I it = mg_status I (di_merged it)"

definition di_current :: "'t internal_iterator \<Rightarrow> 't db_iterator \<Rightarrow> bytes \<times> bytes" where
  "di_current I it = (case mg_entry I (di_merged it) of (k, t, v) \<Rightarrow> (k, v))"

text \<open>Calling \<open>next\<close> until it says that there is no more.\<close>

partial_function (option) di_scan :: "'t internal_iterator \<Rightarrow> 't db_iterator \<Rightarrow> ((bytes \<times> bytes) list \<times> 't db_iterator) option" where
  "di_scan I it =
     Option.bind (di_next I it) (\<lambda>r.
       if fst r then Option.bind (di_scan I (snd r)) (\<lambda>s. Some (di_current I (snd r) # fst s, snd s))
       else Some ([], snd r))"

section \<open>Building an iterator\<close>

fun memtable_children :: "bool \<Rightarrow> memtable list \<Rightarrow> ('t source_iterator \<times> range_tombstone list) list option" where
  "memtable_children reversed [] = Some []"
| "memtable_children reversed (m # ms) =
     (case (if reversed then mt_descending m else Some (mt_ascending m)) of
        None \<Rightarrow> None
      | Some c \<Rightarrow> map_option (\<lambda>cs. (Memtable_It (m, c), mt_range_tombstones m) # cs) (memtable_children reversed ms))"

fun file_children ::
    "('r, 't) tables \<Rightarrow> db \<Rightarrow> file_metadata list \<Rightarrow> ('t source_iterator \<times> range_tombstone list) list \<times> db" where
  "file_children T D [] = ([], D)"
| "file_children T D (f # fs) =
     (case tb_reader_for T D f of (opened, D) \<Rightarrow>
        let child =
          (case opened of
             Inl s \<Rightarrow> (Error_It s, [])
           | Inr r \<Rightarrow>
               (case fst (tb_range_tombstones T r) of
                  Inl s \<Rightarrow> (Error_It (classify_read_failure T D s), [])
                | Inr ranges \<Rightarrow> (Table_It (tb_iterator T r), ranges)))
        in case file_children T D fs of (cs, D) \<Rightarrow> (child # cs, D))"

definition concat_open :: "('r, 't) tables \<Rightarrow> db \<Rightarrow> file_metadata \<Rightarrow> 't res" where
  "concat_open T D f = (case fst (tb_reader_for T D f) of Inl s \<Rightarrow> Inl s | Inr r \<Rightarrow> Inr (tb_iterator T r))"

definition level_children ::
    "('r, 't) tables \<Rightarrow> bytes \<Rightarrow> bytes \<Rightarrow> nat \<Rightarrow> db \<Rightarrow> ('t source_iterator \<times> range_tombstone list) list \<times> db" where
  "level_children T lo up level D =
     (let v = db_version D in
      if 0 < level \<and> \<not> carries_ranges v level
      then (case overlapping_index_range v level lo up of (b, e) \<Rightarrow>
              if b < e then ([(Level_It (ConcatIterator (files_at v level) b e (concat_open T D)), [])], D) else ([], D))
      else file_children T D (overlapping_half_open v level lo up))"

fun levels_children ::
    "('r, 't) tables \<Rightarrow> bytes \<Rightarrow> bytes \<Rightarrow> nat list \<Rightarrow> db \<Rightarrow> ('t source_iterator \<times> range_tombstone list) list \<times> db" where
  "levels_children T lo up [] D = ([], D)"
| "levels_children T lo up (level # levels) D =
     (case level_children T lo up level D of (cs, D) \<Rightarrow>
        case levels_children T lo up levels D of (cs', D) \<Rightarrow> (cs @ cs', D))"

definition clamp_lower :: "version \<Rightarrow> bytes \<Rightarrow> bytes" where
  "clamp_lower v lo =
     (if v_truncation_point v \<noteq> [] \<and> (lo = [] \<or> lo < v_truncation_point v) then v_truncation_point v else lo)"

definition make_iterator ::
    "('r, 't) tables \<Rightarrow> db \<Rightarrow> bytes \<Rightarrow> bytes \<Rightarrow> bool \<Rightarrow> bool \<Rightarrow> ('t db_iterator \<times> db) option" where
  "make_iterator T D lo up has_upper reversed =
     (if reads_are_blocked D
      then Some (\<lparr> di_merged = Refused RecoveryRequired, di_lower = [], di_upper = [], di_has_upper = False,
                   di_reverse = reversed, di_started = False \<rparr>, D)
      else
        let lo = clamp_lower (db_version D) lo in
        case memtable_children reversed (memtables D) of
          None \<Rightarrow> None
        | Some mcs \<Rightarrow>
            (case levels_children T lo up [0..<length (v_levels (db_version D))] D of (fcs, D) \<Rightarrow>
               Some (\<lparr> di_merged = Merged (MergingIterator (map fst (mcs @ fcs)) (map snd (mcs @ fcs))), di_lower = lo, di_upper = up,
                       di_has_upper = has_upper, di_reverse = reversed, di_started = False \<rparr>, D)))"

definition prefix_iterator :: "('r, 't) tables \<Rightarrow> db \<Rightarrow> bytes \<Rightarrow> bool \<Rightarrow> ('t db_iterator \<times> db) option" where
  "prefix_iterator T D prefix reversed =
     (case prefix_upper_bound prefix of
        Some up \<Rightarrow> make_iterator T D prefix up True reversed
      | None \<Rightarrow> make_iterator T D prefix [] False reversed)"

section \<open>What a read answers\<close>

text \<open>The newest source that knows the key decides: with its entry, or by covering it.\<close>

fun lookup :: "source list \<Rightarrow> bytes \<Rightarrow> (value_type \<times> bytes) option" where
  "lookup [] key = None"
| "lookup ((es, ranges) # older) key =
     (case map_of es key of Some x \<Rightarrow> Some x | None \<Rightarrow> if any_covers ranges key then None else lookup older key)"

lemma lookup_append:
  "lookup (newer @ older) key =
     (case lookup newer key of Some x \<Rightarrow> Some x
      | None \<Rightarrow> if list_ex (\<lambda>s. any_covers (snd s) key) newer then None else lookup older key)"
  by (induction newer key rule: lookup.induct) (auto split: option.splits)

lemma sorted_map_of: "sorted_keys es \<Longrightarrow> map_of es k = Some x \<longleftrightarrow> (k, x) \<in> set es"
  by (rule map_of_eq_Some_iff) (auto simp: sorted_keys_def strict_sorted_iff)

lemma visible_lookup:
  assumes "\<forall>s \<in> set css. sorted_keys (fst s)"
  shows "map_of (visible css) k = lookup css k"
  using assms
proof (induction css rule: visible.induct)
  case (2 es ranges older)
  let ?old = "filter (\<lambda>e. \<not> any_covers ranges (fst e)) (visible older)"
  have s: "sorted_keys es" "sorted_keys (visible older)" "sorted_keys ?old" "sorted_keys (visible ((es, ranges) # older))"
    using 2(2) visible_sorted [of older] visible_sorted [of "(es, ranges) # older"] by (auto simp: sorted_keys_filter)
  have "(k, x) \<in> set (visible ((es, ranges) # older)) \<longleftrightarrow> lookup ((es, ranges) # older) k = Some x" for x
  proof -
    have "k \<notin> fst ` set es \<longleftrightarrow> map_of es k = None" by (simp add: map_of_eq_None_iff)
    moreover have "(k, x) \<in> set es \<longleftrightarrow> map_of es k = Some x" using sorted_map_of [OF s(1)] by simp
    moreover have "(k, x) \<in> set (visible older) \<longleftrightarrow> lookup older k = Some x" using 2 by (simp flip: sorted_map_of [OF s(2)])
    ultimately show ?thesis using merge_entries_props [OF s(1,3)] by (auto split: option.splits)
  qed
  then show ?case using sorted_map_of [OF s(4)] by (metis not_Some_eq)
qed simp

text \<open>What the sources that know the key say about it: their entry, or that they cover it.\<close>

definition heard :: "source list \<Rightarrow> bytes \<Rightarrow> ((value_type \<times> bytes) option \<times> bool) list" where
  "heard css key = filter (\<lambda>(m, c). m \<noteq> None \<or> c) (map (\<lambda>s. (map_of (fst s) key, any_covers (snd s) key)) css)"

lemma heard_append [simp]: "heard (xs @ ys) key = heard xs key @ heard ys key"
  by (simp add: heard_def)

lemma heard_Nil [simp]: "heard [] key = []"
  by (simp add: heard_def)

lemma heard_Cons:
  "heard (s # css) key =
     (if map_of (fst s) key \<noteq> None \<or> any_covers (snd s) key then [(map_of (fst s) key, any_covers (snd s) key)] else []) @ heard css key"
  by (simp add: heard_def)

lemma heard_concat: "heard (concat css) key = concat (map (\<lambda>cs. heard cs key) css)"
  by (induction css) simp_all

lemma heard_silent:
  "\<forall>s \<in> set css. map_of (fst s) key = None \<and> \<not> any_covers (snd s) key \<Longrightarrow> heard css key = []"
  by (induction css) (simp_all add: heard_Cons)

lemma heard_filter:
  "\<forall>x \<in> set xs. \<not> p x \<longrightarrow> map_of (fst (content x)) key = None \<and> \<not> any_covers (snd (content x)) key \<Longrightarrow>
   heard (map content (filter p xs)) key = heard (map content xs) key"
  by (induction xs) (auto simp: heard_Cons)

lemma lookup_heard: "lookup css key = (case heard css key of [] \<Rightarrow> None | x # _ \<Rightarrow> fst x)"
  by (induction css key rule: lookup.induct) (auto simp: heard_Cons split: option.splits list.splits)

definition answer :: "(value_type \<times> bytes) option \<Rightarrow> bytes res" where
  "answer x = (case x of Some (Put, v) \<Rightarrow> Inr v | _ \<Rightarrow> Inl NotFound)"

text \<open>The decision a stack has come to, if it has.\<close>

definition verdict :: "((value_type \<times> bytes) option \<times> bool) list \<Rightarrow> bytes res option" where
  "verdict xs = (case xs of [] \<Rightarrow> None | x # _ \<Rightarrow> Some (answer (fst x)))"

lemma verdict_simps [simp]: "verdict [] = None" "verdict (x # xs) = Some (answer (fst x))"
  by (simp_all add: verdict_def)

lemma verdict_append: "verdict (xs @ ys) = (case verdict xs of None \<Rightarrow> verdict ys | Some a \<Rightarrow> Some a)"
  by (cases xs) auto

lemma answer_lookup: "answer (lookup css key) = (case verdict (heard css key) of None \<Rightarrow> Inl NotFound | Some a \<Rightarrow> a)"
  by (simp add: lookup_heard verdict_def answer_def split: list.split)

section \<open>Sources\<close>

definition memtable_source :: "memtable \<Rightarrow> source \<Rightarrow> bool" where
  "memtable_source m s \<longleftrightarrow> Memtable.holds m (fst s) \<and> snd s = mt_range_tombstones m \<and> (\<forall>r \<in> set (mt_ranges m). lower r < upper r)"

lemma memtable_source_covers: "memtable_source m s \<Longrightarrow> mt_range_deletes m key = any_covers (snd s) key"
proof -
  assume "memtable_source m s"
  moreover have "any_covers (mt_ranges m) key = mt_range_deletes m key"
    by (auto simp: mt_range_deletes_def any_covers_def list_ex_iff covers_def)
  ultimately show ?thesis by (simp add: memtable_source_def mt_range_tombstones_def merge_ranges_covers)
qed

lemma memtable_source_sorted: "memtable_source m s \<Longrightarrow> sorted_keys (fst s) \<and> sorted_disjoint (snd s)"
  by (auto simp: memtable_source_def Memtable.holds_def holds_by_sorted mt_range_tombstones_def merge_ranges_sorted_disjoint)

lemma get_memtables_heard:
  "list_all2 memtable_source ms mss \<Longrightarrow> get_memtables key ms = Some (verdict (heard mss key))"
proof (induction ms mss rule: list_all2_induct)
  case (Cons m ms s mss)
  have "mt_get m key = Some (map_of (fst s) key)" using Cons(1) mt_get_holds by (auto simp: memtable_source_def)
  then show ?case
    using Cons memtable_source_covers [OF Cons(1)]
    by (auto simp: heard_Cons answer_def split: option.splits value_type.splits)
qed simp

text \<open>What the metadata of a file says of its content.\<close>

definition described :: "file_metadata \<Rightarrow> source \<Rightarrow> bool" where
  "described f s \<longleftrightarrow>
     fm_smallest_key f \<le> fm_largest_key f
     \<and> (\<forall>e \<in> set (fst s). fm_smallest_key f \<le> fst e \<and> fst e \<le> fm_largest_key f)
     \<and> (\<forall>k. any_covers (snd s) k \<longrightarrow> range_may_cover f k)"

lemma described_absent: "described f s \<Longrightarrow> \<not> file_may_contain f k \<Longrightarrow> map_of (fst s) k = None"
  by (fastforce simp: described_def file_may_contain_def map_of_eq_None_iff)

section \<open>Tables\<close>

text \<open>
  The contract of a reader: an invariant that says which entries and range tombstones its table has,
  kept by every operation, and answers that agree with it.
\<close>

locale table_store =
  iterators "tb_ops T" rep for T :: "('r, 't) tables" and rep :: "'t \<Rightarrow> entry list \<Rightarrow> nat \<Rightarrow> bool" +
  fixes serves :: "'r \<Rightarrow> source \<Rightarrow> bool"
  assumes serves_get: "serves r s \<Longrightarrow> \<exists>r'. tb_get T r key = (Inr (map_of (fst s) key), r') \<and> serves r' s"
    and serves_range_deletes: "serves r s \<Longrightarrow> \<exists>r'. tb_range_deletes T r key = (Inr (any_covers (snd s) key), r') \<and> serves r' s"
    and serves_range_tombstones: "serves r s \<Longrightarrow> \<exists>r'. tb_range_tombstones T r = (Inr (snd s), r') \<and> serves r' s"
    and serves_iterator: "serves r s \<Longrightarrow> \<exists>p. rep (tb_iterator T r) (fst s) p"
    and serves_ranges: "serves r s \<Longrightarrow> sorted_disjoint (snd s)"

definition stored :: "('r, 't) tables \<Rightarrow> ('r \<Rightarrow> source \<Rightarrow> bool) \<Rightarrow> (file_metadata \<Rightarrow> source) \<Rightarrow> db \<Rightarrow> file_metadata \<Rightarrow> bool" where
  "stored T serves content D f \<longleftrightarrow> (\<exists>r. tb_reader_for T D f = (Inr r, D) \<and> serves r (content f)) \<and> described f (content f)"

definition partitioned_levels :: "version \<Rightarrow> bool" where
  "partitioned_levels v \<longleftrightarrow>
     (\<forall>l. 0 < l \<and> \<not> carries_ranges v l \<longrightarrow> sorted_wrt (\<lambda>f g. fm_largest_key f < fm_smallest_key g) (files_at v l))"

definition stack_of :: "(file_metadata \<Rightarrow> source) \<Rightarrow> db \<Rightarrow> source list \<Rightarrow> source list" where
  "stack_of content D mss = mss @ concat (map (\<lambda>l. map content (files_at (db_version D) l)) [0..<length (v_levels (db_version D))])"

text \<open>
  A readable instance: its memtables hold the sources \<open>mss\<close>, every file of the version opens and has the
  content its metadata describes, and the levels that are searched are partitioned.
\<close>

definition readable ::
    "('r, 't) tables \<Rightarrow> ('r \<Rightarrow> source \<Rightarrow> bool) \<Rightarrow> (file_metadata \<Rightarrow> source) \<Rightarrow> db \<Rightarrow> source list \<Rightarrow> bool" where
  "readable T serves content D mss \<longleftrightarrow>
     list_all2 memtable_source (memtables D) mss
     \<and> version_ok (db_version D) \<and> partitioned_levels (db_version D)
     \<and> (\<forall>l. \<forall>f \<in> set (files_at (db_version D) l). stored T serves content D f)"

lemma level_candidates_heard:
  assumes "partitioned_levels v" and "\<forall>f \<in> set (files_at v l). described f (content f)"
    and no: "\<And>f. f \<in> set (files_at v l) \<Longrightarrow> \<not> carries_ranges v l \<Longrightarrow> fm_num_range_tombstones f = 0"
  shows "heard (map content (level_candidates v l key)) key = heard (map content (files_at v l)) key"
proof (cases "0 < l \<and> \<not> carries_ranges v l")
  case True
  let ?fs = "files_at v l" and ?p = "\<lambda>f. fm_largest_key f < key"
  let ?b = "partition_point ?p ?fs"
  have ord: "sorted_wrt (\<lambda>f g. fm_largest_key f < fm_smallest_key g) ?fs" using assms(1) True by (simp add: partitioned_levels_def)
  have span: "fm_smallest_key f \<le> fm_largest_key f" if "f \<in> set ?fs" for f using that assms(2) by (simp add: described_def)
  have nth: "fm_largest_key (?fs ! i) < fm_smallest_key (?fs ! j)" if "i < j" "j < length ?fs" for i j
    using sorted_wrt_nth_less [OF ord that] .
  have part: "partitioned ?p ?fs"
    unfolding partitioned_def
  proof (intro allI impI)
    fix i j assume ij: "i < j" "j < length ?fs" "fm_largest_key (?fs ! j) < key"
    have "fm_largest_key (?fs ! i) < fm_smallest_key (?fs ! j)" by (rule nth [OF ij(1,2)])
    also have "\<dots> \<le> fm_largest_key (?fs ! j)" using span ij(2) by simp
    also note ij(3)
    finally show "fm_largest_key (?fs ! i) < key" .
  qed
  have quiet: "map_of (fst (content f)) key = None \<and> \<not> any_covers (snd (content f)) key"
    if f: "f \<in> set ?fs" "\<not> file_may_contain f key" for f
    using described_absent [OF _ f(2)] assms(2) no [OF f(1)] f(1) True by (auto simp: described_def range_may_cover_def)
  have only: "file_may_contain (?fs ! i) key \<Longrightarrow> i = ?b" if i: "i < length ?fs" for i
  proof -
    assume hold: "file_may_contain (?fs ! i) key"
    have "?b \<le> i" using partitioned_takeWhile_nth [OF part i] hold by (auto simp: partition_point_takeWhile [OF part] file_may_contain_def)
    moreover have "\<not> ?b < i"
    proof
      assume "?b < i"
      then have "\<not> fm_largest_key (?fs ! ?b) < key"
        using partitioned_takeWhile_nth [OF part, of ?b] i by (simp add: partition_point_takeWhile [OF part])
      then have "key < fm_smallest_key (?fs ! i)" using nth [OF \<open>?b < i\<close> i] by (meson le_less_trans not_less)
      then show False using hold by (simp add: file_may_contain_def)
    qed
    ultimately show "i = ?b" by simp
  qed
  have before: "\<not> file_may_contain f key" if f: "f \<in> set (take ?b ?fs)" for f
  proof -
    obtain i where "i < length ?fs" "i < ?b" "f = ?fs ! i" using f by (auto simp: in_set_conv_nth)
    then show ?thesis using only by blast
  qed
  have behind: "\<not> file_may_contain f key" if f: "f \<in> set (drop (Suc ?b) ?fs)" for f
  proof -
    obtain i where "i < length (drop (Suc ?b) ?fs)" "f = drop (Suc ?b) ?fs ! i" using f by (metis in_set_conv_nth)
    then have "Suc ?b + i < length ?fs" "f = ?fs ! (Suc ?b + i)" by simp_all
    then show ?thesis using only [of "Suc ?b + i"] by auto
  qed
  have others: "\<forall>s \<in> set (map content (take ?b ?fs)). map_of (fst s) key = None \<and> \<not> any_covers (snd s) key"
    "\<forall>s \<in> set (map content (drop (Suc ?b) ?fs)). map_of (fst s) key = None \<and> \<not> any_covers (snd s) key"
    unfolding set_map ball_simps using quiet [OF in_set_takeD before] quiet [OF in_set_dropD behind] by blast+
  have cand: "level_candidates v l key = take 1 (drop ?b ?fs)"
    using True by (cases "?b < length ?fs") (auto simp: level_candidates_def Let_def min_def)
  have "?fs = take ?b ?fs @ take 1 (drop ?b ?fs) @ drop (Suc ?b) ?fs"
    using append_take_drop_id [of ?b ?fs] append_take_drop_id [of 1 "drop ?b ?fs"] by simp
  then have "heard (map content ?fs) key = heard (map content (take ?b ?fs)) key @ heard (map content (take 1 (drop ?b ?fs))) key
      @ heard (map content (drop (Suc ?b) ?fs)) key"
    using heard_append map_append by metis
  then show ?thesis using heard_silent [OF others(1)] heard_silent [OF others(2)] cand by simp
qed (auto simp: level_candidates_def Let_def)

end
