(* ===== verification/Reads.thy ===== *)
theory Reads
  imports Read_Path
begin

text \<open>
  The reads of the instance answer with what is visible: the lookup, and the iterators in either
  direction, from the contract of the readers of tables.
\<close>

section \<open>Lookups\<close>

lemma no_ranges:
  assumes "version_ok v" and "f \<in> set (files_at v l)" and "\<not> carries_ranges v l"
  shows "fm_num_range_tombstones f = 0"
proof -
  have l: "l < length (v_levels v)" "f \<in> set (v_levels v ! l)" using assms(2) by (auto simp: files_at_def split: if_splits)
  then have "\<not> list_ex (\<lambda>f. fm_num_range_tombstones f \<noteq> 0) (v_levels v ! l)"
    using assms(1,3) by (simp add: version_ok_def carries_ranges_def)
  then show ?thesis using l by (simp add: list_ex_iff)
qed

context table_store
begin

lemma get_files_heard:
  assumes "\<forall>f \<in> set fs. stored T serves content D f"
  shows "get_files T key D fs = (verdict (heard (map content fs) key), D)"
  using assms
proof (induction fs)
  case (Cons f fs)
  then have ih: "get_files T key D fs = (verdict (heard (map content fs) key), D)" by simp
  obtain r where open_f: "tb_reader_for T D f = (Inr r, D)" and r: "serves r (content f)" and d: "described f (content f)"
    using Cons.prems by (auto simp: stored_def)
  have cover: "any_covers (snd (content f)) key \<Longrightarrow> range_may_cover f key" using d by (simp add: described_def)
  obtain r' where get: "tb_get T r key = (Inr (map_of (fst (content f)) key), r')" and r': "serves r' (content f)"
    using serves_get [OF r] by blast
  obtain r2 where del: "tb_range_deletes T r key = (Inr (any_covers (snd (content f)) key), r2)"
    using serves_range_deletes [OF r] by blast
  obtain r3 where del': "tb_range_deletes T r' key = (Inr (any_covers (snd (content f)) key), r3)"
    using serves_range_deletes [OF r'] by blast
  show ?case
  proof (cases "file_may_contain f key")
    case True
    then show ?thesis using open_f get del' cover ih
      by (cases "map_of (fst (content f)) key")
         (auto simp: Let_def heard_Cons answer_def split: value_type.splits bool.splits)
  next
    case False
    then have "map_of (fst (content f)) key = None" using described_absent [OF d] by simp
    then show ?thesis using False open_f del cover ih by (auto simp: Let_def heard_Cons answer_def split: bool.splits)
  qed
qed simp

lemma db_get_readable:
  assumes "readable T serves content D mss" and "\<not> reads_are_blocked D"
  shows "db_get T D key =
    Some (if truncated (db_version D) key then Inl NotFound else answer (lookup (stack_of content D mss) key), D)"
proof -
  let ?v = "db_version D"
  let ?levels = "[0..<length (v_levels ?v)]"
  have files: "\<forall>l. \<forall>f \<in> set (files_at ?v l). stored T serves content D f" using assms(1) by (simp add: readable_def)
  have sub: "set (level_candidates ?v l key) \<subseteq> set (files_at ?v l)" for l
    by (auto simp: level_candidates_def Let_def split: if_splits dest!: in_set_takeD in_set_dropD)
  have level: "heard (map content (level_candidates ?v l key)) key = heard (map content (files_at ?v l)) key" for l
    using assms(1) files no_ranges [of ?v _ l] by (intro level_candidates_heard) (auto simp: readable_def stored_def)
  let ?fs = "concat (map (\<lambda>l. level_candidates ?v l key) ?levels)"
  have "get_files T key D ?fs = (verdict (heard (map content ?fs) key), D)"
    using files sub by (intro get_files_heard) fastforce
  moreover have "heard (map content ?fs) key = heard (concat (map (\<lambda>l. map content (files_at ?v l)) ?levels)) key"
    by (simp add: map_concat heard_concat comp_def level)
  moreover have "get_memtables key (memtables D) = Some (verdict (heard mss key))"
    using assms(1) by (intro get_memtables_heard) (simp add: readable_def)
  ultimately show ?thesis
    using assms(2) by (simp add: db_get_def answer_lookup stack_of_def verdict_append split: option.splits)
qed

end

section \<open>Scans\<close>

text \<open>The puts of a list of entries, and those between the bounds in the order of the scan.\<close>

definition puts :: "entry list \<Rightarrow> (bytes \<times> bytes) list" where
  "puts es = map (\<lambda>(k, t, v). (k, v)) (filter (\<lambda>(k, t, v). t = Put) es)"

definition in_range :: "bytes \<Rightarrow> bytes \<Rightarrow> bool \<Rightarrow> bytes \<Rightarrow> bool" where
  "in_range lo up has_upper key \<longleftrightarrow> lo \<le> key \<and> (has_upper \<longrightarrow> key < up)"

definition scan_of :: "entry list \<Rightarrow> bytes \<Rightarrow> bytes \<Rightarrow> bool \<Rightarrow> bool \<Rightarrow> (bytes \<times> bytes) list" where
  "scan_of es lo up has_upper reversed =
     (let found = puts (filter (\<lambda>e. in_range lo up has_upper (fst e)) es) in if reversed then rev found else found)"

lemma sorted_takeWhile_filter:
  assumes "sorted_keys es" and "\<And>a b. a < b \<Longrightarrow> P b \<Longrightarrow> P a"
  shows "takeWhile (\<lambda>e. P (fst e)) es = filter (\<lambda>e. P (fst e)) es"
    and "dropWhile (\<lambda>e. P (fst e)) es = filter (\<lambda>e. \<not> P (fst e)) es"
proof -
  have "takeWhile (\<lambda>e. P (fst e)) es = filter (\<lambda>e. P (fst e)) es \<and> dropWhile (\<lambda>e. P (fst e)) es = filter (\<lambda>e. \<not> P (fst e)) es"
    using assms(1)
  proof (induction es)
    case (Cons e es)
    have "\<not> P (fst x)" if "x \<in> set es" "\<not> P (fst e)" for x
      using that Cons.prems assms(2) by (auto simp: sorted_keys_Cons)
    then show ?case using Cons by (auto simp: sorted_keys_Cons filter_empty_conv intro: filter_True [symmetric])
  qed simp
  then show "takeWhile (\<lambda>e. P (fst e)) es = filter (\<lambda>e. P (fst e)) es"
    and "dropWhile (\<lambda>e. P (fst e)) es = filter (\<lambda>e. \<not> P (fst e)) es" by simp_all
qed

lemma sorted_takeWhile_rev:
  assumes "sorted_keys es" and "\<And>a b. a < b \<Longrightarrow> P a \<Longrightarrow> P b"
  shows "takeWhile (\<lambda>e. P (fst e)) (rev es) = rev (filter (\<lambda>e. P (fst e)) es)"
  using assms(1)
proof (induction es)
  case (Cons e es)
  have all: "P (fst x)" if "x \<in> set es" "P (fst e)" for x
    using that Cons.prems assms(2) by (auto simp: sorted_keys_Cons)
  have ih: "takeWhile (\<lambda>e. P (fst e)) (rev es) = rev (filter (\<lambda>e. P (fst e)) es)"
    using Cons by (simp add: sorted_keys_Cons)
  show ?case
  proof (cases "P (fst e)")
    case True
    then have "filter (\<lambda>e. P (fst e)) es = es" using all by (intro filter_True) blast
    then show ?thesis using True all by (simp add: takeWhile_append2)
  next
    case False
    then have "takeWhile (\<lambda>e. P (fst e)) (rev es @ [e]) = takeWhile (\<lambda>e. P (fst e)) (rev es)"
      by (simp add: takeWhile_append) (simp add: takeWhile_eq_all_conv [THEN iffD2])
    then show ?thesis using False ih by simp
  qed
qed simp

definition stands ::
    "('t \<Rightarrow> entry list \<Rightarrow> nat \<Rightarrow> bool) \<Rightarrow> 't internal_iterator \<Rightarrow> bool \<Rightarrow> 't merged_iterator \<Rightarrow> entry list \<Rightarrow> bool" where
  "stands rep I reversed m xs \<longleftrightarrow>
     (\<exists>M es i. m = Merged M \<and>
       (if reversed then merging_backward (source_rep rep) (source_ops I) M es i \<and> xs = (if i < length es then rev (take (Suc i) es) else [])
        else merging_forward (source_rep rep) (source_ops I) M es i \<and> xs = drop i es))"

lemma back_list: "(if back_pos es P < length es then rev (take (Suc (back_pos es P)) es) else []) = rev (takeWhile (\<lambda>e. P (fst e)) es)"
proof -
  let ?n = "length (takeWhile (\<lambda>e. P (fst e)) es)"
  have "take ?n es = takeWhile (\<lambda>e. P (fst e)) es" by (rule takeWhile_eq_take [symmetric])
  moreover have "?n \<le> length es" by (rule length_takeWhile_le)
  ultimately show ?thesis by (auto simp: back_pos_def Let_def Suc_le_lessD)
qed

context iterators
begin

lemma stands_moves:
  assumes "stands rep I reversed m xs"
  shows "mg_valid m \<longleftrightarrow> xs \<noteq> []" and "mg_status I m = Ok"
    and "xs = e # ys \<Longrightarrow> mg_entry I m = e
      \<and> (\<exists>m'. mg_move (if reversed then mi_prev (source_ops I) else mi_next (source_ops I)) m = Some m' \<and> stands rep I reversed m' ys)"
proof -
  obtain M es i where m: "m = Merged M"
    and r: "if reversed then merging_backward (source_rep rep) (source_ops I) M es i \<and> xs = (if i < length es then rev (take (Suc i) es) else [])
        else merging_forward (source_rep rep) (source_ops I) M es i \<and> xs = drop i es"
    using assms by (auto simp: stands_def)
  note fwd = iterators.merging_forward_step [OF source_iterators] and bwd = iterators.merging_backward_step [OF source_iterators]
  have "\<exists>css. merge_ready (source_rep rep) css M"
    using r fwd(4) [of M es i] bwd(4) [of M es i] by (cases reversed) auto
  then show "mg_status I m = Ok" using iterators.ready_status [OF source_iterators] by (auto simp: m)
  show "mg_valid m \<longleftrightarrow> xs \<noteq> []" using r fwd(3) [of M es i] bwd(3) [of M es i] by (cases reversed) (auto simp: m)
  assume xs: "xs = e # ys"
  show "mg_entry I m = e
      \<and> (\<exists>m'. mg_move (if reversed then mi_prev (source_ops I) else mi_next (source_ops I)) m = Some m' \<and> stands rep I reversed m' ys)"
  proof (cases reversed)
    case False
    then have f: "merging_forward (source_rep rep) (source_ops I) M es i" "drop i es = e # ys" using r xs by simp_all
    then have i: "i < length es" by (metis drop_eq_Nil leI list.distinct(1))
    then have e: "e = es ! i" "ys = drop (Suc i) es" using f(2) by (simp_all add: Cons_nth_drop_Suc [symmetric])
    obtain M' where "mi_next (source_ops I) M = Some M'" "merging_forward (source_rep rep) (source_ops I) M' es (Suc i)"
      using fwd(6) [OF f(1) i] by blast
    then show ?thesis using False fwd(5) [OF f(1) i] e by (auto simp: m stands_def)
  next
    case True
    then have b: "merging_backward (source_rep rep) (source_ops I) M es i" and i: "i < length es" and l: "rev (take (Suc i) es) = e # ys"
      using r xs by (simp_all split: if_splits)
    have e: "e = es ! i" "ys = rev (take i es)" using l i by (simp_all add: take_Suc_conv_app_nth)
    let ?j = "if i = 0 then length es else i - 1"
    obtain M' where M': "mi_prev (source_ops I) M = Some M'" "merging_backward (source_rep rep) (source_ops I) M' es ?j"
      using bwd(6) [OF b i] by blast
    have "ys = (if ?j < length es then rev (take (Suc ?j) es) else [])" using e(2) i by (cases i) auto
    then have "stands rep I True (Merged M') ys"
      unfolding stands_def using M'(2) by (intro exI [of _ M'] exI [of _ es] exI [of _ ?j]) simp
    then show ?thesis using True bwd(5) [OF b i] e(1) M'(1) by (simp add: m)
  qed
qed

end

definition within :: "'t db_iterator \<Rightarrow> bytes \<Rightarrow> bool" where
  "within it key \<longleftrightarrow> (if di_reverse it then \<not> key < di_lower it else \<not> (di_has_upper it \<and> \<not> key < di_upper it))"

lemma puts_Cons: "puts ((k, t, v) # es) = (if t = Put then (k, v) # puts es else puts es)"
  by (simp add: puts_def)

context iterators
begin

lemma scan_settled:
  assumes "stands rep I (di_reverse it) (di_merged it) xs" and "di_started it"
  shows "\<exists>it'. Option.bind (di_settle I it) (\<lambda>r.
       if fst r then Option.bind (di_scan I (snd r)) (\<lambda>s. Some (di_current I (snd r) # fst s, snd s))
       else Some ([], snd r)) = Some (puts (takeWhile (\<lambda>e. within it (fst e)) xs), it') \<and> di_status I it' = Ok"
  using assms
proof (induction xs arbitrary: it)
  case Nil
  then show ?case using stands_moves [OF Nil.prems(1)] by (simp add: di_settle.simps puts_def di_status_def)
next
  case (Cons e xs)
  note st = stands_moves [OF Cons.prems(1)]
  have v: "mg_valid (di_merged it)" and ok: "di_status I it = Ok" and e: "mg_entry I (di_merged it) = e"
    using st(1,2) st(3) [OF refl] by (simp_all add: di_status_def)
  obtain k t x where e3: "e = (k, t, x)" by (cases e)
  obtain m' where m': "mg_move (if di_reverse it then mi_prev (source_ops I) else mi_next (source_ops I)) (di_merged it) = Some m'"
    "stands rep I (di_reverse it) m' xs"
    using st(3) [OF refl] by blast
  define it1 where "it1 = it\<lparr> di_merged := m' \<rparr>"
  have step: "di_step I it = Some it1" by (simp add: di_step_def m'(1) it1_def)
  have w: "within it1 = within it" by (rule ext) (simp add: within_def it1_def)
  obtain it' where ih: "Option.bind (di_settle I it1) (\<lambda>r.
       if fst r then Option.bind (di_scan I (snd r)) (\<lambda>s. Some (di_current I (snd r) # fst s, snd s))
       else Some ([], snd r)) = Some (puts (takeWhile (\<lambda>e. within it (fst e)) xs), it')" "di_status I it' = Ok"
    using Cons.IH [of it1] m'(2) Cons.prems(2) by (auto simp: it1_def [symmetric] w) (auto simp: it1_def)
  have out: "di_out_of_range I it \<longleftrightarrow> \<not> within it k" by (simp add: di_out_of_range_def Let_def e e3 within_def)
  show ?case
  proof (cases "within it k")
    case False
    then show ?thesis using v out ok by (simp add: di_settle.simps e3 puts_def)
  next
    case True
    show ?thesis
    proof (cases "t = Put")
      case True
      have "di_settle I it = Some (True, it)" using v out \<open>within it k\<close> True e e3 by (simp add: di_settle.simps)
      moreover have "di_scan I it = Some (puts (takeWhile (\<lambda>e. within it (fst e)) xs), it')"
        by (subst di_scan.simps) (use v Cons.prems(2) step ih(1) in \<open>simp add: di_next_def\<close>)
      ultimately show ?thesis using True \<open>within it k\<close> ih(2) by (simp add: e3 puts_Cons di_current_def e)
    next
      case False
      then have "di_settle I it = di_settle I it1" using v out \<open>within it k\<close> step e e3 by (subst di_settle.simps) simp
      then show ?thesis using False \<open>within it k\<close> ih by (simp add: e3 puts_Cons)
    qed
  qed
qed

lemma start_forward:
  assumes "merge_ready (source_rep rep) css M" and "di_merged it = Merged M" and "\<not> di_reverse it"
  shows "\<exists>m. di_start I it = Some (it\<lparr> di_merged := m \<rparr>)
    \<and> stands rep I False m (filter (\<lambda>e. di_lower it \<le> fst e) (visible css)) \<and> sorted_keys (visible css)"
proof -
  let ?es = "visible css"
  note seeks = iterators.merging_seeks [OF source_iterators assms(1)] and steps = iterators.merging_forward_step [OF source_iterators]
  have "\<exists>m. di_start I it = Some (it\<lparr> di_merged := Merged m \<rparr>)
      \<and> merging_forward (source_rep rep) (source_ops I) m ?es (cut_pos ?es (\<lambda>k. di_lower it \<le> k))"
  proof (cases "di_lower it = []")
    case True
    moreover have "cut_pos ?es (\<lambda>k. di_lower it \<le> k) = 0" using positions(1) [of ?es] by (simp add: True)
    ultimately show ?thesis using seeks(1) assms(2,3) by (auto simp: di_start_def)
  next
    case False
    then show ?thesis using seeks(2) [of "di_lower it"] assms(2,3) by (auto simp: di_start_def positions)
  qed
  then obtain m where m: "di_start I it = Some (it\<lparr> di_merged := Merged m \<rparr>)"
    "merging_forward (source_rep rep) (source_ops I) m ?es (cut_pos ?es (\<lambda>k. di_lower it \<le> k))" by blast
  have s: "sorted_keys ?es" by (rule steps(1) [OF m(2)])
  have "drop (cut_pos ?es (\<lambda>k. di_lower it \<le> k)) ?es = dropWhile (\<lambda>e. \<not> di_lower it \<le> fst e) ?es"
    by (simp add: cut_pos_def dropWhile_eq_drop)
  also have "\<dots> = filter (\<lambda>e. di_lower it \<le> fst e) ?es"
    using sorted_takeWhile_filter(2) [OF s, of "\<lambda>k. \<not> di_lower it \<le> k"] by (simp add: not_le not_less)
  finally have "stands rep I False (Merged m) (filter (\<lambda>e. di_lower it \<le> fst e) ?es)"
    using m(2) unfolding stands_def
    by (intro exI [of _ m] exI [of _ ?es] exI [of _ "cut_pos ?es (\<lambda>k. di_lower it \<le> k)"]) simp
  then show ?thesis using m(1) s by blast
qed

lemma start_backward:
  assumes "merge_ready (source_rep rep) css M" and "di_merged it = Merged M" and "di_reverse it"
  shows "\<exists>m. di_start I it = Some (it\<lparr> di_merged := m \<rparr>)
    \<and> stands rep I True m (rev (filter (\<lambda>e. di_has_upper it \<longrightarrow> fst e < di_upper it) (visible css))) \<and> sorted_keys (visible css)"
proof -
  let ?es = "visible css"
  note seeks = iterators.merging_seeks [OF source_iterators assms(1)] and steps = iterators.merging_backward_step [OF source_iterators]
  have at: "stands rep I True (Merged m) (rev (takeWhile (\<lambda>e. P (fst e)) ?es))"
    if "merging_backward (source_rep rep) (source_ops I) m ?es (back_pos ?es P)" for m P
    unfolding stands_def back_list [symmetric] using that by auto
  show ?thesis
  proof (cases "di_has_upper it")
    case False
    obtain m where m: "mi_seek_to_last (source_ops I) M = Some m" "merging_backward (source_rep rep) (source_ops I) m ?es (length ?es - 1)"
      using seeks(3) by blast
    have "stands rep I True (Merged m) (rev ?es)"
      using at [of m "\<lambda>_. True"] m(2) by (simp add: positions takeWhile_eq_all_conv [THEN iffD2])
    then show ?thesis using m steps(1) [OF m(2)] assms(2,3) False by (auto simp: di_start_def)
  next
    case True
    obtain m where m: "mi_seek_for_prev (source_ops I) M (di_upper it) = Some m"
      "merging_backward (source_rep rep) (source_ops I) m ?es (floor_pos ?es (di_upper it))"
      using seeks(4) by blast
    have s: "sorted_keys ?es" by (rule steps(1) [OF m(2)])
    let ?le = "filter (\<lambda>e. fst e \<le> di_upper it) ?es" and ?lt = "filter (\<lambda>e. fst e < di_upper it) ?es"
    have st: "stands rep I True (Merged m) (rev ?le)"
      using at [of m "\<lambda>k. k \<le> di_upper it"] m(2) sorted_takeWhile_filter(1) [OF s, of "\<lambda>k. k \<le> di_upper it"]
      by (auto simp: positions)
    have "\<exists>m'. (if mg_valid (Merged m) \<and> \<not> fst (mg_entry I (Merged m)) < di_upper it then mg_move (mi_prev (source_ops I)) (Merged m) else Some (Merged m)) = Some m'
        \<and> stands rep I True m' (rev ?lt)"
    proof (cases "\<exists>e \<in> set ?es. fst e = di_upper it")
      case False
      then have "?le = ?lt" by (intro filter_cong) (auto simp: le_less)
      moreover have "\<not> (mg_valid (Merged m) \<and> \<not> fst (mg_entry I (Merged m)) < di_upper it)"
      proof (cases "rev ?lt")
        case (Cons e ys)
        then have "e \<in> set ?lt" by (metis list.set_intros(1) set_rev)
        then show ?thesis using stands_moves(3) [OF st, of e ys] Cons \<open>?le = ?lt\<close> by simp
      qed (use stands_moves(1) [OF st] \<open>?le = ?lt\<close> in simp)
      ultimately show ?thesis using st by auto
    next
      case True
      then obtain e where e: "e \<in> set ?es" "fst e = di_upper it" by blast
      have "?le = ?lt @ [e]"
      proof -
        obtain xs ys where xy: "?es = xs @ e # ys" using e(1) by (meson split_list)
        have "\<forall>x \<in> set xs. fst x < di_upper it" "\<forall>y \<in> set ys. di_upper it < fst y"
          using s e(2) by (auto simp: xy sorted_keys_append sorted_keys_Cons)
        then have "filter (\<lambda>e. fst e \<le> di_upper it) xs = xs" "filter (\<lambda>e. fst e < di_upper it) xs = xs"
          "filter (\<lambda>e. fst e \<le> di_upper it) ys = []" "filter (\<lambda>e. fst e < di_upper it) ys = []"
          by (auto simp: filter_empty_conv filter_id_conv)
        then show ?thesis using e(2) by (simp add: xy)
      qed
      then have l: "rev ?le = e # rev ?lt" by simp
      have "mg_valid (Merged m)" "mg_entry I (Merged m) = e"
        using stands_moves(1,3) [OF st] l by auto
      then show ?thesis using stands_moves(3) [OF st l] e(2) by auto
    qed
    then show ?thesis using True assms(2,3) m(1) s by (auto simp: di_start_def)
  qed
qed

lemma scan_ready:
  assumes "merge_ready (source_rep rep) css M" and "di_merged it = Merged M" and "\<not> di_started it"
  shows "\<exists>it'. di_scan I it = Some (scan_of (visible css) (di_lower it) (di_upper it) (di_has_upper it) (di_reverse it), it')
    \<and> di_status I it' = Ok"
proof -
  define it0 where "it0 = it\<lparr> di_started := True \<rparr>"
  let ?es = "visible css"
  let ?xs = "if di_reverse it then rev (filter (\<lambda>e. di_has_upper it \<longrightarrow> fst e < di_upper it) ?es) else filter (\<lambda>e. di_lower it \<le> fst e) ?es"
  have "\<exists>m. di_start I it0 = Some (it0\<lparr> di_merged := m \<rparr>) \<and> stands rep I (di_reverse it) m ?xs \<and> sorted_keys ?es"
    using start_forward [OF assms(1), of it0] start_backward [OF assms(1), of it0] assms(2) by (simp add: it0_def)
  then obtain m where m: "di_start I it0 = Some (it0\<lparr> di_merged := m \<rparr>)" "stands rep I (di_reverse it) m ?xs" and s: "sorted_keys ?es" by blast
  have w: "within (it0\<lparr> di_merged := m \<rparr>) = within it" by (rule ext) (simp add: within_def it0_def)
  have "puts (takeWhile (\<lambda>e. within it (fst e)) ?xs) = scan_of ?es (di_lower it) (di_upper it) (di_has_upper it) (di_reverse it)"
  proof (cases "di_reverse it")
    case False
    have "takeWhile (\<lambda>e. within it (fst e)) ?xs = filter (\<lambda>e. within it (fst e)) ?xs"
      using False sorted_keys_filter [OF s] by (intro sorted_takeWhile_filter) (auto simp: within_def)
    then show ?thesis using False by (simp add: scan_of_def within_def in_range_def Let_def conj_commute)
  next
    case True
    have "takeWhile (\<lambda>e. within it (fst e)) ?xs = rev (filter (\<lambda>e. within it (fst e)) (filter (\<lambda>e. di_has_upper it \<longrightarrow> fst e < di_upper it) ?es))"
      using True sorted_takeWhile_rev [OF sorted_keys_filter [OF s], of "within it"] by (simp add: within_def)
    then show ?thesis using True by (simp add: scan_of_def within_def in_range_def Let_def puts_def rev_map rev_filter [symmetric] not_less conj_commute)
  qed
  moreover have "di_scan I it = Option.bind (di_settle I (it0\<lparr> di_merged := m \<rparr>)) (\<lambda>r.
       if fst r then Option.bind (di_scan I (snd r)) (\<lambda>s. Some (di_current I (snd r) # fst s, snd s)) else Some ([], snd r))"
    by (subst di_scan.simps) (use assms(3) m(1) in \<open>simp add: di_next_def it0_def [symmetric]\<close>)
  moreover have "stands rep I (di_reverse (it0\<lparr> di_merged := m \<rparr>)) (di_merged (it0\<lparr> di_merged := m \<rparr>)) ?xs"
    "di_started (it0\<lparr> di_merged := m \<rparr>)" using m(2) by (simp_all add: it0_def)
  note scan_settled [OF this, unfolded w]
  ultimately show ?thesis by simp
qed

end

section \<open>The children of an iterator\<close>

definition child_ok :: "('t \<Rightarrow> entry list \<Rightarrow> nat \<Rightarrow> bool) \<Rightarrow> 't source_iterator \<times> range_tombstone list \<Rightarrow> source \<Rightarrow> bool" where
  "child_ok rep c s \<longleftrightarrow> (\<exists>p. source_rep rep (fst c) (fst s) p) \<and> snd c = snd s \<and> sorted_disjoint (snd s)"

lemma list_all2_right: "list_all2 P xs ys \<Longrightarrow> (\<And>x y. P x y \<Longrightarrow> Q y) \<Longrightarrow> \<forall>y \<in> set ys. Q y"
  by (induction xs ys rule: list_all2_induct) auto

lemma children_split:
  "list_all2 (child_ok rep) cs css \<Longrightarrow>
   list_all2 (\<lambda>c s. \<exists>p. source_rep rep c (fst s) p) (map fst cs) css \<and> map snd css = map snd cs
     \<and> (\<forall>rs \<in> set (map snd cs). sorted_disjoint rs)"
  by (induction cs css rule: list_all2_induct) (auto simp: child_ok_def)

lemma memtable_children_ok:
  "list_all2 memtable_source ms mss \<Longrightarrow> \<exists>cs. memtable_children reversed ms = Some cs \<and> list_all2 (child_ok rep) cs mss"
proof (induction ms mss rule: list_all2_induct)
  case (Cons m ms s mss)
  obtain ids where h: "holds_by m ids (fst s)" using Cons(1) by (auto simp: memtable_source_def Memtable.holds_def)
  have "memtable_rep (m, mt_ascending m) (fst s) 0"
    using h sl_seek_to_first_pos [OF h] by (auto simp: memtable_rep_def mt_ascending_def)
  moreover have "\<exists>c. mt_descending m = Some c \<and> memtable_rep (m, c) (fst s) (length (fst s) - 1)"
    using h sl_seek_to_last_pos [OF h] by (auto simp: memtable_rep_def mt_descending_def)
  ultimately obtain c p where c: "(if reversed then mt_descending m else Some (mt_ascending m)) = Some c" "memtable_rep (m, c) (fst s) p"
    by (cases reversed) auto
  have "child_ok rep (Memtable_It (m, c), mt_range_tombstones m) s"
    using Cons(1) c(2) memtable_source_sorted [OF Cons(1)] by (auto simp: child_ok_def memtable_source_def)
  then show ?case using Cons c(1) by auto
qed simp

lemma described_uncovered: "described f s \<Longrightarrow> fm_num_range_tombstones f = 0 \<Longrightarrow> \<not> any_covers (snd s) k"
  by (auto simp: described_def range_may_cover_def)

text \<open>Files whose spans do not meet say as much together as one source with all their entries.\<close>

lemma heard_level:
  assumes "sorted_wrt (\<lambda>f g. fm_largest_key f < fm_smallest_key g) fs"
    and "\<forall>f \<in> set fs. described f (content f) \<and> fm_num_range_tombstones f = 0"
  shows "heard [(concat (map (\<lambda>f. fst (content f)) fs), [])] key = heard (map content fs) key"
  using assms
proof (induction fs)
  case (Cons f fs)
  have d: "described f (content f)" "fm_num_range_tombstones f = 0" using Cons.prems by auto
  then have nc: "\<not> any_covers (snd (content f)) key" by (rule described_uncovered)
  have ih: "heard [(concat (map (\<lambda>f. fst (content f)) fs), [])] key = heard (map content fs) key" using Cons by simp
  show ?case
  proof (cases "map_of (fst (content f)) key")
    case None
    then have "map_of (concat (map (\<lambda>f. fst (content f)) (f # fs))) key = map_of (concat (map (\<lambda>f. fst (content f)) fs)) key"
      by (simp add: map_add_def)
    then show ?thesis using None nc ih by (auto simp: heard_Cons split: if_splits)
  next
    case (Some x)
    then have "fst (key, x) \<le> fm_largest_key f" using d(1) map_of_SomeD [OF Some] by (fastforce simp: described_def)
    then have "\<not> file_may_contain g key" if "g \<in> set fs" for g
      using Cons.prems(1) that by (fastforce simp: file_may_contain_def)
    then have "map_of (fst (content g)) key = None \<and> \<not> any_covers (snd (content g)) key" if "g \<in> set fs" for g
      using that described_absent [of g "content g"] described_uncovered [of g "content g"] Cons.prems(2) by simp
    then have "heard (map content fs) key = []" by (intro heard_silent) auto
    then show ?thesis using Some nc by (simp add: heard_Cons)
  qed
qed (simp add: heard_def)

lemma pruned_heard:
  assumes "\<forall>f \<in> set (files_at v l). described f (content f)" and "lo \<le> key" and "up \<noteq> [] \<longrightarrow> key < up"
  shows "heard (map content (overlapping_half_open v l lo up)) key = heard (map content (files_at v l)) key"
  unfolding overlapping_half_open_def
proof (rule heard_filter, intro ballI impI)
  fix f assume f: "f \<in> set (files_at v l)" "\<not> overlaps_half_open lo up f"
  have d: "described f (content f)" using assms(1) f(1) by blast
  have "\<not> file_may_contain f key \<and> \<not> range_may_cover f key"
    using f(2) assms(2,3) unfolding overlaps_half_open_def file_may_contain_def range_may_cover_def
    by (auto simp: not_le not_less dest: order_less_le_trans order_le_less_trans)
  then show "map_of (fst (content f)) key = None \<and> \<not> any_covers (snd (content f)) key"
    using described_absent [OF d] d by (auto simp: described_def)
qed

lemma partitioned_spans_ordered:
  assumes "sorted_wrt (\<lambda>f g. fm_largest_key f < fm_smallest_key g) fs" and "\<forall>f \<in> set fs. fm_smallest_key f \<le> fm_largest_key f"
  shows "spans_ordered fs"
  using assms
proof (induction fs)
  case (Cons f fs)
  have "fm_smallest_key f \<le> fm_smallest_key g \<and> fm_largest_key f \<le> fm_largest_key g" if "g \<in> set fs" for g
    using Cons.prems that by (fastforce intro: order_trans less_imp_le)
  then show ?case using Cons by (simp add: spans_ordered_def)
qed (simp add: spans_ordered_def)

context table_store
begin

lemma file_children_ok:
  "\<forall>f \<in> set fs. stored T serves content D f \<Longrightarrow>
   \<exists>cs. file_children T D fs = (cs, D) \<and> list_all2 (child_ok rep) cs (map content fs)"
proof (induction fs)
  case (Cons f fs)
  then obtain cs where cs: "file_children T D fs = (cs, D)" "list_all2 (child_ok rep) cs (map content fs)" by auto
  obtain r where r: "tb_reader_for T D f = (Inr r, D)" "serves r (content f)" using Cons.prems by (auto simp: stored_def)
  obtain r' where "tb_range_tombstones T r = (Inr (snd (content f)), r')" using serves_range_tombstones [OF r(2)] by blast
  moreover have "child_ok rep (Table_It (tb_iterator T r), snd (content f)) (content f)"
    using serves_iterator [OF r(2)] serves_ranges [OF r(2)] by (auto simp: child_ok_def)
  ultimately show ?case using cs r(1) by (simp add: Let_def)
qed simp

lemma level_child_rep:
  assumes files: "\<forall>f \<in> set (files_at v l). stored T serves content D f"
    and ord: "sorted_wrt (\<lambda>f g. fm_largest_key f < fm_smallest_key g) (files_at v l)"
    and w: "take (e - b) (drop b (files_at v l)) = fs" and be: "b < e" "e \<le> length (files_at v l)"
  shows "child_ok rep (Level_It (ConcatIterator (files_at v l) b e (concat_open T D)), []) (concat (map (\<lambda>f. fst (content f)) fs), [])"
proof -
  let ?C = "ConcatIterator (files_at v l) b e (concat_open T D)"
  have win: "cc_window ?C = fs" by (simp add: ConcatIterator_def cc_window_def w)
  have sub: "f \<in> set (files_at v l)" if "f \<in> set fs" for f using that unfolding w [symmetric] by (meson in_set_dropD in_set_takeD)
  have "(\<exists>it p. concat_open T D f = Inr it \<and> rep it ((\<lambda>f. fst (content f)) f) p)
      \<and> (\<forall>e \<in> set ((\<lambda>f. fst (content f)) f). fm_smallest_key f \<le> fst e \<and> fst e \<le> fm_largest_key f) \<and> fm_smallest_key f \<le> fm_largest_key f"
    if f: "f \<in> set fs" for f
  proof -
    obtain r where r: "tb_reader_for T D f = (Inr r, D)" "serves r (content f)" "described f (content f)"
      using files sub [OF f] by (auto simp: stored_def)
    then show ?thesis using serves_iterator [OF r(2)] by (auto simp: concat_open_def described_def)
  qed
  moreover have "sorted_wrt (\<lambda>f g. fm_largest_key f < fm_smallest_key g) fs"
    using ord unfolding w [symmetric] by (intro sorted_wrt_take sorted_wrt_drop)
  ultimately have "level_ready rep (\<lambda>f. fst (content f)) ?C"
    using be unfolding level_ready_def win by (simp add: ConcatIterator_def)
  then have "concat_rep rep ?C (concat (map (\<lambda>f. fst (content f)) fs)) (length (concat (map (\<lambda>f. fst (content f)) fs)))"
    unfolding concat_rep_def using win by (intro exI [of _ "\<lambda>f. fst (content f)"]) (simp add: ConcatIterator_def)
  then show ?thesis by (auto simp: child_ok_def)
qed

lemma level_children_ok:
  assumes D: "readable T serves content D mss"
  shows "\<exists>cs css. level_children T lo up l D = (cs, D) \<and> list_all2 (child_ok rep) cs css
    \<and> (\<forall>key. lo \<le> key \<and> (up \<noteq> [] \<longrightarrow> key < up) \<longrightarrow> heard css key = heard (map content (files_at (db_version D) l)) key)"
proof -
  let ?v = "db_version D"
  let ?fs = "overlapping_half_open ?v l lo up"
  have files: "\<forall>f \<in> set (files_at ?v l). stored T serves content D f" using D by (simp add: readable_def)
  then have desc: "\<forall>f \<in> set (files_at ?v l). described f (content f)" by (simp add: stored_def)
  have sub: "f \<in> set ?fs \<Longrightarrow> f \<in> set (files_at ?v l)" for f by (simp add: overlapping_half_open_def)
  show ?thesis
  proof (cases "0 < l \<and> \<not> carries_ranges ?v l")
    case False
    obtain cs where "file_children T D ?fs = (cs, D)" "list_all2 (child_ok rep) cs (map content ?fs)"
      using files sub file_children_ok [of ?fs content D] by blast
    then show ?thesis
      using False pruned_heard [OF desc, of lo _ up]
      by (intro exI [of _ cs] exI [of _ "map content ?fs"]) (auto simp: level_children_def Let_def)
  next
    case True
    have ord: "sorted_wrt (\<lambda>f g. fm_largest_key f < fm_smallest_key g) (files_at ?v l)"
      using D True by (simp add: readable_def partitioned_levels_def)
    have none: "\<forall>f \<in> set (files_at ?v l). fm_num_range_tombstones f = 0"
      using no_ranges D True by (auto simp: readable_def)
    obtain b e where be: "overlapping_index_range ?v l lo up = (b, e)" by fastforce
    have w: "take (e - b) (drop b (files_at ?v l)) = ?fs"
      using overlapping_index_range_filter [OF partitioned_spans_ordered [OF ord] none, of lo up] desc be by (simp add: described_def)
    have len: "e \<le> length (files_at ?v l)" if "b < e"
    proof (cases "up = []")
      case False
      let ?n = "partition_point (\<lambda>f. fm_smallest_key f < up) (drop b (files_at ?v l))"
      have "e = b + ?n" using be False by (auto simp: overlapping_index_range_def Let_def)
      moreover have "spans_ordered (files_at ?v l)" using partitioned_spans_ordered [OF ord] desc by (simp add: described_def)
      then have "?n \<le> length (files_at ?v l) - b"
        using partition_point_le [OF partitioned_drop [OF partitioned_spans(2)], of "files_at ?v l" up b] by simp
      ultimately show ?thesis using that by simp
    qed (use be in \<open>auto simp: overlapping_index_range_def Let_def\<close>)
    show ?thesis
    proof (cases "b < e")
      case lt: True
      have "sorted_wrt (\<lambda>f g. fm_largest_key f < fm_smallest_key g) ?fs"
        using ord unfolding w [symmetric] by (intro sorted_wrt_take sorted_wrt_drop)
      then have "heard [(concat (map (\<lambda>f. fst (content f)) ?fs), [])] key = heard (map content ?fs) key" for key
        using desc none sub by (intro heard_level) blast+
      then show ?thesis
        using True lt be level_child_rep [OF files ord w lt len [OF lt]] pruned_heard [OF desc]
        by (intro exI [of _ "[(Level_It (ConcatIterator (files_at ?v l) b e (concat_open T D)), [])]"]
            exI [of _ "[(concat (map (\<lambda>f. fst (content f)) ?fs), [])]"]) (simp add: level_children_def Let_def)
    next
      case False
      then have "?fs = []" using w by simp
      then show ?thesis using True False be pruned_heard [OF desc, of lo _ up]
        by (intro exI [of _ "[]"]) (simp add: level_children_def Let_def)
    qed
  qed
qed

lemma levels_children_ok:
  assumes D: "readable T serves content D mss"
  shows "\<exists>cs css. levels_children T lo up ls D = (cs, D) \<and> list_all2 (child_ok rep) cs css
    \<and> (\<forall>key. lo \<le> key \<and> (up \<noteq> [] \<longrightarrow> key < up) \<longrightarrow>
         heard css key = heard (concat (map (\<lambda>l. map content (files_at (db_version D) l)) ls)) key)"
proof (induction ls)
  case (Cons l ls)
  then obtain cs css where ih: "levels_children T lo up ls D = (cs, D)" "list_all2 (child_ok rep) cs css"
    "\<forall>key. lo \<le> key \<and> (up \<noteq> [] \<longrightarrow> key < up) \<longrightarrow> heard css key = heard (concat (map (\<lambda>l. map content (files_at (db_version D) l)) ls)) key"
    by blast
  obtain cs1 css1 where l: "level_children T lo up l D = (cs1, D)" "list_all2 (child_ok rep) cs1 css1"
    "\<forall>key. lo \<le> key \<and> (up \<noteq> [] \<longrightarrow> key < up) \<longrightarrow> heard css1 key = heard (map content (files_at (db_version D) l)) key"
    using level_children_ok [OF D] by blast
  have "list_all2 (child_ok rep) (cs1 @ cs) (css1 @ css)" using l(2) ih(2) by (rule list_all2_appendI)
  then show ?case using ih l by (intro exI [of _ "cs1 @ cs"] exI [of _ "css1 @ css"]) simp
qed simp

end

section \<open>The reads\<close>

lemma scan_of_cong:
  assumes "\<forall>s \<in> set css. sorted_keys (fst s)" and "\<forall>s \<in> set css'. sorted_keys (fst s)"
    and "\<And>key. in_range lo up hu key \<Longrightarrow> heard css key = heard css' key"
  shows "scan_of (visible css) lo up hu reversed = scan_of (visible css') lo up hu reversed"
proof -
  let ?f = "filter (\<lambda>e. in_range lo up hu (fst e))"
  have s: "sorted_keys (visible css)" "sorted_keys (visible css')" by (rule visible_sorted, fact)+
  have "(k, x) \<in> set (visible css) \<longleftrightarrow> (k, x) \<in> set (visible css')" if "in_range lo up hu k" for k x
    unfolding sorted_map_of [OF s(1), symmetric] sorted_map_of [OF s(2), symmetric] visible_lookup [OF assms(1)] visible_lookup [OF assms(2)]
    using assms(3) [OF that] by (simp add: lookup_heard)
  then have "set (?f (visible css)) = set (?f (visible css'))" by auto
  moreover have "sorted_keys (?f (visible css))" "sorted_keys (?f (visible css'))" using s by (simp_all add: sorted_keys_filter)
  ultimately have "?f (visible css) = ?f (visible css')"
    by (intro map_sorted_distinct_set_unique [where f = fst])
       (auto simp: sorted_keys_def strict_sorted_iff inj_on_def dest: sorted_keys_unique [OF s(2)])
  then show ?thesis by (simp add: scan_of_def)
qed

context table_store
begin

lemma stack_sorted:
  assumes "readable T serves content D mss"
  shows "\<forall>s \<in> set (stack_of content D mss). sorted_keys (fst s)"
proof -
  have "\<forall>s \<in> set mss. sorted_keys (fst s)"
    using assms memtable_source_sorted unfolding readable_def by (elim conjE list_all2_right) blast
  moreover have "sorted_keys (fst (content f))" if "f \<in> set (files_at (db_version D) l)" for f l
    using assms that serves_iterator rep_sorted unfolding readable_def stored_def by metis
  ultimately show ?thesis by (auto simp: stack_of_def)
qed

lemma iterator_readable:
  assumes D: "readable T serves content D mss" and "\<not> reads_are_blocked D" and hu: "hu \<or> up = []"
  shows "\<exists>it it'. make_iterator T D lo up hu reversed = Some (it, D)
    \<and> di_scan (tb_ops T) it = Some (scan_of (visible (stack_of content D mss)) (clamp_lower (db_version D) lo) up hu reversed, it')
    \<and> di_status (tb_ops T) it' = Ok"
proof -
  let ?v = "db_version D"
  let ?lo = "clamp_lower ?v lo"
  obtain mcs where m: "memtable_children reversed (memtables D) = Some mcs" "list_all2 (child_ok rep) mcs mss"
    using memtable_children_ok D unfolding readable_def by blast
  obtain fcs css where f: "levels_children T ?lo up [0..<length (v_levels ?v)] D = (fcs, D)" "list_all2 (child_ok rep) fcs css"
    "\<forall>key. ?lo \<le> key \<and> (up \<noteq> [] \<longrightarrow> key < up) \<longrightarrow>
         heard css key = heard (concat (map (\<lambda>l. map content (files_at ?v l)) [0..<length (v_levels ?v)])) key"
    using levels_children_ok [OF D] by blast
  let ?cs = "mcs @ fcs" and ?css = "mss @ css"
  have ok: "list_all2 (child_ok rep) ?cs ?css" using m(2) f(2) by (rule list_all2_appendI)
  then have reps: "list_all2 (\<lambda>c s. \<exists>p. source_rep rep c (fst s) p) (map fst ?cs) ?css" "map snd ?css = map snd ?cs"
    "\<forall>rs \<in> set (map snd ?cs). sorted_disjoint rs"
    using children_split by blast+
  let ?M = "MergingIterator (map fst ?cs) (map snd ?cs)"
  have ready: "merge_ready (source_rep rep) ?css ?M"
    by (rule MergingIterator_ready [where n = 0]) (use reps in auto)
  define it where "it = \<lparr> di_merged = Merged ?M, di_lower = ?lo, di_upper = up, di_has_upper = hu, di_reverse = reversed, di_started = False \<rparr>"
  have make: "make_iterator T D lo up hu reversed = Some (it, D)"
    using assms(2) m(1) f(1) by (simp add: make_iterator_def Let_def it_def)
  obtain it' where "di_scan (tb_ops T) it = Some (scan_of (visible ?css) ?lo up hu reversed, it')" "di_status (tb_ops T) it' = Ok"
    using scan_ready [OF ready, of it] by (auto simp: it_def)
  moreover have "\<forall>s \<in> set ?css. sorted_keys (fst s)"
    by (rule list_all2_right [OF reps(1)]) (use forward_cursor.rep_sorted [OF cursor.axioms(1) [OF iterators.axioms [OF source_iterators]]] in blast)
  then have "scan_of (visible ?css) ?lo up hu reversed = scan_of (visible (stack_of content D mss)) ?lo up hu reversed"
    using f(3) hu stack_sorted [OF D] by (intro scan_of_cong) (auto simp: in_range_def stack_of_def)
  ultimately show ?thesis using make by auto
qed

end

end
