(* ===== verification/Footer.thy ===== *)
theory Footer
  imports Checksum
begin

text \<open>
  The footer of a table file, src/sst/footer.hpp and src/sst/footer.cpp: two or three block
  handles, a count and, from version 3 on, a checksum, in front of an invariant twelve-byte trailer
  that holds the format version and the magic.
\<close>

section \<open>Data and constants\<close>

record block_handle =
  offset :: u64
  hlength :: u32

record footer =
  ffilter :: block_handle
  findex :: block_handle
  fnum_entries :: u64
  format_version :: u32
  range_del :: block_handle
  fcrc :: u32

definition zero_handle :: block_handle where
  "zero_handle = \<lparr> offset = 0, hlength = 0 \<rparr>"

definition kTrailerLength :: nat where "kTrailerLength = 12"
definition kFooterLengthV1 :: nat where "kFooterLengthV1 = 44"
definition kFooterLengthV2 :: nat where "kFooterLengthV2 = 56"
definition kFooterLengthV3 :: nat where "kFooterLengthV3 = 60"
definition kMaxFooterLength :: nat where "kMaxFooterLength = kFooterLengthV3"
definition kMagic :: u64 where "kMagic = 0x454C595349554D31"

lemmas footer_constants = kTrailerLength_def kFooterLengthV1_def kFooterLengthV2_def
  kFooterLengthV3_def kMaxFooterLength_def

section \<open>Operations\<close>

definition put_handle :: "block_handle \<Rightarrow> bytes" where
  "put_handle h = put_fixed64 (offset h) @ put_fixed32 (hlength h)"

definition footer_body :: "footer \<Rightarrow> bytes" where
  "footer_body f =
     put_handle (ffilter f) @ put_handle (findex f) @ put_fixed64 (fnum_entries f)
       @ (if 2 \<le> format_version f then put_handle (range_del f) else [])"

definition footer_encode :: "footer \<Rightarrow> bytes" where
  "footer_encode f =
     (let out = footer_body f;
          out = (if 3 \<le> format_version f then out @ put_fixed32 (crc32c_slice out) else out)
      in out @ put_fixed32 (format_version f) @ put_fixed64 kMagic)"

definition footer_length_from_trailer :: "bytes \<Rightarrow> nat res" where
  "footer_length_from_trailer trailer =
     (if length trailer < kTrailerLength then Inl Corrupt
      else let p = drop (length trailer - kTrailerLength) trailer;
               version = decode_fixed32 p;
               magic = decode_fixed64 (drop 4 p)
           in if magic \<noteq> kMagic then Inl Corrupt
              else if version = 1 then Inr kFooterLengthV1
              else if version = 2 then Inr kFooterLengthV2
              else if version = 3 then Inr kFooterLengthV3
              else Inl Unsupported)"

definition decode_handle :: "bytes \<Rightarrow> block_handle" where
  "decode_handle p = \<lparr> offset = decode_fixed64 p, hlength = decode_fixed32 (drop 8 p) \<rparr>"

definition footer_decode :: "bytes \<Rightarrow> footer res" where
  "footer_decode bs =
     (if length bs < kTrailerLength then Inl Corrupt
      else let trailer = drop (length bs - kTrailerLength) bs;
               version = decode_fixed32 trailer;
               magic = decode_fixed64 (drop 4 trailer)
           in if magic \<noteq> kMagic then Inl Corrupt
              else
                let width = (if version = 1 then kFooterLengthV1 else if version = 2 then kFooterLengthV2
                             else if version = 3 then kFooterLengthV3 else 0)
                in if width = 0 then Inl Unsupported
                   else if length bs < width then Inl Corrupt
                   else
                     let p = drop (length bs - width) bs;
                         body = width - kTrailerLength - 4;
                         f = \<lparr> ffilter = decode_handle p, findex = decode_handle (drop 12 p),
                               fnum_entries = decode_fixed64 (drop 24 p), format_version = version,
                               range_del = (if 2 \<le> version then decode_handle (drop 32 p) else zero_handle),
                               fcrc = (if 3 \<le> version then decode_fixed32 (drop body p) else 0) \<rparr>
                     in if 3 \<le> version \<and> crc32c_slice (take body p) \<noteq> fcrc f then Inl Corrupt
                        else Inr f)"

section \<open>Round trip\<close>

text \<open>What a reader gets back: a field that the version does not store reads as its default.\<close>

definition footer_view :: "footer \<Rightarrow> footer" where
  "footer_view f =
     f\<lparr> range_del := (if 2 \<le> format_version f then range_del f else zero_handle),
        fcrc := (if 3 \<le> format_version f then crc32c_slice (footer_body f) else 0) \<rparr>"

lemma length_put_handle [simp]: "length (put_handle h) = 12"
  by (simp add: put_handle_def)

lemma decode_put_handle [codec_simps]: "decode_handle (put_handle h @ rest) = h"
  by (simp add: decode_handle_def put_handle_def codec_simps)

lemma decode_put_fixed_end [codec_simps]:
  "decode_fixed32 (put_fixed32 v) = v" "decode_fixed64 (put_fixed64 w) = w"
  using decode_put_fixed32 [of v "[]"] decode_put_fixed64 [of w "[]"] by simp_all

lemma length_footer_body:
  "length (footer_body f) = (if 2 \<le> format_version f then 44 else 32)"
  by (simp add: footer_body_def)

text \<open>The trailer stands at a fixed distance from the end whatever the version.\<close>

definition footer_trailer :: "u32 \<Rightarrow> bytes" where
  "footer_trailer v = put_fixed32 v @ put_fixed64 kMagic"

lemma decode_footer_trailer [codec_simps]:
  "decode_fixed32 (footer_trailer v) = v" "decode_fixed64 (drop 4 (footer_trailer v)) = kMagic"
  "length (footer_trailer v) = 12"
  by (simp_all add: footer_trailer_def codec_simps)

lemma version_order [simp]:
  "\<not> (2 :: u32) \<le> 1" "\<not> (3 :: u32) \<le> 1" "\<not> (3 :: u32) \<le> 2" "(2 :: u32) \<le> 3"
  by (simp_all add: word_le_nat_alt)

lemma footer_decode_trailer:
  "footer_decode (b @ footer_trailer v) =
     (if v \<noteq> 1 \<and> v \<noteq> 2 \<and> v \<noteq> 3 then Inl Unsupported
      else let width = (if v = 1 then 32 else if v = 2 then 44 else 48) in
        if length b < width then Inl Corrupt
        else let p = drop (length b - width) b @ footer_trailer v in
          if v = 3 \<and> crc32c_slice (take 44 p) \<noteq> decode_fixed32 (drop 44 p) then Inl Corrupt
          else Inr \<lparr> ffilter = decode_handle p, findex = decode_handle (drop 12 p),
                     fnum_entries = decode_fixed64 (drop 24 p), format_version = v,
                     range_del = (if v \<noteq> 1 then decode_handle (drop 32 p) else zero_handle),
                     fcrc = (if v = 3 then decode_fixed32 (drop 44 p) else 0) \<rparr>)"
proof -
  consider "v = 1" | "v = 2" | "v = 3" | "v \<noteq> 1" "v \<noteq> 2" "v \<noteq> 3" by blast
  then show ?thesis
    by cases (simp_all add: footer_decode_def Let_def codec_simps footer_constants)
qed

lemma footer_encode_trailer:
  "footer_encode f = footer_body f
     @ (if 3 \<le> format_version f then put_fixed32 (crc32c_slice (footer_body f)) else [])
     @ footer_trailer (format_version f)"
  by (simp add: footer_encode_def footer_trailer_def Let_def)

lemma footer_decode_encode:
  assumes "format_version f = 1 \<or> format_version f = 2 \<or> format_version f = 3"
  shows "footer_decode (pre @ footer_encode f) = Inr (footer_view f)"
proof -
  let ?b = "footer_body f"
  let ?c = "if format_version f = 3 then put_fixed32 (crc32c_slice ?b) else []"
  have enc: "pre @ footer_encode f = (pre @ ?b @ ?c) @ footer_trailer (format_version f)"
    using assms by (auto simp: footer_encode_trailer)
  show ?thesis
    unfolding enc footer_decode_trailer using assms
    by (elim disjE; cases f)
       (simp_all add: Let_def length_footer_body footer_view_def codec_simps footer_body_def)
qed

text \<open>
  A footer of any version this build writes is read back, whatever precedes it in the file,
  with the fields its version does not store at their defaults; and the twelve bytes of the trailer
  alone announce the width of exactly that footer.
\<close>

theorem footer_round_trip:
  assumes "format_version f = 1 \<or> format_version f = 2 \<or> format_version f = 3"
  shows "footer_decode (pre @ footer_encode f) = Inr (footer_view f)
    \<and> footer_length_from_trailer (pre @ footer_encode f) = Inr (length (footer_encode f))
    \<and> length (footer_encode f) \<le> kMaxFooterLength"
proof -
  have "footer_length_from_trailer (b @ footer_trailer v)
      = (if v = 1 then Inr 44 else if v = 2 then Inr 56 else if v = 3 then Inr 60
         else Inl Unsupported)" for b v
    by (simp add: footer_length_from_trailer_def Let_def codec_simps footer_constants)
  from this [of "pre @ footer_body f
      @ (if 3 \<le> format_version f then put_fixed32 (crc32c_slice (footer_body f)) else [])"
      "format_version f"]
  show ?thesis
    using assms footer_decode_encode [OF assms, of pre]
    by (auto simp: footer_encode_trailer length_footer_body codec_simps footer_constants)
qed

text \<open>
  A change of a version 3 footer that keeps its length, is confined to four consecutive bytes
  and lies in front of the trailer is reported as corruption, so no damaged handle is followed.
\<close>

theorem footer_burst_detected:
  assumes "format_version f = 3"
    and "footer_encode f = (pre @ x @ post) @ footer_trailer 3"
    and "length x = length y" and "length x \<le> 4" and "x \<noteq> y"
  shows "footer_decode ((pre @ y @ post) @ footer_trailer 3) = Inl Corrupt"
proof -
  define b r where "b = footer_body f" and "r = pre @ y @ post"
  have raw: "b @ put_fixed32 (crc32c_slice b) = pre @ x @ post"
    using assms(1,2) by (simp add: footer_encode_trailer b_def)
  have len: "length r = 48"
    using arg_cong [OF raw, of length] assms(1,3) by (simp add: length_footer_body b_def r_def)
  have "crc32c_slice (take 44 r) \<noteq> decode_fixed32 (drop 44 r)"
  proof (rule crc_detects_burst [where pre = pre and x = x and post = post])
    show "crc32c_slice b = decode_fixed32 (put_fixed32 (crc32c_slice b))"
      by (simp add: codec_simps)
    show "take 44 r @ drop 44 r = pre @ y @ post" by (simp only: append_take_drop_id r_def)
  qed (use assms raw len in simp_all)
  moreover have "decode_fixed32 (drop 44 r @ footer_trailer 3) = decode_fixed32 (drop 44 r)"
    using len by (simp add: decode_fixed32_def nth_append)
  ultimately have "footer_decode (r @ footer_trailer 3) = Inl Corrupt"
    unfolding footer_decode_trailer using len by (simp add: Let_def)
  then show ?thesis by (simp only: r_def)
qed

definition sample_footer :: footer where
  "sample_footer = \<lparr> ffilter = \<lparr> offset = 0, hlength = 10 \<rparr>, findex = \<lparr> offset = 10, hlength = 20 \<rparr>,
     fnum_entries = 1, format_version = 3, range_del = zero_handle, fcrc = 0 \<rparr>"

text \<open>
  The trailer is not self-validating: one flipped bit of the version field (3 read as 1) makes
  an intact version 3 footer decode without an error, with the checksum skipped and with handles
  read from the wrong bytes.
\<close>

theorem footer_version_unprotected:
  "\<exists>b g. footer_encode sample_footer = b @ footer_trailer 3
     \<and> footer_decode (b @ footer_trailer (3 XOR 2)) = Inr g
     \<and> offset (ffilter sample_footer) = 0 \<and> offset (ffilter g) = 0x1400000000"
proof -
  define b where "b = footer_body sample_footer
      @ put_fixed32 (crc32c_slice (footer_body sample_footer))"
  have len: "length b = 48" by (simp add: b_def length_footer_body sample_footer_def)
  have "drop 16 b = drop 16 (footer_body sample_footer)
      @ put_fixed32 (crc32c_slice (footer_body sample_footer))"
    by (simp add: b_def length_footer_body sample_footer_def)
  moreover have "take 8 (drop 16 (footer_body sample_footer)) = [0, 0, 0, 0, 20, 0, 0, 0]"
    by (simp add: footer_body_def sample_footer_def put_handle_def put_fixed64_def put_fixed32_def)
  ultimately have take8: "take 8 (drop 16 b) = [0, 0, 0, 0, 20, 0, 0, 0]"
    by (simp add: length_footer_body sample_footer_def)
  have local: "decode_fixed64 (p @ q) = decode_fixed64 (take 8 p)" if "8 \<le> length p" for p q
    using that by (auto simp: decode_fixed64_def nth_append)
  have "decode_fixed64 (drop 16 b @ footer_trailer 1) = 0x1400000000"
    using len by (subst local) (simp_all add: take8 decode_fixed64_def push_bit_eq_mult)
  then have "\<exists>g. footer_decode (b @ footer_trailer 1) = Inr g \<and> offset (ffilter g) = 0x1400000000"
    unfolding footer_decode_trailer using len by (simp add: Let_def decode_handle_def)
  moreover have "footer_encode sample_footer = b @ footer_trailer 3"
    by (simp add: footer_encode_trailer b_def sample_footer_def)
  moreover have "offset (ffilter sample_footer) = 0" by (simp add: sample_footer_def)
  ultimately show ?thesis by auto
qed

subsection \<open>Witnesses\<close>

theorem footer_round_trip_witness:
  "format_version sample_footer = 3
   \<and> footer_decode ([1, 2] @ footer_encode sample_footer) = Inr (footer_view sample_footer)
   \<and> footer_length_from_trailer ([1, 2] @ footer_encode sample_footer) = Inr 60"
  using footer_round_trip [of sample_footer "[1, 2]"]
  by (simp add: sample_footer_def footer_encode_trailer length_footer_body codec_simps)

theorem footer_burst_detected_witness:
  "\<exists>rest. footer_encode sample_footer = ([] @ [0] @ rest) @ footer_trailer 3
     \<and> footer_decode (([] @ [1] @ rest) @ footer_trailer 3) = Inl Corrupt"
proof -
  have "footer_encode sample_footer
      = ([] @ [0] @ tl (footer_body sample_footer
          @ put_fixed32 (crc32c_slice (footer_body sample_footer)))) @ footer_trailer 3"
    by (simp add: footer_encode_trailer sample_footer_def footer_body_def put_handle_def
        put_fixed64_def)
  then show ?thesis
    using footer_burst_detected [of sample_footer "[]" "[0]" _ "[1]"]
    by (auto simp: sample_footer_def)
qed

end
