(* ===== verification/Block.thy ===== *)
theory Block
  imports Cursor
begin

text \<open>
  Blocks: src/sst/block_builder.cpp writes entries with prefix-compressed keys and a restart array,
  src/sst/block_reader.cpp reads them back and searches them.

  The reader works on untrusted bytes, so it is defined on any content; its loops are total because
  every entry it decodes occupies at least one byte. The lemmas then show what it computes on a
  block of the builder: it enumerates the entries, and its seeks find the first entry at or after a
  key and the last one at or before it.
\<close>

section \<open>The builder\<close>

record block_builder =
  buffer :: bytes
  restarts :: "u32 list"
  last_key :: bytes
  restart_interval :: int
  since_restart :: int
  entries :: u64
  finished :: bool

definition BlockBuilder :: "int \<Rightarrow> block_builder" where
  "BlockBuilder ri = \<lparr> buffer = [], restarts = [0], last_key = [], restart_interval = ri,
     since_restart = 0, entries = 0, finished = False \<rparr>"

definition bb_reset :: "block_builder \<Rightarrow> block_builder" where
  "bb_reset b = b\<lparr> buffer := [], restarts := [0], last_key := [], since_restart := 0, entries := 0,
     finished := False \<rparr>"

fun shared_length :: "bytes \<Rightarrow> bytes \<Rightarrow> nat" where
  "shared_length (x # xs) (y # ys) = (if x = y then Suc (shared_length xs ys) else 0)"
| "shared_length _ _ = 0"

definition bb_add :: "block_builder \<Rightarrow> bytes \<Rightarrow> value_type \<Rightarrow> bytes \<Rightarrow> block_builder" where
  "bb_add b key type value =
     (let (shared, b) =
        (if since_restart b < restart_interval b then (shared_length (last_key b) key, b)
         else (0, b\<lparr> restarts := restarts b @ [of_nat (length (buffer b))], since_restart := 0 \<rparr>));
        unshared = length key - shared
      in b\<lparr> buffer := buffer b @ put_varint32 (of_nat shared) @ put_varint32 (of_nat unshared)
              @ [value_type_byte type]
              @ put_varint32 (if type = Delete then 0 else of_nat (length value))
              @ drop shared key @ (if type \<noteq> Delete then value else []),
            last_key := key, since_restart := since_restart b + 1, entries := entries b + 1 \<rparr>)"

definition bb_finish :: "block_builder \<Rightarrow> bytes \<times> block_builder" where
  "bb_finish b =
     (let out = buffer b @ concat (map put_fixed32 (restarts b))
                  @ put_fixed32 (of_nat (length (restarts b)))
      in (out, b\<lparr> buffer := out, finished := True \<rparr>))"

definition bb_empty :: "block_builder \<Rightarrow> bool" where "bb_empty b \<longleftrightarrow> entries b = 0"

definition bb_size_estimate :: "block_builder \<Rightarrow> nat" where
  "bb_size_estimate b = length (buffer b) + length (restarts b) * 4 + 4"

section \<open>The reader\<close>

text \<open>
  \<open>data_\<close> is \<^const>\<open>None\<close> for the null pointer. \<open>KeyBuffer\<close> is a byte string with an inline
  buffer; its \<open>truncate\<close> and \<open>append\<close> are \<^const>\<open>take\<close> and list append.
\<close>

record block_iter =
  it_data :: "bytes option"
  entries_end :: nat
  restart_array :: nat
  num_restarts :: u32
  current_offset :: nat
  next_offset :: nat
  it_key :: bytes
  it_value :: bytes
  it_type :: value_type
  it_valid :: bool
  it_status :: status

definition block_iter_default :: block_iter where
  "block_iter_default = \<lparr> it_data = None, entries_end = 0, restart_array = 0, num_restarts = 0,
     current_offset = 0, next_offset = 0, it_key = [], it_value = [], it_type = Put, it_valid = False,
     it_status = Ok \<rparr>"

definition restart_offset :: "block_iter \<Rightarrow> nat \<Rightarrow> nat" where
  "restart_offset it index =
     unat (decode_fixed32 (drop (restart_array it + index * 4) (the (it_data it))))"

definition BlockIterator :: "bytes \<Rightarrow> block_iter" where
  "BlockIterator content =
     (if length content < 4 then block_iter_default\<lparr> it_status := Corrupt \<rparr>
      else
        let n = decode_fixed32 (drop (length content - 4) content);
            it = block_iter_default\<lparr> it_data := Some content, num_restarts := n \<rparr>;
            restart_bytes = unat n * 4
        in if n = 0 \<or> length content < restart_bytes + 4
           then it\<lparr> it_status := Corrupt, it_data := None \<rparr>
           else
             let it = it\<lparr> restart_array := length content - 4 - restart_bytes,
                          entries_end := length content - 4 - restart_bytes \<rparr>
             in if restart_offset it 0 \<noteq> 0 then it\<lparr> it_status := Corrupt, it_data := None \<rparr> else it)"

definition invalidate :: "block_iter \<Rightarrow> block_iter" where
  "invalidate it = it\<lparr> it_valid := False, it_key := [], it_value := [] \<rparr>"

definition parse_entry :: "block_iter \<Rightarrow> nat \<Rightarrow> bool \<times> block_iter" where
  "parse_entry it off =
     (case it_data it of
        None \<Rightarrow> (False, it)
      | Some content \<Rightarrow>
          if entries_end it \<le> off then (False, it)
          else
            let corrupt = (False, it\<lparr> it_status := Corrupt \<rparr>) in
            (case get_varint32 (drop off (take (entries_end it) content)) of
               None \<Rightarrow> corrupt
             | Some (shared, p) \<Rightarrow>
            (case get_varint32 p of
               None \<Rightarrow> corrupt
             | Some (unshared, p) \<Rightarrow>
            (case p of
               [] \<Rightarrow> corrupt
             | raw_type # p \<Rightarrow>
               if \<not> is_known_value_type raw_type then corrupt
               else (case get_varint32 p of
                  None \<Rightarrow> corrupt
                | Some (value_len, p) \<Rightarrow>
                    if length (it_key it) < unat shared \<or> length p < unat unshared
                        \<or> length p - unat unshared < unat value_len
                    then corrupt
                    else
                      (True, it\<lparr> it_key := take (unat shared) (it_key it) @ take (unat unshared) p,
                                 it_type := value_type_of raw_type,
                                 it_value := take (unat value_len) (drop (unat unshared) p),
                                 current_offset := off,
                                 next_offset := entries_end it
                                   - (length p - unat unshared - unat value_len),
                                 it_valid := True \<rparr>))))))"

definition bi_seek_to_first :: "block_iter \<Rightarrow> block_iter" where
  "bi_seek_to_first it =
     (if it_status it \<noteq> Ok \<or> it_data it = None then it
      else let (ok, it) = parse_entry (it\<lparr> it_key := [] \<rparr>) 0 in if ok then it else invalidate it)"

definition bi_next :: "block_iter \<Rightarrow> block_iter" where
  "bi_next it =
     (if \<not> it_valid it then it
      else let (ok, it) = parse_entry it (next_offset it) in if ok then it else invalidate it)"

definition seek_to_restart :: "block_iter \<Rightarrow> nat \<Rightarrow> block_iter" where
  "seek_to_restart it index =
     (let it = it\<lparr> it_key := [] \<rparr>;
          (ok, it) = parse_entry it (restart_offset it index)
      in if ok then it else invalidate it)"

subsection \<open>Loops\<close>

text \<open>Decoding an entry moves past it, and only the position fields change.\<close>

lemma parse_entry_bounds:
  assumes "parse_entry it off = (True, it')"
  shows "off < next_offset it'" and "next_offset it' \<le> entries_end it" and "it_valid it'"
    and "entries_end it' = entries_end it" and "it_data it' = it_data it"
    and "current_offset it' = off" and "restart_array it' = restart_array it"
    and "num_restarts it' = num_restarts it" and "it_status it' = it_status it"
proof -
  obtain content shared p1 unshared t p2 value_len p3 where
    d: "it_data it = Some content" "off < entries_end it"
    and g: "get_varint32 (drop off (take (entries_end it) content)) = Some (shared, p1)"
      "get_varint32 p1 = Some (unshared, t # p2)" "get_varint32 p2 = Some (value_len, p3)"
    and it': "it' = it\<lparr> it_key := take (unat shared) (it_key it) @ take (unat unshared) p3,
        it_type := value_type_of t, it_value := take (unat value_len) (drop (unat unshared) p3),
        current_offset := off,
        next_offset := entries_end it - (length p3 - unat unshared - unat value_len),
        it_valid := True \<rparr>"
    using assms unfolding parse_entry_def Let_def
    by (auto split: option.splits if_splits list.splits)
  have "length p3 < entries_end it - off"
    using get_varint32_consumes [OF g(1)] get_varint32_consumes [OF g(2)]
      get_varint32_consumes [OF g(3)] d(2)
    by (auto dest!: arg_cong [where f = length])
  then show "off < next_offset it'" using it' d(2) by simp
  show "next_offset it' \<le> entries_end it" "it_valid it'" "entries_end it' = entries_end it"
    "it_data it' = it_data it" "current_offset it' = off" "restart_array it' = restart_array it"
    "num_restarts it' = num_restarts it" "it_status it' = it_status it"
    using it' by simp_all
qed

lemma bi_next_progress:
  assumes "it_valid it"
  shows "\<not> it_valid (bi_next it) \<or>
    next_offset it < next_offset (bi_next it) \<and> next_offset (bi_next it) \<le> entries_end it"
proof -
  obtain ok it' where p: "parse_entry it (next_offset it) = (ok, it')" by fastforce
  show ?thesis
  proof (cases ok)
    case True
    with p assms parse_entry_bounds(1,2) [of it "next_offset it" it'] show ?thesis
      by (simp add: bi_next_def)
  next
    case False
    with p assms show ?thesis by (simp add: bi_next_def invalidate_def)
  qed
qed

lemma parse_entry_frame:
  "entries_end (snd (parse_entry it off)) = entries_end it"
  "it_data (snd (parse_entry it off)) = it_data it"
  "restart_array (snd (parse_entry it off)) = restart_array it"
  "num_restarts (snd (parse_entry it off)) = num_restarts it"
  unfolding parse_entry_def Let_def by (auto split: option.splits list.splits)

lemma bi_next_frame [simp]:
  "entries_end (bi_next it) = entries_end it" "it_data (bi_next it) = it_data it"
  "restart_array (bi_next it) = restart_array it" "num_restarts (bi_next it) = num_restarts it"
  using parse_entry_frame [of it "next_offset it"]
  by (simp_all add: bi_next_def invalidate_def split_def Let_def)

text \<open>The scans of \<open>seek\<close>, \<open>seek_to_last\<close> and \<open>prev\<close>: call \<open>next\<close> while valid and a condition holds.\<close>

function bi_scan :: "(block_iter \<Rightarrow> bool) \<Rightarrow> block_iter \<Rightarrow> block_iter" where
  "bi_scan P it = (if it_valid it \<and> P it then bi_scan P (bi_next it) else it)"
  by pat_completeness auto
termination
proof (relation "measure (\<lambda>(P, it). if it_valid it then Suc (entries_end it - next_offset it) else 0)")
  fix P :: "block_iter \<Rightarrow> bool" and it :: block_iter
  assume "it_valid it \<and> P it"
  then show "((P, bi_next it), P, it)
      \<in> measure (\<lambda>(P, it). if it_valid it then Suc (entries_end it - next_offset it) else 0)"
    using bi_next_progress [of it] by auto
qed simp

declare bi_scan.simps [simp del]

text \<open>
  The two binary searches run on indices below the number of restarts, which fits 32 bits, so their
  arithmetic never wraps and is written over the naturals.
\<close>

function restart_before_loop :: "block_iter \<Rightarrow> nat \<Rightarrow> nat \<Rightarrow> nat \<Rightarrow> nat" where
  "restart_before_loop it off low high =
     (if low < high
      then let mid = low + (high - low + 1) div 2 in
           if restart_offset it mid < off then restart_before_loop it off mid high
           else restart_before_loop it off low (mid - 1)
      else low)"
  by pat_completeness auto
termination by (relation "measure (\<lambda>(_, _, low, high). high - low)") auto

declare restart_before_loop.simps [simp del]

definition restart_before :: "block_iter \<Rightarrow> nat \<Rightarrow> nat" where
  "restart_before it off = restart_before_loop it off 0 (unat (num_restarts it) - 1)"

definition bi_seek_to_last :: "block_iter \<Rightarrow> block_iter" where
  "bi_seek_to_last it =
     (if it_status it \<noteq> Ok \<or> it_data it = None then it
      else bi_scan (\<lambda>it. next_offset it < entries_end it)
             (seek_to_restart it (unat (num_restarts it) - 1)))"

definition bi_prev :: "block_iter \<Rightarrow> block_iter" where
  "bi_prev it =
     (if \<not> it_valid it then it
      else let target = current_offset it in
        if target = 0 then invalidate it
        else
          let it = bi_scan (\<lambda>it. next_offset it < target) (seek_to_restart it (restart_before it target))
          in if \<not> it_valid it \<or> next_offset it \<noteq> target
             then invalidate (if it_status it = Ok then it\<lparr> it_status := Corrupt \<rparr> else it)
             else it)"

text \<open>
  The search of \<open>seek\<close> decodes a key at every probe. \<^const>\<open>None\<close> in the second component is its
  early return on an entry that does not decode.
\<close>

function seek_loop :: "block_iter \<Rightarrow> bytes \<Rightarrow> nat \<Rightarrow> nat \<Rightarrow> block_iter \<times> nat option" where
  "seek_loop it target low high =
     (if low < high
      then let mid = low + (high - low + 1) div 2;
               it = seek_to_restart it mid
           in if \<not> it_valid it then (it, None)
              else if it_key it \<le> target then seek_loop it target mid high
              else seek_loop it target low (mid - 1)
      else (it, Some low))"
  by pat_completeness auto
termination by (relation "measure (\<lambda>(_, _, low, high). high - low)") auto

declare seek_loop.simps [simp del]

definition bi_seek :: "block_iter \<Rightarrow> bytes \<Rightarrow> block_iter" where
  "bi_seek it target =
     (if it_status it \<noteq> Ok \<or> it_data it = None then it
      else case seek_loop it target 0 (unat (num_restarts it) - 1) of
             (it, None) \<Rightarrow> it
           | (it, Some low) \<Rightarrow> bi_scan (\<lambda>it. it_key it < target) (seek_to_restart it low))"

definition bi_seek_for_prev :: "block_iter \<Rightarrow> bytes \<Rightarrow> block_iter" where
  "bi_seek_for_prev it target =
     (if it_status it \<noteq> Ok \<or> it_data it = None then it
      else
        let it = bi_seek it target in
        if \<not> it_valid it then (if it_status it \<noteq> Ok then it else bi_seek_to_last it)
        else if it_key it = target then it
        else bi_prev it)"

section \<open>The layout of a block\<close>

text \<open>
  A cell is an entry with the number of key bytes it shares with its predecessor. A block is the
  concatenation of its cells, the offsets of the cells that are restart points, and their number.
\<close>

type_synonym cell = "nat \<times> entry"

fun cell_bytes :: "cell \<Rightarrow> bytes" where
  "cell_bytes (shared, key, type, value) =
     put_varint32 (of_nat shared) @ put_varint32 (of_nat (length key - shared)) @ [value_type_byte type]
       @ put_varint32 (if type = Delete then 0 else of_nat (length value))
       @ drop shared key @ (if type \<noteq> Delete then value else [])"

definition cell_offset :: "cell list \<Rightarrow> nat \<Rightarrow> nat" where
  "cell_offset cs i = length (concat (map cell_bytes (take i cs)))"

definition block_image :: "cell list \<Rightarrow> nat list \<Rightarrow> bytes" where
  "block_image cs rs =
     concat (map cell_bytes cs) @ concat (map (\<lambda>r. put_fixed32 (of_nat (cell_offset cs r))) rs)
       @ put_fixed32 (of_nat (length rs))"

definition cell_key :: "cell list \<Rightarrow> nat \<Rightarrow> bytes" where
  "cell_key cs i = fst (snd (cs ! i))"

definition cell_ok :: "cell list \<Rightarrow> nat \<Rightarrow> bool" where
  "cell_ok cs i \<longleftrightarrow>
     (let (shared, key, type, value) = cs ! i in
      shared \<le> length key \<and> length key < 2 ^ 32 \<and> length value < 2 ^ 32
      \<and> (shared = 0 \<or> 0 < i \<and> shared \<le> length (cell_key cs (i - 1))
           \<and> take shared (cell_key cs (i - 1)) = take shared key))"

definition restarts_ok :: "cell list \<Rightarrow> nat list \<Rightarrow> bool" where
  "restarts_ok cs rs \<longleftrightarrow>
     rs \<noteq> [] \<and> hd rs = 0 \<and> sorted_wrt (<) rs
     \<and> (\<forall>r \<in> set rs. if cs = [] then r = 0 else r < length cs \<and> fst (cs ! r) = 0)"

definition wf_block :: "cell list \<Rightarrow> nat list \<Rightarrow> bool" where
  "wf_block cs rs \<longleftrightarrow>
     (\<forall>i < length cs. cell_ok cs i) \<and> restarts_ok cs rs \<and> length (block_image cs rs) < 2 ^ 32"

lemma cell_offset_0 [simp]: "cell_offset cs 0 = 0"
  by (simp add: cell_offset_def)

lemma cell_offset_Suc:
  "i < length cs \<Longrightarrow> cell_offset cs (Suc i) = cell_offset cs i + length (cell_bytes (cs ! i))"
  by (simp add: cell_offset_def take_Suc_conv_app_nth)

lemma cell_offset_append [simp]: "i \<le> length cs \<Longrightarrow> cell_offset (cs @ ds) i = cell_offset cs i"
  by (simp add: cell_offset_def)

lemma cell_bytes_pos: "0 < length (cell_bytes c)"
  by (cases c) auto

lemma cell_offset_less: "i < j \<Longrightarrow> j \<le> length cs \<Longrightarrow> cell_offset cs i < cell_offset cs j"
proof (induction j)
  case (Suc j)
  then have "cell_offset cs j < cell_offset cs (Suc j)"
    using cell_bytes_pos [of "cs ! j"] by (simp add: cell_offset_Suc)
  with Suc show ?case by (cases "i = j") auto
qed simp

lemma cell_offset_less_iff:
  "i \<le> length cs \<Longrightarrow> j \<le> length cs \<Longrightarrow> cell_offset cs i < cell_offset cs j \<longleftrightarrow> i < j"
  using cell_offset_less [of i j cs] cell_offset_less [of j i cs] by (cases i j rule: linorder_cases) auto

lemma cell_offset_eq_iff:
  "i \<le> length cs \<Longrightarrow> j \<le> length cs \<Longrightarrow> cell_offset cs i = cell_offset cs j \<longleftrightarrow> i = j"
  using cell_offset_less [of i j cs] cell_offset_less [of j i cs] by (cases i j rule: linorder_cases) auto

lemma drop_cells:
  "i \<le> length cs \<Longrightarrow> drop (cell_offset cs i) (concat (map cell_bytes cs)) = concat (map cell_bytes (drop i cs))"
proof -
  have "concat (map cell_bytes cs)
      = concat (map cell_bytes (take i cs)) @ concat (map cell_bytes (drop i cs))"
    by (metis append_take_drop_id concat_append map_append)
  then show ?thesis by (simp add: cell_offset_def)
qed

lemma cell_offset_split:
  "cell_offset cs (length cs) = cell_offset cs i + length (concat (map cell_bytes (drop i cs)))"
  unfolding cell_offset_def
  by (metis append_take_drop_id concat_append length_append map_append take_all_iff order_refl)

lemma cells_end: "length (concat (map cell_bytes cs)) = cell_offset cs (length cs)"
  by (simp add: cell_offset_def)

lemma length_restart_bytes: "length (concat (map (\<lambda>r. put_fixed32 (f r)) rs)) = 4 * length rs"
  by (induction rs) auto

lemma drop_restart_bytes:
  "j < length rs \<Longrightarrow>
   decode_fixed32 (drop (4 * j) (concat (map (\<lambda>r. put_fixed32 (f r)) rs) @ rest)) = f (rs ! j)"
proof (induction rs arbitrary: j)
  case (Cons r rs)
  then show ?case by (cases j) (simp_all add: codec_simps)
qed simp

subsection \<open>What the builder lays out\<close>

lemma shared_length_prefix:
  "shared_length a b \<le> length a" "shared_length a b \<le> length b"
  "take (shared_length a b) a = take (shared_length a b) b"
  by (induction a b rule: shared_length.induct) auto

definition bb_add_all :: "entry list \<Rightarrow> block_builder \<Rightarrow> block_builder" where
  "bb_add_all es b = fold (\<lambda>(k, t, v) b. bb_add b k t v) es b"

definition builder_lays :: "int \<Rightarrow> block_builder \<Rightarrow> cell list \<Rightarrow> nat list \<Rightarrow> bool" where
  "builder_lays ri b cs rs \<longleftrightarrow>
     buffer b = concat (map cell_bytes cs) \<and> restarts b = map (\<lambda>r. of_nat (cell_offset cs r)) rs
     \<and> (\<forall>i < length cs. cell_ok cs i) \<and> restarts_ok cs rs \<and> restart_interval b = ri
     \<and> (if cs = [] then last_key b = [] \<and> since_restart b = 0
        else last_key b = cell_key cs (length cs - 1))"

lemma cell_ok_append: "i < length cs \<Longrightarrow> cell_ok (cs @ ds) i = cell_ok cs i"
  by (auto simp: cell_ok_def cell_key_def nth_append split: prod.splits)

lemma builder_lays_add:
  assumes b: "builder_lays ri b cs rs" and "0 < ri"
    and "length k < 2 ^ 32" "length v < 2 ^ 32"
  shows "\<exists>s rs'. builder_lays ri (bb_add b k t v) (cs @ [(s, k, t, v)]) rs'"
proof (cases "since_restart b < restart_interval b")
  case True
  let ?s = "shared_length (last_key b) k"
  have "cell_ok (cs @ [(?s, k, t, v)]) (length cs)"
    using b assms(3,4) shared_length_prefix [of "last_key b" k]
    by (auto simp: builder_lays_def cell_ok_def cell_key_def nth_append split: if_splits)
  moreover have "restarts_ok (cs @ [(?s, k, t, v)]) rs"
    using b by (auto simp: builder_lays_def restarts_ok_def nth_append split: if_splits)
  moreover have "map (\<lambda>r. of_nat (cell_offset cs r)) rs
      = map (\<lambda>r. of_nat (cell_offset (cs @ [(?s, k, t, v)]) r) :: u32) rs"
    using b by (auto simp: builder_lays_def restarts_ok_def split: if_splits)
  ultimately have "builder_lays ri (bb_add b k t v) (cs @ [(?s, k, t, v)]) rs"
    using b True
    by (auto simp: builder_lays_def bb_add_def Let_def cell_ok_append less_Suc_eq cell_key_def nth_append)
  then show ?thesis by blast
next
  case False
  with b \<open>0 < ri\<close> have ne: "cs \<noteq> []" by (auto simp: builder_lays_def split: if_splits)
  let ?cs = "cs @ [(0, k, t, v)]"
  have "cell_ok ?cs (length cs)"
    using assms(3,4) by (simp add: cell_ok_def)
  moreover have "restarts_ok ?cs (rs @ [length cs])"
    using b ne by (auto simp: builder_lays_def restarts_ok_def nth_append sorted_wrt_append)
  moreover have "map (\<lambda>r. of_nat (cell_offset cs r)) rs
      = map (\<lambda>r. of_nat (cell_offset ?cs r) :: u32) rs"
    using b ne by (auto simp: builder_lays_def restarts_ok_def)
  ultimately have "builder_lays ri (bb_add b k t v) ?cs (rs @ [length cs])"
    using b ne False
    by (auto simp: builder_lays_def bb_add_def Let_def cell_ok_append less_Suc_eq cell_key_def
        nth_append cells_end)
  then show ?thesis by blast
qed

lemma builder_lays_all:
  assumes "0 < ri" and "builder_lays ri b cs rs"
    and "\<forall>(k, t, v) \<in> set es. length k < 2 ^ 32 \<and> length v < 2 ^ 32"
  shows "\<exists>ds rs'. builder_lays ri (bb_add_all es b) (cs @ ds) rs' \<and> map snd ds = es"
  using assms(2,3)
proof (induction es arbitrary: b cs rs)
  case Nil
  then show ?case by (auto simp: bb_add_all_def)
next
  case (Cons e es)
  obtain k t v where e: "e = (k, t, v)" by (cases e)
  from Cons.prems e obtain s rs1 where 1: "builder_lays ri (bb_add b k t v) (cs @ [(s, e)]) rs1"
    using builder_lays_add [OF Cons.prems(1) assms(1), of k v t] by auto
  from Cons.IH [OF 1] Cons.prems(2) obtain ds rs'
    where "builder_lays ri (bb_add_all es (bb_add b k t v)) ((cs @ [(s, e)]) @ ds) rs'" "map snd ds = es"
    by auto
  then show ?case
    by (intro exI [of _ "(s, e) # ds"]) (auto simp: bb_add_all_def e)
qed

definition build_block :: "int \<Rightarrow> entry list \<Rightarrow> bytes" where
  "build_block ri es = fst (bb_finish (bb_add_all es (BlockBuilder ri)))"

text \<open>What a caller of the builder keeps to: a positive interval, sorted keys, sizes below 4 GiB.\<close>

definition blockable :: "int \<Rightarrow> entry list \<Rightarrow> bool" where
  "blockable ri es \<longleftrightarrow>
     0 < ri \<and> sorted_wrt (<) (map fst es)
     \<and> list_all (\<lambda>(k, t, v). length k < 2 ^ 32 \<and> length v < 2 ^ 32) es
     \<and> length (build_block ri es) < 2 ^ 32"

lemma build_block_image:
  assumes "blockable ri es"
  obtains cs rs where "build_block ri es = block_image cs rs" "wf_block cs rs" "map snd cs = es"
proof -
  have "builder_lays ri (BlockBuilder ri) [] [0]"
    by (simp add: builder_lays_def BlockBuilder_def restarts_ok_def)
  with assms obtain cs rs where l: "builder_lays ri (bb_add_all es (BlockBuilder ri)) cs rs"
    and es: "map snd cs = es"
    using builder_lays_all [of ri "BlockBuilder ri" "[]" "[0]" es]
    by (auto simp: blockable_def list_all_iff)
  then have "build_block ri es = block_image cs rs"
    by (simp add: build_block_def bb_finish_def builder_lays_def block_image_def Let_def comp_def)
  moreover from this l assms have "wf_block cs rs"
    by (simp add: wf_block_def builder_lays_def blockable_def)
  ultimately show thesis using es that by blast
qed

section \<open>What the reader sees\<close>

definition reads :: "block_iter \<Rightarrow> cell list \<Rightarrow> nat list \<Rightarrow> bool" where
  "reads it cs rs \<longleftrightarrow>
     it_data it = Some (block_image cs rs) \<and> entries_end it = cell_offset cs (length cs)
     \<and> restart_array it = cell_offset cs (length cs) \<and> unat (num_restarts it) = length rs
     \<and> it_status it = Ok"

definition entry_view :: "entry \<Rightarrow> entry" where
  "entry_view e = (case e of (k, t, v) \<Rightarrow> (k, t, if t = Delete then [] else v))"

definition it_entry :: "block_iter \<Rightarrow> entry" where
  "it_entry it = (it_key it, it_type it, it_value it)"

definition at_cell :: "block_iter \<Rightarrow> cell list \<Rightarrow> nat \<Rightarrow> bool" where
  "at_cell it cs i \<longleftrightarrow>
     i < length cs \<and> it_valid it \<and> it_entry it = entry_view (snd (cs ! i))
     \<and> current_offset it = cell_offset cs i \<and> next_offset it = cell_offset cs (Suc i)"

lemma at_cell_key: "at_cell it cs i \<Longrightarrow> it_key it = cell_key cs i"
  by (auto simp: at_cell_def it_entry_def entry_view_def cell_key_def split: prod.splits)

lemma reads_key_update [simp]: "reads (it\<lparr> it_key := k \<rparr>) cs rs = reads it cs rs"
  by (simp add: reads_def)

lemma reads_invalidate [simp]: "reads (invalidate it) cs rs = reads it cs rs"
  by (simp add: reads_def invalidate_def)

lemma wf_block_bounds:
  assumes "wf_block cs rs"
  shows "length rs < 2 ^ 32" and "i \<le> length cs \<Longrightarrow> cell_offset cs i < 2 ^ 32"
proof -
  have len: "cell_offset cs (length cs) + 4 * length rs < 2 ^ 32"
    using assms by (simp add: wf_block_def block_image_def cells_end length_restart_bytes)
  then show "length rs < 2 ^ 32" by simp
  show "cell_offset cs i < 2 ^ 32" if "i \<le> length cs"
    using len that cell_offset_less [of i "length cs" cs] by (cases "i = length cs") auto
qed

lemma unat_small: "n < 2 ^ 32 \<Longrightarrow> unat (of_nat n :: u32) = n"
  by (simp add: unsigned_of_nat take_bit_nat_eq_self)

lemma restart_offset_reads:
  assumes "reads it cs rs" and "wf_block cs rs" and "j < length rs"
  shows "restart_offset it j = cell_offset cs (rs ! j)"
proof -
  have r: "rs ! j \<le> length cs"
    using assms(2,3) by (auto simp: wf_block_def restarts_ok_def split: if_splits dest: nth_mem)
  have "restart_offset it j = unat (decode_fixed32 (drop (4 * j)
      (concat (map (\<lambda>r. put_fixed32 (of_nat (cell_offset cs r))) rs) @ put_fixed32 (of_nat (length rs)))))"
    using assms(1) by (simp add: restart_offset_def reads_def block_image_def cells_end mult.commute)
  also have "\<dots> = cell_offset cs (rs ! j)"
    using wf_block_bounds(2) [OF assms(2) r]
    by (simp only: drop_restart_bytes [OF assms(3)] unat_small)
  finally show ?thesis .
qed

lemma parse_cell:
  assumes it: "reads it cs rs" and wf: "wf_block cs rs" and i: "i < length cs"
    and key: "fst (cs ! i) = 0 \<or> it_key it = cell_key cs (i - 1)"
  shows "\<exists>it'. parse_entry it (cell_offset cs i) = (True, it') \<and> reads it' cs rs \<and> at_cell it' cs i"
proof -
  obtain s k t v where c: "cs ! i = (s, k, t, v)" by (cases "cs ! i") auto
  have ok: "s \<le> length k" "length k < 2 ^ 32" "length v < 2 ^ 32"
      "s = 0 \<or> s \<le> length (cell_key cs (i - 1)) \<and> take s (cell_key cs (i - 1)) = take s k"
    using wf i c by (auto simp: wf_block_def cell_ok_def)
  define rest where "rest = concat (map cell_bytes (drop (Suc i) cs))"
  have inside: "\<not> cell_offset cs (length cs) \<le> cell_offset cs i"
    using cell_offset_less [of i "length cs" cs] i by simp
  have bytes: "drop (cell_offset cs i) (take (cell_offset cs (length cs)) (block_image cs rs))
      = cell_bytes (s, k, t, v) @ rest"
    using i by (simp add: block_image_def cells_end drop_cells rest_def c Cons_nth_drop_Suc [symmetric])
  have after: "cell_offset cs (length cs) - length rest = cell_offset cs (Suc i)"
    using cell_offset_split [of cs "Suc i"] i by (simp add: rest_def)
  have small: "unat (of_nat s :: u32) = s" "unat (of_nat (length k - s) :: u32) = length k - s"
      "unat (if t = Delete then 0 else of_nat (length v) :: u32) = (if t = Delete then 0 else length v)"
    using ok by (simp_all add: unat_small del: of_nat_diff)
  have keep: "s \<le> length (it_key it)" "take s (it_key it) = take s k"
    using ok key c by auto
  have "\<exists>it'. parse_entry it (cell_offset cs i) = (True, it') \<and>
      it' = it\<lparr> it_key := k, it_type := t, it_value := (if t = Delete then [] else v),
        current_offset := cell_offset cs i, next_offset := cell_offset cs (Suc i), it_valid := True \<rparr>"
    using it inside bytes small keep ok(1) after
    by (simp add: parse_entry_def reads_def codec_simps Let_def del: of_nat_diff) auto
  then show ?thesis
    using it i c by (auto simp: reads_def at_cell_def it_entry_def entry_view_def)
qed

lemma BlockIterator_reads:
  assumes wf: "wf_block cs rs"
  shows "reads (BlockIterator (block_image cs rs)) cs rs"
    and "\<not> it_valid (BlockIterator (block_image cs rs))"
proof -
  let ?b = "block_image cs rs"
  have rs: "rs \<noteq> []" "rs ! 0 = 0"
    using wf by (auto simp: wf_block_def restarts_ok_def hd_conv_nth)
  have len: "length ?b = cell_offset cs (length cs) + 4 * length rs + 4"
    by (simp add: block_image_def cells_end length_restart_bytes)
  have "drop (length ?b - 4) ?b = put_fixed32 (of_nat (length rs))"
    by (simp add: block_image_def)
  then have count: "decode_fixed32 (drop (length ?b - 4) ?b) = of_nat (length rs)"
    using decode_put_fixed32 [of _ "[]"] by simp
  have small: "unat (of_nat (length rs) :: u32) = length rs"
    using wf_block_bounds [OF wf] by (simp add: unat_small)
  then have nz: "of_nat (length rs) \<noteq> (0 :: u32)" using rs(1) by (metis length_0_conv unsigned_0)
  define it where "it = block_iter_default\<lparr> it_data := Some ?b, num_restarts := of_nat (length rs),
      restart_array := cell_offset cs (length cs), entries_end := cell_offset cs (length cs) \<rparr>"
  have r: "reads it cs rs" "\<not> it_valid it"
    using small by (simp_all add: reads_def it_def block_iter_default_def)
  have "restart_offset it 0 = 0"
    using restart_offset_reads [OF r(1) wf, of 0] rs by simp
  then have "BlockIterator ?b = it"
    using len count small nz by (simp add: BlockIterator_def Let_def it_def block_iter_default_def)
  with r show "reads (BlockIterator ?b) cs rs" "\<not> it_valid (BlockIterator ?b)" by simp_all
qed

lemma parse_end: "reads it cs rs \<Longrightarrow> parse_entry it (cell_offset cs (length cs)) = (False, it)"
  by (simp add: parse_entry_def reads_def)

lemma seek_to_restart_at:
  assumes "reads it cs rs" and "wf_block cs rs" and "j < length rs" and "cs \<noteq> []"
  shows "reads (seek_to_restart it j) cs rs" and "at_cell (seek_to_restart it j) cs (rs ! j)"
proof -
  have r: "rs ! j < length cs" "fst (cs ! (rs ! j)) = 0"
    using assms(2-4) by (auto simp: wf_block_def restarts_ok_def dest: nth_mem)
  obtain it' where "parse_entry (it\<lparr> it_key := [] \<rparr>) (cell_offset cs (rs ! j)) = (True, it')"
      "reads it' cs rs" "at_cell it' cs (rs ! j)"
    using parse_cell [of "it\<lparr> it_key := [] \<rparr>", OF _ assms(2) r(1)] r(2) assms(1) by auto
  moreover have "restart_offset (it\<lparr> it_key := [] \<rparr>) j = cell_offset cs (rs ! j)"
    using restart_offset_reads [OF assms(1-3)] by (simp add: restart_offset_def)
  ultimately show "reads (seek_to_restart it j) cs rs" "at_cell (seek_to_restart it j) cs (rs ! j)"
    by (simp_all add: seek_to_restart_def)
qed

lemma seek_to_restart_empty:
  assumes "reads it [] rs" and "wf_block [] rs" and "j < length rs"
  shows "reads (seek_to_restart it j) [] rs" and "\<not> it_valid (seek_to_restart it j)"
proof -
  have "restart_offset (it\<lparr> it_key := [] \<rparr>) j = 0"
    using restart_offset_reads [OF assms] assms(2,3)
    by (simp add: restart_offset_def cell_offset_def)
  then have "seek_to_restart it j = invalidate (it\<lparr> it_key := [] \<rparr>)"
    using parse_end [of "it\<lparr> it_key := [] \<rparr>" "[]" rs] assms(1) by (simp add: seek_to_restart_def)
  then show "reads (seek_to_restart it j) [] rs" "\<not> it_valid (seek_to_restart it j)"
    using assms(1) by (simp_all add: invalidate_def reads_def)
qed

lemma bi_next_at:
  assumes "reads it cs rs" and "wf_block cs rs" and "at_cell it cs i"
  shows "reads (bi_next it) cs rs"
    and "if Suc i < length cs then at_cell (bi_next it) cs (Suc i) else \<not> it_valid (bi_next it)"
proof -
  have v: "it_valid it" "next_offset it = cell_offset cs (Suc i)" "i < length cs"
    using assms(3) by (simp_all add: at_cell_def)
  have "reads (bi_next it) cs rs \<and>
      (if Suc i < length cs then at_cell (bi_next it) cs (Suc i) else \<not> it_valid (bi_next it))"
  proof (cases "Suc i < length cs")
    case True
    then show ?thesis
      using parse_cell [OF assms(1,2) True] at_cell_key [OF assms(3)] v
      by (auto simp: bi_next_def)
  next
    case False
    then have "Suc i = length cs" using v by simp
    with v have "bi_next it = invalidate it"
      using parse_end [OF assms(1)] by (simp add: bi_next_def)
    then show ?thesis using assms(1) False by simp (simp add: invalidate_def)
  qed
  then show "reads (bi_next it) cs rs"
    "if Suc i < length cs then at_cell (bi_next it) cs (Suc i) else \<not> it_valid (bi_next it)"
    by blast+
qed

text \<open>A scan stops at the first cell, from where it stands, at which its condition fails.\<close>

lemma bi_scan_at:
  assumes "reads it cs rs" and "wf_block cs rs" and "at_cell it cs i"
    and "\<And>it j. reads it cs rs \<Longrightarrow> at_cell it cs j \<Longrightarrow> P it \<longleftrightarrow> Q j"
  shows "reads (bi_scan P it) cs rs
    \<and> (\<exists>j \<ge> i. (\<forall>m. i \<le> m \<and> m < j \<longrightarrow> Q m) \<and>
         (if j < length cs then at_cell (bi_scan P it) cs j \<and> \<not> Q j
          else j = length cs \<and> \<not> it_valid (bi_scan P it)))"
  using assms(1,3)
proof (induction "length cs - i" arbitrary: it i rule: less_induct)
  case less
  have i: "it_valid it" "i < length cs" using less.prems by (simp_all add: at_cell_def)
  show ?case
  proof (cases "Q i")
    case False
    then show ?thesis
      using less.prems i assms(4) by (subst (1 2 3) bi_scan.simps) (auto intro!: exI [of _ i])
  next
    case True
    then have step: "bi_scan P it = bi_scan P (bi_next it)"
      using less.prems i assms(4) by (subst bi_scan.simps) simp
    note n = bi_next_at [OF less.prems(1) assms(2) less.prems(2)]
    show ?thesis
    proof (cases "Suc i < length cs")
      case False
      then show ?thesis
        using n i True unfolding step by (subst (1 2 3) bi_scan.simps)
          (auto intro!: exI [of _ "Suc i"] simp: less_Suc_eq)
    next
      case t: True
      then have "length cs - Suc i < length cs - i" by simp
      from less.hyps [OF this] n t obtain j where
        "reads (bi_scan P (bi_next it)) cs rs" "Suc i \<le> j" "\<forall>m. Suc i \<le> m \<and> m < j \<longrightarrow> Q m"
        "if j < length cs then at_cell (bi_scan P (bi_next it)) cs j \<and> \<not> Q j
          else j = length cs \<and> \<not> it_valid (bi_scan P (bi_next it))"
        by auto
      moreover from this True have "\<forall>m. i \<le> m \<and> m < j \<longrightarrow> Q m"
        by (metis Suc_leI le_eq_less_or_eq)
      ultimately show ?thesis unfolding step by (intro conjI exI [of _ j]) auto
    qed
  qed
qed

section \<open>The reader as a cursor\<close>

lemma seek_loop_finds:
  assumes "reads it cs rs" and "wf_block cs rs" and "cs \<noteq> []"
    and "low \<le> high" and "high < length rs" and "low = 0 \<or> cell_key cs (rs ! low) \<le> target"
  shows "\<exists>it' l. seek_loop it target low high = (it', Some l) \<and> reads it' cs rs \<and> l < length rs
    \<and> (l = 0 \<or> cell_key cs (rs ! l) \<le> target)"
  using assms(1,4-6)
proof (induction "high - low" arbitrary: it low high rule: less_induct)
  case less
  show ?case
  proof (cases "low < high")
    case False
    then show ?thesis using less.prems by (subst seek_loop.simps) auto
  next
    case True
    define mid where "mid = low + (high - low + 1) div 2"
    have mid: "low < mid" "mid \<le> high" using True by (auto simp: mid_def)
    have at: "reads (seek_to_restart it mid) cs rs" "at_cell (seek_to_restart it mid) cs (rs ! mid)"
      using seek_to_restart_at [OF less.prems(1) assms(2) _ assms(3), of mid] mid less.prems(3) by auto
    then have "seek_loop it target low high =
        (if cell_key cs (rs ! mid) \<le> target then seek_loop (seek_to_restart it mid) target mid high
         else seek_loop (seek_to_restart it mid) target low (mid - 1))"
      using True at_cell_key [OF at(2)]
      by (subst seek_loop.simps, unfold Let_def, fold mid_def) (simp add: at_cell_def)
    then show ?thesis
      using less.hyps [of high mid "seek_to_restart it mid"]
        less.hyps [of "mid - 1" low "seek_to_restart it mid"] less.prems at(1) mid by auto
  qed
qed

lemma restart_before_finds:
  assumes "reads it cs rs" and "wf_block cs rs" and "cs \<noteq> []" and "i < length cs"
    and "low \<le> high" and "high < length rs" and "rs ! low < i"
  shows "restart_before_loop it (cell_offset cs i) low high < length rs
    \<and> rs ! restart_before_loop it (cell_offset cs i) low high < i"
  using assms(5-7)
proof (induction "high - low" arbitrary: low high rule: less_induct)
  case less
  show ?case
  proof (cases "low < high")
    case False
    then show ?thesis using less.prems by (subst (1 2) restart_before_loop.simps) auto
  next
    case True
    define mid where "mid = low + (high - low + 1) div 2"
    have mid: "low < mid" "mid \<le> high" using True by (auto simp: mid_def)
    have "mid < length rs" using mid less.prems by simp
    moreover from this have "rs ! mid < length cs"
      using assms(2,3) by (auto simp: wf_block_def restarts_ok_def dest: nth_mem)
    ultimately have "restart_offset it mid < cell_offset cs i \<longleftrightarrow> rs ! mid < i"
      using restart_offset_reads [OF assms(1,2)] assms(4) by (simp add: cell_offset_less_iff)
    then have "restart_before_loop it (cell_offset cs i) low high =
        (if rs ! mid < i then restart_before_loop it (cell_offset cs i) mid high
         else restart_before_loop it (cell_offset cs i) low (mid - 1))"
      using True by (subst restart_before_loop.simps, unfold Let_def, fold mid_def) simp
    then show ?thesis
      using less.hyps [of high mid] less.hyps [of "mid - 1" low] less.prems mid by auto
  qed
qed

definition block_rep :: "block_iter \<Rightarrow> entry list \<Rightarrow> nat \<Rightarrow> bool" where
  "block_rep it es i \<longleftrightarrow>
     (\<exists>cs rs. wf_block cs rs \<and> map (\<lambda>c. entry_view (snd c)) cs = es \<and> sorted_keys es \<and> reads it cs rs
        \<and> i \<le> length es \<and> (if i < length es then at_cell it cs i else \<not> it_valid it))"

lemma block_repI:
  assumes "wf_block cs rs" and "map (\<lambda>c. entry_view (snd c)) cs = es" and "sorted_keys es"
    and "reads it cs rs" and "i \<le> length es"
    and "if i < length es then at_cell it cs i else \<not> it_valid it"
  shows "block_rep it es i"
  using assms unfolding block_rep_def by blast

lemma cell_key_nth:
  "map (\<lambda>c. entry_view (snd c)) cs = es \<Longrightarrow> i < length cs \<Longrightarrow> cell_key cs i = fst (es ! i)"
  by (auto simp: cell_key_def entry_view_def split: prod.splits)

lemma block_rep_new:
  assumes "blockable ri es"
  shows "block_rep (BlockIterator (build_block ri es)) (map entry_view es) (length es)"
proof -
  obtain cs rs where c: "build_block ri es = block_image cs rs" "wf_block cs rs" "map snd cs = es"
    using build_block_image [OF assms] .
  have "map (\<lambda>c. entry_view (snd c)) cs = map entry_view es"
    unfolding c(3) [symmetric] by simp
  moreover have "map fst (map entry_view es) = map fst es"
    by (simp add: entry_view_def split_def)
  then have "sorted_keys (map entry_view es)"
    using assms unfolding sorted_keys_def blockable_def by (simp only:)
  ultimately show ?thesis
    using BlockIterator_reads [OF c(2)] c by (intro block_repI) auto
qed

lemma block_rep_first:
  assumes "block_rep it es i"
  shows "block_rep (bi_seek_to_first it) es 0"
proof -
  obtain cs rs where c: "wf_block cs rs" "map (\<lambda>c. entry_view (snd c)) cs = es" "sorted_keys es"
      "reads it cs rs"
    using assms unfolding block_rep_def by blast
  have st: "bi_seek_to_first it = (case parse_entry (it\<lparr> it_key := [] \<rparr>) 0 of (ok, it) \<Rightarrow>
      if ok then it else invalidate it)"
    using c(4) by (simp add: bi_seek_to_first_def reads_def)
  show ?thesis
  proof (cases cs)
    case Nil
    then have "bi_seek_to_first it = invalidate (it\<lparr> it_key := [] \<rparr>)"
      using parse_end [of "it\<lparr> it_key := [] \<rparr>" "[]" rs] c(4) unfolding st by simp
    with c Nil show ?thesis by (intro block_repI [OF c(1-3)]) (auto simp: invalidate_def reads_def)
  next
    case (Cons c0 cs')
    then have "0 < length cs" "cell_ok cs 0" using c(1) by (auto simp: wf_block_def)
    moreover from this(2) have "fst (cs ! 0) = 0" by (auto simp: cell_ok_def split: prod.splits)
    ultimately have "0 < length cs" "fst (cs ! 0) = 0" by simp_all
    with parse_cell [of "it\<lparr> it_key := [] \<rparr>" cs rs 0] c(1,4) obtain it' where
      "parse_entry (it\<lparr> it_key := [] \<rparr>) 0 = (True, it')" "reads it' cs rs" "at_cell it' cs 0"
      by auto
    with c Cons show ?thesis unfolding st by (intro block_repI [OF c(1-3)]) auto
  qed
qed

lemma block_rep_next:
  assumes "block_rep it es i" and "i < length es"
  shows "block_rep (bi_next it) es (Suc i)"
proof -
  obtain cs rs where c: "wf_block cs rs" "map (\<lambda>c. entry_view (snd c)) cs = es" "sorted_keys es"
      "reads it cs rs" "at_cell it cs i"
    using assms unfolding block_rep_def by auto
  then show ?thesis
    using bi_next_at [OF c(4) c(1) c(5)] assms(2) by (intro block_repI [OF c(1-3)]) auto
qed

lemma block_rep_seek:
  assumes "block_rep it es i"
  shows "block_rep (bi_seek it t) es (lower_pos es t)"
proof -
  obtain cs rs where c: "wf_block cs rs" "map (\<lambda>c. entry_view (snd c)) cs = es" "sorted_keys es"
      "reads it cs rs"
    using assms unfolding block_rep_def by blast
  have rs: "rs \<noteq> []" "rs ! 0 = 0"
    using c(1) by (auto simp: wf_block_def restarts_ok_def hd_conv_nth)
  have last: "unat (num_restarts it) - 1 = length rs - 1" using c(4) by (simp add: reads_def)
  have st: "bi_seek it t = (case seek_loop it t 0 (length rs - 1) of
      (it, None) \<Rightarrow> it
    | (it, Some low) \<Rightarrow> bi_scan (\<lambda>it. it_key it < t) (seek_to_restart it low))"
    using c(4) last by (simp add: bi_seek_def reads_def)
  show ?thesis
  proof (cases "cs = []")
    case True
    then have "length rs = 1"
      using c(1) by (cases rs; cases "tl rs") (auto simp: wf_block_def restarts_ok_def)
    then have "bi_seek it t = bi_scan (\<lambda>it. it_key it < t) (seek_to_restart it 0)"
      unfolding st by (subst seek_loop.simps) simp
    moreover have "reads (seek_to_restart it 0) cs rs" "\<not> it_valid (seek_to_restart it 0)"
      using seek_to_restart_empty [of it rs 0] c(1,4) rs True by auto
    ultimately show ?thesis
      using True c by (subst (asm) bi_scan.simps)
        (intro block_repI [OF c(1-3)], auto simp: lower_pos_def)
  next
    case False
    then obtain it' l where l: "seek_loop it t 0 (length rs - 1) = (it', Some l)" "reads it' cs rs"
        "l < length rs" "l = 0 \<or> cell_key cs (rs ! l) \<le> t"
      using seek_loop_finds [OF c(4) c(1) False, of 0 "length rs - 1" t] rs by auto
    note at = seek_to_restart_at [OF l(2) c(1) l(3) False]
    have key: "cell_key cs m = fst (es ! m)" if "m < length cs" for m
      using cell_key_nth [OF c(2) that] .
    have len: "length cs = length es" using c(2) by auto
    have "it_key it < t \<longleftrightarrow> fst (es ! j) < t" if "at_cell it cs j" for it j
      using at_cell_key [OF that] key that by (simp add: at_cell_def)
    then obtain j where j: "rs ! l \<le> j" "\<forall>m. rs ! l \<le> m \<and> m < j \<longrightarrow> fst (es ! m) < t"
        "reads (bi_seek it t) cs rs"
        "if j < length cs then at_cell (bi_seek it t) cs j \<and> \<not> fst (es ! j) < t
         else j = length cs \<and> \<not> it_valid (bi_seek it t)"
      using bi_scan_at [OF at(1) c(1) at(2), of "\<lambda>it. it_key it < t" "\<lambda>j. fst (es ! j) < t"] l(1)
      unfolding st by auto
    have before: "fst (es ! m) < t" if "m < j" for m
    proof (cases "rs ! l \<le> m")
      case True
      with j(2) that show ?thesis by blast
    next
      case False
      then have "m < rs ! l" "rs ! l < length cs" "l \<noteq> 0"
        using at(2) rs by (auto simp: at_cell_def intro: ccontr)
      then show ?thesis
        using l(4) key sorted_keys_nth [OF c(3), of m "rs ! l"] len by auto
    qed
    have "j \<le> length es" using j(4) len by (auto split: if_splits)
    then have "lower_pos es t = j"
      using lower_pos_unique [OF c(3), of j t] before j(4) len by (auto split: if_splits)
    then show ?thesis using j len by (intro block_repI [OF c(1-3)]) (auto split: if_splits)
  qed
qed

lemma block_rep_last:
  assumes "block_rep it es i"
  shows "block_rep (bi_seek_to_last it) es (length es - 1)"
proof -
  obtain cs rs where c: "wf_block cs rs" "map (\<lambda>c. entry_view (snd c)) cs = es" "sorted_keys es"
      "reads it cs rs"
    using assms unfolding block_rep_def by blast
  have len: "length cs = length es" using c(2) by auto
  have rs: "length rs - 1 < length rs" "unat (num_restarts it) = length rs"
    using c(1,4) by (auto simp: wf_block_def restarts_ok_def reads_def)
  have st: "bi_seek_to_last it =
      bi_scan (\<lambda>it. next_offset it < entries_end it) (seek_to_restart it (length rs - 1))"
    using c(4) rs by (simp add: bi_seek_to_last_def reads_def)
  show ?thesis
  proof (cases "cs = []")
    case True
    then have "reads (seek_to_restart it (length rs - 1)) cs rs"
        "\<not> it_valid (seek_to_restart it (length rs - 1))"
      using seek_to_restart_empty [of it rs "length rs - 1"] c(1,4) rs(1) by auto
    then show ?thesis
      unfolding st using True c by (subst bi_scan.simps) (intro block_repI [OF c(1-3)], auto)
  next
    case False
    note at = seek_to_restart_at [OF c(4) c(1) rs(1) False]
    have "next_offset it < entries_end it \<longleftrightarrow> Suc j < length cs" if "reads it cs rs" "at_cell it cs j" for it j
      using that by (simp add: reads_def at_cell_def cell_offset_less_iff)
    from bi_scan_at [where P = "\<lambda>it. next_offset it < entries_end it" and Q = "\<lambda>j. Suc j < length cs",
        OF at(1) c(1) at(2) this]
    obtain j where j:
        "reads (bi_seek_to_last it) cs rs" "\<forall>m. rs ! (length rs - 1) \<le> m \<and> m < j \<longrightarrow> Suc m < length cs"
        "rs ! (length rs - 1) \<le> j"
        "if j < length cs then at_cell (bi_seek_to_last it) cs j \<and> \<not> Suc j < length cs
         else j = length cs \<and> \<not> it_valid (bi_seek_to_last it)"
      unfolding st by auto
    have "rs ! (length rs - 1) < length cs" using at(2) by (simp add: at_cell_def)
    then have "rs ! (length rs - 1) \<le> length cs - 1" "\<not> Suc (length cs - 1) < length cs" by linarith+
    then have "\<not> length cs - 1 < j" using j(2) by blast
    then have "j < length cs" using False by (cases cs) auto
    moreover from this j(4) have "j = length es - 1" using len by (auto split: if_splits)
    ultimately show ?thesis using j(1,4) len by (intro block_repI [OF c(1-3)]) auto
  qed
qed

lemma block_rep_prev:
  assumes "block_rep it es i" and "i < length es"
  shows "block_rep (bi_prev it) es (if i = 0 then length es else i - 1)"
proof -
  obtain cs rs where c: "wf_block cs rs" "map (\<lambda>c. entry_view (snd c)) cs = es" "sorted_keys es"
      "reads it cs rs" "at_cell it cs i"
    using assms unfolding block_rep_def by auto
  have len: "length cs = length es" using c(2) by auto
  have cur: "it_valid it" "current_offset it = cell_offset cs i" using c(5) by (simp_all add: at_cell_def)
  have zero: "cell_offset cs i = 0 \<longleftrightarrow> i = 0"
    using cell_offset_eq_iff [of i cs 0] assms(2) len by simp
  show ?thesis
  proof (cases "i = 0")
    case True
    then have "bi_prev it = invalidate it" using cur zero by (simp add: bi_prev_def)
    with c True show ?thesis by (intro block_repI [OF c(1-3)]) (auto simp: invalidate_def reads_def)
  next
    case False
    have ne: "cs \<noteq> []" using assms(2) len by auto
    define l where "l = restart_before it (cell_offset cs i)"
    have l: "l < length rs" "rs ! l < i"
      using restart_before_finds [OF c(4) c(1) ne, of i 0 "length rs - 1"] False assms(2) len c(1,4)
      by (auto simp: l_def restart_before_def reads_def wf_block_def restarts_ok_def hd_conv_nth)
    note at = seek_to_restart_at [OF c(4) c(1) l(1) ne]
    have "next_offset it < cell_offset cs i \<longleftrightarrow> Suc j < i" if "reads it cs rs" "at_cell it cs j" for it j
      using that assms(2) len by (simp add: at_cell_def cell_offset_less_iff)
    from bi_scan_at [where P = "\<lambda>it. next_offset it < cell_offset cs i" and Q = "\<lambda>j. Suc j < i",
        OF at(1) c(1) at(2) this]
    obtain j it' where j:
        "it' = bi_scan (\<lambda>it. next_offset it < cell_offset cs i) (seek_to_restart it l)"
        "reads it' cs rs" "\<forall>m. rs ! l \<le> m \<and> m < j \<longrightarrow> Suc m < i" "rs ! l \<le> j"
        "if j < length cs then at_cell it' cs j \<and> \<not> Suc j < i else j = length cs \<and> \<not> it_valid it'"
      by auto
    have "rs ! l \<le> i - 1" "\<not> Suc (i - 1) < i" using l(2) by linarith+
    then have "j \<le> i - 1" using j(3) by (meson not_le)
    then have "j = i - 1" using j(5) False assms(2) len by (auto split: if_splits)
    then have "at_cell it' cs (i - 1)" using j(5) False assms(2) len by (auto split: if_splits)
    then have "bi_prev it = it'"
      using cur zero False j(1) by (simp add: bi_prev_def Let_def l_def at_cell_def)
    then show ?thesis
      using j(2) \<open>at_cell it' cs (i - 1)\<close> False assms(2) len by (intro block_repI [OF c(1-3)]) auto
  qed
qed

lemma block_rep_ok: "block_rep it es i \<Longrightarrow> it_status it = Ok \<and> it_data it \<noteq> None"
  by (auto simp: block_rep_def reads_def)

lemma block_rep_valid: "block_rep it es i \<Longrightarrow> it_valid it \<longleftrightarrow> i < length es"
  by (auto simp: block_rep_def at_cell_def split: if_splits)

lemma block_rep_entry: "block_rep it es i \<Longrightarrow> i < length es \<Longrightarrow> it_entry it = es ! i"
  by (auto simp: block_rep_def at_cell_def)

lemma block_rep_seek_for_prev:
  assumes "block_rep it es i"
  shows "block_rep (bi_seek_for_prev it t) es (floor_pos es t)"
proof -
  have sorted: "sorted_keys es" using assms by (auto simp: block_rep_def)
  note s = block_rep_seek [OF assms, of t]
  have st: "bi_seek_for_prev it t =
      (if lower_pos es t < length es
       then if fst (es ! lower_pos es t) = t then bi_seek it t else bi_prev (bi_seek it t)
       else bi_seek_to_last (bi_seek it t))"
    using block_rep_ok [OF assms] block_rep_ok [OF s] block_rep_valid [OF s]
      arg_cong [OF block_rep_entry [OF s], of fst]
    by (auto simp: bi_seek_for_prev_def it_entry_def Let_def)
  show ?thesis
    unfolding st floor_pos_lower [OF sorted]
    using s block_rep_prev [OF s] block_rep_last [OF s] lower_pos_le [of es t] by auto
qed

lemma block_rep_sorted: "block_rep it es i \<Longrightarrow> sorted_keys es \<and> i \<le> length es"
  by (auto simp: block_rep_def)

interpretation block: cursor block_rep it_valid it_entry "\<lambda>it. it_status it = Ok"
    bi_seek_to_first bi_seek bi_next bi_seek_to_last bi_seek_for_prev bi_prev
  by unfold_locales
     (simp_all add: block_rep_sorted block_rep_ok block_rep_valid block_rep_entry block_rep_first
       block_rep_seek block_rep_next block_rep_last [unfolded One_nat_def] block_rep_seek_for_prev block_rep_prev)

section \<open>Properties\<close>

lemma map_entry_view_nth: "i < length es \<Longrightarrow> map entry_view es ! i = entry_view (es ! i)"
  by simp

lemma fst_entry_view [simp]: "fst (entry_view e) = fst e"
  by (simp add: entry_view_def split_def)

lemma find_entry_view:
  "(\<And>e. P (entry_view e) = P e) \<Longrightarrow> find P (map entry_view es) = map_option entry_view (find P es)"
  by (induction es) auto

text \<open>
  A block round trips: scanning what the builder produced from its first entry with \<open>next\<close>
  yields exactly the entries added, in order and without an error, whatever the restart interval;
  the one thing a block does not keep is the value of a deletion.
\<close>

theorem block_scan_round_trip:
  assumes "blockable ri es"
  shows "\<exists>it. drain it_valid it_entry bi_next (length es)
      (bi_seek_to_first (BlockIterator (build_block ri es))) = (map entry_view es, it)
    \<and> \<not> it_valid it \<and> it_status it = Ok"
proof -
  note r = block_rep_first [OF block_rep_new [OF assms]]
  from block.drain_rep [OF r, of "length es"] show ?thesis
    using block_rep_ok block_rep_valid by (intro exI conjI prod_eqI) fastforce+
qed

text \<open>
  Searching a block the builder produced: the forward seek lands on the first entry whose key
  is at or after the target, the reverse seek on the last entry at or before it, each is not valid
  exactly when there is no such entry, and neither reports an error.
\<close>

theorem block_seek_correct:
  assumes "blockable ri es"
  shows "let it = BlockIterator (build_block ri es);
             up = bi_seek it t; down = bi_seek_for_prev it t
         in it_status up = Ok \<and> it_status down = Ok
          \<and> (if it_valid up then Some (it_entry up) else None)
              = map_option entry_view (find (\<lambda>e. t \<le> fst e) es)
          \<and> (if it_valid down then Some (it_entry down) else None)
              = map_option entry_view (find (\<lambda>e. fst e \<le> t) (rev es))"
proof -
  let ?vs = "map entry_view es"
  note new = block_rep_new [OF assms]
  note up = block_rep_seek [OF new, of t] and down = block_rep_seek_for_prev [OF new, of t]
  have sorted: "sorted_keys ?vs" using block_rep_sorted [OF new] by simp
  have bound: "floor_pos ?vs t \<le> length es" using block_rep_sorted [OF down] by simp
  have "find (\<lambda>e. fst e \<le> t) (rev ?vs)
      = (if floor_pos ?vs t < length es then Some (?vs ! floor_pos ?vs t) else None)"
  proof (cases "floor_pos ?vs t < length es")
    case True
    let ?f = "floor_pos ?vs t" and ?n = "length es"
    have "rev ?vs ! (?n - 1 - ?f) = ?vs ! ?f" using True by (simp add: rev_nth)
    moreover have "\<not> fst (rev ?vs ! j) \<le> t" if "j < ?n - 1 - ?f" for j
    proof -
      have "?f < ?n - 1 - j" "?n - 1 - j < length ?vs" using that True by auto
      then have "t < fst (?vs ! (?n - 1 - j))"
        using floor_pos_props(2) [OF sorted, of t "?n - 1 - j"] True by (simp only: length_map)
      then show ?thesis using that by (simp add: rev_nth)
    qed
    ultimately show ?thesis
      using floor_pos_props(1) [OF sorted] True
      by (auto simp: find_Some_iff intro!: exI [of _ "?n - 1 - ?f"] simp del: rev_map)
  next
    case False
    then have "floor_pos ?vs t = length ?vs" using bound by simp
    with floor_pos_none [OF sorted this] show ?thesis
      by (force simp: find_None_iff in_set_conv_nth not_le)
  qed
  then have rev: "map_option entry_view (find (\<lambda>e. fst e \<le> t) (rev es))
      = (if floor_pos ?vs t < length es then Some (?vs ! floor_pos ?vs t) else None)"
    using find_entry_view [of "\<lambda>e. fst e \<le> t" "rev es"] by (simp add: rev_map)
  have fwd: "map_option entry_view (find (\<lambda>e. t \<le> fst e) es)
      = (if lower_pos ?vs t < length es then Some (?vs ! lower_pos ?vs t) else None)"
    using find_entry_view [of "\<lambda>e. t \<le> fst e" es] lower_pos_find [of t ?vs] by simp
  show ?thesis
    unfolding Let_def rev fwd
    using block_rep_ok [OF up] block_rep_ok [OF down] block_rep_valid [OF up] block_rep_valid [OF down]
      block_rep_entry [OF up] block_rep_entry [OF down] by simp
qed

subsection \<open>Witnesses\<close>

definition sample_entries :: "entry list" where
  "sample_entries = [([0x61, 0x62], Put, [1]), ([0x61, 0x63], Delete, []), ([0x62], Put, [2, 3])]"

lemma sample_blockable: "blockable 2 sample_entries"
proof -
  have v: "put_varint32 0 = [0]" "put_varint32 1 = [1]" "put_varint32 2 = [2]"
    unfolding put_varint32_def by (subst put_varint.simps, simp)+
  show ?thesis
    by (simp add: blockable_def sample_entries_def build_block_def bb_add_all_def BlockBuilder_def
        bb_add_def bb_finish_def Let_def v)
qed

theorem block_scan_round_trip_witness:
  "\<exists>it. drain it_valid it_entry bi_next 3
      (bi_seek_to_first (BlockIterator (build_block 2 sample_entries))) = (sample_entries, it)"
proof -
  have "length sample_entries = 3" "map entry_view sample_entries = sample_entries"
    by (simp_all add: sample_entries_def entry_view_def)
  with block_scan_round_trip [OF sample_blockable] show ?thesis by auto
qed

theorem block_seek_correct_witness:
  "it_valid (bi_seek (BlockIterator (build_block 2 sample_entries)) [0x61, 0x63])
   \<and> it_entry (bi_seek (BlockIterator (build_block 2 sample_entries)) [0x61, 0x63])
      = ([0x61, 0x63], Delete, [])"
  using block_seek_correct [OF sample_blockable, of "[0x61, 0x63]"]
  by (simp add: sample_entries_def entry_view_def Let_def split: if_splits)

end
