(* ===== verification/Bloom.thy ===== *)
theory Bloom
  imports Checksum
begin

text \<open>
  The blocked bloom filter of src/sst/bloom.cpp. Every key sets and tests its probes inside one
  64-byte block; the filter ends with the number of blocks and the number of probes.
\<close>

record bloom_builder =
  bits_per_key :: int
  num_probes :: int
  hashes :: "u64 list"

definition kBlockBits :: nat where "kBlockBits = 512"
definition kBlockBytes :: nat where "kBlockBytes = kBlockBits div 8"
definition kFilterTrailer :: nat where "kFilterTrailer = 5"

definition derive_h2 :: "u64 \<Rightarrow> u64" where
  "derive_h2 h = drop_bit 32 h OR 1"

definition block_index :: "u64 \<Rightarrow> u32 \<Rightarrow> nat" where
  "block_index h num_blocks = unat (drop_bit 32 (drop_bit 32 h * ucast num_blocks))"

definition BloomBuilder :: "int \<Rightarrow> int \<Rightarrow> bloom_builder" where
  "BloomBuilder bpk probes =
     \<lparr> bits_per_key = max 1 bpk, num_probes = min 32 (max 1 probes), hashes = [] \<rparr>"

definition bloom_add :: "bloom_builder \<Rightarrow> bytes \<Rightarrow> bloom_builder" where
  "bloom_add b key = b\<lparr> hashes := hashes b @ [xxhash64 key 0] \<rparr>"

definition bloom_num_blocks :: "bloom_builder \<Rightarrow> u32" where
  "bloom_num_blocks b =
     (let total_bits = max 512 (of_nat (length (hashes b)) * of_int (bits_per_key b)) :: u64
      in ucast ((total_bits + 512 - 1) div 512))"

fun set_probes :: "nat \<Rightarrow> nat \<Rightarrow> u64 \<Rightarrow> u64 \<Rightarrow> bytes \<Rightarrow> bytes" where
  "set_probes 0 base h h2 bits = bits"
| "set_probes (Suc n) base h h2 bits =
     (let bit = unat h mod kBlockBits;
          at = base + bit div 8
      in set_probes n base (h + h2) h2 (bits[at := (bits ! at) OR push_bit (bit mod 8) 1]))"

definition bloom_finish :: "bloom_builder \<Rightarrow> bytes" where
  "bloom_finish b =
     (let num_blocks = bloom_num_blocks b;
          bits = replicate (unat num_blocks * kBlockBytes) 0;
          bits = fold (\<lambda>h. set_probes (nat (num_probes b)) (block_index h num_blocks * kBlockBytes) h (derive_h2 h))
                   (hashes b) bits
      in bits @ put_fixed32 num_blocks @ [of_int (num_probes b)])"

fun test_probes :: "nat \<Rightarrow> nat \<Rightarrow> u64 \<Rightarrow> u64 \<Rightarrow> bytes \<Rightarrow> bool" where
  "test_probes 0 base h h2 bits = True"
| "test_probes (Suc n) base h h2 bits =
     (let bit = unat h mod kBlockBits
      in if (bits ! (base + bit div 8)) AND push_bit (bit mod 8) 1 = 0 then False
         else test_probes n base (h + h2) h2 bits)"

definition bloom_may_contain :: "bytes \<Rightarrow> bytes \<Rightarrow> bool" where
  "bloom_may_contain flt key =
     (if length flt \<le> kFilterTrailer then True
      else
        let bitmap_bytes = length flt - kFilterTrailer;
            num_blocks = decode_fixed32 (drop bitmap_bytes flt);
            probes = flt ! (length flt - 1)
        in if num_blocks = 0 \<or> probes = 0 \<or> unat num_blocks * kBlockBytes \<noteq> bitmap_bytes then True
           else let h = xxhash64 key 0
                in test_probes (unat probes) (block_index h num_blocks * kBlockBytes) h (derive_h2 h) flt)"

section \<open>No false negatives\<close>

definition bloom_bit :: "bytes \<Rightarrow> nat \<Rightarrow> nat \<Rightarrow> bool" where
  "bloom_bit bits at n \<longleftrightarrow> at < length bits \<and> bit (bits ! at) n"

definition probe_byte :: "u64 \<Rightarrow> nat" where "probe_byte h = unat h mod kBlockBits div 8"
definition probe_bit :: "u64 \<Rightarrow> nat" where "probe_bit h = unat h mod kBlockBits mod 8"

lemma probe_bounds: "probe_byte h < 64" "probe_bit h < 8"
proof -
  have "unat h mod 512 < 512" by simp
  then show "probe_byte h < 64" "probe_bit h < 8"
    by (auto simp: probe_byte_def probe_bit_def kBlockBits_def less_mult_imp_div_less)
qed

lemma set_probes_Suc:
  "set_probes (Suc n) base h h2 bits =
     set_probes n base (h + h2) h2
       (bits[base + probe_byte h := (bits ! (base + probe_byte h)) OR push_bit (probe_bit h) 1])"
  by (simp add: Let_def probe_byte_def probe_bit_def)

lemma test_probes_Suc:
  "test_probes (Suc n) base h h2 bits \<longleftrightarrow>
     (bits ! (base + probe_byte h)) AND push_bit (probe_bit h) 1 \<noteq> 0
     \<and> test_probes n base (h + h2) h2 bits"
  by (simp add: Let_def probe_byte_def probe_bit_def)

declare set_probes.simps(2) [simp del] test_probes.simps(2) [simp del]

lemma length_set_probes [simp]: "length (set_probes n base h h2 bits) = length bits"
  by (induction n arbitrary: h bits) (simp_all add: set_probes_Suc)

lemma bloom_bit_or:
  "bloom_bit bits at m \<Longrightarrow> bloom_bit (bits[a := (bits ! a) OR w]) at m"
  by (cases "a = at") (auto simp: bloom_bit_def bit_or_iff)

lemma set_probes_keeps: "bloom_bit bits at m \<Longrightarrow> bloom_bit (set_probes n base h h2 bits) at m"
  by (induction n arbitrary: h bits) (auto simp: set_probes_Suc intro: bloom_bit_or)

lemma bit_single: "bit (push_bit n 1 :: byte) m \<longleftrightarrow> n = m \<and> n < 8"
  by (auto simp: push_bit_eq_mult bit_simps)

lemma single_bit_and: "w AND push_bit n 1 \<noteq> 0 \<longleftrightarrow> bit w n" if "n < 8" for w :: byte
  using that by (simp add: push_bit_eq_mult and_exp_eq_0_iff_not_bit)

lemma probe_step: "h + h2 + of_nat j * h2 = h + of_nat (Suc j) * h2" for h h2 :: u64
  by (simp add: algebra_simps)

lemma test_probes_iff:
  assumes "base + 64 \<le> length bits"
  shows "test_probes n base h h2 bits \<longleftrightarrow>
    (\<forall>j < n. bloom_bit bits (base + probe_byte (h + of_nat j * h2)) (probe_bit (h + of_nat j * h2)))"
proof (induction n arbitrary: h)
  case (Suc n)
  have here: "(bits ! (base + probe_byte h)) AND push_bit (probe_bit h) 1 \<noteq> 0
      \<longleftrightarrow> bloom_bit bits (base + probe_byte h) (probe_bit h)"
    using assms probe_bounds [of h] unfolding single_bit_and [OF probe_bounds(2)] bloom_bit_def by auto
  show ?case
    unfolding test_probes_Suc here Suc probe_step
    by (auto simp: less_Suc_eq_0_disj simp del: of_nat_Suc)
qed simp

lemma set_probes_sets:
  assumes "base + 64 \<le> length bits" and "j < n"
  shows "bloom_bit (set_probes n base h h2 bits)
    (base + probe_byte (h + of_nat j * h2)) (probe_bit (h + of_nat j * h2))"
  using assms
proof (induction n arbitrary: h j bits)
  case (Suc n)
  show ?case
  proof (cases j)
    case 0
    have "bloom_bit (bits[base + probe_byte h := (bits ! (base + probe_byte h)) OR push_bit (probe_bit h) 1])
        (base + probe_byte h) (probe_bit h)"
      using Suc.prems(1) probe_bounds [of h] by (auto simp: bloom_bit_def bit_or_iff bit_single
          simp del: push_bit_of_1)
    then show ?thesis unfolding set_probes_Suc 0 by (simp add: set_probes_keeps del: push_bit_of_1)
  next
    case (Suc i)
    then show ?thesis
      using Suc.IH [of _ i "h + h2"] Suc.prems unfolding set_probes_Suc probe_step by simp
  qed
qed simp

lemma block_index_less:
  assumes "num_blocks \<noteq> 0"
  shows "block_index h num_blocks < unat num_blocks"
proof -
  have hi: "unat (drop_bit 32 h) < 2 ^ 32"
    using unsigned_less [of h, where 'a = nat]
    by (simp only: unat_drop_bit_eq) (simp add: drop_bit_eq_div less_mult_imp_div_less)
  have n: "0 < unat num_blocks" "unat num_blocks < 2 ^ 32"
    using assms unsigned_less [of num_blocks, where 'a = nat] by (simp_all add: unat_gt_0)
  have uc: "unat (ucast num_blocks :: u64) = unat num_blocks"
    using n(2) by (simp add: unsigned_ucast_eq take_bit_nat_eq_self)
  have lt: "unat (drop_bit 32 h) * unat num_blocks < 2 ^ 32 * unat num_blocks"
    using hi n(1) by simp
  also have "\<dots> < 2 ^ 64" using n(2) by simp
  finally have "unat (drop_bit 32 h * ucast num_blocks) = unat (drop_bit 32 h) * unat num_blocks"
    unfolding unat_word_ariths uc by simp
  then have "block_index h num_blocks = unat (drop_bit 32 h) * unat num_blocks div 2 ^ 32"
    unfolding block_index_def unat_drop_bit_eq [of 32 "drop_bit 32 h * ucast num_blocks"]
    by (simp only: drop_bit_eq_div [of 32 "a * b" for a b :: nat])
  then show ?thesis using lt by (simp add: less_mult_imp_div_less mult.commute)
qed

lemma fold_set_probes_sets:
  assumes "h \<in> set hs" and "\<forall>h \<in> set hs. base h + 64 \<le> length bits" and "j < n"
  shows "bloom_bit (fold (\<lambda>h. set_probes n (base h) h (f h)) hs bits)
    (base h + probe_byte (h + of_nat j * f h)) (probe_bit (h + of_nat j * f h))"
  using assms(1,2)
proof (induction hs arbitrary: bits)
  case (Cons a hs)
  have keep: "bloom_bit bits at m \<Longrightarrow> bloom_bit (fold (\<lambda>h. set_probes n (base h) h (f h)) hs bits) at m"
    for bits at m
    by (induction hs arbitrary: bits) (auto intro: set_probes_keeps)
  show ?case
  proof (cases "h \<in> set hs")
    case True
    with Cons show ?thesis by simp
  next
    case False
    then have "h = a" using Cons.prems by simp
    then show ?thesis
      using set_probes_sets [of "base a" bits j n a "f a"] Cons.prems assms(3) keep by simp
  qed
qed simp

lemma bloom_added_found:
  assumes "bloom_num_blocks b \<noteq> 0" and "1 \<le> num_probes b" and "num_probes b \<le> 32"
    and "xxhash64 key 0 \<in> set (hashes b)"
  shows "bloom_may_contain (bloom_finish b) key"
proof -
  define nb h bits where "nb = bloom_num_blocks b" and "h = xxhash64 key 0"
    and "bits = fold (\<lambda>h. set_probes (nat (num_probes b)) (block_index h nb * kBlockBytes) h (derive_h2 h))
      (hashes b) (replicate (unat nb * kBlockBytes) 0)"
  have len_fold: "length (fold (\<lambda>h. set_probes n (f h) h (g h)) hs bs) = length bs" for n f g hs bs
    by (induction hs arbitrary: bs) auto
  have len: "length bits = unat nb * 64"
    by (simp add: bits_def len_fold kBlockBytes_def kBlockBits_def)
  have fin: "bloom_finish b = bits @ put_fixed32 nb @ [of_int (num_probes b)]"
    by (simp add: bloom_finish_def Let_def bits_def nb_def)
  have inside: "block_index h nb * 64 + 64 \<le> length bits" for h
    using block_index_less [of nb h] assms(1) len by (simp add: nb_def)
  have probes: "unat (of_int (num_probes b) :: byte) = nat (num_probes b)"
  proof -
    obtain n where n: "num_probes b = int n" using assms(2) by (metis nonneg_int_cases order_trans zero_le_one)
    then show ?thesis using assms(3) by (simp add: unsigned_of_nat take_bit_nat_eq_self)
  qed
  then have nz: "(of_int (num_probes b) :: byte) \<noteq> 0" using assms(2) by auto
  have set_bits: "\<forall>j < nat (num_probes b). bloom_bit bits
      (block_index h nb * 64 + probe_byte (h + of_nat j * derive_h2 h))
      (probe_bit (h + of_nat j * derive_h2 h))"
    using fold_set_probes_sets [of h "hashes b" "\<lambda>h. block_index h nb * 64"
        "replicate (unat nb * 64) 0" _ "nat (num_probes b)" derive_h2] assms(4) inside len
    by (simp add: bits_def h_def kBlockBytes_def kBlockBits_def)
  then have "test_probes (nat (num_probes b)) (block_index h nb * 64) h (derive_h2 h) (bloom_finish b)"
    using inside [of h] unfolding fin
    by (subst test_probes_iff) (auto simp: bloom_bit_def nth_append)
  then show ?thesis
    using len probes nz assms(1) unfolding fin
    by (simp add: bloom_may_contain_def kFilterTrailer_def kBlockBytes_def kBlockBits_def Let_def
        codec_simps nth_append h_def nb_def)
qed

text \<open>A filter of fewer than a tebibit has a number of blocks that fits its field.\<close>

lemma unat_bloom_num_blocks:
  assumes "1 \<le> bits_per_key b" and "int (length (hashes b)) * bits_per_key b < 2 ^ 40"
  shows "unat (bloom_num_blocks b) = (max 512 (length (hashes b) * nat (bits_per_key b)) + 511) div 512"
proof -
  obtain n where n: "bits_per_key b = int n" using assms(1) by (metis nonneg_int_cases order_trans zero_le_one)
  define t where "t = length (hashes b) * n"
  have t: "t < 2 ^ 40" using assms(2) by (simp add: n t_def flip: of_nat_mult)
  have "(of_nat (length (hashes b)) * of_int (bits_per_key b) :: u64) = of_nat t"
    by (simp add: n t_def)
  moreover have "max 512 (of_nat t :: u64) = of_nat (max 512 t)"
    using t by (auto simp: max_def word_le_nat_alt unsigned_of_nat take_bit_nat_eq_self)
  ultimately have nb: "bloom_num_blocks b = ucast ((of_nat (max 512 t) + 512 - 1) div 512 :: u64)"
    by (simp add: bloom_num_blocks_def)
  define m where "m = max 512 t"
  have m: "512 \<le> m" "m < 2 ^ 40" using t by (auto simp: m_def)
  have "unat (of_nat (m + 511) :: u64) = m + 511"
    using m(2) by (simp only: unsigned_of_nat) (simp add: take_bit_nat_eq_self)
  moreover have "(of_nat m + 512 - 1 :: u64) = of_nat (m + 511)" by simp
  ultimately have "unat ((of_nat m + 512 - 1) div 512 :: u64) = (m + 511) div 512"
    by (simp only: unat_div) simp
  moreover have "(m + 511) div 512 < 2 ^ 32"
    using m by (simp add: div_less_iff_less_mult)
  ultimately have "unat (bloom_num_blocks b) = (m + 511) div 512"
    unfolding nb m_def [symmetric] by (simp add: unsigned_ucast_eq take_bit_nat_eq_self)
  then show ?thesis by (simp add: m_def t_def n)
qed

lemma bloom_num_blocks_pos:
  assumes "1 \<le> bits_per_key b" and "int (length (hashes b)) * bits_per_key b < 2 ^ 40"
  shows "bloom_num_blocks b \<noteq> 0"
proof -
  have "0 < (max 512 (length (hashes b) * nat (bits_per_key b)) + 511) div 512" by (simp add: div_greater_zero_iff)
  then show ?thesis using unat_bloom_num_blocks [OF assms] by (metis less_irrefl unsigned_0)
qed

abbreviation bloom_of :: "int \<Rightarrow> int \<Rightarrow> bytes list \<Rightarrow> bloom_builder" where
  "bloom_of bpk probes keys \<equiv> fold (\<lambda>key b. bloom_add b key) keys (BloomBuilder bpk probes)"

lemma bloom_add_all:
  "fold (\<lambda>key b. bloom_add b key) keys b = b\<lparr> hashes := hashes b @ map (\<lambda>key. xxhash64 key 0) keys \<rparr>"
  by (induction keys arbitrary: b) (simp_all add: bloom_add_def)

text \<open>
  [C23] The filter has no false negatives: build a filter with any numbers of bits and probes and add any
  keys to it, fewer than the \<open>2 ^ 40\<close> bits its field of blocks can count; a key that was added is never
  rejected.
\<close>

theorem bloom_no_false_negatives:
  assumes "int (length keys) * max 1 bpk < 2 ^ 40" and "key \<in> set keys"
  shows "bloom_may_contain (bloom_finish (fold (\<lambda>key b. bloom_add b key) keys (BloomBuilder bpk probes))) key"
proof (rule bloom_added_found)
  show "bloom_num_blocks (bloom_of bpk probes keys) \<noteq> 0"
    using assms(1) by (intro bloom_num_blocks_pos) (simp_all add: bloom_add_all BloomBuilder_def)
qed (use assms(2) in \<open>simp_all add: bloom_add_all BloomBuilder_def\<close>)

subsection \<open>Witness\<close>

theorem bloom_no_false_negatives_witness:
  "bloom_may_contain (bloom_finish (bloom_add (bloom_add (BloomBuilder 10 6) [1]) [2])) [1]"
  using bloom_no_false_negatives [of "[[1], [2]]" 10 "[1]" 6] by simp

end
