(* ===== verification/Sst_Writer.thy ===== *)
theory Sst_Writer
  imports Framing Footer Block Bloom
begin

text \<open>
  Table files are written by src/sst/sst_writer.cpp: data blocks cut by size, one index entry per
  data block carrying its last key, a bloom filter over all keys, an optional block of range
  tombstones, and the footer. The state of \<open>SstWriter\<close> is the record \<open>sst_writer\<close>, passed through.
\<close>

section \<open>State\<close>

record sst_options =
  block_bytes :: nat
  opt_restart_interval :: int
  bloom_bits_per_key :: int
  bloom_probes :: int
  opt_compression :: compression

record sst_build_result =
  r_bytes :: bytes
  r_num_entries :: u64
  r_num_tombstones :: u64
  r_smallest_key :: bytes
  r_largest_key :: bytes
  r_num_range_tombstones :: u64
  r_smallest_range_key :: bytes
  r_largest_range_key :: bytes

record sst_writer =
  w_options :: sst_options
  data_block :: block_builder
  index_block :: block_builder
  range_del_block :: block_builder
  bloom :: bloom_builder
  w_file :: bytes
  smallest_key :: bytes
  largest_key :: bytes
  num_entries :: u64
  num_tombstones :: u64
  num_range_tombstones :: u64
  smallest_range_key :: bytes
  largest_range_key :: bytes
  w_finished :: bool

section \<open>Operations\<close>

definition encode_handle :: "block_handle \<Rightarrow> bytes" where
  "encode_handle h = put_varint64 (offset h) @ put_varint64 (ucast (hlength h))"

definition SstWriter :: "sst_options \<Rightarrow> sst_writer" where
  "SstWriter opts = \<lparr> w_options = opts,
     data_block = BlockBuilder (opt_restart_interval opts),
     index_block = BlockBuilder (opt_restart_interval opts),
     range_del_block = BlockBuilder (opt_restart_interval opts),
     bloom = BloomBuilder (bloom_bits_per_key opts) (bloom_probes opts), w_file = [],
     smallest_key = [], largest_key = [], num_entries = 0, num_tombstones = 0,
     num_range_tombstones = 0, smallest_range_key = [], largest_range_key = [], w_finished = False \<rparr>"

definition flush_data_block :: "codec_library \<Rightarrow> sst_writer \<Rightarrow> status \<times> sst_writer" where
  "flush_data_block L w =
     (if bb_empty (data_block w) then (Ok, w)
      else
        let last = last_key (data_block w);
            (content, db) = bb_finish (data_block w);
            w = w\<lparr> data_block := db \<rparr>;
            off = length (w_file w);
            (s, file) = frame_block L content (opt_compression (w_options w)) (w_file w);
            w = w\<lparr> w_file := file \<rparr>
        in if s \<noteq> Ok then (s, w)
           else
             let handle = \<lparr> offset = of_nat off, hlength = of_nat (length file - off) \<rparr>
             in (Ok, w\<lparr> index_block := bb_add (index_block w) last Put (encode_handle handle),
                        data_block := bb_reset (data_block w) \<rparr>))"

definition sw_add :: "codec_library \<Rightarrow> sst_writer \<Rightarrow> bytes \<Rightarrow> value_type \<Rightarrow> bytes \<Rightarrow> sst_writer" where
  "sw_add L w key type value =
     (let w = (if num_entries w = 0 then w\<lparr> smallest_key := key \<rparr> else w);
          w = w\<lparr> largest_key := key, num_entries := num_entries w + 1,
                 num_tombstones := (if type = Delete then num_tombstones w + 1 else num_tombstones w),
                 bloom := bloom_add (bloom w) key,
                 data_block := bb_add (data_block w) key type value \<rparr>
      in if block_bytes (w_options w) \<le> bb_size_estimate (data_block w)
         then snd (flush_data_block L w) else w)"

definition sw_estimated_bytes :: "sst_writer \<Rightarrow> nat" where
  "sw_estimated_bytes w =
     length (w_file w) + bb_size_estimate (data_block w) + bb_size_estimate (index_block w) + kFooterLengthV1"

definition sw_add_range_tombstone :: "sst_writer \<Rightarrow> bytes \<Rightarrow> bytes \<Rightarrow> sst_writer" where
  "sw_add_range_tombstone w lo up =
     w\<lparr> range_del_block := bb_add (range_del_block w) lo Put up,
        smallest_range_key := (if num_range_tombstones w = 0 then lo else smallest_range_key w),
        largest_range_key := up,
        num_range_tombstones := num_range_tombstones w + 1 \<rparr>"

text \<open>The block a step of \<open>finish\<close> appends and the handle that names it.\<close>

definition append_block ::
    "codec_library \<Rightarrow> bytes \<Rightarrow> compression \<Rightarrow> bytes \<Rightarrow> (bytes \<times> block_handle) res" where
  "append_block L content codec file =
     (case frame_block L content codec file of
        (s, file') \<Rightarrow>
          if s \<noteq> Ok then Inl s
          else Inr (file', \<lparr> offset = of_nat (length file),
                             hlength = of_nat (length file' - length file) \<rparr>))"

definition sw_finish :: "codec_library \<Rightarrow> sst_writer \<Rightarrow> sst_build_result res" where
  "sw_finish L w =
     (case flush_data_block L (w\<lparr> w_finished := True \<rparr>) of
        (s, w) \<Rightarrow>
          if s \<noteq> Ok then Inl s
          else case append_block L (bloom_finish (bloom w)) None_codec (w_file w) of
            Inl s \<Rightarrow> Inl s
          | Inr (file, fh) \<Rightarrow>
          (case append_block L (fst (bb_finish (index_block w))) (opt_compression (w_options w)) file of
            Inl s \<Rightarrow> Inl s
          | Inr (file, ih) \<Rightarrow>
          (case (if num_range_tombstones w \<noteq> 0
                 then append_block L (fst (bb_finish (range_del_block w)))
                        (opt_compression (w_options w)) file
                 else Inr (file, zero_handle)) of
            Inl s \<Rightarrow> Inl s
          | Inr (file, rh) \<Rightarrow>
              Inr \<lparr> r_bytes = file @ footer_encode \<lparr> ffilter = fh, findex = ih,
                      fnum_entries = num_entries w, format_version = 3, range_del = rh, fcrc = 0 \<rparr>,
                    r_num_entries = num_entries w, r_num_tombstones = num_tombstones w,
                    r_smallest_key = smallest_key w, r_largest_key = largest_key w,
                    r_num_range_tombstones = num_range_tombstones w,
                    r_smallest_range_key = smallest_range_key w,
                    r_largest_range_key = largest_range_key w \<rparr>)))"

text \<open>
  \<open>build_sst\<close> drains its source with \<open>next\<close>; \<open>source\<close> is what it visits and \<open>source_status\<close> what the
  source reports when it stops.
\<close>

definition sw_add_all :: "codec_library \<Rightarrow> entry list \<Rightarrow> sst_writer \<Rightarrow> sst_writer" where
  "sw_add_all L es w = fold (\<lambda>(k, t, v) w. sw_add L w k t v) es w"

definition build_sst ::
    "codec_library \<Rightarrow> entry list \<Rightarrow> status \<Rightarrow> sst_options \<Rightarrow> bool \<Rightarrow> range_tombstone list
      \<Rightarrow> sst_build_result res" where
  "build_sst L source source_status opts drop_tombstones ranges =
     (let w = fold (\<lambda>r w. sw_add_range_tombstone w (lower r) (upper r)) ranges (SstWriter opts);
          w = sw_add_all L [(k, t, v) \<leftarrow> source. \<not> (drop_tombstones \<and> t = Delete)] w
      in if source_status \<noteq> Ok then Inl source_status else sw_finish L w)"

end
