(* ===== verification/Sst_Reader.thy ===== *)
theory Sst_Reader
  imports Sst_Writer
begin

text \<open>
  Table files are read by src/sst/sst_reader.cpp: \<open>open\<close> reads the tail of the file and the index
  block, \<open>get\<close> consults the filter and then one data block, and \<open>SstIterator\<close> walks the index and the
  data blocks in either direction.

  The blob store is a chain of layers, as include/elysiumkv/blob\_store.hpp has it; what a layer answers to a
  read is a parameter. What the reader changes outside itself is recorded: the objects whose cached
  copies the layers are told to drop, and the decoded blocks it puts into the block cache.
\<close>

section \<open>State\<close>

type_synonym blob_get = "bytes \<Rightarrow> u64 \<Rightarrow> nat \<Rightarrow> bytes res"

text \<open>
  A store that holds objects, a cache in front of another store, and an encrypted object, which reads
  through another store and is not a cache.
\<close>

datatype 'g store_chain = Store 'g | Cache_store 'g "'g store_chain" | Encrypted_object 'g "'g store_chain"

type_synonym blob_store = "blob_get store_chain"

fun bs_get :: "'g store_chain \<Rightarrow> 'g" where
  "bs_get (Store g) = g"
| "bs_get (Cache_store g delegate) = g"
| "bs_get (Encrypted_object g delegate) = g"

text \<open>\<open>as_cache\<close> of a store, with the delegate of the cache it returns; the base class has none.\<close>

fun as_cache :: "'g store_chain \<Rightarrow> 'g store_chain option" where
  "as_cache (Cache_store g delegate) = Some delegate"
| "as_cache _ = None"

lemma as_cache_size: "as_cache s = Some d \<Longrightarrow> size d < size s"
  by (cases s) auto

function authoritative_store :: "'g store_chain \<Rightarrow> 'g store_chain" where
  "authoritative_store s = (case as_cache s of None \<Rightarrow> s | Some delegate \<Rightarrow> authoritative_store delegate)"
  by pat_completeness auto
termination by (relation "measure size") (auto dest: as_cache_size)

declare authoritative_store.simps [simp del]

record blob_env =
  env_store :: blob_store
  invalidated :: "bytes list"
  block_cache :: "(u64 \<times> u64 \<rightharpoonup> bytes) option"

definition store_get :: "blob_env \<Rightarrow> blob_get" where
  "store_get env = bs_get (env_store env)"

text \<open>The authoritative store, when it is another than the one the reader has: when the walk takes a step.\<close>

definition authority_get :: "blob_env \<Rightarrow> blob_get option" where
  "authority_get env =
     (if as_cache (env_store env) = None then None else Some (bs_get (authoritative_store (env_store env))))"

lemma store_get_update [simp]:
  "store_get (env\<lparr> invalidated := xs \<rparr>) = store_get env" "store_get (env\<lparr> block_cache := bc \<rparr>) = store_get env"
  "authority_get (env\<lparr> invalidated := xs \<rparr>) = authority_get env" "authority_get (env\<lparr> block_cache := bc \<rparr>) = authority_get env"
  by (simp_all add: store_get_def authority_get_def)

record sst_reader =
  rd_name :: bytes
  rd_file_size :: u64
  rd_block_bytes :: nat
  rd_file_number :: u64
  rd_footer :: footer
  rd_index :: bytes
  rd_filter :: "bytes option"
  rd_ranges :: "range_tombstone list option"

definition handle_fits :: "block_handle \<Rightarrow> u64 \<Rightarrow> bool" where
  "handle_fits h file_size \<longleftrightarrow>
     ucast (hlength h) \<le> file_size \<and> offset h \<le> file_size - ucast (hlength h)"

text \<open>The value of an index entry; \<open>decode_handle\<close> of the reader, not the fixed-width one of the footer.\<close>

definition decode_index_handle :: "bytes \<Rightarrow> block_handle option" where
  "decode_index_handle encoded =
     (case get_varint64 encoded of
        None \<Rightarrow> None
      | Some (off, p) \<Rightarrow>
          (case get_varint64 p of
             None \<Rightarrow> None
           | Some (len, _) \<Rightarrow>
               if 2 ^ 32 - 1 < unat len then None
               else Some \<lparr> offset = off, hlength = ucast len \<rparr>))"

definition max_uncompressed :: "nat \<Rightarrow> nat" where
  "max_uncompressed bb = max (16 * bb) (kMaxEntryBlockBytes + bb)"

section \<open>Blocks\<close>

definition fetch_content ::
    "codec_library \<Rightarrow> blob_env \<Rightarrow> sst_reader \<Rightarrow> block_handle \<Rightarrow> bytes \<Rightarrow> nat \<Rightarrow> bytes res \<times> blob_env" where
  "fetch_content L env rd h prefetched m =
     (let len = unat (hlength h) in
      if len < kBlockTrailerLength \<or> \<not> handle_fits h (rd_file_size rd) then (Inl Corrupt, env)
      else
        case (if length prefetched \<noteq> len then store_get env (rd_name rd) (offset h) len
              else Inr prefetched) of
          Inl s \<Rightarrow> (Inl s, env)
        | Inr framed \<Rightarrow>
            (case (if length framed = len then unframe_block L framed m else Inl Corrupt) of
               Inr content \<Rightarrow> (Inr content, env)
             | Inl s \<Rightarrow>
                 (case authority_get env of
                    None \<Rightarrow> (Inl s, env)
                  | Some authority \<Rightarrow>
                      let env = env\<lparr> invalidated := rd_name rd # invalidated env \<rparr> in
                      (case authority (rd_name rd) (offset h) len of
                         Inl _ \<Rightarrow> (Inl s, env)
                       | Inr retried \<Rightarrow>
                           if length retried = len
                           then (case unframe_block L retried m of
                                   Inl _ \<Rightarrow> (Inl s, env)
                                 | Inr fresh \<Rightarrow> (Inr fresh, env))
                           else (Inl s, env)))))"

definition load_block ::
    "codec_library \<Rightarrow> blob_env \<Rightarrow> sst_reader \<Rightarrow> block_handle \<Rightarrow> bytes \<Rightarrow> bytes res \<times> blob_env" where
  "load_block L env rd h prefetched =
     (let fetch = (case fetch_content L env rd h prefetched (max_uncompressed (rd_block_bytes rd)) of
        (Inl s, env) \<Rightarrow> (Inl s, env)
      | (Inr content, env) \<Rightarrow>
          (Inr content,
           case block_cache env of
             None \<Rightarrow> env
           | Some bc \<Rightarrow> env\<lparr> block_cache := Some (bc((rd_file_number rd, offset h) \<mapsto> content)) \<rparr>))
      in case block_cache env of
           None \<Rightarrow> fetch
         | Some bc \<Rightarrow>
             (case bc (rd_file_number rd, offset h) of
                Some cached \<Rightarrow> (Inr cached, env)
              | None \<Rightarrow> fetch))"

definition kSpeculativeTailBytes :: nat where "kSpeculativeTailBytes = 256 * 1024"

definition sst_open ::
    "codec_library \<Rightarrow> blob_env \<Rightarrow> bytes \<Rightarrow> u64 \<Rightarrow> nat \<Rightarrow> u64 \<Rightarrow> sst_reader res \<times> blob_env" where
  "sst_open L env name file_size bb file_number =
     (if unat file_size < kFooterLengthV1 then (Inl Corrupt, env)
      else
        let tail_len = min (unat file_size) (max kSpeculativeTailBytes kMaxFooterLength);
            tail_start = file_size - of_nat tail_len
        in case store_get env name tail_start tail_len of
          Inl s \<Rightarrow> (Inl s, env)
        | Inr tail \<Rightarrow>
            if length tail \<noteq> tail_len then (Inl Corrupt, env)
            else
              let window = min tail_len kMaxFooterLength;
                  tail_slice = drop (tail_len - window) tail
              in case footer_length_from_trailer tail_slice of
                   Inl s \<Rightarrow> (Inl s, env)
                 | Inr fl \<Rightarrow>
                     if unat file_size < fl then (Inl Corrupt, env)
                     else (case footer_decode tail_slice of
                         Inl s \<Rightarrow> (Inl s, env)
                       | Inr f \<Rightarrow>
                           let rd = \<lparr> rd_name = name, rd_file_size = file_size, rd_block_bytes = bb,
                                      rd_file_number = file_number, rd_footer = f, rd_index = [],
                                      rd_filter = None, rd_ranges = None \<rparr>;
                               ih = findex f;
                               index_bytes =
                                 (if tail_start \<le> offset ih \<and> handle_fits ih file_size
                                  then take (unat (hlength ih)) (drop (unat (offset ih - tail_start)) tail)
                                  else [])
                           in case load_block L env rd ih index_bytes of
                                (Inl s, env) \<Rightarrow> (Inl s, env)
                              | (Inr index, env) \<Rightarrow> (Inr (rd\<lparr> rd_index := index \<rparr>), env)))"

section \<open>Lookups\<close>

definition ensure_filter ::
    "codec_library \<Rightarrow> blob_env \<Rightarrow> sst_reader \<Rightarrow> status \<times> sst_reader \<times> blob_env" where
  "ensure_filter L env rd =
     (case rd_filter rd of
        Some _ \<Rightarrow> (Ok, rd, env)
      | None \<Rightarrow>
          (case fetch_content L env rd (ffilter (rd_footer rd)) [] (unat (hlength (ffilter (rd_footer rd)))) of
             (Inl s, env) \<Rightarrow> (s, rd, env)
           | (Inr content, env) \<Rightarrow> (Ok, rd\<lparr> rd_filter := Some content \<rparr>, env)))"

definition sst_get ::
    "codec_library \<Rightarrow> blob_env \<Rightarrow> sst_reader \<Rightarrow> bytes
      \<Rightarrow> (value_type \<times> bytes) option res \<times> sst_reader \<times> blob_env" where
  "sst_get L env rd key =
     (case ensure_filter L env rd of
        (s, rd, env) \<Rightarrow>
          if s \<noteq> Ok then (Inl s, rd, env)
          else if \<not> bloom_may_contain (the (rd_filter rd)) key then (Inr None, rd, env)
          else
            let index = bi_seek (BlockIterator (rd_index rd)) key in
            if \<not> it_valid index
            then (if it_status index \<noteq> Ok then Inl (it_status index) else Inr None, rd, env)
            else case decode_index_handle (it_value index) of
              None \<Rightarrow> (Inl Corrupt, rd, env)
            | Some handle \<Rightarrow>
                (case load_block L env rd handle [] of
                   (Inl s, env) \<Rightarrow> (Inl (if s = NotFound then Corrupt else s), rd, env)
                 | (Inr block, env) \<Rightarrow>
                     let entries = bi_seek (BlockIterator block) key in
                     if \<not> it_valid entries
                     then (if it_status entries \<noteq> Ok then Inl (it_status entries) else Inr None, rd, env)
                     else if it_key entries \<noteq> key then (Inr None, rd, env)
                     else (Inr (Some (it_type entries, it_value entries)), rd, env)))"

definition has_range_tombstones :: "sst_reader \<Rightarrow> bool" where
  "has_range_tombstones rd \<longleftrightarrow> hlength (range_del (rd_footer rd)) \<noteq> 0"

definition range_deletes ::
    "codec_library \<Rightarrow> blob_env \<Rightarrow> sst_reader \<Rightarrow> bytes \<Rightarrow> bool res \<times> blob_env" where
  "range_deletes L env rd key =
     (if \<not> has_range_tombstones rd then (Inr False, env)
      else case load_block L env rd (range_del (rd_footer rd)) [] of
        (Inl s, env) \<Rightarrow> (Inl s, env)
      | (Inr block, env) \<Rightarrow>
          let it = bi_seek_for_prev (BlockIterator block) key in
          if \<not> it_valid it
          then (if it_status it = Ok then Inr False else Inl (it_status it), env)
          else (Inr (key < it_value it), env))"

text \<open>The bound of the loop is the length of the block: every entry takes at least one byte.\<close>

definition range_tombstones ::
    "codec_library \<Rightarrow> blob_env \<Rightarrow> sst_reader \<Rightarrow> range_tombstone list res \<times> sst_reader \<times> blob_env" where
  "range_tombstones L env rd =
     (if \<not> has_range_tombstones rd then (Inr [], rd, env)
      else case rd_ranges rd of
        Some rs \<Rightarrow> (Inr rs, rd, env)
      | None \<Rightarrow>
          (case load_block L env rd (range_del (rd_footer rd)) [] of
             (Inl s, env) \<Rightarrow> (Inl s, rd, env)
           | (Inr block, env) \<Rightarrow>
               let (es, it) = drain it_valid it_entry bi_next (length block)
                                (bi_seek_to_first (BlockIterator block));
                   out = map (\<lambda>(k, _, v). \<lparr> lower = k, upper = v \<rparr>) es
               in if it_status it \<noteq> Ok then (Inl (it_status it), rd, env)
                  else (Inr out, rd\<lparr> rd_ranges := Some out \<rparr>, env)))"

section \<open>Iteration\<close>

text \<open>A backward step lands strictly before where it started, on any content.\<close>

lemma seek_to_restart_order:
  "it_valid (seek_to_restart it j) \<Longrightarrow> current_offset (seek_to_restart it j) < next_offset (seek_to_restart it j)"
proof -
  assume v: "it_valid (seek_to_restart it j)"
  let ?it = "it\<lparr> it_key := [] \<rparr>"
  obtain ok it' where p: "parse_entry ?it (restart_offset ?it j) = (ok, it')" by fastforce
  with v have "ok" by (auto simp: seek_to_restart_def Let_def invalidate_def split: if_splits)
  with p parse_entry_bounds [of ?it "restart_offset ?it j" it'] show ?thesis
    by (simp add: seek_to_restart_def Let_def)
qed

lemma bi_next_order:
  "it_valid (bi_next it) \<Longrightarrow> current_offset (bi_next it) < next_offset (bi_next it)"
  if "it_valid it"
proof -
  assume v: "it_valid (bi_next it)"
  obtain ok it' where p: "parse_entry it (next_offset it) = (ok, it')" by fastforce
  with v that have "ok" by (auto simp: bi_next_def invalidate_def split: if_splits)
  with p that parse_entry_bounds [of it "next_offset it" it'] show ?thesis
    by (simp add: bi_next_def)
qed

lemma bi_scan_order:
  "(it_valid it \<Longrightarrow> current_offset it < next_offset it) \<Longrightarrow>
   it_valid (bi_scan P it) \<Longrightarrow> current_offset (bi_scan P it) < next_offset (bi_scan P it)"
proof (induction P it rule: bi_scan.induct)
  case (1 P it)
  show ?case
  proof (cases "it_valid it \<and> P it")
    case True
    then have "bi_scan P it = bi_scan P (bi_next it)" by (subst bi_scan.simps) simp
    with 1 True bi_next_order show ?thesis by auto
  next
    case False
    then have "bi_scan P it = it" by (subst bi_scan.simps) auto
    with 1 show ?thesis by auto
  qed
qed

lemma bi_prev_decreases:
  assumes "it_valid it" and "it_valid (bi_prev it)"
  shows "current_offset (bi_prev it) < current_offset it"
proof -
  define s where "s = bi_scan (\<lambda>i. next_offset i < current_offset it)
      (seek_to_restart it (restart_before it (current_offset it)))"
  have "bi_prev it = s \<and> it_valid s \<and> next_offset s = current_offset it"
    using assms by (auto simp: bi_prev_def Let_def s_def invalidate_def split: if_splits)
  moreover have "it_valid s \<Longrightarrow> current_offset s < next_offset s"
    unfolding s_def by (rule bi_scan_order) (auto intro: seek_to_restart_order)
  ultimately show ?thesis by simp
qed

record sst_iter =
  si_reader :: sst_reader
  si_env :: blob_env
  si_index :: block_iter
  si_data :: block_iter
  si_status :: status

definition SstIterator :: "sst_reader \<Rightarrow> blob_env \<Rightarrow> sst_iter" where
  "SstIterator rd env = \<lparr> si_reader = rd, si_env = env, si_index = BlockIterator (rd_index rd),
     si_data = block_iter_default, si_status = Ok \<rparr>"

definition si_valid :: "sst_iter \<Rightarrow> bool" where "si_valid it = it_valid (si_data it)"

definition si_status_of :: "sst_iter \<Rightarrow> status" where
  "si_status_of it =
     (if si_status it \<noteq> Ok then si_status it
      else if it_status (si_index it) \<noteq> Ok then it_status (si_index it)
      else it_status (si_data it))"

definition si_entry :: "sst_iter \<Rightarrow> entry" where "si_entry it = it_entry (si_data it)"

datatype edge = First | Last

definition load_current_block :: "codec_library \<Rightarrow> edge \<Rightarrow> sst_iter \<Rightarrow> sst_iter" where
  "load_current_block L edge it =
     (let it = it\<lparr> si_data := block_iter_default \<rparr> in
      if \<not> it_valid (si_index it) then it
      else case decode_index_handle (it_value (si_index it)) of
        None \<Rightarrow> it\<lparr> si_status := Corrupt \<rparr>
      | Some handle \<Rightarrow>
          (case load_block L (si_env it) (si_reader it) handle [] of
             (Inl s, env) \<Rightarrow> it\<lparr> si_status := s, si_env := env \<rparr>
           | (Inr block, env) \<Rightarrow>
               it\<lparr> si_env := env,
                   si_data := (case edge of
                       First \<Rightarrow> bi_seek_to_first (BlockIterator block)
                     | Last \<Rightarrow> bi_seek_to_last (BlockIterator block)) \<rparr>))"

definition absorb_data_status :: "sst_iter \<Rightarrow> sst_iter" where
  "absorb_data_status it =
     (if si_status it = Ok \<and> it_status (si_data it) \<noteq> Ok
      then it\<lparr> si_status := it_status (si_data it) \<rparr> else it)"

lemma load_current_block_index [simp]: "si_index (load_current_block L e it) = si_index it"
  by (auto simp: load_current_block_def Let_def split: option.split sum.split prod.split)

lemma absorb_data_status_index [simp]: "si_index (absorb_data_status it) = si_index it"
  by (simp add: absorb_data_status_def)

function retreat_block :: "codec_library \<Rightarrow> sst_iter \<Rightarrow> sst_iter" where
  "retreat_block L it =
     (if si_status it \<noteq> Ok then it
      else
        let it = absorb_data_status it in
        if si_status it \<noteq> Ok \<or> \<not> it_valid (si_index it) then it
        else
          let it = it\<lparr> si_index := bi_prev (si_index it) \<rparr> in
          if \<not> it_valid (si_index it) then it
          else
            let it = load_current_block L Last it in
            if it_valid (si_data it) then it else retreat_block L it)"
  by pat_completeness auto
termination
  by (relation "measure (\<lambda>(L, it). if it_valid (si_index it) then Suc (current_offset (si_index it)) else 0)")
     (auto simp: bi_prev_decreases)

function advance_block :: "codec_library \<Rightarrow> sst_iter \<Rightarrow> sst_iter" where
  "advance_block L it =
     (if si_status it \<noteq> Ok then it
      else
        let it = absorb_data_status it in
        if si_status it \<noteq> Ok then it
        else if \<not> it_valid (si_index it) then it
        else
          let it = it\<lparr> si_index := bi_next (si_index it) \<rparr> in
          if \<not> it_valid (si_index it) then it
          else
            let it = load_current_block L First it in
            if it_valid (si_data it) then it else advance_block L it)"
  by pat_completeness auto
termination
proof (relation "measure (\<lambda>(L, it). if it_valid (si_index it)
      then Suc (entries_end (si_index it) - next_offset (si_index it)) else 0)", goal_cases)
  case (2 L it x xa xb)
  then have "it_valid (si_index it)" "it_valid (bi_next (si_index it))" by auto
  with 2 bi_next_progress [of "si_index it"] show ?case by auto
qed simp

declare retreat_block.simps [simp del] advance_block.simps [simp del]

text \<open>The condition of the two outer loops, which one call of the inner one already falsifies.\<close>

definition unsettled :: "sst_iter \<Rightarrow> bool" where
  "unsettled it \<longleftrightarrow> \<not> it_valid (si_data it) \<and> it_valid (si_index it) \<and> si_status it = Ok"

lemma advance_block_settles: "\<not> unsettled (advance_block L it)"
proof (induction L it rule: advance_block.induct)
  case (1 L it)
  then show ?case by (subst advance_block.simps) (auto simp: unsettled_def Let_def)
qed

lemma retreat_block_settles: "\<not> unsettled (retreat_block L it)"
proof (induction L it rule: retreat_block.induct)
  case (1 L it)
  then show ?case by (subst retreat_block.simps) (auto simp: unsettled_def Let_def)
qed

function settle_forward :: "codec_library \<Rightarrow> sst_iter \<Rightarrow> sst_iter" where
  "settle_forward L it = (if unsettled it then settle_forward L (advance_block L it) else it)"
  by pat_completeness auto
termination
  by (relation "measure (\<lambda>(L, it). if unsettled it then 1 else 0)") (simp_all add: advance_block_settles)

function settle_backward :: "codec_library \<Rightarrow> sst_iter \<Rightarrow> sst_iter" where
  "settle_backward L it = (if unsettled it then settle_backward L (retreat_block L it) else it)"
  by pat_completeness auto
termination
  by (relation "measure (\<lambda>(L, it). if unsettled it then 1 else 0)") (simp_all add: retreat_block_settles)

declare settle_forward.simps [simp del] settle_backward.simps [simp del]

definition si_seek_to_first :: "codec_library \<Rightarrow> sst_iter \<Rightarrow> sst_iter" where
  "si_seek_to_first L it =
     (let it = load_current_block L First (it\<lparr> si_index := bi_seek_to_first (si_index it) \<rparr>)
      in if it_valid (si_data it) then it else advance_block L it)"

definition si_seek :: "codec_library \<Rightarrow> sst_iter \<Rightarrow> bytes \<Rightarrow> sst_iter" where
  "si_seek L it target =
     (let it = load_current_block L First (it\<lparr> si_index := bi_seek (si_index it) target \<rparr>);
          it = (if it_valid (si_data it) then it\<lparr> si_data := bi_seek (si_data it) target \<rparr> else it)
      in settle_forward L it)"

definition si_next :: "codec_library \<Rightarrow> sst_iter \<Rightarrow> sst_iter" where
  "si_next L it =
     (if \<not> it_valid (si_data it) then it
      else let it = it\<lparr> si_data := bi_next (si_data it) \<rparr>
           in if \<not> it_valid (si_data it) then advance_block L it else it)"

definition si_seek_to_last :: "codec_library \<Rightarrow> sst_iter \<Rightarrow> sst_iter" where
  "si_seek_to_last L it =
     (let it = load_current_block L Last (it\<lparr> si_index := bi_seek_to_last (si_index it) \<rparr>)
      in if it_valid (si_data it) then it else retreat_block L it)"

definition si_seek_for_prev :: "codec_library \<Rightarrow> sst_iter \<Rightarrow> bytes \<Rightarrow> sst_iter" where
  "si_seek_for_prev L it target =
     (let it = it\<lparr> si_index := bi_seek (si_index it) target \<rparr> in
      if \<not> it_valid (si_index it) then si_seek_to_last L it
      else
        let it = load_current_block L First it;
            it = (if it_valid (si_data it) then it\<lparr> si_data := bi_seek_for_prev (si_data it) target \<rparr> else it)
        in settle_backward L it)"

definition si_prev :: "codec_library \<Rightarrow> sst_iter \<Rightarrow> sst_iter" where
  "si_prev L it =
     (if \<not> it_valid (si_data it) then it
      else let it = it\<lparr> si_data := bi_prev (si_data it) \<rparr>
           in if \<not> it_valid (si_data it) then retreat_block L it else it)"

end
