(* ===== verification/Table.thy ===== *)
theory Table
  imports Sst_Reader
begin

text \<open>
  The table reader on a well-formed table. A table is a list of chunks, one per data block, named by
  the entries of its index; \<open>table\<close> says that the index block lists the chunks by their last keys and
  that loading a block by its index entry gives its chunk. It is stated against a set of
  environments closed under loading, so that it covers a block cache in any consistent state.

  On such a table \<open>SstIterator\<close> is a cursor over the concatenation of the chunks and \<open>get\<close> finds
  exactly the entries of the table.
\<close>

section \<open>Positions in a concatenation\<close>

definition chunk_start :: "'a list list \<Rightarrow> nat \<Rightarrow> nat" where
  "chunk_start cs j = length (concat (take j cs))"

lemma chunk_start_0 [simp]: "chunk_start cs 0 = 0"
  by (simp add: chunk_start_def)

lemma chunk_start_Suc: "j < length cs \<Longrightarrow> chunk_start cs (Suc j) = chunk_start cs j + length (cs ! j)"
  by (simp add: chunk_start_def take_Suc_conv_app_nth)

lemma chunk_start_end: "chunk_start cs (length cs) = length (concat cs)"
  by (simp add: chunk_start_def)

lemma concat_split:
  "j < length cs \<Longrightarrow> concat cs = concat (take j cs) @ cs ! j @ concat (drop (Suc j) cs)"
  by (metis concat.simps(2) concat_append id_take_nth_drop)

lemma concat_nth:
  "j < length cs \<Longrightarrow> p < length (cs ! j) \<Longrightarrow> concat cs ! (chunk_start cs j + p) = cs ! j ! p"
  by (subst concat_split [of j]) (simp_all add: chunk_start_def nth_append)

lemma chunk_start_less:
  "j < length cs \<Longrightarrow> p < length (cs ! j) \<Longrightarrow> chunk_start cs j + p < length (concat cs)"
  using arg_cong [OF concat_split [of j cs], of length] by (simp add: chunk_start_def)

lemma chunk_start_mono: "i \<le> j \<Longrightarrow> j \<le> length cs \<Longrightarrow> chunk_start cs i \<le> chunk_start cs j"
proof (induction j)
  case (Suc j)
  then show ?case by (cases "i = Suc j") (auto simp: chunk_start_Suc)
qed simp

lemma position_exists:
  "i < length (concat cs) \<Longrightarrow> \<exists>j p. j < length cs \<and> p < length (cs ! j) \<and> i = chunk_start cs j + p"
proof (induction cs arbitrary: i)
  case (Cons c cs)
  show ?case
  proof (cases "i < length c")
    case True
    then show ?thesis by (intro exI [of _ 0] exI [of _ i]) simp
  next
    case False
    then have "i - length c < length (concat cs)" using Cons.prems by auto
    from Cons.IH [OF this] obtain j p
      where "j < length cs" "p < length (cs ! j)" "i - length c = chunk_start cs j + p" by auto
    with False show ?thesis
      by (intro exI [of _ "Suc j"] exI [of _ p]) (simp add: chunk_start_def)
  qed
qed simp

definition last_keys :: "entry list list \<Rightarrow> bytes list" where
  "last_keys cs = map (\<lambda>c. fst (last c)) cs"

definition chunks_ok :: "entry list list \<Rightarrow> bool" where
  "chunks_ok cs \<longleftrightarrow> (\<forall>c \<in> set cs. c \<noteq> []) \<and> sorted_keys (concat cs)"

lemma chunks_ok_nth:
  assumes "chunks_ok cs" and "j < length cs"
  shows "cs ! j \<noteq> []" and "fst (last (cs ! j)) = fst (concat cs ! (chunk_start cs (Suc j) - 1))"
proof -
  show ne: "cs ! j \<noteq> []" using assms by (simp add: chunks_ok_def)
  then have "concat cs ! (chunk_start cs j + (length (cs ! j) - 1)) = last (cs ! j)"
    using concat_nth [of j cs "length (cs ! j) - 1"] assms(2) by (simp add: last_conv_nth)
  then show "fst (last (cs ! j)) = fst (concat cs ! (chunk_start cs (Suc j) - 1))"
    using assms(2) ne by (cases "cs ! j") (simp_all add: chunk_start_Suc)
qed

text \<open>Where a key belongs: the first chunk whose last key is not below it.\<close>

lemma lower_pos_chunks:
  assumes "chunks_ok cs" and "j \<le> length cs"
    and before: "\<And>m. m < j \<Longrightarrow> fst (last (cs ! m)) < t"
    and here: "j < length cs \<Longrightarrow> t \<le> fst (last (cs ! j))"
  shows "lower_pos (concat cs) t = chunk_start cs j + (if j < length cs then lower_pos (cs ! j) t else 0)"
    and "j < length cs \<Longrightarrow> lower_pos (cs ! j) t < length (cs ! j)"
proof -
  have sorted: "sorted_keys (concat cs)" using assms(1) by (simp add: chunks_ok_def)
  have prior: "fst (concat cs ! m) < t" if m: "m < chunk_start cs j" for m
  proof -
    have j: "0 < j" using m by (cases j) auto
    have lt: "chunk_start cs j - 1 < length (concat cs)"
      using chunk_start_mono [of j "length cs" cs] assms(2) m by (simp add: chunk_start_end)
    have "fst (concat cs ! (chunk_start cs j - 1)) < t"
      using before [of "j - 1"] chunks_ok_nth(2) [OF assms(1), of "j - 1"] j assms(2) by simp
    moreover have "fst (concat cs ! m) \<le> fst (concat cs ! (chunk_start cs j - 1))"
    proof (cases "m = chunk_start cs j - 1")
      case False
      then have "m < chunk_start cs j - 1" using m by linarith
      then show ?thesis using sorted_keys_nth [OF sorted _ lt] by (auto simp: less_imp_le)
    qed simp
    ultimately show ?thesis by simp
  qed
  show in_chunk: "lower_pos (cs ! j) t < length (cs ! j)" if "j < length cs"
  proof (rule ccontr)
    assume "\<not> ?thesis"
    then have "lower_pos (cs ! j) t = length (cs ! j)" using lower_pos_le [of "cs ! j" t] by simp
    then have "fst (last (cs ! j)) < t"
      using lower_pos_props(1) [of "length (cs ! j) - 1" "cs ! j" t] chunks_ok_nth(1) [OF assms(1) that]
      by (simp add: last_conv_nth)
    with here that show False by simp
  qed
  show "lower_pos (concat cs) t = chunk_start cs j + (if j < length cs then lower_pos (cs ! j) t else 0)"
  proof (cases "j < length cs")
    case False
    then have "j = length cs" using assms(2) by simp
    then show ?thesis
      using prior by (simp add: chunk_start_end lower_pos_unique [OF sorted])
  next
    case True
    let ?p = "lower_pos (cs ! j) t"
    have "fst (concat cs ! m) < t" if "m < chunk_start cs j + ?p" for m
    proof (cases "m < chunk_start cs j")
      case False
      then obtain q where q: "m = chunk_start cs j + q" using le_Suc_ex not_le by blast
      with that have "q < ?p" by simp
      with in_chunk [OF True] lower_pos_props(1) [of q "cs ! j" t] concat_nth [OF True, of q] q
      show ?thesis by simp
    qed (rule prior)
    then have "lower_pos (concat cs) t = chunk_start cs j + ?p"
      using chunk_start_less [OF True in_chunk [OF True]] concat_nth [OF True in_chunk [OF True]]
        lower_pos_props(2) [OF in_chunk [OF True]]
      by (intro lower_pos_unique [OF sorted]) auto
    with True show ?thesis by simp
  qed
qed

section \<open>Tables\<close>

definition serves :: "codec_library \<Rightarrow> sst_reader \<Rightarrow> blob_env set \<Rightarrow> block_handle \<Rightarrow> bytes \<Rightarrow> bool" where
  "serves L rd envs h content \<longleftrightarrow>
     (\<forall>env \<in> envs. \<exists>env' \<in> envs. load_block L env rd h [] = (Inr content, env'))"

definition table ::
    "codec_library \<Rightarrow> sst_reader \<Rightarrow> blob_env set \<Rightarrow> entry list \<Rightarrow> entry list list \<Rightarrow> bool" where
  "table L rd envs ies cs \<longleftrightarrow>
     chunks_ok cs \<and> keys_of ies = last_keys cs
     \<and> block_rep (BlockIterator (rd_index rd)) ies (length ies)
     \<and> (\<forall>j < length cs. \<exists>h content. decode_index_handle (snd (snd (ies ! j))) = Some h
          \<and> serves L rd envs h content
          \<and> block_rep (BlockIterator content) (cs ! j) (length (cs ! j)))"

lemma table_length: "table L rd envs ies cs \<Longrightarrow> length ies = length cs"
  unfolding table_def last_keys_def by (metis length_map)

lemma table_key: "table L rd envs ies cs \<Longrightarrow> j < length cs \<Longrightarrow> fst (ies ! j) = fst (last (cs ! j))"
proof -
  assume t: "table L rd envs ies cs" and j: "j < length cs"
  have "keys_of ies ! j = last_keys cs ! j" using t by (simp add: table_def)
  then show ?thesis using table_length [OF t] j by (simp add: last_keys_def)
qed

definition si_at ::
    "sst_iter \<Rightarrow> sst_reader \<Rightarrow> blob_env set \<Rightarrow> entry list \<Rightarrow> entry list list \<Rightarrow> nat \<Rightarrow> bool" where
  "si_at it rd envs ies cs j \<longleftrightarrow>
     si_reader it = rd \<and> si_env it \<in> envs \<and> si_status it = Ok \<and> block_rep (si_index it) ies j"

definition si_rep :: "codec_library \<Rightarrow> sst_iter \<Rightarrow> entry list \<Rightarrow> nat \<Rightarrow> bool" where
  "si_rep L it es i \<longleftrightarrow>
     (\<exists>rd envs ies cs j. table L rd envs ies cs \<and> es = concat cs \<and> si_at it rd envs ies cs j
        \<and> (if i < length es
           then j < length cs
             \<and> (\<exists>p < length (cs ! j). i = chunk_start cs j + p \<and> block_rep (si_data it) (cs ! j) p)
           else i = length es \<and> \<not> it_valid (si_data it) \<and> it_status (si_data it) = Ok))"

lemma si_rep_inside:
  assumes "table L rd envs ies cs" and "si_at it rd envs ies cs j" and "j < length cs"
    and "block_rep (si_data it) (cs ! j) p" and "p < length (cs ! j)"
  shows "si_rep L it (concat cs) (chunk_start cs j + p)"
  unfolding si_rep_def
  by (intro exI [of _ rd] exI [of _ envs] exI [of _ ies] exI [of _ cs] exI [of _ j])
     (use assms chunk_start_less [OF assms(3,5)] in auto)

lemma si_rep_end:
  assumes "table L rd envs ies cs" and "si_at it rd envs ies cs j"
    and "\<not> it_valid (si_data it)" and "it_status (si_data it) = Ok"
  shows "si_rep L it (concat cs) (length (concat cs))"
  unfolding si_rep_def
  by (intro exI [of _ rd] exI [of _ envs] exI [of _ ies] exI [of _ cs] exI [of _ j])
     (use assms in simp)

lemma default_data [simp]: "\<not> it_valid block_iter_default" "it_status block_iter_default = Ok"
  by (simp_all add: block_iter_default_def)

lemma load_at:
  assumes t: "table L rd envs ies cs" and "si_at it rd envs ies cs j" and j: "j < length cs"
  obtains it' where "load_current_block L e it = it'" and "si_at it' rd envs ies cs j"
    and "block_rep (si_data it') (cs ! j) (case e of First \<Rightarrow> 0 | Last \<Rightarrow> length (cs ! j) - 1)"
    and "it_valid (si_data it')"
proof -
  have at: "si_reader it = rd" "si_env it \<in> envs" "si_status it = Ok" "block_rep (si_index it) ies j"
    using assms(2) by (simp_all add: si_at_def)
  have j': "j < length ies" using table_length [OF t] j by simp
  obtain h content where h: "decode_index_handle (snd (snd (ies ! j))) = Some h"
      "serves L rd envs h content" "block_rep (BlockIterator content) (cs ! j) (length (cs ! j))"
    using t j unfolding table_def by blast
  obtain env' where env': "env' \<in> envs" "load_block L (si_env it) rd h [] = (Inr content, env')"
    using h(2) at(2) unfolding serves_def by blast
  have "it_value (si_index it) = snd (snd (ies ! j))"
    using block_rep_entry [OF at(4) j'] by (metis it_entry_def snd_conv)
  then have load: "load_current_block L e it = it\<lparr> si_data := (case e of
        First \<Rightarrow> bi_seek_to_first (BlockIterator content)
      | Last \<Rightarrow> bi_seek_to_last (BlockIterator content)), si_env := env' \<rparr>"
    using block_rep_valid [OF at(4)] j' h(1) env'(2) at(1)
    by (cases e) (simp_all add: load_current_block_def Let_def)
  have rep: "block_rep (case e of First \<Rightarrow> bi_seek_to_first (BlockIterator content)
      | Last \<Rightarrow> bi_seek_to_last (BlockIterator content)) (cs ! j)
      (case e of First \<Rightarrow> 0 | Last \<Rightarrow> length (cs ! j) - 1)"
    using block_rep_first [OF h(3)] block_rep_last [OF h(3)] by (cases e) simp_all
  have "cs ! j \<noteq> []" using t j by (simp add: table_def chunks_ok_def)
  then have "(case e of First \<Rightarrow> 0 | Last \<Rightarrow> length (cs ! j) - 1) < length (cs ! j)" by (cases e) simp_all
  then have "it_valid (si_data (load_current_block L e it))"
    unfolding load using block_rep_valid [OF rep] by simp
  moreover have "si_at (load_current_block L e it) rd envs ies cs j"
    unfolding load using at env'(1) by (simp add: si_at_def)
  moreover have "block_rep (si_data (load_current_block L e it)) (cs ! j)
      (case e of First \<Rightarrow> 0 | Last \<Rightarrow> length (cs ! j) - 1)"
    unfolding load using rep by simp
  ultimately show thesis by (intro that [OF refl])
qed

lemma load_none: "\<not> it_valid (si_index it) \<Longrightarrow> load_current_block L e it = it\<lparr> si_data := block_iter_default \<rparr>"
  by (simp add: load_current_block_def Let_def)

text \<open>Leaving a spent block forwards and backwards.\<close>

lemma advance_at:
  assumes t: "table L rd envs ies cs" and at: "si_at it rd envs ies cs j" and j: "j < length cs"
    and d: "it_status (si_data it) = Ok" "\<not> it_valid (si_data it)"
  shows "si_rep L (advance_block L it) (concat cs) (chunk_start cs (Suc j))"
proof -
  have j': "j < length ies" using table_length [OF t] j by simp
  have idx: "block_rep (si_index it) ies j" "si_status it = Ok" using at by (simp_all add: si_at_def)
  note n = block_rep_next [OF idx(1) j']
  define it1 where "it1 = it\<lparr> si_index := bi_next (si_index it) \<rparr>"
  have at1: "si_at it1 rd envs ies cs (Suc j)" using at n by (simp add: it1_def si_at_def)
  have step: "advance_block L it =
      (if \<not> it_valid (bi_next (si_index it)) then it1
       else let it = load_current_block L First it1 in if it_valid (si_data it) then it else advance_block L it)"
    using idx d block_rep_valid [OF idx(1)] j'
    by (subst advance_block.simps) (simp add: absorb_data_status_def Let_def it1_def)
  show ?thesis
  proof (cases "Suc j < length cs")
    case True
    from load_at [OF t at1 True, of First] obtain it2 where l: "load_current_block L First it1 = it2"
        "si_at it2 rd envs ies cs (Suc j)" "block_rep (si_data it2) (cs ! Suc j) 0" "it_valid (si_data it2)"
      by auto
    have "advance_block L it = it2"
      using step l block_rep_valid [OF n] True table_length [OF t] by simp
    then show ?thesis
      using si_rep_inside [OF t l(2) True l(3)] block_rep_valid [OF l(3)] l(4) by simp
  next
    case False
    then have "advance_block L it = it1"
      using step block_rep_valid [OF n] table_length [OF t] by simp
    moreover have "Suc j = length cs" using False j by simp
    ultimately show ?thesis
      using si_rep_end [OF t at1] d by (simp add: it1_def chunk_start_end)
  qed
qed

lemma retreat_at:
  assumes t: "table L rd envs ies cs" and at: "si_at it rd envs ies cs j" and j: "j < length cs"
    and d: "it_status (si_data it) = Ok" "\<not> it_valid (si_data it)"
  shows "si_rep L (retreat_block L it) (concat cs)
    (if j = 0 then length (concat cs) else chunk_start cs j - 1)"
proof -
  have j': "j < length ies" using table_length [OF t] j by simp
  have idx: "block_rep (si_index it) ies j" "si_status it = Ok" using at by (simp_all add: si_at_def)
  note n = block_rep_prev [OF idx(1) j']
  define it1 where "it1 = it\<lparr> si_index := bi_prev (si_index it) \<rparr>"
  have at1: "si_at it1 rd envs ies cs (if j = 0 then length ies else j - 1)"
    using at n by (simp add: it1_def si_at_def)
  have step: "retreat_block L it =
      (if \<not> it_valid (bi_prev (si_index it)) then it1
       else let it = load_current_block L Last it1 in if it_valid (si_data it) then it else retreat_block L it)"
    using idx d block_rep_valid [OF idx(1)] j'
    by (subst retreat_block.simps) (simp add: absorb_data_status_def Let_def it1_def)
  show ?thesis
  proof (cases "j = 0")
    case True
    then have "retreat_block L it = it1" using step block_rep_valid [OF n] by simp
    then show ?thesis using si_rep_end [OF t at1] d True by (simp add: it1_def)
  next
    case False
    then have j1: "j - 1 < length cs" "Suc (j - 1) = j" using j by simp_all
    from at1 False have "si_at it1 rd envs ies cs (j - 1)" by simp
    from load_at [OF t this j1(1), of Last] obtain it2 where l: "load_current_block L Last it1 = it2"
        "si_at it2 rd envs ies cs (j - 1)" "block_rep (si_data it2) (cs ! (j - 1)) (length (cs ! (j - 1)) - 1)"
        "it_valid (si_data it2)"
      by auto
    have "retreat_block L it = it2"
      using step l block_rep_valid [OF n] False j' by simp
    moreover have pos: "chunk_start cs (j - 1) + (length (cs ! (j - 1)) - 1) = chunk_start cs j - 1"
      using chunk_start_Suc [OF j1(1)] j1(2) block_rep_valid [OF l(3)] l(4) by simp
    ultimately show ?thesis
      using si_rep_inside [OF t l(2) j1(1) l(3)] block_rep_valid [OF l(3)] l(4) False by simp
  qed
qed

subsection \<open>The table iterator as a cursor\<close>

lemma si_repE:
  assumes "si_rep L it es i"
  obtains rd envs ies cs j where "table L rd envs ies cs" and "es = concat cs"
    and "si_at it rd envs ies cs j"
    and "if i < length es
         then j < length cs
           \<and> (\<exists>p < length (cs ! j). i = chunk_start cs j + p \<and> block_rep (si_data it) (cs ! j) p)
         else i = length es \<and> \<not> it_valid (si_data it) \<and> it_status (si_data it) = Ok"
  using assms unfolding si_rep_def by blast

lemma si_rep_insideE:
  assumes "si_rep L it es i" and "i < length es"
  obtains rd envs ies cs j p where "table L rd envs ies cs" and "es = concat cs"
    and "si_at it rd envs ies cs j" and "j < length cs" and "p < length (cs ! j)"
    and "i = chunk_start cs j + p" and "block_rep (si_data it) (cs ! j) p"
proof (rule si_repE [OF assms(1)], goal_cases)
  case (1 rd envs ies cs j)
  with assms(2) show ?case by (auto intro: that)
qed

lemma si_at_index:
  "si_at it rd envs ies cs j \<Longrightarrow> block_rep ix ies k \<Longrightarrow> si_at (it\<lparr> si_index := ix \<rparr>) rd envs ies cs k"
  by (simp add: si_at_def)

lemma si_at_data [simp]: "si_at (it\<lparr> si_data := d \<rparr>) rd envs ies cs j = si_at it rd envs ies cs j"
  by (simp add: si_at_def)

lemma si_at_valid: "table L rd envs ies cs \<Longrightarrow> si_at it rd envs ies cs j \<Longrightarrow> it_valid (si_index it) \<longleftrightarrow> j < length cs"
  using block_rep_valid table_length by (fastforce simp: si_at_def)

lemma si_rep_first:
  assumes "si_rep L it es i"
  shows "si_rep L (si_seek_to_first L it) es 0"
proof -
  obtain rd envs ies cs j where t: "table L rd envs ies cs" and es: "es = concat cs"
      and at: "si_at it rd envs ies cs j" by (rule si_repE [OF assms])
  define it1 where "it1 = it\<lparr> si_index := bi_seek_to_first (si_index it) \<rparr>"
  have at1: "si_at it1 rd envs ies cs 0"
    using at block_rep_first unfolding it1_def by (intro si_at_index [OF at]) (auto simp: si_at_def)
  have st: "si_seek_to_first L it = (let it = load_current_block L First it1
      in if it_valid (si_data it) then it else advance_block L it)"
    by (simp add: si_seek_to_first_def it1_def)
  show ?thesis
  proof (cases "cs = []")
    case True
    then have nv: "\<not> it_valid (si_index it1)" using si_at_valid [OF t at1] by simp
    then have "advance_block L (it1\<lparr> si_data := block_iter_default \<rparr>) = it1\<lparr> si_data := block_iter_default \<rparr>"
      by (subst advance_block.simps) (simp add: absorb_data_status_def)
    then have "si_seek_to_first L it = it1\<lparr> si_data := block_iter_default \<rparr>"
      unfolding st load_none [OF nv] by simp
    then show ?thesis
      using si_rep_end [OF t, of "it1\<lparr> si_data := block_iter_default \<rparr>" 0] at1 True es by simp
  next
    case False
    then have "0 < length cs" by simp
    from load_at [OF t at1 this, of First] obtain it2 where "load_current_block L First it1 = it2"
        "si_at it2 rd envs ies cs 0" "block_rep (si_data it2) (cs ! 0) 0" "it_valid (si_data it2)" by auto
    then show ?thesis
      using si_rep_inside [OF t _ \<open>0 < length cs\<close>, of it2 0] block_rep_valid [of "si_data it2"]
      unfolding st es by simp
  qed
qed

lemma si_rep_next:
  assumes "si_rep L it es i" and "i < length es"
  shows "si_rep L (si_next L it) es (Suc i)"
proof -
  obtain rd envs ies cs j p where t: "table L rd envs ies cs" and es: "es = concat cs"
      and at: "si_at it rd envs ies cs j" and j: "j < length cs" and p: "p < length (cs ! j)"
      and i: "i = chunk_start cs j + p" and d: "block_rep (si_data it) (cs ! j) p"
    by (rule si_rep_insideE [OF assms])
  define it1 where "it1 = it\<lparr> si_data := bi_next (si_data it) \<rparr>"
  note n = block_rep_next [OF d p]
  have at1: "si_at it1 rd envs ies cs j" using at by (simp add: it1_def)
  have st: "si_next L it = (if \<not> it_valid (si_data it1) then advance_block L it1 else it1)"
    using block_rep_valid [OF d] p by (simp add: si_next_def it1_def Let_def)
  show ?thesis
  proof (cases "Suc p < length (cs ! j)")
    case True
    then show ?thesis
      using si_rep_inside [OF t at1 j, of "Suc p"] n block_rep_valid [OF n] unfolding st es i
      by (simp add: it1_def)
  next
    case False
    then have "chunk_start cs (Suc j) = Suc i" using i p j by (simp add: chunk_start_Suc)
    then show ?thesis
      using advance_at [OF t at1 j] False block_rep_valid [OF n] block_rep_ok [OF n] unfolding st es
      by (simp add: it1_def)
  qed
qed

lemma chunk_start_eq_0:
  assumes "table L rd envs ies cs" and "j < length cs"
  shows "chunk_start cs j = 0 \<longleftrightarrow> j = 0"
proof (cases j)
  case (Suc m)
  then have "cs ! m \<noteq> []" "m < length cs" using assms by (auto simp: table_def chunks_ok_def)
  then show ?thesis using Suc by (simp add: chunk_start_Suc)
qed simp

lemma si_rep_prev:
  assumes "si_rep L it es i" and "i < length es"
  shows "si_rep L (si_prev L it) es (if i = 0 then length es else i - 1)"
proof -
  obtain rd envs ies cs j p where t: "table L rd envs ies cs" and es: "es = concat cs"
      and at: "si_at it rd envs ies cs j" and j: "j < length cs" and p: "p < length (cs ! j)"
      and i: "i = chunk_start cs j + p" and d: "block_rep (si_data it) (cs ! j) p"
    by (rule si_rep_insideE [OF assms])
  define it1 where "it1 = it\<lparr> si_data := bi_prev (si_data it) \<rparr>"
  note n = block_rep_prev [OF d p]
  have at1: "si_at it1 rd envs ies cs j" using at by (simp add: it1_def)
  have st: "si_prev L it = (if \<not> it_valid (si_data it1) then retreat_block L it1 else it1)"
    using block_rep_valid [OF d] p by (simp add: si_prev_def it1_def Let_def)
  show ?thesis
  proof (cases "p = 0")
    case False
    moreover have "p - 1 < length (cs ! j)" using p by simp
    ultimately show ?thesis
      using si_rep_inside [OF t at1 j, of "p - 1"] n block_rep_valid [OF n] unfolding st es i
      by (simp add: it1_def)
  next
    case True
    then show ?thesis
      using retreat_at [OF t at1 j] block_rep_valid [OF n] block_rep_ok [OF n] i
        chunk_start_eq_0 [OF t j] unfolding st es
      by (cases "j = 0") (simp_all add: it1_def)
  qed
qed

lemma index_seek:
  assumes t: "table L rd envs ies cs" and at: "si_at it rd envs ies cs i"
  obtains j it1 where "it\<lparr> si_index := bi_seek (si_index it) k \<rparr> = it1" and "si_at it1 rd envs ies cs j"
    and "j \<le> length cs" and "\<And>m. m < j \<Longrightarrow> fst (last (cs ! m)) < k"
    and "j < length cs \<Longrightarrow> k \<le> fst (last (cs ! j))"
proof -
  have r: "block_rep (bi_seek (si_index it) k) ies (lower_pos ies k)"
    using at by (auto simp: si_at_def intro: block_rep_seek)
  have len: "length ies = length cs" by (rule table_length [OF t])
  show thesis
  proof (rule that [OF refl si_at_index [OF at r]])
    show "lower_pos ies k \<le> length cs" using lower_pos_le [of ies k] len by simp
    show "fst (last (cs ! m)) < k" if "m < lower_pos ies k" for m
      using lower_pos_props(1) [OF that] table_key [OF t, of m] that lower_pos_le [of ies k] len by simp
    show "k \<le> fst (last (cs ! lower_pos ies k))" if "lower_pos ies k < length cs"
      using lower_pos_props(2) [of ies k] table_key [OF t that] that len by simp
  qed
qed

lemma si_rep_seek:
  assumes "si_rep L it es i"
  shows "si_rep L (si_seek L it k) es (lower_pos es k)"
proof -
  obtain rd envs ies cs i' where t: "table L rd envs ies cs" and es: "es = concat cs"
      and at: "si_at it rd envs ies cs i'" by (rule si_repE [OF assms])
  have ok: "chunks_ok cs" using t by (simp add: table_def)
  obtain j it1 where it1: "it\<lparr> si_index := bi_seek (si_index it) k \<rparr> = it1"
      and at1: "si_at it1 rd envs ies cs j" and j: "j \<le> length cs"
      and bounds: "\<And>m. m < j \<Longrightarrow> fst (last (cs ! m)) < k" "j < length cs \<Longrightarrow> k \<le> fst (last (cs ! j))"
    using index_seek [OF t at, of k] by metis
  note lp = lower_pos_chunks [OF ok j bounds]
  show ?thesis
  proof (cases "j < length cs")
    case True
    from load_at [OF t at1 True, of First] obtain it2 where l: "load_current_block L First it1 = it2"
        "si_at it2 rd envs ies cs j" "block_rep (si_data it2) (cs ! j) 0" "it_valid (si_data it2)" by auto
    note s = block_rep_seek [OF l(3), of k]
    have "it_valid (bi_seek (si_data it2) k)" using block_rep_valid [OF s] lp(2) True by simp
    then have "si_seek L it k = it2\<lparr> si_data := bi_seek (si_data it2) k \<rparr>"
      unfolding si_seek_def it1 l(1) Let_def using l(4)
      by (simp add: settle_forward.simps unsettled_def)
    then show ?thesis
      using si_rep_inside [OF t, of "it2\<lparr> si_data := bi_seek (si_data it2) k \<rparr>" j] l(2) True s lp es by simp
  next
    case False
    then have nv: "\<not> it_valid (si_index it1)" using si_at_valid [OF t at1] by simp
    then have "si_seek L it k = it1\<lparr> si_data := block_iter_default \<rparr>"
      unfolding si_seek_def it1 load_none [OF nv] Let_def by (simp add: settle_forward.simps unsettled_def)
    moreover have "lower_pos es k = length es"
      using lp(1) False j es by (simp add: chunk_start_end)
    ultimately show ?thesis
      using si_rep_end [OF t, of "it1\<lparr> si_data := block_iter_default \<rparr>" j] at1 es by simp
  qed
qed

lemma si_last_at:
  assumes t: "table L rd envs ies cs" and at: "si_at it rd envs ies cs i"
  shows "si_rep L (si_seek_to_last L it) (concat cs) (length (concat cs) - 1)"
proof -
  define it1 where "it1 = it\<lparr> si_index := bi_seek_to_last (si_index it) \<rparr>"
  have at1: "si_at it1 rd envs ies cs (length cs - 1)"
    using at block_rep_last [of "si_index it" ies i] table_length [OF t] unfolding it1_def
    by (intro si_at_index [OF at]) (simp add: si_at_def)
  have st: "si_seek_to_last L it = (let it = load_current_block L Last it1
      in if it_valid (si_data it) then it else retreat_block L it)"
    by (simp add: si_seek_to_last_def it1_def)
  show ?thesis
  proof (cases "cs = []")
    case True
    then have nv: "\<not> it_valid (si_index it1)" using si_at_valid [OF t at1] by simp
    then have "retreat_block L (it1\<lparr> si_data := block_iter_default \<rparr>) = it1\<lparr> si_data := block_iter_default \<rparr>"
      by (subst retreat_block.simps) (simp add: absorb_data_status_def)
    then have "si_seek_to_last L it = it1\<lparr> si_data := block_iter_default \<rparr>"
      unfolding st load_none [OF nv] by simp
    then show ?thesis
      using si_rep_end [OF t, of "it1\<lparr> si_data := block_iter_default \<rparr>"] at1 True by simp
  next
    case False
    then have j: "length cs - 1 < length cs" "Suc (length cs - 1) = length cs" by simp_all
    from load_at [OF t at1 j(1), of Last] obtain it2 where l: "load_current_block L Last it1 = it2"
        "si_at it2 rd envs ies cs (length cs - 1)"
        "block_rep (si_data it2) (cs ! (length cs - 1)) (length (cs ! (length cs - 1)) - 1)"
        "it_valid (si_data it2)" by auto
    have "chunk_start cs (length cs - 1) + (length (cs ! (length cs - 1)) - 1) = length (concat cs) - 1"
      using chunk_start_Suc [OF j(1)] j(2) block_rep_valid [OF l(3)] l(4) by (simp add: chunk_start_end)
    then show ?thesis
      using si_rep_inside [OF t l(2) j(1) l(3)] block_rep_valid [OF l(3)] l(1,4) unfolding st by simp
  qed
qed

lemma si_rep_last:
  assumes "si_rep L it es i"
  shows "si_rep L (si_seek_to_last L it) es (length es - 1)"
proof -
  obtain rd envs ies cs j where "table L rd envs ies cs" "es = concat cs" "si_at it rd envs ies cs j"
    by (rule si_repE [OF assms])
  then show ?thesis using si_last_at by simp
qed

lemma si_rep_seek_for_prev:
  assumes "si_rep L it es i"
  shows "si_rep L (si_seek_for_prev L it k) es (floor_pos es k)"
proof -
  obtain rd envs ies cs i' where t: "table L rd envs ies cs" and es: "es = concat cs"
      and at: "si_at it rd envs ies cs i'" by (rule si_repE [OF assms])
  have ok: "chunks_ok cs" and sorted: "sorted_keys es" using t es by (simp_all add: table_def chunks_ok_def)
  obtain j it1 where it1: "it\<lparr> si_index := bi_seek (si_index it) k \<rparr> = it1"
      and at1: "si_at it1 rd envs ies cs j" and j: "j \<le> length cs"
      and bounds: "\<And>m. m < j \<Longrightarrow> fst (last (cs ! m)) < k" "j < length cs \<Longrightarrow> k \<le> fst (last (cs ! j))"
    using index_seek [OF t at, of k] by metis
  note lp = lower_pos_chunks [OF ok j bounds]
  note valid = si_at_valid [OF t at1]
  show ?thesis
  proof (cases "j < length cs")
    case False
    then have "lower_pos es k = length es" using lp(1) j es by (simp add: chunk_start_end)
    then have "floor_pos es k = length es - 1" by (auto simp: floor_pos_lower [OF sorted])
    then show ?thesis
      using si_last_at [OF t at1] False valid es unfolding si_seek_for_prev_def it1 Let_def by simp
  next
    case True
    let ?l = "lower_pos (cs ! j) k"
    from load_at [OF t at1 True, of First] obtain it2 where l: "load_current_block L First it1 = it2"
        "si_at it2 rd envs ies cs j" "block_rep (si_data it2) (cs ! j) 0" "it_valid (si_data it2)" by auto
    note s = block_rep_seek_for_prev [OF l(3), of k]
    define it3 where "it3 = it2\<lparr> si_data := bi_seek_for_prev (si_data it2) k \<rparr>"
    have at3: "si_at it3 rd envs ies cs j" using l(2) by (simp add: it3_def)
    have st: "si_seek_for_prev L it k = settle_backward L it3"
      unfolding si_seek_for_prev_def it1 Let_def using True valid l by (simp add: it3_def)
    have lower: "lower_pos es k = chunk_start cs j + ?l" "?l < length (cs ! j)" using lp True es by simp_all
    have inside: "lower_pos es k < length es" "es ! lower_pos es k = cs ! j ! ?l"
      using chunk_start_less [OF True lower(2)] concat_nth [OF True lower(2)] lower(1) es by simp_all
    have floor_es: "floor_pos es k = (if fst (cs ! j ! ?l) = k then chunk_start cs j + ?l
        else if chunk_start cs j + ?l = 0 then length es else chunk_start cs j + ?l - 1)"
      using floor_pos_lower [OF sorted, of k] inside lower(1) by simp
    have floor_c: "floor_pos (cs ! j) k = (if fst (cs ! j ! ?l) = k then ?l
        else if ?l = 0 then length (cs ! j) else ?l - 1)"
      using floor_pos_lower [of "cs ! j" k] block_rep_sorted [OF l(3)] lower(2) by simp
    show ?thesis
    proof (cases "floor_pos (cs ! j) k < length (cs ! j)")
      case in_chunk: True
      then have "settle_backward L it3 = it3"
        using block_rep_valid [OF s] by (simp add: settle_backward.simps unsettled_def it3_def)
      moreover have "floor_pos es k = chunk_start cs j + floor_pos (cs ! j) k"
        using in_chunk floor_es floor_c by (auto split: if_splits)
      ultimately show ?thesis
        using si_rep_inside [OF t at3 True, of "floor_pos (cs ! j) k"] s in_chunk es unfolding st
        by (simp add: it3_def)
    next
      case False
      then have zero: "?l = 0" "fst (cs ! j ! ?l) \<noteq> k" using floor_c lower(2) by (auto split: if_splits)
      have "unsettled it3"
        using False block_rep_valid [OF s] True si_at_valid [OF t at3] at3 by (simp add: unsettled_def it3_def si_at_def)
      then have "settle_backward L it3 = retreat_block L it3"
        using retreat_block_settles [of L it3]
        by (subst settle_backward.simps) (simp add: settle_backward.simps)
      then show ?thesis
        using retreat_at [OF t at3 True] False block_rep_valid [OF s] block_rep_ok [OF s] zero floor_es
          chunk_start_eq_0 [OF t True] es unfolding st
        by (cases "j = 0") (simp_all add: it3_def)
    qed
  qed
qed

lemma si_rep_basic:
  assumes "si_rep L it es i"
  shows "sorted_keys es" and "i \<le> length es" and "si_valid it \<longleftrightarrow> i < length es"
    and "si_status_of it = Ok" and "i < length es \<Longrightarrow> si_entry it = es ! i"
proof -
  obtain rd envs ies cs j where t: "table L rd envs ies cs" and es: "es = concat cs"
      and at: "si_at it rd envs ies cs j"
      and d: "if i < length es then j < length cs
           \<and> (\<exists>p < length (cs ! j). i = chunk_start cs j + p \<and> block_rep (si_data it) (cs ! j) p)
         else i = length es \<and> \<not> it_valid (si_data it) \<and> it_status (si_data it) = Ok"
    by (rule si_repE [OF assms])
  show "sorted_keys es" using t es by (simp add: table_def chunks_ok_def)
  show "i \<le> length es" using d by (auto split: if_splits)
  show "si_valid it \<longleftrightarrow> i < length es"
    using d block_rep_valid by (fastforce simp: si_valid_def split: if_splits)
  show "si_status_of it = Ok"
    using at d block_rep_ok by (fastforce simp: si_at_def si_status_of_def split: if_splits)
  show "si_entry it = es ! i" if "i < length es"
    using d that concat_nth [of j cs] block_rep_entry [of "si_data it" "cs ! j"] es
    by (auto simp: si_entry_def)
qed

interpretation sst: cursor "si_rep L" si_valid si_entry "\<lambda>it. si_status_of it = Ok"
    "si_seek_to_first L" "si_seek L" "si_next L" "si_seek_to_last L" "si_seek_for_prev L" "si_prev L"
  for L
  by unfold_locales
     (simp_all add: si_rep_basic si_rep_first si_rep_seek si_rep_next si_rep_last [unfolded One_nat_def]
       si_rep_seek_for_prev si_rep_prev)

end
