(* ===== verification/Sst.thy ===== *)
theory Sst
  imports Table
begin

text \<open>
  Tables end to end: what \<open>SstWriter\<close> writes, \<open>SstReader\<close> reads. The writer's state is shown to lay
  out a table at every point, the file it finishes is opened again, and from the table theory follow
  the lookups and the scans.
\<close>

section \<open>Lookups in a table\<close>

lemma find_chunk:
  assumes "chunks_ok cs" and "j < length cs"
    and "\<And>m. m < j \<Longrightarrow> fst (last (cs ! m)) < k" and "k \<le> fst (last (cs ! j))"
  shows "find (\<lambda>e. fst e = k) (concat cs) = find (\<lambda>e. fst e = k) (cs ! j)"
proof -
  have sorted: "sorted_keys (concat cs)" using assms(1) by (simp add: chunks_ok_def)
  have sorted_j: "sorted_keys (cs ! j)"
    using sorted unfolding concat_split [OF assms(2)] sorted_keys_def by (simp add: sorted_wrt_append)
  note lp = lower_pos_chunks [OF assms(1) less_imp_le [OF assms(2)] assms(3,4)]
  have "lower_pos (concat cs) k = chunk_start cs j + lower_pos (cs ! j) k" "lower_pos (cs ! j) k < length (cs ! j)"
    using lp assms(2,4) by auto
  then show ?thesis
    unfolding find_key_lower [OF sorted] find_key_lower [OF sorted_j]
    using concat_nth [OF assms(2)] chunk_start_less [OF assms(2)] by auto
qed

lemma find_beyond:
  assumes "chunks_ok cs" and "\<And>m. m < length cs \<Longrightarrow> fst (last (cs ! m)) < k"
  shows "find (\<lambda>e. fst e = k) (concat cs) = None"
proof -
  have sorted: "sorted_keys (concat cs)" using assms(1) by (simp add: chunks_ok_def)
  have "lower_pos (concat cs) k = length (concat cs)"
    using lower_pos_chunks(1) [OF assms(1) order_refl assms(2)] by (simp add: chunk_start_end)
  then show ?thesis unfolding find_key_lower [OF sorted] by simp
qed

lemma fst_it_entry: "fst (it_entry it) = it_key it"
  by (simp add: it_entry_def)

lemma sst_get_loaded:
  assumes t: "table L rd envs ies cs" and env: "env \<in> envs" and f: "rd_filter rd = Some f"
    and filter: "\<And>e. e \<in> set (concat cs) \<Longrightarrow> bloom_may_contain f (fst e)"
  shows "\<exists>env' \<in> envs. sst_get L env rd k = (Inr (map_option snd (find (\<lambda>e. fst e = k) (concat cs))), rd, env')"
proof (cases "bloom_may_contain f k")
  case False
  then have "find (\<lambda>e. fst e = k) (concat cs) = None" using filter by (fastforce simp: find_None_iff)
  then show ?thesis using False env f by (auto simp: sst_get_def ensure_filter_def)
next
  case True
  have ok: "chunks_ok cs" and idx: "block_rep (BlockIterator (rd_index rd)) ies (length ies)"
    using t by (simp_all add: table_def)
  define it where "it = bi_seek (BlockIterator (rd_index rd)) k"
  let ?j = "lower_pos ies k"
  have r: "block_rep it ies ?j" unfolding it_def by (rule block_rep_seek [OF idx])
  have len: "length ies = length cs" by (rule table_length [OF t])
  have before: "fst (last (cs ! m)) < k" if "m < ?j" for m
    using lower_pos_props(1) [OF that] table_key [OF t, of m] that lower_pos_le [of ies k] len by simp
  show ?thesis
  proof (cases "?j < length cs")
    case j: False
    then have "\<not> it_valid it" "it_status it = Ok" using block_rep_valid [OF r] block_rep_ok [OF r] len by simp_all
    moreover have "find (\<lambda>e. fst e = k) (concat cs) = None"
      using find_beyond [OF ok, of k] before j by simp
    ultimately show ?thesis
      using True env f by (auto simp: sst_get_def ensure_filter_def it_def Let_def)
  next
    case j: True
    have here: "k \<le> fst (last (cs ! ?j))"
      using lower_pos_props(2) [of ies k] table_key [OF t j] j len by simp
    obtain h content env' where h: "decode_index_handle (snd (snd (ies ! ?j))) = Some h"
        "block_rep (BlockIterator content) (cs ! ?j) (length (cs ! ?j))" "env' \<in> envs"
        "load_block L env rd h [] = (Inr content, env')"
      using t j env unfolding table_def serves_def by metis
    have val: "it_valid it" "it_value it = snd (snd (ies ! ?j))"
      using block_rep_valid [OF r] block_rep_entry [OF r] j len by (simp_all add: it_entry_def) (metis snd_conv)
    define e where "e = bi_seek (BlockIterator content) k"
    have re: "block_rep e (cs ! ?j) (lower_pos (cs ! ?j) k)" unfolding e_def by (rule block_rep_seek [OF h(2)])
    have hit: "(if it_valid e \<and> it_key e = k then Some (it_entry e) else None)
        = find (\<lambda>e. fst e = k) (concat cs)"
      using trans [OF block.seek_hit [OF h(2), of k] find_chunk [OF ok j before here, symmetric]]
      by (simp only: e_def fst_it_entry)
    have "sst_get L env rd k = (Inr (if it_valid e \<and> it_key e = k then Some (it_type e, it_value e) else None), rd, env')"
      using True f val h(1,4) block_rep_ok [OF re]
      by (simp add: sst_get_def ensure_filter_def it_def [symmetric] e_def [symmetric] Let_def)
    then show ?thesis using h(3) unfolding hit [symmetric] by (auto simp: it_entry_def)
  qed
qed

section \<open>What the writer lays out\<close>

text \<open>
  The documentation of the two libraries: compressing into a buffer of the size their bound function
  gives does not fail, for LZ4 up to its input limit.
\<close>

definition codecs_total :: "codec_library \<Rightarrow> bool" where
  "codecs_total L \<longleftrightarrow>
     (\<forall>c. length c \<le> LZ4_MAX_INPUT_SIZE \<longrightarrow>
        0 < LZ4_compressBound L (int (length c))
        \<and> LZ4_compress_default L c (LZ4_compressBound L (int (length c))) \<noteq> None)
     \<and> (\<forall>c. ZSTD_compress L c (ZSTD_compressBound L (length c)) 3 \<noteq> None)"

lemma frame_block_total:
  assumes "codecs_total L" and "length c \<le> LZ4_MAX_INPUT_SIZE"
  shows "fst (frame_block L c codec []) = Ok"
  using assms
  by (cases codec)
     (auto simp: frame_block_def compress_lz4_def compress_zstd_def codecs_total_def
       LZ4_MAX_INPUT_SIZE_def Let_def split: option.split)

text \<open>What a caller of the writer keeps to.\<close>

definition writable :: "sst_options \<Rightarrow> entry list \<Rightarrow> bool" where
  "writable opts es \<longleftrightarrow>
     0 < opt_restart_interval opts \<and> block_bytes opts \<le> 2 ^ 30 \<and> sorted_keys es
     \<and> int (length es) * max 1 (bloom_bits_per_key opts) < 2 ^ 40
     \<and> (\<forall>(k, t, v) \<in> set es. length k \<le> kMaxKeyBytes \<and> length v \<le> kMaxValueBytes)"

lemma writable_length: "writable opts es \<Longrightarrow> length es < 2 ^ 64"
proof -
  assume "writable opts es"
  then have "int (length es) * max 1 (bloom_bits_per_key opts) < 2 ^ 40" by (simp add: writable_def)
  moreover have "int (length es) * 1 \<le> int (length es) * max 1 (bloom_bits_per_key opts)"
    by (rule mult_left_mono) simp_all
  ultimately have "int (length es) < 2 ^ 40" by linarith
  then show ?thesis by simp
qed

definition chunk_content :: "sst_options \<Rightarrow> entry list \<Rightarrow> bytes" where
  "chunk_content opts c = build_block (opt_restart_interval opts) c"

definition chunk_frame :: "codec_library \<Rightarrow> sst_options \<Rightarrow> entry list \<Rightarrow> bytes" where
  "chunk_frame L opts c = snd (frame_block L (chunk_content opts c) (opt_compression opts) [])"

definition chunk_handle :: "codec_library \<Rightarrow> sst_options \<Rightarrow> entry list list \<Rightarrow> nat \<Rightarrow> block_handle" where
  "chunk_handle L opts cs j =
     \<lparr> offset = of_nat (chunk_start (map (chunk_frame L opts) cs) j),
       hlength = of_nat (length (chunk_frame L opts (cs ! j))) \<rparr>"

definition index_entries :: "codec_library \<Rightarrow> sst_options \<Rightarrow> entry list list \<Rightarrow> entry list" where
  "index_entries L opts cs =
     map (\<lambda>j. (fst (last (cs ! j)), Put, encode_handle (chunk_handle L opts cs j))) [0..<length cs]"

text \<open>
  The state of the writer after the entries of \<open>cs\<close> went out in blocks and those of \<open>pend\<close> are in the
  block being filled.
\<close>

definition writer_lays ::
    "codec_library \<Rightarrow> sst_options \<Rightarrow> sst_writer \<Rightarrow> entry list list \<Rightarrow> entry list \<Rightarrow> bool" where
  "writer_lays L opts w cs pend \<longleftrightarrow>
     w_options w = opts \<and> w_file w = concat (map (chunk_frame L opts) cs)
     \<and> data_block w = bb_add_all pend (BlockBuilder (opt_restart_interval opts))
     \<and> index_block w = bb_add_all (index_entries L opts cs) (BlockBuilder (opt_restart_interval opts))
     \<and> bloom w = (BloomBuilder (bloom_bits_per_key opts) (bloom_probes opts))
                   \<lparr> hashes := map (\<lambda>e. xxhash64 (fst e) 0) (concat cs @ pend) \<rparr>
     \<and> (\<forall>c \<in> set cs. c \<noteq> [] \<and> length (chunk_content opts c) \<le> max_uncompressed (block_bytes opts)
          \<and> length (chunk_content opts c) \<le> LZ4_MAX_INPUT_SIZE)"

definition unfilled :: "sst_writer \<Rightarrow> entry list \<Rightarrow> bool" where
  "unfilled w pend \<longleftrightarrow> pend = [] \<or> bb_size_estimate (data_block w) < block_bytes (w_options w)"

lemma bb_add_all_snoc: "bb_add_all (es @ [(k, t, v)]) b = bb_add (bb_add_all es b) k t v"
  by (simp add: bb_add_all_def)

lemma bb_add_fields:
  "restart_interval (bb_add b k t v) = restart_interval b" "entries (bb_add b k t v) = entries b + 1"
  "last_key (bb_add b k t v) = k"
  by (auto simp: bb_add_def Let_def split: prod.splits)

lemma bb_add_all_fields:
  "restart_interval (bb_add_all es b) = restart_interval b"
  "entries (bb_add_all es b) = entries b + of_nat (length es)"
  "es \<noteq> [] \<Longrightarrow> last_key (bb_add_all es b) = fst (last es)"
  by (induction es rule: rev_induct)
     (auto simp: bb_add_all_def bb_add_fields split: prod.splits)

lemma bb_size_add:
  "bb_size_estimate (bb_add b k t v) \<le> bb_size_estimate b + 20 + length k + length v"
proof -
  have v: "length (put_varint32 x) \<le> 5" for x by (rule length_put_varint32)
  show ?thesis
    using v [of "of_nat (shared_length (last_key b) k)"] v [of "of_nat (length k - shared_length (last_key b) k)"]
      v [of "of_nat (length k)"] v [of 0] v [of "of_nat (length v)"]
    by (auto simp: bb_add_def bb_size_estimate_def Let_def simp del: of_nat_diff)
qed

lemma bb_reset_fresh: "restart_interval b = ri \<Longrightarrow> bb_reset b = BlockBuilder ri"
  by (cases b) (simp add: bb_reset_def BlockBuilder_def)

lemma length_bb_finish: "length (fst (bb_finish b)) = bb_size_estimate b"
  by (simp add: bb_finish_def Let_def bb_size_estimate_def length_restart_bytes [where f = "\<lambda>x. x", simplified])

lemma of_nat_u64_eq_0: "n < 2 ^ 64 \<Longrightarrow> (of_nat n :: u64) = 0 \<longleftrightarrow> n = 0"
  by (simp add: word_unat_eq_iff unsigned_of_nat take_bit_nat_eq_self)

lemma index_entries_snoc:
  "index_entries L opts (cs @ [c]) = index_entries L opts cs
     @ [(fst (last c), Put, encode_handle \<lparr> offset = of_nat (length (concat (map (chunk_frame L opts) cs))),
          hlength = of_nat (length (chunk_frame L opts c)) \<rparr>)]"
  by (auto simp: index_entries_def chunk_handle_def chunk_start_def nth_append)

text \<open>The fields of the writer that a flush leaves alone.\<close>

definition same_counts :: "sst_writer \<Rightarrow> sst_writer \<Rightarrow> bool" where
  "same_counts w w' \<longleftrightarrow>
     num_entries w' = num_entries w \<and> num_tombstones w' = num_tombstones w
     \<and> smallest_key w' = smallest_key w \<and> largest_key w' = largest_key w
     \<and> num_range_tombstones w' = num_range_tombstones w \<and> range_del_block w' = range_del_block w
     \<and> smallest_range_key w' = smallest_range_key w \<and> largest_range_key w' = largest_range_key w"

lemma flush_lays:
  assumes w: "writer_lays L opts w cs pend" and "pend \<noteq> []" and "length pend < 2 ^ 64"
    and "codecs_total L" and "length (chunk_content opts pend) \<le> LZ4_MAX_INPUT_SIZE"
    and "length (chunk_content opts pend) \<le> max_uncompressed (block_bytes opts)"
  shows "\<exists>w'. flush_data_block L w = (Ok, w') \<and> writer_lays L opts w' (cs @ [pend]) [] \<and> same_counts w w'"
proof -
  let ?ri = "opt_restart_interval opts"
  have db: "data_block w = bb_add_all pend (BlockBuilder ?ri)" and opts: "w_options w = opts"
    and fl: "w_file w = concat (map (chunk_frame L opts) cs)"
    using w by (simp_all add: writer_lays_def)
  have "of_nat (length pend) \<noteq> (0 :: u64)" using of_nat_u64_eq_0 [OF assms(3)] assms(2) by simp
  then have ne: "\<not> bb_empty (data_block w)"
    by (simp add: bb_empty_def db bb_add_all_fields) (simp add: BlockBuilder_def)
  have lk: "last_key (data_block w) = fst (last pend)" using assms(2) by (simp add: db bb_add_all_fields)
  have content: "fst (bb_finish (data_block w)) = chunk_content opts pend"
    by (simp add: chunk_content_def build_block_def db)
  have frame: "frame_block L (chunk_content opts pend) (opt_compression opts) (w_file w)
      = (Ok, w_file w @ chunk_frame L opts pend)"
    using frame_block_out [of L "chunk_content opts pend" "opt_compression opts" "w_file w"]
      frame_block_total [OF assms(4,5)] by (simp add: chunk_frame_def)
  have ri: "restart_interval (snd (bb_finish (data_block w))) = ?ri"
    by (simp add: bb_finish_def Let_def db bb_add_all_fields) (simp add: BlockBuilder_def)
  obtain w' where w': "w' = w\<lparr> data_block := BlockBuilder ?ri, w_file := w_file w @ chunk_frame L opts pend,
      index_block := bb_add (index_block w) (fst (last pend)) Put
        (encode_handle \<lparr> offset = of_nat (length (w_file w)), hlength = of_nat (length (chunk_frame L opts pend)) \<rparr>) \<rparr>"
    by simp
  have "flush_data_block L w = (Ok, w')"
    using ne bb_reset_fresh [OF ri] content
    by (cases "bb_finish (data_block w)")
       (simp add: flush_data_block_def lk opts frame w' Let_def)
  moreover have "writer_lays L opts w' (cs @ [pend]) []"
    using w assms(2,5,6)
    by (auto simp: writer_lays_def w' index_entries_snoc bb_add_all_snoc fl bb_add_all_def [of "[]"])
  moreover have "same_counts w w'" by (simp add: same_counts_def w')
  ultimately show ?thesis by blast
qed

lemma chunk_content_size:
  "length (chunk_content opts c) = bb_size_estimate (bb_add_all c (BlockBuilder (opt_restart_interval opts)))"
  by (simp add: chunk_content_def build_block_def length_bb_finish)

lemma writer_lays_add:
  assumes w: "writer_lays L opts w cs pend" "unfilled w pend" and "codecs_total L" and "block_bytes opts \<le> 2 ^ 30"
    and "length pend < 2 ^ 64 - 1" and "length k \<le> kMaxKeyBytes" and "length v \<le> kMaxValueBytes"
  shows "if block_bytes opts \<le> length (chunk_content opts (pend @ [(k, t, v)]))
    then writer_lays L opts (sw_add L w k t v) (cs @ [pend @ [(k, t, v)]]) []
    else writer_lays L opts (sw_add L w k t v) cs (pend @ [(k, t, v)]) \<and> unfilled (sw_add L w k t v) (pend @ [(k, t, v)])"
proof -
  let ?ri = "opt_restart_interval opts" and ?pend = "pend @ [(k, t, v)]"
  define w1 where "w1 = (if num_entries w = 0 then w\<lparr> smallest_key := k \<rparr> else w)
      \<lparr> largest_key := k, num_entries := num_entries w + 1,
        num_tombstones := (if t = Delete then num_tombstones w + 1 else num_tombstones w),
        bloom := bloom_add (bloom w) k, data_block := bb_add (data_block w) k t v \<rparr>"
  have st: "sw_add L w k t v =
      (if block_bytes opts \<le> bb_size_estimate (data_block w1) then snd (flush_data_block L w1) else w1)"
    using w(1) by (simp add: sw_add_def w1_def Let_def writer_lays_def)
  have db: "data_block w1 = bb_add_all ?pend (BlockBuilder ?ri)"
    using w(1) by (simp add: w1_def writer_lays_def bb_add_all_snoc)
  have "bb_size_estimate (data_block w) < block_bytes opts \<or> bb_size_estimate (data_block w) = 8"
    using w by (cases "pend = []")
      (auto simp: writer_lays_def unfilled_def bb_add_all_def BlockBuilder_def bb_size_estimate_def)
  moreover have "bb_size_estimate (data_block w1) \<le> bb_size_estimate (data_block w) + 20 + length k + length v"
    using bb_size_add [of "data_block w" k t v] by (simp add: w1_def)
  ultimately have "bb_size_estimate (data_block w1) \<le> kMaxEntryBlockBytes + block_bytes opts"
    using assms(6,7) by (auto simp: kMaxEntryBlockBytes_def kMaxKeyBytes_def kMaxValueBytes_def)
  then have size: "length (chunk_content opts ?pend) \<le> kMaxEntryBlockBytes + block_bytes opts"
    unfolding chunk_content_size db .
  have lays: "writer_lays L opts w1 cs ?pend"
    using w(1) db by (auto simp: writer_lays_def w1_def bloom_add_def)
  have est: "length (chunk_content opts ?pend) = bb_size_estimate (data_block w1)"
    unfolding chunk_content_size db ..
  show ?thesis
  proof (cases "block_bytes opts \<le> bb_size_estimate (data_block w1)")
    case False
    then show ?thesis
      using lays st est by (simp add: unfilled_def writer_lays_def)
  next
    case True
    have "length ?pend < 2 ^ 64" using assms(5) by simp
    moreover have "length (chunk_content opts ?pend) \<le> LZ4_MAX_INPUT_SIZE"
      using size assms(4)
      by (simp add: LZ4_MAX_INPUT_SIZE_def kMaxEntryBlockBytes_def kMaxKeyBytes_def kMaxValueBytes_def)
    moreover have "length (chunk_content opts ?pend) \<le> max_uncompressed (block_bytes opts)"
      using size by (simp add: max_uncompressed_def)
    ultimately obtain w' where "flush_data_block L w1 = (Ok, w')" "writer_lays L opts w' (cs @ [?pend]) []"
      using flush_lays [OF lays _ _ assms(3)] by auto
    then show ?thesis
      using True st est by simp
  qed
qed

lemma flush_keeps: "same_counts w (snd (flush_data_block L w))"
  by (simp add: flush_data_block_def same_counts_def Let_def split_def)

lemma sw_add_keeps_ranges:
  "num_range_tombstones (sw_add L w k t v) = num_range_tombstones w"
  "range_del_block (sw_add L w k t v) = range_del_block w"
  using flush_keeps by (auto simp: sw_add_def Let_def same_counts_def)

lemma sw_add_all_keeps_ranges:
  "num_range_tombstones (sw_add_all L es w) = num_range_tombstones w"
  "range_del_block (sw_add_all L es w) = range_del_block w"
  unfolding sw_add_all_def
  by (induction es arbitrary: w) (auto simp: sw_add_keeps_ranges split: prod.splits)

lemma writer_lays_all:
  assumes "codecs_total L" and "block_bytes opts \<le> 2 ^ 30"
    and "writer_lays L opts w cs pend" "unfilled w pend" "length (concat cs @ pend @ es) < 2 ^ 64"
    and "\<forall>(k, t, v) \<in> set es. length k \<le> kMaxKeyBytes \<and> length v \<le> kMaxValueBytes"
    and "\<forall>c \<in> set cs. block_bytes opts \<le> length (chunk_content opts c)"
  shows "\<exists>cs' pend'. writer_lays L opts (sw_add_all L es w) cs' pend' \<and> unfilled (sw_add_all L es w) pend'
    \<and> concat cs' @ pend' = concat cs @ pend @ es \<and> (\<forall>c \<in> set cs'. block_bytes opts \<le> length (chunk_content opts c))"
  using assms(3-7)
proof (induction es arbitrary: w cs pend)
  case Nil
  then show ?case by (auto simp: sw_add_all_def)
next
  case (Cons e es)
  obtain k t v where e: "e = (k, t, v)" by (cases e)
  have "length pend < 2 ^ 64 - 1" using Cons.prems(3) by simp
  with writer_lays_add [OF Cons.prems(1,2) assms(1,2)] Cons.prems(4) e
  have add: "if block_bytes opts \<le> length (chunk_content opts (pend @ [e]))
    then writer_lays L opts (sw_add L w k t v) (cs @ [pend @ [e]]) []
    else writer_lays L opts (sw_add L w k t v) cs (pend @ [e]) \<and> unfilled (sw_add L w k t v) (pend @ [e])"
    by auto
  obtain cs1 pend1 where 1: "writer_lays L opts (sw_add L w k t v) cs1 pend1" "unfilled (sw_add L w k t v) pend1"
      and c: "concat cs1 @ pend1 = concat cs @ pend @ [e]" and full: "\<forall>c \<in> set cs1. block_bytes opts \<le> length (chunk_content opts c)"
  proof (cases "block_bytes opts \<le> length (chunk_content opts (pend @ [e]))")
    case True
    with add Cons.prems(5) show thesis by (intro that [of "cs @ [pend @ [e]]" "[]"]) (auto simp: unfilled_def)
  next
    case False
    with add Cons.prems(5) show thesis by (intro that [of cs "pend @ [e]"]) simp_all
  qed
  have "length (concat cs1 @ pend1 @ es) < 2 ^ 64"
    using Cons.prems(3) arg_cong [OF c, of length] by simp
  with Cons.IH [OF 1 _ _ full] Cons.prems(4) obtain cs' pend'
    where "writer_lays L opts (sw_add_all L es (sw_add L w k t v)) cs' pend'"
      "unfilled (sw_add_all L es (sw_add L w k t v)) pend'" "concat cs' @ pend' = concat cs1 @ pend1 @ es"
      "\<forall>c \<in> set cs'. block_bytes opts \<le> length (chunk_content opts c)"
    by auto
  moreover have "concat cs1 @ pend1 @ es = concat cs @ pend @ e # es" using c by (metis append.assoc append_Cons append_Nil)
  moreover have "sw_add_all L (e # es) w = sw_add_all L es (sw_add L w k t v)" by (simp add: sw_add_all_def e)
  ultimately show ?case by auto
qed

lemma writer_lays_ranges:
  "writer_lays L opts w cs pend \<Longrightarrow> writer_lays L opts (sw_add_range_tombstone w lo up) cs pend"
  "unfilled w pend \<Longrightarrow> unfilled (sw_add_range_tombstone w lo up) pend"
  by (simp_all add: writer_lays_def unfilled_def sw_add_range_tombstone_def)

definition range_entries :: "range_tombstone list \<Rightarrow> entry list" where
  "range_entries rs = map (\<lambda>r. (lower r, Put, upper r)) rs"

definition start_writer :: "sst_options \<Rightarrow> range_tombstone list \<Rightarrow> sst_writer" where
  "start_writer opts ranges = fold (\<lambda>r w. sw_add_range_tombstone w (lower r) (upper r)) ranges (SstWriter opts)"

lemma start_writer_lays:
  "writer_lays L opts (start_writer opts ranges) [] [] \<and> unfilled (start_writer opts ranges) []
   \<and> range_del_block (start_writer opts ranges)
       = bb_add_all (range_entries ranges) (BlockBuilder (opt_restart_interval opts))
   \<and> num_range_tombstones (start_writer opts ranges) = of_nat (length ranges)"
proof (induction ranges rule: rev_induct)
  case Nil
  then show ?case
    by (simp add: start_writer_def writer_lays_def unfilled_def SstWriter_def bb_add_all_def
        index_entries_def BloomBuilder_def range_entries_def)
next
  case (snoc r rs)
  have "start_writer opts (rs @ [r]) = sw_add_range_tombstone (start_writer opts rs) (lower r) (upper r)"
    by (simp add: start_writer_def)
  with snoc show ?case
    using writer_lays_ranges by (simp add: range_entries_def bb_add_all_snoc) (simp add: sw_add_range_tombstone_def)
qed

section \<open>The finished file\<close>

text \<open>
  A file is a sequence of framed blocks and the footer. \<open>file_blocks\<close> lists the contents in the order
  they are written, each with the codec asked for.
\<close>

definition file_blocks ::
    "codec_library \<Rightarrow> sst_options \<Rightarrow> entry list list \<Rightarrow> range_tombstone list \<Rightarrow> (bytes \<times> compression) list" where
  "file_blocks L opts cs ranges =
     map (\<lambda>c. (chunk_content opts c, opt_compression opts)) cs
       @ [(bloom_finish ((BloomBuilder (bloom_bits_per_key opts) (bloom_probes opts))
             \<lparr> hashes := map (\<lambda>e. xxhash64 (fst e) 0) (concat cs) \<rparr>), None_codec),
          (chunk_content opts (index_entries L opts cs), opt_compression opts)]
       @ (if ranges = [] then [] else [(chunk_content opts (range_entries ranges), opt_compression opts)])"

definition block_frames :: "codec_library \<Rightarrow> (bytes \<times> compression) list \<Rightarrow> bytes list" where
  "block_frames L bs = map (\<lambda>(c, codec). snd (frame_block L c codec [])) bs"

definition frame_handle :: "bytes list \<Rightarrow> nat \<Rightarrow> block_handle" where
  "frame_handle fs i = \<lparr> offset = of_nat (chunk_start fs i), hlength = of_nat (length (fs ! i)) \<rparr>"

definition file_footer :: "bytes list \<Rightarrow> nat \<Rightarrow> bool \<Rightarrow> u64 \<Rightarrow> footer" where
  "file_footer fs n ranged count =
     \<lparr> ffilter = frame_handle fs n, findex = frame_handle fs (n + 1), fnum_entries = count,
       format_version = 3, range_del = (if ranged then frame_handle fs (n + 2) else zero_handle), fcrc = 0 \<rparr>"

definition framed_ok :: "codec_library \<Rightarrow> (bytes \<times> compression) list \<Rightarrow> bool" where
  "framed_ok L bs \<longleftrightarrow> (\<forall>(c, codec) \<in> set bs. fst (frame_block L c codec []) = Ok)"

lemma append_block_eq:
  "append_block L c codec fl =
     (case frame_block L c codec [] of (s, raw) \<Rightarrow>
        if s \<noteq> Ok then Inl s
        else Inr (fl @ raw, \<lparr> offset = of_nat (length fl), hlength = of_nat (length raw) \<rparr>))"
  unfolding append_block_def
  by (subst frame_block_out) (simp add: split_def)

lemma final_flush:
  assumes w: "writer_lays L opts w cs pend" "unfilled w pend" and "codecs_total L"
    and "block_bytes opts \<le> 2 ^ 30" and "length (concat cs @ pend) < 2 ^ 64"
  shows "\<exists>w'. flush_data_block L (w\<lparr> w_finished := True \<rparr>) = (Ok, w')
    \<and> writer_lays L opts w' (if pend = [] then cs else cs @ [pend]) [] \<and> same_counts w w'"
proof -
  let ?w = "w\<lparr> w_finished := True \<rparr>"
  have w1: "writer_lays L opts ?w cs pend" using w(1) by (simp add: writer_lays_def)
  show ?thesis
  proof (cases "pend = []")
    case True
    then have "bb_empty (data_block w)"
      using w(1) by (simp add: writer_lays_def bb_empty_def bb_add_all_def BlockBuilder_def)
    then show ?thesis
      using w1 True by (intro exI [of _ ?w]) (simp add: flush_data_block_def same_counts_def)
  next
    case False
    have "length (chunk_content opts pend) < block_bytes opts"
      using w False by (simp add: unfilled_def writer_lays_def chunk_content_size)
    then have "length (chunk_content opts pend) \<le> LZ4_MAX_INPUT_SIZE"
        "length (chunk_content opts pend) \<le> max_uncompressed (block_bytes opts)"
      using assms(4) by (simp_all add: LZ4_MAX_INPUT_SIZE_def max_uncompressed_def)
    with flush_lays [OF w1 False _ assms(3)] assms(5) obtain w'
      where "flush_data_block L ?w = (Ok, w')" "writer_lays L opts w' (cs @ [pend]) []" "same_counts ?w w'"
      by auto
    then show ?thesis using False by (intro exI [of _ w']) (simp add: same_counts_def)
  qed
qed

lemma finish_from:
  assumes L: "codecs_total L" and bb: "block_bytes opts \<le> 2 ^ 30"
    and w0: "writer_lays L opts w0 cs0 pend" "unfilled w0 pend" and len: "length (concat cs0 @ pend) < 2 ^ 64"
    and rs: "length ranges < 2 ^ 64" "num_range_tombstones w0 = of_nat (length ranges)"
      "range_del_block w0 = bb_add_all (range_entries ranges) (BlockBuilder (opt_restart_interval opts))"
    and cs: "cs = (if pend = [] then cs0 else cs0 @ [pend])"
  shows "\<forall>c \<in> set cs. c \<noteq> [] \<and> length (chunk_content opts c) \<le> max_uncompressed (block_bytes opts)"
    and "if framed_ok L (file_blocks L opts cs ranges)
      then \<exists>r. sw_finish L w0 = Inr r \<and> r_bytes r = concat (block_frames L (file_blocks L opts cs ranges))
        @ footer_encode (file_footer (block_frames L (file_blocks L opts cs ranges)) (length cs) (ranges \<noteq> []) (r_num_entries r))
      else \<exists>s. sw_finish L w0 = Inl s"
    and "fst (bb_finish (index_block (snd (flush_data_block L (w0\<lparr> w_finished := True \<rparr>))))) = chunk_content opts (index_entries L opts cs)"
proof -
  obtain w where w: "flush_data_block L (w0\<lparr> w_finished := True \<rparr>) = (Ok, w)" "writer_lays L opts w cs []"
      "same_counts w0 w"
    using final_flush [OF w0 L bb len] unfolding cs by blast
  define F I R where "F = frame_block L (bloom_finish (bloom w)) None_codec []"
    and "I = frame_block L (fst (bb_finish (index_block w))) (opt_compression opts) []"
    and "R = frame_block L (fst (bb_finish (range_del_block w))) (opt_compression opts) []"
  have ranged: "num_range_tombstones w \<noteq> 0 \<longleftrightarrow> ranges \<noteq> []"
    using w(3) rs(2) of_nat_u64_eq_0 [OF rs(1)] by (simp add: same_counts_def)
  have contents: "bloom_finish (bloom w) = bloom_finish ((BloomBuilder (bloom_bits_per_key opts) (bloom_probes opts))
         \<lparr> hashes := map (\<lambda>e. xxhash64 (fst e) 0) (concat cs) \<rparr>)"
      "fst (bb_finish (index_block w)) = chunk_content opts (index_entries L opts cs)"
      "fst (bb_finish (range_del_block w)) = chunk_content opts (range_entries ranges)"
    using w(2,3) rs(3) by (simp_all add: writer_lays_def same_counts_def chunk_content_def build_block_def)
  have fl: "w_file w = concat (map (chunk_frame L opts) cs)" "w_options w = opts"
    using w(2) by (simp_all add: writer_lays_def)
  define fs where "fs = block_frames L (file_blocks L opts cs ranges)"
  have fs: "fs = map (chunk_frame L opts) cs @ [snd F, snd I] @ (if ranges = [] then [] else [snd R])"
    by (simp add: fs_def block_frames_def file_blocks_def F_def I_def R_def contents chunk_frame_def)
  obtain fo fb io ib ro rb where p: "F = (fo, fb)" "I = (io, ib)" "R = (ro, rb)" by fastforce
  note d = p [unfolded F_def I_def R_def]
  have fin: "if fo = Ok \<and> io = Ok \<and> (ranges \<noteq> [] \<longrightarrow> ro = Ok)
      then \<exists>r. sw_finish L w0 = Inr r
        \<and> r_bytes r = concat fs @ footer_encode (file_footer fs (length cs) (ranges \<noteq> []) (r_num_entries r))
      else \<exists>s. sw_finish L w0 = Inl s"
    unfolding sw_finish_def w(1)
    by (cases "ranges = []")
       (use ranged in \<open>simp_all add: append_block_eq d fl p file_footer_def
         frame_handle_def fs chunk_start_def nth_append add.assoc\<close>)
  have chunks: "\<forall>c \<in> set cs. fst (frame_block L (chunk_content opts c) (opt_compression opts) []) = Ok"
    using w(2) frame_block_total [OF L] by (simp add: writer_lays_def)
  then have "framed_ok L (file_blocks L opts cs ranges) \<longleftrightarrow> fo = Ok \<and> io = Ok \<and> (ranges \<noteq> [] \<longrightarrow> ro = Ok)"
    using d by (auto simp: framed_ok_def file_blocks_def contents)
  then show "if framed_ok L (file_blocks L opts cs ranges)
      then \<exists>r. sw_finish L w0 = Inr r \<and> r_bytes r = concat (block_frames L (file_blocks L opts cs ranges))
        @ footer_encode (file_footer (block_frames L (file_blocks L opts cs ranges)) (length cs) (ranges \<noteq> []) (r_num_entries r))
      else \<exists>s. sw_finish L w0 = Inl s"
    using fin unfolding fs_def by presburger
  show "\<forall>c \<in> set cs. c \<noteq> [] \<and> length (chunk_content opts c) \<le> max_uncompressed (block_bytes opts)"
    using w(2) by (simp add: writer_lays_def)
  show "fst (bb_finish (index_block (snd (flush_data_block L (w0\<lparr> w_finished := True \<rparr>))))) = chunk_content opts (index_entries L opts cs)"
    using contents(2) w(1) by simp
qed

text \<open>The size of the index block \<open>build_sst\<close> writes, before it is compressed.\<close>

definition index_size :: "codec_library \<Rightarrow> sst_options \<Rightarrow> entry list \<Rightarrow> range_tombstone list \<Rightarrow> nat" where
  "index_size L opts es ranges =
     length (fst (bb_finish (index_block (snd (flush_data_block L
       ((sw_add_all L es (start_writer opts ranges))\<lparr> w_finished := True \<rparr>))))))"

lemma finish_blocks:
  assumes L: "codecs_total L" and es: "writable opts es" and rs: "length ranges < 2 ^ 64"
  obtains cs where "concat cs = es"
    and "\<forall>c \<in> set cs. c \<noteq> [] \<and> length (chunk_content opts c) \<le> max_uncompressed (block_bytes opts)"
    and "if framed_ok L (file_blocks L opts cs ranges)
      then \<exists>r. sw_finish L (sw_add_all L es (start_writer opts ranges)) = Inr r
        \<and> r_bytes r = concat (block_frames L (file_blocks L opts cs ranges))
          @ footer_encode (file_footer (block_frames L (file_blocks L opts cs ranges)) (length cs) (ranges \<noteq> []) (r_num_entries r))
      else \<exists>s. sw_finish L (sw_add_all L es (start_writer opts ranges)) = Inl s"
    and "index_size L opts es ranges = length (chunk_content opts (index_entries L opts cs))"
    and "\<forall>c \<in> set (butlast cs). block_bytes opts \<le> length (chunk_content opts c)"
proof -
  note st = start_writer_lays [of L opts ranges]
  have bb: "block_bytes opts \<le> 2 ^ 30" and len: "length es < 2 ^ 64"
    using es writable_length by (auto simp: writable_def)
  obtain cs0 pend where w0: "writer_lays L opts (sw_add_all L es (start_writer opts ranges)) cs0 pend"
      "unfilled (sw_add_all L es (start_writer opts ranges)) pend" "concat cs0 @ pend = es"
      "\<forall>c \<in> set cs0. block_bytes opts \<le> length (chunk_content opts c)"
    using writer_lays_all [OF L bb, of "start_writer opts ranges" "[]" "[]" es] st es len
    by (auto simp: writable_def)
  have r: "num_range_tombstones (sw_add_all L es (start_writer opts ranges)) = of_nat (length ranges)"
      "range_del_block (sw_add_all L es (start_writer opts ranges))
        = bb_add_all (range_entries ranges) (BlockBuilder (opt_restart_interval opts))"
    using st by (simp_all add: sw_add_all_keeps_ranges)
  note fin = finish_from [OF L bb w0(1,2) _ rs r refl]
  have "\<forall>c \<in> set (butlast (if pend = [] then cs0 else cs0 @ [pend])). block_bytes opts \<le> length (chunk_content opts c)"
    using w0(4) by (auto dest: in_set_butlastD)
  then show thesis
    by (intro that [OF _ fin(1,2)]) (use w0(3) len fin(3) in \<open>auto simp: index_size_def\<close>)
qed

lemma finish_cases:
  assumes L: "codecs_total L" and es: "writable opts es" and rs: "length ranges < 2 ^ 64"
  obtains cs where "concat cs = es"
    and "\<forall>c \<in> set cs. c \<noteq> [] \<and> length (chunk_content opts c) \<le> max_uncompressed (block_bytes opts)"
    and "if framed_ok L (file_blocks L opts cs ranges)
      then \<exists>r. sw_finish L (sw_add_all L es (start_writer opts ranges)) = Inr r
        \<and> r_bytes r = concat (block_frames L (file_blocks L opts cs ranges))
          @ footer_encode (file_footer (block_frames L (file_blocks L opts cs ranges)) (length cs) (ranges \<noteq> []) (r_num_entries r))
      else \<exists>s. sw_finish L (sw_add_all L es (start_writer opts ranges)) = Inl s"
  using finish_blocks [OF assms] by metis

end
