(* ===== verification/Sst_Round_Trip.thy ===== *)
theory Sst_Round_Trip
  imports Sst
begin

text \<open>
  Reading back what was written: the file \<open>build_sst\<close> returns, held by a blob store, is opened,
  searched and scanned.
\<close>

section \<open>A store that holds the file\<close>

text \<open>
  The contract of \<open>BlobStore::get\<close>: a read overlapping the end of the object is truncated to what
  exists. The authoritative store, where there is one, holds the same object.
\<close>

definition reads_object :: "blob_get \<Rightarrow> bytes \<Rightarrow> bytes \<Rightarrow> bool" where
  "reads_object g name fl \<longleftrightarrow> (\<forall>off len. g name off len = Inr (take len (drop (unat off) fl)))"

definition holds :: "blob_env \<Rightarrow> bytes \<Rightarrow> bytes \<Rightarrow> bool" where
  "holds env name fl \<longleftrightarrow>
     reads_object (store_get env) name fl
     \<and> (case authority_get env of None \<Rightarrow> True | Some g \<Rightarrow> reads_object g name fl)"

text \<open>A block cache has no entry yet for a file number that was never used.\<close>

definition cache_fresh :: "blob_env \<Rightarrow> u64 \<Rightarrow> bool" where
  "cache_fresh env fn \<longleftrightarrow>
     (case block_cache env of None \<Rightarrow> True | Some bc \<Rightarrow> \<forall>off. bc (fn, off) = None)"

definition good_env ::
    "bytes \<Rightarrow> u64 \<Rightarrow> bytes \<Rightarrow> bytes list \<Rightarrow> (bytes \<times> compression) list \<Rightarrow> blob_env \<Rightarrow> bool" where
  "good_env name fn fl fs bs env \<longleftrightarrow>
     holds env name fl
     \<and> (case block_cache env of
          None \<Rightarrow> True
        | Some bc \<Rightarrow> \<forall>off c. bc (fn, off) = Some c \<longrightarrow>
            (\<exists>i < length bs. off = of_nat (chunk_start fs i) \<and> c = fst (bs ! i)))"

lemma u64_of_nat: "n < 2 ^ 64 \<Longrightarrow> unat (of_nat n :: u64) = n"
  by (simp add: unsigned_of_nat take_bit_nat_eq_self)

lemma u32_of_nat: "n < 2 ^ 32 \<Longrightarrow> unat (of_nat n :: u32) = n"
  by (simp add: unsigned_of_nat take_bit_nat_eq_self)

lemma frame_region:
  "i < length fs \<Longrightarrow> take (length (fs ! i)) (drop (chunk_start fs i) (concat fs @ rest)) = fs ! i"
  by (subst concat_split [of i]) (simp_all add: chunk_start_def)

lemma frame_region_end:
  "i < length fs \<Longrightarrow> chunk_start fs i + length (fs ! i) \<le> length (concat fs @ rest)"
  using chunk_start_mono [of "Suc i" "length fs" fs] by (simp add: chunk_start_Suc chunk_start_end)

lemma framed_nth:
  assumes "framed_ok L bs" and "i < length bs"
  shows "frame_block L (fst (bs ! i)) (snd (bs ! i)) [] = (Ok, block_frames L bs ! i)"
    and "9 \<le> length (block_frames L bs ! i)"
proof -
  have "bs ! i \<in> set bs" using assms(2) by simp
  then have "fst (frame_block L (fst (bs ! i)) (snd (bs ! i)) []) = Ok"
    using assms(1) by (auto simp: framed_ok_def split_def)
  then show f: "frame_block L (fst (bs ! i)) (snd (bs ! i)) [] = (Ok, block_frames L bs ! i)"
    using assms(2) by (auto simp: block_frames_def split_def intro: prod_eqI)
  show "9 \<le> length (block_frames L bs ! i)" by (rule frame_block_length [OF f])
qed

lemma length_block_frames [simp]: "length (block_frames L bs) = length bs"
  by (simp add: block_frames_def)

lemma frame_handle_fits:
  assumes "i < length fs" and "fl = concat fs @ rest" and "length fl < 2 ^ 32"
  shows "handle_fits (frame_handle fs i) (of_nat (length fl))"
    and "unat (offset (frame_handle fs i)) = chunk_start fs i"
    and "unat (hlength (frame_handle fs i)) = length (fs ! i)"
proof -
  have e: "chunk_start fs i + length (fs ! i) \<le> length fl"
    using frame_region_end [OF assms(1), of rest] by (simp add: assms(2))
  show o: "unat (offset (frame_handle fs i)) = chunk_start fs i"
    and l: "unat (hlength (frame_handle fs i)) = length (fs ! i)"
    using e assms(3) by (simp_all add: frame_handle_def u64_of_nat u32_of_nat)
  have c: "unat (ucast (hlength (frame_handle fs i)) :: u64) = length (fs ! i)"
    using l e assms(3) by (simp add: unsigned_ucast_eq take_bit_nat_eq_self)
  have n: "unat (of_nat (length fl) :: u64) = length fl" using assms(3) by (simp add: u64_of_nat)
  have le: "ucast (hlength (frame_handle fs i)) \<le> (of_nat (length fl) :: u64)"
    unfolding word_le_nat_alt c n using e by simp
  then have "unat (of_nat (length fl) - ucast (hlength (frame_handle fs i)) :: u64) = length fl - length (fs ! i)"
    by (simp only: unat_sub c n)
  then show "handle_fits (frame_handle fs i) (of_nat (length fl))"
    using le e o by (simp add: handle_fits_def word_le_nat_alt)
qed

lemma fetch_frame:
  assumes L: "codecs_ok L" and bs: "framed_ok L bs" and i: "i < length bs"
    and fl: "fl = concat (block_frames L bs) @ rest" and n: "length fl < 2 ^ 32"
    and env: "holds env (rd_name rd) fl" and rd: "rd_file_size rd = of_nat (length fl)"
    and pre: "pre = [] \<or> pre = block_frames L bs ! i"
  shows "if m < length (fst (bs ! i))
    then fst (fetch_content L env rd (frame_handle (block_frames L bs) i) pre m) = Inl Corrupt
    else fetch_content L env rd (frame_handle (block_frames L bs) i) pre m = (Inr (fst (bs ! i)), env)"
proof -
  define fs where "fs = block_frames L bs"
  have i': "i < length fs" using i by (simp add: fs_def)
  note h = frame_handle_fits [OF i' _ n, of rest]
  have nine: "9 \<le> length (fs ! i)" using framed_nth(2) [OF bs i] by (simp add: fs_def)
  have raw: "take (length (fs ! i)) (drop (chunk_start fs i) fl) = fs ! i"
    using frame_region [OF i', of rest] by (simp add: fl fs_def)
  have un: "unframe_block L (fs ! i) m = (if m < length (fst (bs ! i)) then Inl Corrupt else Inr (fst (bs ! i)))"
    using unframe_framed [OF L framed_nth(1) [OF bs i]] by (simp add: fs_def)
  have fits: "handle_fits (frame_handle fs i) (rd_file_size rd)" "unat (hlength (frame_handle fs i)) = length (fs ! i)"
      "unat (offset (frame_handle fs i)) = chunk_start fs i"
    using h by (simp_all add: rd fl fs_def)
  have read: "g (rd_name rd) (offset (frame_handle fs i)) (length (fs ! i)) = Inr (fs ! i)"
    if "reads_object g (rd_name rd) fl" for g
    using that raw fits(3) by (simp add: reads_object_def)
  have framed: "(if length pre \<noteq> length (fs ! i) then store_get env (rd_name rd) (offset (frame_handle fs i)) (length (fs ! i))
      else Inr pre) = Inr (fs ! i)"
    using pre nine read [of "store_get env"] env by (auto simp: holds_def fs_def)
  have auth: "a (rd_name rd) (offset (frame_handle fs i)) (length (fs ! i)) = Inr (fs ! i)"
    if "authority_get env = Some a" for a
    using read [of a] env that by (simp add: holds_def)
  show ?thesis
    unfolding fs_def [symmetric]
    using fits nine framed un auth
    by (auto simp: fetch_content_def Let_def kBlockTrailerLength_def split: option.split)
qed

lemma frame_offsets_inj:
  assumes bs: "framed_ok L bs" and n: "length (concat (block_frames L bs) @ rest) < 2 ^ 32"
    and "i < length bs" "j < length bs"
    and eq: "(of_nat (chunk_start (block_frames L bs) i) :: u64) = of_nat (chunk_start (block_frames L bs) j)"
  shows "i = j"
proof -
  define fs where "fs = block_frames L bs"
  have bound: "chunk_start fs k < 2 ^ 64" if "k < length bs" for k
    using frame_region_end [of k fs rest] that n by (simp add: fs_def)
  then have "chunk_start fs i = chunk_start fs j"
    using eq assms(3,4) u64_of_nat unfolding fs_def [symmetric] by metis
  moreover have "chunk_start fs a < chunk_start fs b" if "a < b" "b < length bs" for a b
    using chunk_start_mono [of "Suc a" b fs] chunk_start_Suc [of a fs] framed_nth(2) [OF bs, of a] that
    by (simp add: fs_def)
  ultimately show ?thesis using assms(3,4) by (metis linorder_neqE_nat order_less_irrefl)
qed

lemma load_frame:
  assumes L: "codecs_ok L" and bs: "framed_ok L bs" and i: "i < length bs"
    and fl: "fl = concat (block_frames L bs) @ rest" and n: "length fl < 2 ^ 32"
    and env: "good_env (rd_name rd) (rd_file_number rd) fl (block_frames L bs) bs env"
    and rd: "rd_file_size rd = of_nat (length fl)"
    and pre: "pre = [] \<or> pre = block_frames L bs ! i"
    and m: "length (fst (bs ! i)) \<le> max_uncompressed (rd_block_bytes rd)"
  shows "\<exists>env'. load_block L env rd (frame_handle (block_frames L bs) i) pre = (Inr (fst (bs ! i)), env')
    \<and> good_env (rd_name rd) (rd_file_number rd) fl (block_frames L bs) bs env'"
proof -
  define h where "h = frame_handle (block_frames L bs) i"
  have hold: "holds env (rd_name rd) fl" using env by (simp add: good_env_def)
  have fetch: "fetch_content L env rd h pre (max_uncompressed (rd_block_bytes rd)) = (Inr (fst (bs ! i)), env)"
    using fetch_frame [OF L bs i fl n hold rd pre, of "max_uncompressed (rd_block_bytes rd)"] m
    by (simp add: h_def)
  have off: "offset h = of_nat (chunk_start (block_frames L bs) i)" by (simp add: h_def frame_handle_def)
  show ?thesis
  proof (cases "block_cache env")
    case None
    then show ?thesis using fetch env by (simp add: load_block_def h_def [symmetric])
  next
    case (Some bc)
    show ?thesis
    proof (cases "bc (rd_file_number rd, offset h)")
      case (Some c)
      then obtain j where "j < length bs" "offset h = of_nat (chunk_start (block_frames L bs) j)" "c = fst (bs ! j)"
        using env \<open>block_cache env = Some bc\<close> by (auto simp: good_env_def)
      moreover from this have "i = j"
        using frame_offsets_inj [OF bs, of rest i j] n i off by (simp add: fl)
      ultimately have "bc (rd_file_number rd, offset h) = Some (fst (bs ! i))" using Some by simp
      then have "load_block L env rd h pre = (Inr (fst (bs ! i)), env)"
        using \<open>block_cache env = Some bc\<close> by (simp add: load_block_def)
      then show ?thesis using env by (simp add: h_def)
    next
      case None
      let ?env = "env\<lparr> block_cache := Some (bc((rd_file_number rd, offset h) \<mapsto> fst (bs ! i))) \<rparr>"
      have "good_env (rd_name rd) (rd_file_number rd) fl (block_frames L bs) bs ?env"
        using env \<open>block_cache env = Some bc\<close> i off by (auto simp: good_env_def holds_def)
      then show ?thesis
        using None \<open>block_cache env = Some bc\<close> fetch by (simp add: load_block_def h_def [symmetric])
    qed
  qed
qed

lemma load_frame_too_large:
  assumes L: "codecs_ok L" and bs: "framed_ok L bs" and i: "i < length bs"
    and fl: "fl = concat (block_frames L bs) @ rest" and n: "length fl < 2 ^ 32"
    and env: "holds env (rd_name rd) fl" "cache_fresh env (rd_file_number rd)"
    and rd: "rd_file_size rd = of_nat (length fl)"
    and pre: "pre = [] \<or> pre = block_frames L bs ! i"
    and m: "max_uncompressed (rd_block_bytes rd) < length (fst (bs ! i))"
  shows "fst (load_block L env rd (frame_handle (block_frames L bs) i) pre) = Inl Corrupt"
proof -
  have "fst (fetch_content L env rd (frame_handle (block_frames L bs) i) pre
      (max_uncompressed (rd_block_bytes rd))) = Inl Corrupt"
    using fetch_frame [OF L bs i fl n env(1) rd pre, of "max_uncompressed (rd_block_bytes rd)"] m by simp
  then show ?thesis
    using env(2) by (auto simp: load_block_def cache_fresh_def Let_def split_def split: option.splits sum.splits)
qed

section \<open>Opening the file\<close>

definition opened_reader :: "bytes \<Rightarrow> bytes \<Rightarrow> nat \<Rightarrow> u64 \<Rightarrow> footer \<Rightarrow> sst_reader" where
  "opened_reader name fl bb fn f =
     \<lparr> rd_name = name, rd_file_size = of_nat (length fl), rd_block_bytes = bb, rd_file_number = fn,
       rd_footer = footer_view f, rd_index = [], rd_filter = None, rd_ranges = None \<rparr>"

lemma drop_last: "drop (length (a @ b) - length b) (a @ b) = b"
  by simp

lemma sst_open_file:
  assumes f: "format_version f = 3" and ih: "findex f = frame_handle fs i" and i: "i < length fs"
    and fl: "fl = concat fs @ footer_encode f" and n: "length fl < 2 ^ 32"
    and env: "holds env name fl"
  shows "\<exists>pre. (pre = [] \<or> pre = fs ! i) \<and>
    sst_open L env name (of_nat (length fl)) bb fn =
      (case load_block L env (opened_reader name fl bb fn f) (frame_handle fs i) pre of
         (Inl s, env) \<Rightarrow> (Inl s, env)
       | (Inr index, env) \<Rightarrow> (Inr ((opened_reader name fl bb fn f)\<lparr> rd_index := index \<rparr>), env))"
proof -
  have footer_len: "length (footer_encode f) = 60"
    using f by (simp add: footer_encode_trailer length_footer_body codec_simps)
  have nn: "unat (of_nat (length fl) :: u64) = length fl" using n by (simp add: u64_of_nat)
  have big: "60 \<le> length fl" using footer_len by (simp add: fl)
  define tl where "tl = min (length fl) 262144"
  have tl: "60 \<le> tl" "tl \<le> length fl" using big by (simp_all add: tl_def)
  have tail_len: "min (unat (of_nat (length fl) :: u64)) (max kSpeculativeTailBytes kMaxFooterLength) = tl"
    by (simp add: nn tl_def kSpeculativeTailBytes_def footer_constants)
  have start: "unat (of_nat (length fl) - of_nat tl :: u64) = length fl - tl"
  proof -
    have "(of_nat (length fl) - of_nat tl :: u64) = of_nat (length fl - tl)" using tl(2) by simp
    then show ?thesis using n by (simp only: u64_of_nat) (simp add: u64_of_nat del: of_nat_diff)
  qed
  define tail where "tail = drop (length fl - tl) fl"
  have tail: "store_get env name (of_nat (length fl) - of_nat tl) tl = Inr tail" "length tail = tl"
    using env tl(2) start by (simp_all add: holds_def reads_object_def tail_def)
  have window: "min tl kMaxFooterLength = 60" using tl(1) by (simp add: footer_constants)
  have slice: "drop (tl - 60) tail = footer_encode f"
  proof -
    have "drop (tl - 60) tail = drop (length fl - 60) fl" using tl by (simp add: tail_def)
    then show ?thesis using drop_last [of "concat fs" "footer_encode f"] footer_len by (simp only: fl)
  qed
  have dec: "footer_decode (footer_encode f) = Inr (footer_view f)"
    using footer_decode_encode [of f "[]"] f by simp
  have trl: "footer_length_from_trailer (footer_encode f) = Inr 60"
    using f by (simp add: footer_encode_trailer footer_length_from_trailer_def Let_def codec_simps
        footer_constants length_footer_body)
  define start_w where "start_w = (of_nat (length fl) - of_nat tl :: u64)"
  define h where "h = frame_handle fs i"
  note fit = frame_handle_fits [OF i fl n, folded h_def]
  define pre where "pre = (if start_w \<le> offset h \<and> handle_fits h (of_nat (length fl))
      then take (unat (hlength h)) (drop (unat (offset h - start_w)) tail) else [])"
  have view: "findex (footer_view f) = h" by (simp add: footer_view_def ih h_def)
  have pre: "pre = [] \<or> pre = fs ! i"
  proof (cases "start_w \<le> offset h")
    case True
    then have "unat (offset h - start_w) = chunk_start fs i - (length fl - tl)"
      using fit(2) start by (simp add: unat_sub start_w_def)
    moreover have "length fl - tl \<le> chunk_start fs i"
      using True fit(2) start by (simp add: word_le_nat_alt start_w_def)
    ultimately show ?thesis
      using frame_region [OF i, of "footer_encode f"] fit by (simp add: pre_def tail_def fl [symmetric])
  qed (simp add: pre_def)
  have "sst_open L env name (of_nat (length fl)) bb fn =
      (case load_block L env (opened_reader name fl bb fn f) h pre of
         (Inl s, env) \<Rightarrow> (Inl s, env)
       | (Inr index, env) \<Rightarrow> (Inr ((opened_reader name fl bb fn f)\<lparr> rd_index := index \<rparr>), env))"
    unfolding sst_open_def tail_len Let_def
    using big tail window slice trl dec view nn
    by (simp add: opened_reader_def pre_def start_w_def kFooterLengthV1_def)
       (auto simp: opened_reader_def split: prod.split sum.split)
  with pre show ?thesis unfolding h_def by blast
qed

section \<open>The opened file is a table\<close>

lemma decode_encode_handle: "decode_index_handle (encode_handle h) = Some h"
proof -
  have "unat (ucast (hlength h) :: u64) < 2 ^ 32"
    using unsigned_less [of "hlength h", where 'a = nat] by (simp add: unsigned_ucast_eq take_bit_nat_eq_self)
  moreover have "ucast (ucast (hlength h) :: u64) = hlength h"
    by (rule bit_word_eqI) (simp add: bit_simps)
  ultimately show ?thesis
    using get_varint64_put [of "ucast (hlength h)" "[]"]
    by (simp add: decode_index_handle_def encode_handle_def codec_simps)
qed

lemma length_encode_handle: "length (encode_handle h) \<le> 20"
  using length_put_varint64 [of "offset h"] length_put_varint64 [of "ucast (hlength h)"]
  by (simp add: encode_handle_def)

lemma framed_small: "framed_ok L bs \<Longrightarrow> i < length bs \<Longrightarrow> length (fst (bs ! i)) < 2 ^ 32"
  using framed_nth(1) [of L bs i] frame_block_shape by blast

lemma chunk_view_rep:
  assumes "0 < opt_restart_interval opts" and "sorted_keys c"
    and "\<forall>(k, t, v) \<in> set c. length k < 2 ^ 32 \<and> length v < 2 ^ 32"
    and "length (chunk_content opts c) < 2 ^ 32"
  shows "block_rep (BlockIterator (chunk_content opts c)) (map entry_view c) (length c)"
  using block_rep_new [of "opt_restart_interval opts" c] assms
  by (simp add: blockable_def chunk_content_def sorted_keys_def list_all_iff)

lemma concat_map_map: "concat (map (map f) cs) = map f (concat cs)"
  by (induction cs) auto

lemma last_keys_view:
  "\<forall>c \<in> set cs. c \<noteq> [] \<Longrightarrow> last_keys (map (map entry_view) cs) = last_keys cs"
  by (simp add: last_keys_def last_map)

lemma sorted_keys_view: "sorted_keys (map entry_view es) \<longleftrightarrow> sorted_keys es"
proof -
  have "keys_of (map entry_view es) = keys_of es" by simp
  then show ?thesis by (simp only: sorted_keys_def)
qed

lemma chunks_ok_view:
  "chunks_ok (map (map entry_view) cs) \<longleftrightarrow> chunks_ok cs"
  by (auto simp: chunks_ok_def concat_map_map sorted_keys_view)

lemma sorted_last_keys:
  assumes "chunks_ok cs"
  shows "sorted_wrt (<) (last_keys cs)"
proof -
  have "fst (last (cs ! i)) < fst (last (cs ! j))" if "i < j" "j < length cs" for i j
  proof -
    let ?p = "\<lambda>i. chunk_start cs i + (length (cs ! i) - 1)"
    have at: "concat cs ! ?p i = last (cs ! i)" "?p i < length (concat cs)" if "i < length cs" for i
      using concat_nth [of i cs "length (cs ! i) - 1"] chunk_start_less [of i cs "length (cs ! i) - 1"]
        chunks_ok_nth(1) [OF assms that] that by (simp_all add: last_conv_nth)
    have "?p i < chunk_start cs (Suc i)"
      using chunks_ok_nth(1) [OF assms, of i] that by (simp add: chunk_start_Suc)
    also have "\<dots> \<le> ?p j" using chunk_start_mono [of "Suc i" j cs] that by simp
    finally show ?thesis
      using at [of i] at [of j] that assms sorted_keys_nth [of "concat cs" "?p i" "?p j"] by (simp add: chunks_ok_def)
  qed
  then show ?thesis by (auto simp: sorted_wrt_iff_nth_less last_keys_def)
qed

lemma keys_index_entries: "keys_of (index_entries L opts cs) = last_keys cs"
  by (rule nth_equalityI) (simp_all add: index_entries_def last_keys_def)

lemma view_index_entries: "map entry_view (index_entries L opts cs) = index_entries L opts cs"
  by (simp add: index_entries_def entry_view_def comp_def)

text \<open>The file of a finished writer, and what of it the theorems below refer to.\<close>

definition table_envs ::
    "codec_library \<Rightarrow> sst_options \<Rightarrow> entry list list \<Rightarrow> range_tombstone list \<Rightarrow> bytes \<Rightarrow> u64 \<Rightarrow> bytes \<Rightarrow> blob_env set" where
  "table_envs L opts cs ranges name fn fl =
     {env. good_env name fn fl (block_frames L (file_blocks L opts cs ranges)) (file_blocks L opts cs ranges) env}"

definition file_ok ::
    "codec_library \<Rightarrow> sst_options \<Rightarrow> entry list list \<Rightarrow> range_tombstone list \<Rightarrow> u64 \<Rightarrow> bytes \<Rightarrow> bool" where
  "file_ok L opts cs ranges count fl \<longleftrightarrow>
     0 < opt_restart_interval opts \<and> chunks_ok cs
     \<and> (\<forall>c \<in> set cs. length (chunk_content opts c) \<le> max_uncompressed (block_bytes opts))
     \<and> (\<forall>(k, t, v) \<in> set (concat cs). length k \<le> kMaxKeyBytes \<and> length v \<le> kMaxValueBytes)
     \<and> framed_ok L (file_blocks L opts cs ranges) \<and> length fl < 2 ^ 32
     \<and> fl = concat (block_frames L (file_blocks L opts cs ranges))
         @ footer_encode (file_footer (block_frames L (file_blocks L opts cs ranges)) (length cs) (ranges \<noteq> []) count)"

definition table_reader ::
    "codec_library \<Rightarrow> sst_options \<Rightarrow> entry list list \<Rightarrow> range_tombstone list \<Rightarrow> u64 \<Rightarrow> bytes \<Rightarrow> u64 \<Rightarrow> bytes \<Rightarrow> sst_reader" where
  "table_reader L opts cs ranges count name fn fl =
     (opened_reader name fl (block_bytes opts) fn
       (file_footer (block_frames L (file_blocks L opts cs ranges)) (length cs) (ranges \<noteq> []) count))
       \<lparr> rd_index := chunk_content opts (index_entries L opts cs) \<rparr>"

lemma file_blocks_nth:
  "length (file_blocks L opts cs ranges) = length cs + 2 + (if ranges = [] then 0 else 1)"
  "j < length cs \<Longrightarrow> file_blocks L opts cs ranges ! j = (chunk_content opts (cs ! j), opt_compression opts)"
  "file_blocks L opts cs ranges ! length cs =
     (bloom_finish ((BloomBuilder (bloom_bits_per_key opts) (bloom_probes opts))
        \<lparr> hashes := map (\<lambda>e. xxhash64 (fst e) 0) (concat cs) \<rparr>), None_codec)"
  "file_blocks L opts cs ranges ! Suc (length cs) =
     (chunk_content opts (index_entries L opts cs), opt_compression opts)"
  "ranges \<noteq> [] \<Longrightarrow> file_blocks L opts cs ranges ! Suc (Suc (length cs)) =
     (chunk_content opts (range_entries ranges), opt_compression opts)"
  by (simp_all add: file_blocks_def nth_append)

lemma chunk_handle_frame:
  "j < length cs \<Longrightarrow> chunk_handle L opts cs j = frame_handle (block_frames L (file_blocks L opts cs ranges)) j"
  by (simp add: chunk_handle_def frame_handle_def block_frames_def file_blocks_def nth_append
      chunk_frame_def [abs_def] chunk_start_def comp_def)

lemma table_of_file:
  assumes L: "codecs_ok L" and ok: "file_ok L opts cs ranges count fl"
  shows "table L (table_reader L opts cs ranges count name fn fl)
    (table_envs L opts cs ranges name fn fl) (index_entries L opts cs) (map (map entry_view) cs)"
proof -
  let ?bs = "file_blocks L opts cs ranges"
  let ?rd = "table_reader L opts cs ranges count name fn fl"
  have ri: "0 < opt_restart_interval opts" and chunks: "chunks_ok cs" and bs: "framed_ok L ?bs"
    and n: "length fl < 2 ^ 32"
    and limits: "\<forall>(k, t, v) \<in> set (concat cs). length k \<le> kMaxKeyBytes \<and> length v \<le> kMaxValueBytes"
    and fl: "fl = concat (block_frames L ?bs) @ footer_encode (file_footer (block_frames L ?bs) (length cs) (ranges \<noteq> []) count)"
    using ok unfolding file_ok_def by blast+
  have idx: "block_rep (BlockIterator (chunk_content opts (index_entries L opts cs)))
      (map entry_view (index_entries L opts cs)) (length (index_entries L opts cs))"
  proof (rule chunk_view_rep [OF ri])
    show "sorted_keys (index_entries L opts cs)"
      using sorted_last_keys [OF chunks] by (simp only: sorted_keys_def keys_index_entries)
    show "\<forall>(k, t, v) \<in> set (index_entries L opts cs). length k < 2 ^ 32 \<and> length v < 2 ^ 32"
    proof (clarify, goal_cases)
      case (1 k t v)
      then obtain j where j: "j < length cs" "k = fst (last (cs ! j))" "v = encode_handle (chunk_handle L opts cs j)"
        by (auto simp: index_entries_def)
      have "last (cs ! j) \<in> set (concat cs)"
        using chunks_ok_nth(1) [OF chunks j(1)] j(1) by (auto intro!: bexI [of _ "cs ! j"])
      then have "length k \<le> kMaxKeyBytes" using limits j(2) by (auto simp: split_def)
      then show ?case using length_encode_handle [of "chunk_handle L opts cs j"] j(3) by (simp add: kMaxKeyBytes_def)
    qed
    show "length (chunk_content opts (index_entries L opts cs)) < 2 ^ 32"
      using framed_small [OF bs, of "Suc (length cs)"] by (simp add: file_blocks_nth)
  qed
  have serve: "\<exists>h content. decode_index_handle (snd (snd (index_entries L opts cs ! j))) = Some h
      \<and> serves L ?rd (table_envs L opts cs ranges name fn fl) h content
      \<and> block_rep (BlockIterator content) (map (map entry_view) cs ! j) (length (map (map entry_view) cs ! j))"
    if j: "j < length cs" for j
  proof (intro exI conjI)
    show "decode_index_handle (snd (snd (index_entries L opts cs ! j))) = Some (chunk_handle L opts cs j)"
      using j by (simp add: index_entries_def decode_encode_handle)
    have "length (chunk_content opts (cs ! j)) \<le> max_uncompressed (block_bytes opts)"
      using ok j by (simp add: file_ok_def)
    then show "serves L ?rd (table_envs L opts cs ranges name fn fl) (chunk_handle L opts cs j) (chunk_content opts (cs ! j))"
      unfolding serves_def table_envs_def chunk_handle_frame [OF j, of L opts ranges]
      using load_frame [OF L bs _ fl n, of j ?rd _ "[]"] j
      by (auto simp: file_blocks_nth table_reader_def opened_reader_def)
    have "cs ! j \<in> set cs" using j by simp
    then have "sorted_keys (cs ! j)"
      using chunks unfolding chunks_ok_def sorted_keys_def
      by (subst (asm) concat_split [OF j]) (simp add: sorted_wrt_append)
    moreover have "\<forall>(k, t, v) \<in> set (cs ! j). length k < 2 ^ 32 \<and> length v < 2 ^ 32"
      using limits \<open>cs ! j \<in> set cs\<close> by (fastforce simp: kMaxKeyBytes_def kMaxValueBytes_def)
    moreover have "length (chunk_content opts (cs ! j)) < 2 ^ 32"
      using framed_small [OF bs, of j] j by (simp add: file_blocks_nth)
    ultimately show "block_rep (BlockIterator (chunk_content opts (cs ! j)))
        (map (map entry_view) cs ! j) (length (map (map entry_view) cs ! j))"
      using chunk_view_rep [OF ri, of "cs ! j"] j by simp
  qed
  have ne: "\<forall>c \<in> set cs. c \<noteq> []" using chunks by (simp add: chunks_ok_def)
  show ?thesis
    using chunks idx serve keys_index_entries [of L opts cs] last_keys_view [OF ne]
    by (simp add: table_def chunks_ok_view view_index_entries table_reader_def opened_reader_def)
qed

lemma build_file_ok:
  assumes L: "codecs_total L" and es: "writable opts [(k, t, v) \<leftarrow> source. \<not> (dt \<and> t = Delete)]"
    and rs: "length ranges < 2 ^ 64" and r: "build_sst L source Ok opts dt ranges = Inr r"
    and n: "length (r_bytes r) < 2 ^ 32"
  obtains cs where "concat cs = [(k, t, v) \<leftarrow> source. \<not> (dt \<and> t = Delete)]"
    and "file_ok L opts cs ranges (r_num_entries r) (r_bytes r)"
proof -
  let ?es = "[(k, t, v) \<leftarrow> source. \<not> (dt \<and> t = Delete)]"
  have "sw_finish L (sw_add_all L ?es (start_writer opts ranges)) = Inr r"
    using r by (simp add: build_sst_def start_writer_def)
  moreover obtain cs where cs: "concat cs = ?es"
      "\<forall>c \<in> set cs. c \<noteq> [] \<and> length (chunk_content opts c) \<le> max_uncompressed (block_bytes opts)"
      "if framed_ok L (file_blocks L opts cs ranges)
       then \<exists>r. sw_finish L (sw_add_all L ?es (start_writer opts ranges)) = Inr r
        \<and> r_bytes r = concat (block_frames L (file_blocks L opts cs ranges))
        @ footer_encode (file_footer (block_frames L (file_blocks L opts cs ranges)) (length cs) (ranges \<noteq> []) (r_num_entries r))
       else \<exists>s. sw_finish L (sw_add_all L ?es (start_writer opts ranges)) = Inl s"
    by (rule finish_cases [OF L es rs])
  ultimately have fr: "framed_ok L (file_blocks L opts cs ranges)"
      "r_bytes r = concat (block_frames L (file_blocks L opts cs ranges))
        @ footer_encode (file_footer (block_frames L (file_blocks L opts cs ranges)) (length cs) (ranges \<noteq> []) (r_num_entries r))"
    by (auto split: if_splits)
  have "0 < opt_restart_interval opts" "sorted_keys (concat cs)"
      "\<forall>(k, t, v) \<in> set (concat cs). length k \<le> kMaxKeyBytes \<and> length v \<le> kMaxValueBytes"
    using es unfolding cs(1) writable_def by blast+
  then have "file_ok L opts cs ranges (r_num_entries r) (r_bytes r)"
    unfolding file_ok_def chunks_ok_def using cs(2) fr n by blast
  with cs(1) show thesis by (rule that)
qed

lemma open_file:
  assumes L: "codecs_ok L" and ok: "file_ok L opts cs ranges count fl"
    and env: "holds env name fl" "cache_fresh env fn"
  shows "if max_uncompressed (block_bytes opts) < length (chunk_content opts (index_entries L opts cs))
    then fst (sst_open L env name (of_nat (length fl)) (block_bytes opts) fn) = Inl Corrupt
    else \<exists>env' \<in> table_envs L opts cs ranges name fn fl.
      sst_open L env name (of_nat (length fl)) (block_bytes opts) fn
        = (Inr (table_reader L opts cs ranges count name fn fl), env')"
proof -
  let ?bs = "file_blocks L opts cs ranges" and ?i = "Suc (length cs)"
  let ?f = "file_footer (block_frames L ?bs) (length cs) (ranges \<noteq> []) count"
  have bs: "framed_ok L ?bs" and n: "length fl < 2 ^ 32"
    and fl: "fl = concat (block_frames L ?bs) @ footer_encode ?f"
    using ok unfolding file_ok_def by blast+
  have i: "?i < length ?bs" and c: "fst (?bs ! ?i) = chunk_content opts (index_entries L opts cs)"
    by (simp_all add: file_blocks_nth)
  define rd where "rd = opened_reader name fl (block_bytes opts) fn ?f"
  have rd: "rd_name rd = name" "rd_file_number rd = fn" "rd_file_size rd = of_nat (length fl)"
      "rd_block_bytes rd = block_bytes opts"
    by (simp_all add: rd_def opened_reader_def)
  have ftr: "format_version ?f = 3" "findex ?f = frame_handle (block_frames L ?bs) ?i"
    by (simp_all add: file_footer_def)
  have i': "?i < length (block_frames L ?bs)" using i by simp
  obtain pre where pre: "pre = [] \<or> pre = block_frames L ?bs ! ?i"
    and opn: "sst_open L env name (of_nat (length fl)) (block_bytes opts) fn =
      (case load_block L env rd (frame_handle (block_frames L ?bs) ?i) pre of
         (Inl s, env) \<Rightarrow> (Inl s, env)
       | (Inr index, env) \<Rightarrow> (Inr (rd\<lparr> rd_index := index \<rparr>), env))"
    using sst_open_file [OF ftr i' fl n env(1), of L "block_bytes opts" fn] unfolding rd_def [symmetric] by blast
  have good: "good_env name fn fl (block_frames L ?bs) ?bs env"
    using env by (auto simp: good_env_def cache_fresh_def split: option.splits)
  show ?thesis
  proof (cases "max_uncompressed (block_bytes opts) < length (chunk_content opts (index_entries L opts cs))")
    case True
    then have "fst (load_block L env rd (frame_handle (block_frames L ?bs) ?i) pre) = Inl Corrupt"
      using load_frame_too_large [OF L bs i fl n, of env rd pre] env pre rd c by simp
    then show ?thesis using True opn by (auto simp: split_def split: sum.splits)
  next
    case False
    then obtain env' where "load_block L env rd (frame_handle (block_frames L ?bs) ?i) pre = (Inr (fst (?bs ! ?i)), env')"
        "good_env name fn fl (block_frames L ?bs) ?bs env'"
      using load_frame [OF L bs i fl n, of rd env pre] good pre rd c by auto
    then show ?thesis
      using False opn c by (auto simp: table_envs_def table_reader_def rd_def)
  qed
qed

lemma frame_none:
  "frame_block L c None_codec [] = (Ok, raw) \<Longrightarrow> length raw = length c + 9"
  by (auto simp: frame_block_def Let_def split: if_splits)

lemma filter_of_file:
  assumes L: "codecs_ok L" and ok: "file_ok L opts cs ranges count fl"
    and env: "env \<in> table_envs L opts cs ranges name fn fl"
    and es: "int (length (concat cs)) * max 1 (bloom_bits_per_key opts) < 2 ^ 40"
  shows "\<exists>f. ensure_filter L env (table_reader L opts cs ranges count name fn fl)
      = (Ok, (table_reader L opts cs ranges count name fn fl)\<lparr> rd_filter := Some f \<rparr>, env)
    \<and> (\<forall>e \<in> set (concat cs). bloom_may_contain f (fst e))"
proof -
  let ?bs = "file_blocks L opts cs ranges" and ?rd = "table_reader L opts cs ranges count name fn fl"
  define b where "b = (BloomBuilder (bloom_bits_per_key opts) (bloom_probes opts))
      \<lparr> hashes := map (\<lambda>e. xxhash64 (fst e) 0) (concat cs) \<rparr>"
  have bs: "framed_ok L ?bs" and n: "length fl < 2 ^ 32"
    and fl: "fl = concat (block_frames L ?bs) @ footer_encode (file_footer (block_frames L ?bs) (length cs) (ranges \<noteq> []) count)"
    using ok unfolding file_ok_def by blast+
  have i: "length cs < length ?bs" and c: "?bs ! length cs = (bloom_finish b, None_codec)"
    by (simp_all add: file_blocks_nth b_def)
  let ?h = "frame_handle (block_frames L ?bs) (length cs)"
  have h: "ffilter (rd_footer ?rd) = ?h" "rd_filter ?rd = None" "rd_name ?rd = name"
      "rd_file_size ?rd = of_nat (length fl)"
    by (simp_all add: table_reader_def opened_reader_def footer_view_def file_footer_def)
  have "frame_block L (bloom_finish b) None_codec [] = (Ok, block_frames L ?bs ! length cs)"
    using framed_nth(1) [OF bs i] c by simp
  then have "length (bloom_finish b) \<le> unat (hlength ?h)"
    using frame_none frame_handle_fits(3) [of "length cs" "block_frames L ?bs", OF _ fl n] i by fastforce
  then have "fetch_content L env ?rd ?h [] (unat (hlength ?h)) = (Inr (bloom_finish b), env)"
    using fetch_frame [OF L bs i fl n, of env ?rd "[]" "unat (hlength ?h)"] env c h
    by (simp add: table_envs_def good_env_def)
  then have "ensure_filter L env ?rd = (Ok, ?rd\<lparr> rd_filter := Some (bloom_finish b) \<rparr>, env)"
    using h by (simp add: ensure_filter_def)
  moreover have "bloom_may_contain (bloom_finish b) (fst e)" if "e \<in> set (concat cs)" for e
  proof (rule bloom_added_found)
    show "bloom_num_blocks b \<noteq> 0"
      using es by (intro bloom_num_blocks_pos) (simp_all add: b_def BloomBuilder_def)
    show "xxhash64 (fst e) 0 \<in> set (hashes b)" using that by (auto simp: b_def)
  qed (simp_all add: b_def BloomBuilder_def)
  ultimately show ?thesis by blast
qed

lemma load_block_filter [simp]: "load_block L env (rd\<lparr> rd_filter := x \<rparr>) h pre = load_block L env rd h pre"
proof -
  have sel: "rd_name (rd\<lparr> rd_filter := x \<rparr>) = rd_name rd" "rd_file_size (rd\<lparr> rd_filter := x \<rparr>) = rd_file_size rd"
      "rd_block_bytes (rd\<lparr> rd_filter := x \<rparr>) = rd_block_bytes rd"
      "rd_file_number (rd\<lparr> rd_filter := x \<rparr>) = rd_file_number rd"
    by simp_all
  show ?thesis unfolding load_block_def fetch_content_def sel ..
qed

lemma table_filter: "table L rd envs ies cs \<Longrightarrow> table L (rd\<lparr> rd_filter := x \<rparr>) envs ies cs"
  by (simp add: table_def serves_def)

lemma sst_get_first_use:
  "ensure_filter L env rd = (Ok, rd', env) \<Longrightarrow> rd_filter rd' = Some f \<Longrightarrow> sst_get L env rd k = sst_get L env rd' k"
proof -
  assume e: "ensure_filter L env rd = (Ok, rd', env)" and "rd_filter rd' = Some f"
  then have e': "ensure_filter L env rd' = (Ok, rd', env)" by (simp add: ensure_filter_def)
  show ?thesis unfolding sst_get_def e e' ..
qed

lemma find_view:
  "find (\<lambda>e. fst e = k) (map entry_view es) = map_option entry_view (find (\<lambda>e. fst e = k) es)"
  by (rule find_entry_view) simp

text \<open>A file written by \<open>build_sst\<close>, put into a store under a fresh number and opened again.\<close>

definition written_and_opened ::
    "codec_library \<Rightarrow> sst_options \<Rightarrow> entry list \<Rightarrow> bool \<Rightarrow> range_tombstone list \<Rightarrow> bytes \<Rightarrow> u64
      \<Rightarrow> sst_reader \<Rightarrow> blob_env \<Rightarrow> bool" where
  "written_and_opened L opts source dt ranges name fn rd env' \<longleftrightarrow>
     writable opts [(k, t, v) \<leftarrow> source. \<not> (dt \<and> t = Delete)] \<and> length ranges < 2 ^ 64
     \<and> (\<exists>r env. build_sst L source Ok opts dt ranges = Inr r \<and> length (r_bytes r) < 2 ^ 32
          \<and> holds env name (r_bytes r) \<and> cache_fresh env fn
          \<and> sst_open L env name (of_nat (length (r_bytes r))) (block_bytes opts) fn = (Inr rd, env'))"

lemma openedE:
  assumes L: "codecs_ok L" "codecs_total L" and w: "written_and_opened L opts source dt ranges name fn rd env'"
  obtains cs count fl where "concat cs = [(k, t, v) \<leftarrow> source. \<not> (dt \<and> t = Delete)]"
    and "file_ok L opts cs ranges count fl" and "rd = table_reader L opts cs ranges count name fn fl"
    and "env' \<in> table_envs L opts cs ranges name fn fl"
    and "int (length (concat cs)) * max 1 (bloom_bits_per_key opts) < 2 ^ 40"
proof -
  let ?es = "[(k, t, v) \<leftarrow> source. \<not> (dt \<and> t = Delete)]"
  from w obtain r env where es: "writable opts ?es" and rs: "length ranges < 2 ^ 64"
    and r: "build_sst L source Ok opts dt ranges = Inr r" "length (r_bytes r) < 2 ^ 32"
    and env: "holds env name (r_bytes r)" "cache_fresh env fn"
    and o: "sst_open L env name (of_nat (length (r_bytes r))) (block_bytes opts) fn = (Inr rd, env')"
    unfolding written_and_opened_def by blast
  from build_file_ok [OF L(2) es rs r] obtain cs where cs: "concat cs = ?es"
      "file_ok L opts cs ranges (r_num_entries r) (r_bytes r)" by blast
  from open_file [OF L(1) cs(2) env] o have "rd = table_reader L opts cs ranges (r_num_entries r) name fn (r_bytes r)"
      "env' \<in> table_envs L opts cs ranges name fn (r_bytes r)"
    by (auto split: if_splits)
  moreover have "int (length (concat cs)) * max 1 (bloom_bits_per_key opts) < 2 ^ 40"
    using es unfolding cs(1) writable_def by blast
  ultimately show thesis using cs that by blast
qed

end
