(* ===== verification/Sst_Limits.thy ===== *)
theory Sst_Limits
  imports Sst_Round_Trip
begin

text \<open>
  The properties of tables, from writing to reading. The size of a table file is bounded block by
  block: which inputs of \<open>build_sst\<close> give a file that opens again, and one that does not, because the
  reader bounds the index block by the size of a data block.
\<close>

section \<open>Sizes of blocks and frames\<close>

definition entry_cost :: "entry \<Rightarrow> nat" where
  "entry_cost e = (case e of (k, t, v) \<Rightarrow> 20 + length k + length v)"

lemma bb_size_add_all:
  "bb_size_estimate (bb_add_all es b) \<le> bb_size_estimate b + sum_list (map entry_cost es)"
proof (induction es rule: rev_induct)
  case (snoc e es)
  obtain k t v where e: "e = (k, t, v)" by (cases e)
  show ?case
    using snoc bb_size_add [of "bb_add_all es b" k t v] by (simp add: e bb_add_all_snoc entry_cost_def)
qed (simp add: bb_add_all_def)

lemma chunk_content_le: "length (chunk_content opts c) \<le> 8 + sum_list (map entry_cost c)"
  using bb_size_add_all [of c "BlockBuilder (opt_restart_interval opts)"]
  by (simp add: chunk_content_size) (simp add: BlockBuilder_def bb_size_estimate_def)

lemma frame_length_le:
  "frame_block L c codec [] = (Ok, raw) \<Longrightarrow> length raw \<le> length c + 9"
proof (drule frame_block_shape, elim conjE exE)
  fix payload stored assume "stored_as L c stored payload" "raw = [] @ frame_body payload (length c) stored
      @ put_fixed32 (crc32c_slice (frame_body payload (length c) stored))"
  then show "length raw \<le> length c + 9" by (cases stored) (simp_all add: stored_as_def)
qed

definition index_cost :: "entry \<Rightarrow> nat" where
  "index_cost e = 40 + length (fst e)"

lemma sum_last_le:
  "\<forall>c \<in> set cs. c \<noteq> [] \<Longrightarrow> sum_list (map (\<lambda>c. f (last c)) cs) \<le> sum_list (map f (concat cs))"
  for f :: "'a \<Rightarrow> nat"
proof (induction cs)
  case (Cons c cs)
  have "f (last c) \<le> sum_list (map f c)"
    using Cons.prems by (intro member_le_sum_list) simp_all
  with Cons show ?case by simp
qed simp

lemma index_content_blocks:
  "length (chunk_content opts (index_entries L opts cs)) \<le> 8 + sum_list (map (\<lambda>c. index_cost (last c)) cs)"
proof -
  have "sum_list (map entry_cost (index_entries L opts cs))
      \<le> sum_list (map (\<lambda>j. index_cost (last (cs ! j))) [0..<length cs])"
    unfolding index_entries_def map_map comp_def
    by (rule sum_list_mono) (simp add: entry_cost_def index_cost_def length_encode_handle)
  also have "\<dots> = sum_list (map (\<lambda>c. index_cost (last c)) cs)"
    using arg_cong [OF map_nth [of cs], of "map (\<lambda>c. index_cost (last c))"] by (simp add: comp_def)
  finally show ?thesis using chunk_content_le [of opts "index_entries L opts cs"] by linarith
qed

lemma index_content_le:
  assumes "\<forall>c \<in> set cs. c \<noteq> []"
  shows "length (chunk_content opts (index_entries L opts cs)) \<le> 8 + sum_list (map index_cost (concat cs))"
  using index_content_blocks [of opts L cs] sum_last_le [OF assms, of index_cost] by linarith

lemma frames_length_le:
  assumes "framed_ok L bs"
  shows "length (concat (block_frames L bs)) \<le> sum_list (map (\<lambda>b. length (fst b) + 9) bs)"
proof -
  have le: "length (snd (frame_block L c codec [])) \<le> length c + 9" if "(c, codec) \<in> set bs" for c codec
    using frame_length_le [of L c codec "snd (frame_block L c codec [])"] that assms
    by (fastforce simp: framed_ok_def intro: prod_eqI)
  have "length (concat (block_frames L bs)) = sum_list (map (\<lambda>b. length (snd (frame_block L (fst b) (snd b) []))) bs)"
    by (simp add: block_frames_def length_concat split_def comp_def)
  also have "\<dots> \<le> sum_list (map (\<lambda>b. length (fst b) + 9) bs)"
    by (rule sum_list_mono) (use le in auto)
  finally show ?thesis .
qed

lemma chunks_content_le:
  assumes "\<forall>c \<in> set cs. c \<noteq> []"
  shows "sum_list (map (\<lambda>c. length (chunk_content opts c) + 9) cs)
    \<le> sum_list (map (\<lambda>e. 17 + entry_cost e) (concat cs))"
  using assms
proof (induction cs)
  case (Cons c cs)
  have "17 + sum_list (map entry_cost c) \<le> sum_list (map (\<lambda>e. 17 + entry_cost e) c)"
    using Cons.prems by (cases c) (simp_all add: sum_list_addf)
  then have "length (chunk_content opts c) + 9 \<le> sum_list (map (\<lambda>e. 17 + entry_cost e) c)"
    using chunk_content_le [of opts c] by linarith
  with Cons show ?case by simp
qed simp

lemma length_bloom_finish: "length (bloom_finish b) = unat (bloom_num_blocks b) * 64 + 5"
proof -
  have "length (fold (\<lambda>h. set_probes p (block_index h n * kBlockBytes) h (derive_h2 h)) hs bits) = length bits"
    for p n hs bits by (induction hs arbitrary: bits) simp_all
  then show ?thesis by (simp add: bloom_finish_def Let_def kBlockBytes_def kBlockBits_def)
qed

text \<open>An upper bound of the file, in terms of what is put into it.\<close>

definition file_cost :: "sst_options \<Rightarrow> entry list \<Rightarrow> range_tombstone list \<Rightarrow> nat" where
  "file_cost opts es ranges =
     sum_list (map (\<lambda>(k, t, v). 77 + 2 * length k + length v) es)
     + sum_list (map (\<lambda>r. 20 + length (lower r) + length (upper r)) ranges)
     + length es * nat (max 1 (bloom_bits_per_key opts)) + 2000"

lemma file_blocks_cost:
  assumes ne: "\<forall>c \<in> set cs. c \<noteq> []"
    and bits: "int (length (concat cs)) * max 1 (bloom_bits_per_key opts) < 2 ^ 40"
  shows "sum_list (map (\<lambda>b. length (fst b) + 9) (file_blocks L opts cs ranges)) + kMaxFooterLength
    \<le> file_cost opts (concat cs) ranges"
proof -
  define b where "b = (BloomBuilder (bloom_bits_per_key opts) (bloom_probes opts))
             \<lparr> hashes := map (\<lambda>e. xxhash64 (fst e) 0) (concat cs) \<rparr>"
  let ?n = "length (concat cs) * nat (max 1 (bloom_bits_per_key opts))"
  have "unat (bloom_num_blocks b) = (max 512 ?n + 511) div 512"
    by (rule trans [OF unat_bloom_num_blocks]) (use bits in \<open>simp_all add: b_def BloomBuilder_def\<close>)
  moreover have "(max 512 ?n + 511) div 512 * 64 \<le> max 512 ?n + 511"
    by simp
  ultimately have bloom: "length (bloom_finish b) \<le> ?n + 512 + 511 + 5"
    unfolding length_bloom_finish by linarith
  have index: "length (chunk_content opts (index_entries L opts cs)) \<le> 8 + sum_list (map index_cost (concat cs))"
    by (rule index_content_le [OF ne])
  have ranged: "length (chunk_content opts (range_entries ranges))
      \<le> 8 + sum_list (map (\<lambda>r. 20 + length (lower r) + length (upper r)) ranges)"
    using chunk_content_le [of opts "range_entries ranges"]
    by (simp add: range_entries_def entry_cost_def comp_def)
  have "sum_list (map (\<lambda>b. length (fst b) + 9) (file_blocks L opts cs ranges))
      \<le> sum_list (map (\<lambda>c. length (chunk_content opts c) + 9) cs) + (length (bloom_finish b) + 9)
        + (length (chunk_content opts (index_entries L opts cs)) + 9)
        + (length (chunk_content opts (range_entries ranges)) + 9)"
    by (simp add: file_blocks_def b_def comp_def)
  moreover have "sum_list (map (\<lambda>e. 17 + entry_cost e) (concat cs)) + sum_list (map index_cost (concat cs))
      = sum_list (map (\<lambda>(k, t, v). 77 + 2 * length k + length v) (concat cs))"
    unfolding sum_list_addf [symmetric]
    by (rule arg_cong [of _ _ sum_list], rule map_cong [OF refl])
       (simp add: entry_cost_def index_cost_def split_def)
  ultimately show ?thesis
    using chunks_content_le [OF ne, of opts] bloom index ranged
    unfolding file_cost_def by (simp add: footer_constants)
qed

section \<open>Files that open\<close>

lemma footer_encode_short: "length (footer_encode (file_footer fs n ranged count)) \<le> kMaxFooterLength"
  by (simp add: footer_encode_trailer length_footer_body file_footer_def footer_constants footer_trailer_def)

text \<open>
  What is asked of an input so that its file stays within the reader's limits: the keys and values are
  within theirs, an estimate of the file is below the 2 GiB the codecs take at once, and the index block is no
  larger than the reader lets a block be. The last is exactly the test of the reader; the index has one
  entry per data block.
\<close>

definition openable :: "codec_library \<Rightarrow> sst_options \<Rightarrow> entry list \<Rightarrow> range_tombstone list \<Rightarrow> bool" where
  "openable L opts es ranges \<longleftrightarrow>
     writable opts es \<and> file_cost opts es ranges < LZ4_MAX_INPUT_SIZE
     \<and> index_size L opts es ranges \<le> max_uncompressed (block_bytes opts)"

lemma index_size_le:
  assumes "codecs_total L" and "writable opts es" and "length ranges < 2 ^ 64"
  shows "index_size L opts es ranges \<le> 8 + sum_list (map index_cost es)"
proof -
  obtain cs where cs: "concat cs = es" "\<forall>c \<in> set cs. c \<noteq> []"
    "index_size L opts es ranges = length (chunk_content opts (index_entries L opts cs))"
    using finish_blocks [OF assms] by metis
  show ?thesis using index_content_le [OF cs(2), of opts L] by (simp add: cs(1,3))
qed

text \<open>
  A bound by the bytes that are written: a data block but the last takes up at least the size it is cut
  at, so there are few blocks, and few entries in the index.
\<close>

lemma chunk_count_le:
  assumes "\<forall>c \<in> set (butlast cs). block_bytes opts \<le> length (chunk_content opts c)"
  shows "(length cs - 1) * (block_bytes opts - 8) \<le> sum_list (map entry_cost (concat cs))"
proof -
  have "length ds * (block_bytes opts - 8) \<le> sum_list (map entry_cost (concat ds))"
    if "\<forall>c \<in> set ds. block_bytes opts \<le> length (chunk_content opts c)" for ds
    using that
  proof (induction ds)
    case (Cons d ds)
    have "block_bytes opts - 8 \<le> sum_list (map entry_cost d)"
      using bspec [OF Cons.prems, of d] chunk_content_le [of opts d] by simp
    with Cons show ?case by simp
  qed simp
  from this [OF assms] have "(length cs - 1) * (block_bytes opts - 8) \<le> sum_list (map entry_cost (concat (butlast cs)))" by simp
  also have "\<dots> \<le> sum_list (map entry_cost (concat cs))"
    by (cases cs rule: rev_cases) simp_all
  finally show ?thesis .
qed

lemma index_size_bytes:
  assumes "codecs_total L" and "writable opts es" and "length ranges < 2 ^ 64"
    and "\<forall>e \<in> set es. length (fst e) \<le> K" and "8 < block_bytes opts"
  shows "index_size L opts es ranges \<le> 8 + (40 + K) * (sum_list (map entry_cost es) div (block_bytes opts - 8) + 1)"
proof -
  obtain cs where cs: "concat cs = es" "\<forall>c \<in> set cs. c \<noteq> []"
    "index_size L opts es ranges = length (chunk_content opts (index_entries L opts cs))"
    "\<forall>c \<in> set (butlast cs). block_bytes opts \<le> length (chunk_content opts c)"
    using finish_blocks [OF assms(1-3)] by metis
  have "index_cost (last c) \<le> 40 + K" if "c \<in> set cs" for c
  proof -
    have "last c \<in> set c" using that cs(2) by simp
    then have "last c \<in> set es" using that unfolding cs(1) [symmetric] by auto
    then show ?thesis using assms(4) by (simp add: index_cost_def)
  qed
  then have "sum_list (map (\<lambda>c. index_cost (last c)) cs) \<le> sum_list (map (\<lambda>_. 40 + K) cs)" by (intro sum_list_mono)
  then have "sum_list (map (\<lambda>c. index_cost (last c)) cs) \<le> (40 + K) * length cs" by (simp add: sum_list_triv mult.commute)
  moreover have "length cs - 1 \<le> sum_list (map entry_cost es) div (block_bytes opts - 8)"
    using chunk_count_le [OF cs(4)] assms(5) by (simp add: cs(1) less_eq_div_iff_mult_less_eq)
  then have "length cs \<le> sum_list (map entry_cost es) div (block_bytes opts - 8) + 1" by linarith
  then have "(40 + K) * length cs \<le> (40 + K) * (sum_list (map entry_cost es) div (block_bytes opts - 8) + 1)"
    by (rule mult_le_mono2)
  ultimately show ?thesis using index_content_blocks [of opts L cs] unfolding cs(3) by linarith
qed

lemma file_blocks_framed:
  assumes L: "codecs_total L" and ne: "\<forall>c \<in> set cs. c \<noteq> []"
    and bits: "int (length (concat cs)) * max 1 (bloom_bits_per_key opts) < 2 ^ 40"
    and n: "file_cost opts (concat cs) ranges < LZ4_MAX_INPUT_SIZE"
  shows "framed_ok L (file_blocks L opts cs ranges)"
    and "length (concat (block_frames L (file_blocks L opts cs ranges))
        @ footer_encode (file_footer fs m ranged count)) \<le> file_cost opts (concat cs) ranges"
proof -
  let ?bs = "file_blocks L opts cs ranges"
  note cost = file_blocks_cost [OF ne bits, of L ranges]
  have "length c \<le> LZ4_MAX_INPUT_SIZE" if "(c, codec) \<in> set ?bs" for c codec
  proof -
    have "length c + 9 \<in> set (map (\<lambda>b. length (fst b) + 9) ?bs)" using that by force
    then have "length c + 9 \<le> sum_list (map (\<lambda>b. length (fst b) + 9) ?bs)"
      by (rule member_le_sum_list) simp
    then show ?thesis using cost n by linarith
  qed
  then show framed: "framed_ok L ?bs"
    using frame_block_total [OF L] by (auto simp: framed_ok_def)
  show "length (concat (block_frames L ?bs) @ footer_encode (file_footer fs m ranged count))
      \<le> file_cost opts (concat cs) ranges"
    using frames_length_le [OF framed] cost footer_encode_short [of fs m ranged count]
    by (simp del: length_concat)
qed

lemma sst_opens:
  assumes L: "codecs_ok L" "codecs_total L"
    and es: "openable L opts [(k, t, v) \<leftarrow> source. \<not> (dt \<and> t = Delete)] ranges" (is "openable L opts ?es ranges")
    and rs: "length ranges < 2 ^ 64"
  obtains r where "build_sst L source Ok opts dt ranges = Inr r" and "length (r_bytes r) < 2 ^ 32"
    and "\<And>env name fn. holds env name (r_bytes r) \<Longrightarrow> cache_fresh env fn \<Longrightarrow>
      \<exists>rd env'. sst_open L env name (of_nat (length (r_bytes r))) (block_bytes opts) fn = (Inr rd, env')"
proof -
  have w: "writable opts ?es" and cost: "file_cost opts ?es ranges < LZ4_MAX_INPUT_SIZE"
    and idx: "index_size L opts ?es ranges \<le> max_uncompressed (block_bytes opts)"
    and bits: "int (length ?es) * max 1 (bloom_bits_per_key opts) < 2 ^ 40"
    using es unfolding openable_def writable_def by blast+
  obtain cs where cs: "concat cs = ?es"
      "\<forall>c \<in> set cs. c \<noteq> [] \<and> length (chunk_content opts c) \<le> max_uncompressed (block_bytes opts)"
      "if framed_ok L (file_blocks L opts cs ranges)
       then \<exists>r. sw_finish L (sw_add_all L ?es (start_writer opts ranges)) = Inr r
        \<and> r_bytes r = concat (block_frames L (file_blocks L opts cs ranges))
        @ footer_encode (file_footer (block_frames L (file_blocks L opts cs ranges)) (length cs) (ranges \<noteq> []) (r_num_entries r))
       else \<exists>s. sw_finish L (sw_add_all L ?es (start_writer opts ranges)) = Inl s"
      "index_size L opts ?es ranges = length (chunk_content opts (index_entries L opts cs))"
    by (rule finish_blocks [OF L(2) w rs])
  have ne: "\<forall>c \<in> set cs. c \<noteq> []" using cs(2) by blast
  note bl = file_blocks_framed [OF L(2) ne bits [folded cs(1)] cost [folded cs(1)]]
  have framed: "framed_ok L (file_blocks L opts cs ranges)" by (rule bl(1))
  with cs(3) obtain r where r: "sw_finish L (sw_add_all L ?es (start_writer opts ranges)) = Inr r"
    and fl: "r_bytes r = concat (block_frames L (file_blocks L opts cs ranges))
        @ footer_encode (file_footer (block_frames L (file_blocks L opts cs ranges)) (length cs) (ranges \<noteq> []) (r_num_entries r))"
    by auto
  have "length (r_bytes r) \<le> file_cost opts ?es ranges"
    unfolding fl cs(1) [symmetric] by (rule bl(2))
  then have n: "length (r_bytes r) < 2 ^ 32" using cost by (simp add: LZ4_MAX_INPUT_SIZE_def)
  have b: "build_sst L source Ok opts dt ranges = Inr r"
    using r by (simp add: build_sst_def start_writer_def)
  have "0 < opt_restart_interval opts" "sorted_keys (concat cs)"
      "\<forall>(k, t, v) \<in> set (concat cs). length k \<le> kMaxKeyBytes \<and> length v \<le> kMaxValueBytes"
    using w unfolding cs(1) writable_def by blast+
  then have ok: "file_ok L opts cs ranges (r_num_entries r) (r_bytes r)"
    unfolding file_ok_def chunks_ok_def using cs(2) framed fl n by blast
  have "\<not> max_uncompressed (block_bytes opts) < length (chunk_content opts (index_entries L opts cs))"
    using idx unfolding cs(4) by linarith
  with open_file [OF L(1) ok] show thesis by (intro that [OF b n]) fastforce
qed

section \<open>Range tombstones\<close>

lemma bb_size_add_ge:
  "bb_size_estimate b + 1 + (length k - shared_length (last_key b) k) \<le> bb_size_estimate (bb_add b k t v)"
  by (auto simp: bb_add_def bb_size_estimate_def Let_def)

lemma chunk_content_ge: "length c \<le> length (chunk_content opts c)"
proof -
  have "length c \<le> bb_size_estimate (bb_add_all c b)" for b
  proof (induction c rule: rev_induct)
    case (snoc e c)
    obtain k t v where e: "e = (k, t, v)" by (cases e)
    show ?case using snoc bb_size_add_ge [of "bb_add_all c b" k t v] by (simp add: e bb_add_all_snoc)
  qed simp
  then show ?thesis by (simp add: chunk_content_size)
qed

lemma sorted_disjoint_nth:
  "sorted_disjoint rs \<Longrightarrow> i < j \<Longrightarrow> j < length rs \<Longrightarrow> lower (rs ! i) < upper (rs ! i) \<and> upper (rs ! i) < lower (rs ! j)"
proof (induction rs arbitrary: i j)
  case (Cons r rs)
  then show ?case by (cases i; cases j) (auto simp: sorted_disjoint_Cons)
qed simp

lemma sorted_range_entries: "sorted_disjoint rs \<Longrightarrow> sorted_keys (range_entries rs)"
  unfolding sorted_keys_def range_entries_def
  by (simp add: sorted_wrt_iff_nth_less) (meson less_trans sorted_disjoint_nth)

lemma floor_covers:
  assumes "sorted_disjoint rs" and n_def: "n = floor_pos (range_entries rs) key"
  shows "n < length rs \<and> key < upper (rs ! n) \<longleftrightarrow> any_covers rs key"
proof -
  have s: "sorted_keys (range_entries rs)" and len: "length (range_entries rs) = length rs"
    and nth: "\<And>i. i < length rs \<Longrightarrow> range_entries rs ! i = (lower (rs ! i), Put, upper (rs ! i))"
    using assms(1) by (simp_all add: sorted_range_entries) (simp_all add: range_entries_def)
  show ?thesis
  proof
    assume n: "n < length rs \<and> key < upper (rs ! n)"
    then have "lower (rs ! n) \<le> key"
      using floor_pos_props(1) [OF s, of key] nth [of n] len by (simp add: n_def)
    with n show "any_covers rs key" unfolding any_covers_def covers_def using nth_mem by blast
  next
    assume "any_covers rs key"
    then obtain i where i: "i < length rs" "lower (rs ! i) \<le> key" "key < upper (rs ! i)"
      unfolding any_covers_def covers_def by (metis in_set_conv_nth)
    have le: "floor_pos (range_entries rs) key \<le> length (range_entries rs)"
      using length_takeWhile_le [of "\<lambda>e. fst e \<le> key" "range_entries rs"]
      by (auto simp: floor_pos_def Let_def)
    have n: "n < length rs"
      using floor_pos_none [OF s, of key i] i nth [of i] len le by (cases "n = length rs") (auto simp: n_def)
    have "i \<le> n"
      using floor_pos_props(2) [OF s, of key i] n i nth [of i] len by (fastforce simp: n_def)
    moreover have "\<not> i < n"
    proof
      assume "i < n"
      then have "upper (rs ! i) < lower (rs ! n)" using sorted_disjoint_nth [OF assms(1)] n by blast
      moreover have "lower (rs ! n) \<le> key"
        using floor_pos_props(1) [OF s, of key] nth [of n] n len by (simp add: n_def)
      ultimately show False using i(3) by order
    qed
    ultimately have "i = n" by simp
    with n i show "n < length rs \<and> key < upper (rs ! n)" by simp
  qed
qed

definition ranges_fit :: "sst_options \<Rightarrow> range_tombstone list \<Rightarrow> bool" where
  "ranges_fit opts ranges \<longleftrightarrow>
     sorted_disjoint ranges \<and> (\<forall>r \<in> set ranges. length (lower r) < 2 ^ 32 \<and> length (upper r) < 2 ^ 32)
     \<and> length (chunk_content opts (range_entries ranges)) \<le> max_uncompressed (block_bytes opts)"

lemma load_ranges:
  assumes L: "codecs_ok L" and ok: "file_ok L opts cs ranges count fl"
    and env: "env \<in> table_envs L opts cs ranges name fn fl" and rs: "ranges_fit opts ranges"
    and rd: "rd = (table_reader L opts cs ranges count name fn fl)\<lparr> rd_filter := F, rd_ranges := R \<rparr>"
  shows "has_range_tombstones rd \<longleftrightarrow> ranges \<noteq> []"
    and "ranges \<noteq> [] \<Longrightarrow> \<exists>env' \<in> table_envs L opts cs ranges name fn fl. load_block L env rd (range_del (rd_footer rd)) []
      = (Inr (chunk_content opts (range_entries ranges)), env')"
    and "block_rep (BlockIterator (chunk_content opts (range_entries ranges))) (range_entries ranges) (length ranges)"
proof -
  let ?bs = "file_blocks L opts cs ranges" and ?i = "length cs + 2"
  let ?f = "file_footer (block_frames L ?bs) (length cs) (ranges \<noteq> []) count"
  have ri: "0 < opt_restart_interval opts" and bs: "framed_ok L ?bs" and n: "length fl < 2 ^ 32"
    and fl: "fl = concat (block_frames L ?bs) @ footer_encode ?f"
    using ok unfolding file_ok_def by blast+
  have ftr: "range_del (rd_footer rd) = (if ranges = [] then zero_handle else frame_handle (block_frames L ?bs) ?i)"
    by (simp add: rd table_reader_def opened_reader_def footer_view_def file_footer_def)
  have sel: "rd_name rd = name" "rd_file_size rd = of_nat (length fl)" "rd_block_bytes rd = block_bytes opts"
      "rd_file_number rd = fn"
    by (simp_all add: rd table_reader_def opened_reader_def)
  have i: "?i < length ?bs" "?bs ! ?i = (chunk_content opts (range_entries ranges), opt_compression opts)"
    if "ranges \<noteq> []" using that by (simp_all add: file_blocks_def nth_append)
  show "has_range_tombstones rd \<longleftrightarrow> ranges \<noteq> []"
  proof (cases "ranges = []")
    case False
    have "unat (hlength (frame_handle (block_frames L ?bs) ?i)) = length (block_frames L ?bs ! ?i)"
      using frame_handle_fits(3) [of ?i "block_frames L ?bs", OF _ fl n] i(1) [OF False] by simp
    moreover have "9 \<le> length (block_frames L ?bs ! ?i)" by (rule framed_nth(2) [OF bs i(1) [OF False]])
    ultimately have "hlength (frame_handle (block_frames L ?bs) ?i) \<noteq> 0" by auto
    then show ?thesis using False by (simp add: has_range_tombstones_def ftr)
  qed (simp add: has_range_tombstones_def ftr zero_handle_def)
  have small: "length (chunk_content opts (range_entries ranges)) \<le> max_uncompressed (block_bytes opts)"
    using rs by (simp add: ranges_fit_def)
  show "\<exists>env' \<in> table_envs L opts cs ranges name fn fl. load_block L env rd (range_del (rd_footer rd)) []
      = (Inr (chunk_content opts (range_entries ranges)), env')" if "ranges \<noteq> []"
    using load_frame [OF L bs i(1) [OF that] fl n, of rd env "[]"] env small that i(2) [OF that]
      sel by (auto simp: ftr table_envs_def)
  have "map entry_view (range_entries ranges) = range_entries ranges"
    by (simp add: range_entries_def entry_view_def)
  moreover have "length (chunk_content opts (range_entries ranges)) < 2 ^ 32"
  proof (cases "ranges = []")
    case True
    then show ?thesis using chunk_content_le [of opts "range_entries ranges"] by (simp add: range_entries_def)
  next
    case False
    with framed_small [OF bs i(1)] i(2) show ?thesis by simp
  qed
  moreover have "\<forall>(k, t, v) \<in> set (range_entries ranges). length k < 2 ^ 32 \<and> length v < 2 ^ 32"
    using rs by (simp add: ranges_fit_def range_entries_def)
  moreover have "sorted_disjoint ranges" using rs by (simp add: ranges_fit_def)
  moreover have "length (range_entries ranges) = length ranges" by (simp add: range_entries_def)
  ultimately show "block_rep (BlockIterator (chunk_content opts (range_entries ranges))) (range_entries ranges) (length ranges)"
    using chunk_view_rep [OF ri sorted_range_entries, of ranges] by simp
qed

lemma range_deletes_loaded:
  assumes L: "codecs_ok L" and ok: "file_ok L opts cs ranges count fl"
    and env: "env \<in> table_envs L opts cs ranges name fn fl" and rs: "ranges_fit opts ranges"
    and rd: "rd = (table_reader L opts cs ranges count name fn fl)\<lparr> rd_filter := F, rd_ranges := R \<rparr>"
  shows "\<exists>env' \<in> table_envs L opts cs ranges name fn fl. range_deletes L env rd key = (Inr (any_covers ranges key), env')"
proof (cases "ranges = []")
  case True
  then show ?thesis using load_ranges(1) [OF L ok env rs rd] env by (auto simp: range_deletes_def)
next
  case False
  note l = load_ranges [OF L ok env rs rd]
  define block where "block = chunk_content opts (range_entries ranges)"
  from l(2) [OF False] obtain env' where load: "load_block L env rd (range_del (rd_footer rd)) [] = (Inr block, env')"
    and env': "env' \<in> table_envs L opts cs ranges name fn fl"
    unfolding block_def by blast
  have rep: "block_rep (BlockIterator block) (range_entries ranges) (length ranges)"
    using l(3) by (simp add: block_def)
  define it where "it = bi_seek_for_prev (BlockIterator block) key"
  let ?n = "floor_pos (range_entries ranges) key"
  have r: "block_rep it (range_entries ranges) ?n"
    unfolding it_def by (rule block_rep_seek_for_prev [OF rep])
  have len: "length (range_entries ranges) = length ranges" by (simp add: range_entries_def)
  have val: "it_value it = upper (ranges ! ?n)" if "?n < length ranges"
    using block_rep_entry [OF r] that len by (simp add: it_entry_def range_entries_def)
  have cov: "?n < length ranges \<and> key < upper (ranges ! ?n) \<longleftrightarrow> any_covers ranges key"
    using floor_covers [OF _ refl] rs by (simp add: ranges_fit_def)
  have "range_deletes L env rd key = (Inr (any_covers ranges key), env')"
    using l(1) False load block_rep_valid [OF r] block_rep_ok [OF r] val cov
    by (auto simp: range_deletes_def it_def [symmetric] Let_def len)
  with env' show ?thesis by blast
qed

lemma range_tombstones_loaded:
  assumes L: "codecs_ok L" and ok: "file_ok L opts cs ranges count fl"
    and env: "env \<in> table_envs L opts cs ranges name fn fl" and rs: "ranges_fit opts ranges"
    and rd: "rd = (table_reader L opts cs ranges count name fn fl)\<lparr> rd_filter := F, rd_ranges := R \<rparr>"
    and R: "R = None \<or> R = Some ranges"
  shows "\<exists>R'. \<exists>env' \<in> table_envs L opts cs ranges name fn fl.
    range_tombstones L env rd = (Inr ranges, rd\<lparr> rd_ranges := R' \<rparr>, env') \<and> (R' = None \<or> R' = Some ranges)"
proof (cases "ranges = [] \<or> R = Some ranges")
  case True
  then have "range_tombstones L env rd = (Inr ranges, rd\<lparr> rd_ranges := R \<rparr>, env)"
    using load_ranges(1) [OF L ok env rs rd] by (auto simp: range_tombstones_def rd)
  then show ?thesis using R env by blast
next
  case False
  note l = load_ranges [OF L ok env rs rd]
  define block where "block = chunk_content opts (range_entries ranges)"
  from l(2) False obtain env' where load: "load_block L env rd (range_del (rd_footer rd)) [] = (Inr block, env')"
    and env': "env' \<in> table_envs L opts cs ranges name fn fl"
    unfolding block_def by blast
  have rep: "block_rep (BlockIterator block) (range_entries ranges) (length ranges)"
    using l(3) by (simp add: block_def)
  have "rd_ranges rd = None" using R False by (simp add: rd)
  moreover have "length (range_entries ranges) \<le> length block"
    unfolding block_def by (rule chunk_content_ge)
  then have d: "length (range_entries ranges) - 0 \<le> length block" by simp
  note block.drain_rep [OF block_rep_first [OF rep] d]
  then have "fst (drain it_valid it_entry bi_next (length block) (bi_seek_to_first (BlockIterator block)))
      = range_entries ranges"
    "it_status (snd (drain it_valid it_entry bi_next (length block) (bi_seek_to_first (BlockIterator block)))) = Ok"
    using block_rep_ok by auto
  moreover have "map (\<lambda>(k, _, v). \<lparr> lower = k, upper = v \<rparr>) (range_entries ranges) = ranges"
    unfolding range_entries_def by (rule trans [OF map_map map_idI]) simp
  ultimately have "range_tombstones L env rd = (Inr ranges, rd\<lparr> rd_ranges := Some ranges \<rparr>, env')"
    using l(1) False load by (simp add: range_tombstones_def split_def Let_def)
  with env' show ?thesis by blast
qed

section \<open>Properties\<close>

text \<open>
  [C9] Point lookups in a table: for every key, \<open>get\<close> on a file that was written, stored and opened
  answers with the type and the value of the entry that was written under that key, a tombstone
  included, or that there is none; the bloom filter, the index, the codec and a consistent block
  cache never change that answer.
\<close>

theorem sst_get_correct:
  assumes "codecs_ok L" and "codecs_total L"
    and "written_and_opened L opts source dt ranges name fn rd env"
  shows "fst (sst_get L env rd k) =
    Inr (map_option (\<lambda>e. snd (entry_view e)) (find (\<lambda>e. fst e = k) [(k, t, v) \<leftarrow> source. \<not> (dt \<and> t = Delete)]))"
proof -
  from openedE [OF assms] obtain cs count fl
    where es: "concat cs = [(k, t, v) \<leftarrow> source. \<not> (dt \<and> t = Delete)]"
      and ok: "file_ok L opts cs ranges count fl" and rd: "rd = table_reader L opts cs ranges count name fn fl"
      and env: "env \<in> table_envs L opts cs ranges name fn fl"
      and size: "int (length (concat cs)) * max 1 (bloom_bits_per_key opts) < 2 ^ 40" .
  note t = table_of_file [OF assms(1) ok, of name fn, folded rd]
  from filter_of_file [OF assms(1) ok env size, folded rd] obtain f
    where f: "ensure_filter L env rd = (Ok, rd\<lparr> rd_filter := Some f \<rparr>, env)"
      "\<forall>e \<in> set (concat cs). bloom_may_contain f (fst e)" by blast
  have cv: "concat (map (map entry_view) cs) = map entry_view (concat cs)" by (rule concat_map_map)
  have fv: "bloom_may_contain f (fst e)" if "e \<in> set (concat (map (map entry_view) cs))" for e
  proof -
    from that obtain x where "x \<in> set (concat cs)" "e = entry_view x"
      unfolding cv set_map by (rule imageE)
    with f(2) show ?thesis by (simp only: fst_entry_view)
  qed
  obtain env' where "sst_get L env (rd\<lparr> rd_filter := Some f \<rparr>) k
      = (Inr (map_option snd (find (\<lambda>e. fst e = k) (concat (map (map entry_view) cs)))), rd\<lparr> rd_filter := Some f \<rparr>, env')"
    using sst_get_loaded [OF table_filter [OF t] env, of "Some f" f k] fv by auto
  then show ?thesis
    using sst_get_first_use [OF f(1)] unfolding cv find_view es [symmetric]
    by (simp add: option.map_comp comp_def)
qed

text \<open>
  [C10] Scans of a table: the iterator over a file that was written, stored and opened visits exactly
  the entries written, in key order from the first and in reverse from the last, across its data
  blocks, and finishes without an error.
\<close>

theorem sst_scan_correct:
  assumes "codecs_ok L" and "codecs_total L"
    and "written_and_opened L opts source dt ranges name fn rd env"
  shows "let es = map entry_view [(k, t, v) \<leftarrow> source. \<not> (dt \<and> t = Delete)];
             it = SstIterator rd env;
             (fwd, it1) = drain si_valid si_entry (si_next L) (length es) (si_seek_to_first L it);
             (bwd, it2) = drain si_valid si_entry (si_prev L) (length es) (si_seek_to_last L it)
         in fwd = es \<and> \<not> si_valid it1 \<and> si_status_of it1 = Ok
            \<and> bwd = rev es \<and> \<not> si_valid it2 \<and> si_status_of it2 = Ok"
proof -
  from openedE [OF assms] obtain cs count fl
    where es: "concat cs = [(k, t, v) \<leftarrow> source. \<not> (dt \<and> t = Delete)]"
      and ok: "file_ok L opts cs ranges count fl" and rd: "rd = table_reader L opts cs ranges count name fn fl"
      and env: "env \<in> table_envs L opts cs ranges name fn fl" .
  note t = table_of_file [OF assms(1) ok, of name fn, folded rd]
  let ?es = "map entry_view (concat cs)"
  have "si_at (SstIterator rd env) rd (table_envs L opts cs ranges name fn fl)
      (index_entries L opts cs) (map (map entry_view) cs) (length (index_entries L opts cs))"
    using t env by (simp add: si_at_def SstIterator_def table_def)
  from si_rep_end [OF t this] have rep: "si_rep L (SstIterator rd env) ?es (length ?es)"
    by (simp add: SstIterator_def concat_map_map)
  note fwd = sst.drain_rep [OF si_rep_first [OF rep], of "length ?es"]
  note bwd = sst.drain_back [OF si_rep_last [OF rep], of "length ?es"]
  show ?thesis
    unfolding es [symmetric] unfolding Let_def split_def
    using fwd bwd si_rep_basic(3,4) [of L _ ?es "length ?es"] by simp
qed

text \<open>
  [C19] A table that stays within the limits is always written and always opens: for codecs that do
  what their documentation says, \<open>build_sst\<close> returns a file, and \<open>open\<close> accepts it from every store that
  holds it, with or without a block cache, under a file number the cache has not seen.
\<close>

theorem sst_written_opens:
  assumes "codecs_ok L" and "codecs_total L" and "length ranges < 2 ^ 64"
    and "openable L opts [(k, t, v) \<leftarrow> source. \<not> (dt \<and> t = Delete)] ranges"
  shows "\<exists>r. build_sst L source Ok opts dt ranges = Inr r \<and>
    (\<forall>env name fn. holds env name (r_bytes r) \<longrightarrow> cache_fresh env fn \<longrightarrow>
      (\<exists>rd env'. sst_open L env name (of_nat (length (r_bytes r))) (block_bytes opts) fn = (Inr rd, env')))"
  using sst_opens [OF assms(1,2,4,3)] by metis

text \<open>
  [C20] Range tombstones of a table: on a file that was written with sorted disjoint ranges, stored
  and opened, \<open>range_deletes\<close> says of every key whether one of the ranges covers it, and
  \<open>range_tombstones\<close> returns the ranges that were written.
\<close>

theorem sst_ranges_correct:
  assumes "codecs_ok L" and "codecs_total L" and rs: "ranges_fit opts ranges"
    and "written_and_opened L opts source dt ranges name fn rd env"
  shows "fst (range_deletes L env rd key) = Inr (any_covers ranges key)
    \<and> fst (range_tombstones L env rd) = Inr ranges"
proof -
  from openedE [OF assms(1,2,4)] obtain cs count fl
    where ok: "file_ok L opts cs ranges count fl" and rd: "rd = table_reader L opts cs ranges count name fn fl"
      and env: "env \<in> table_envs L opts cs ranges name fn fl" .
  have "rd = (table_reader L opts cs ranges count name fn fl)\<lparr> rd_filter := None, rd_ranges := None \<rparr>"
    by (simp add: rd table_reader_def opened_reader_def)
  from range_deletes_loaded [OF assms(1) ok env rs this, of key] range_tombstones_loaded [OF assms(1) ok env rs this]
  show ?thesis by auto
qed

lemma writer_lays_wide:
  assumes "codecs_total L" and "block_bytes opts \<le> 2 ^ 30" and "writer_lays L opts w cs []"
    and "\<forall>(k, t, v) \<in> set es. length k \<le> kMaxKeyBytes \<and> length v \<le> kMaxValueBytes
      \<and> block_bytes opts \<le> length (chunk_content opts [(k, t, v)])"
  shows "writer_lays L opts (sw_add_all L es w) (cs @ map (\<lambda>e. [e]) es) []"
  using assms(3,4)
proof (induction es arbitrary: w cs)
  case Nil
  then show ?case by (simp add: sw_add_all_def)
next
  case (Cons e es)
  obtain k t v where e: "e = (k, t, v)" by (cases e)
  have "writer_lays L opts (sw_add L w k t v) (cs @ [[e]]) []"
    using writer_lays_add [OF Cons.prems(1) _ assms(1,2), of k v t] Cons.prems(2) e
    by (simp add: unfilled_def)
  from Cons.IH [OF this] Cons.prems(2) show ?case by (simp add: sw_add_all_def e)
qed

definition wide_key :: "nat \<Rightarrow> bytes" where
  "wide_key i = of_nat i # replicate (kMaxKeyBytes - 1) 0"

definition wide_entries :: "entry list" where
  "wide_entries = map (\<lambda>i. (wide_key i, Put, [])) [0..<18]"

definition default_sst_options :: sst_options where
  "default_sst_options = \<lparr> block_bytes = 4096, opt_restart_interval = 16, bloom_bits_per_key = 10,
     bloom_probes = 6, opt_compression = None_codec \<rparr>"

lemma length_wide_key: "length (wide_key i) = kMaxKeyBytes"
  by (simp add: wide_key_def kMaxKeyBytes_def)

lemma shared_wide_key: "shared_length (wide_key i) (wide_key (Suc i)) = 0"
  by (simp add: wide_key_def)

lemma wide_size_ge:
  "n * kMaxKeyBytes \<le> bb_size_estimate (bb_add_all (map (\<lambda>i. (wide_key i, Put, f i)) [0..<n]) (BlockBuilder ri))"
proof (induction n)
  case (Suc n)
  let ?b = "bb_add_all (map (\<lambda>i. (wide_key i, Put, f i)) [0..<n]) (BlockBuilder ri)"
  have "shared_length (last_key ?b) (wide_key n) = 0"
  proof (cases n)
    case 0
    then show ?thesis by (simp add: bb_add_all_def BlockBuilder_def)
  next
    case (Suc m)
    then show ?thesis by (simp add: bb_add_all_fields(3) last_map shared_wide_key)
  qed
  then show ?case
    using Suc bb_size_add_ge [of ?b "wide_key n" Put "f n"] by (simp add: bb_add_all_snoc length_wide_key)
qed simp

lemma wide_index:
  "index_entries L opts (map (\<lambda>e. [e]) wide_entries)
     = map (\<lambda>i. (wide_key i, Put, encode_handle (chunk_handle L opts (map (\<lambda>e. [e]) wide_entries) i))) [0..<18]"
  unfolding index_entries_def by (rule map_cong) (simp_all add: wide_entries_def)

lemma zero_run_codecs_total: "codecs_total zero_run_codecs"
  by (simp add: codecs_total_def zero_run_codecs_def zero_run_compress_def)

lemma wide_limits:
  "\<forall>(k, t, v) \<in> set wide_entries. length k \<le> kMaxKeyBytes \<and> length v \<le> kMaxValueBytes
     \<and> block_bytes default_sst_options \<le> length (chunk_content default_sst_options [(k, t, v)])"
proof -
  have "4096 \<le> length (chunk_content opts [(wide_key i, Put, [])])" for i opts
    using bb_size_add_ge [of "BlockBuilder (opt_restart_interval opts)" "wide_key i" Put "[]"]
    by (simp add: chunk_content_size bb_add_all_def BlockBuilder_def length_wide_key kMaxKeyBytes_def)
  then show ?thesis by (auto simp: wide_entries_def length_wide_key default_sst_options_def)
qed

lemma wide_sorted: "sorted_keys wide_entries"
proof -
  have "wide_key i < wide_key j" if "i < j" "j < 18" for i j
    using that by (simp add: wide_key_def word_less_nat_alt unsigned_of_nat take_bit_nat_eq_self)
  then show ?thesis
    by (simp add: sorted_keys_def wide_entries_def sorted_wrt_iff_nth_less comp_def)
qed

lemma wide_cost: "file_cost default_sst_options wide_entries [] < LZ4_MAX_INPUT_SIZE"
  by (simp add: file_cost_def wide_entries_def comp_def length_wide_key kMaxKeyBytes_def sum_list_triv
      default_sst_options_def LZ4_MAX_INPUT_SIZE_def del: upt_Suc)

text \<open>
  [C25] The index of a table is not bounded the way its data blocks are. Eighteen entries with keys of
  the largest permitted size and distinct first bytes fill one data block each; \<open>build_sst\<close> returns a file
  without an error, and \<open>open\<close> rejects that file as corrupt from every store that holds it, because the
  decoded index, which repeats every key, exceeds the bound meant for a data block.
\<close>

theorem sst_large_index_unreadable:
  "\<exists>r. build_sst zero_run_codecs wide_entries Ok default_sst_options False [] = Inr r \<and>
    (\<forall>env name fn. holds env name (r_bytes r) \<longrightarrow> cache_fresh env fn \<longrightarrow>
      fst (sst_open zero_run_codecs env name (of_nat (length (r_bytes r))) (block_bytes default_sst_options) fn) = Inl Corrupt)"
proof -
  let ?L = zero_run_codecs and ?opts = default_sst_options and ?cs = "map (\<lambda>e. [e]) wide_entries"
  let ?w = "sw_add_all ?L wide_entries (SstWriter ?opts)"
  note L = zero_run_codecs_ok zero_run_codecs_total
  have bb: "block_bytes ?opts \<le> 2 ^ 30" by (simp add: default_sst_options_def)
  note st = start_writer_lays [of ?L ?opts "[]", unfolded start_writer_def, simplified]
  have w: "writer_lays ?L ?opts ?w ?cs []"
    using writer_lays_wide [OF L(2) bb _ wide_limits, of "SstWriter ?opts" "[]"] st by simp
  have cc: "concat ?cs = wide_entries" by (simp add: concat_map_singleton)
  have ne: "\<forall>c \<in> set ?cs. c \<noteq> []" by simp
  have n18: "length wide_entries = 18" by (simp add: wide_entries_def)
  have bits: "int (length (concat ?cs)) * max 1 (bloom_bits_per_key ?opts) < 2 ^ 40"
    unfolding cc n18 by (simp add: default_sst_options_def)
  have "file_cost ?opts (concat ?cs) [] < LZ4_MAX_INPUT_SIZE" unfolding cc by (rule wide_cost)
  note bl = file_blocks_framed [OF L(2) ne bits this]
  have chunks: "\<forall>c \<in> set ?cs. c \<noteq> [] \<and> length (chunk_content ?opts c) \<le> max_uncompressed (block_bytes ?opts)"
    and fin: "if framed_ok ?L (file_blocks ?L ?opts ?cs [])
      then \<exists>r. sw_finish ?L ?w = Inr r \<and> r_bytes r = concat (block_frames ?L (file_blocks ?L ?opts ?cs []))
        @ footer_encode (file_footer (block_frames ?L (file_blocks ?L ?opts ?cs [])) (length ?cs) ([] \<noteq> ([] :: range_tombstone list)) (r_num_entries r))
      else \<exists>s. sw_finish ?L ?w = Inl s"
    using finish_from [OF L(2) bb w, of "[]" ?cs] st n18 cc
    by (simp_all add: unfilled_def sw_add_all_keeps_ranges)
  from fin bl(1) obtain r where r: "sw_finish ?L ?w = Inr r"
    and fl: "r_bytes r = concat (block_frames ?L (file_blocks ?L ?opts ?cs []))
        @ footer_encode (file_footer (block_frames ?L (file_blocks ?L ?opts ?cs [])) (length ?cs) ([] \<noteq> ([] :: range_tombstone list)) (r_num_entries r))"
    by auto
  have "length (r_bytes r) \<le> file_cost ?opts (concat ?cs) []" unfolding fl by (rule bl(2))
  then have len: "length (r_bytes r) < 2 ^ 32"
    using wide_cost unfolding cc by (simp add: LZ4_MAX_INPUT_SIZE_def)
  have "build_sst ?L wide_entries Ok ?opts False [] = Inr r" using r by (simp add: build_sst_def)
  moreover have "file_ok ?L ?opts ?cs [] (r_num_entries r) (r_bytes r)"
    unfolding file_ok_def chunks_ok_def cc using chunks bl(1) fl len wide_sorted wide_limits
    by (auto simp: default_sst_options_def)
  moreover have "max_uncompressed (block_bytes ?opts) < length (chunk_content ?opts (index_entries ?L ?opts ?cs))"
    using wide_size_ge [of 18] unfolding chunk_content_size wide_index
    by (rule less_le_trans [rotated])
       (simp add: max_uncompressed_def default_sst_options_def kMaxEntryBlockBytes_def kMaxKeyBytes_def kMaxValueBytes_def)
  ultimately show ?thesis using open_file [OF L(1)] by metis
qed

text \<open>
  [C21] Rot in a cache layer is repaired: when the cached copy of a block is cut short, or differs from
  what was written in up to four consecutive bytes, and the store underneath still holds the block,
  the reader returns the block's true content and drops the cached copy of the object.
\<close>

theorem rotten_cache_repaired:
  assumes "codecs_ok L" and "frame_block L content codec [] = (Ok, pre @ x @ post)" and "length content \<le> m"
    and "handle_fits h (rd_file_size rd)" and "unat (hlength h) = length (pre @ x @ post)"
    and "store_get env (rd_name rd) (offset h) (length (pre @ x @ post)) = Inr bad"
    and "length bad < length (pre @ x @ post)
      \<or> (\<exists>y. bad = pre @ y @ post \<and> length x = length y \<and> length x \<le> 4 \<and> x \<noteq> y)"
    and "authority_get env = Some a" and "a (rd_name rd) (offset h) (length (pre @ x @ post)) = Inr (pre @ x @ post)"
  shows "fetch_content L env rd h [] m = (Inr content, env\<lparr> invalidated := rd_name rd # invalidated env \<rparr>)"
proof -
  define raw where "raw = pre @ x @ post"
  have nine: "9 \<le> length raw" using frame_block_length [OF assms(2)] by (simp only: raw_def)
  have good: "unframe_block L raw m = Inr content"
    using unframe_framed [OF assms(1,2)] assms(3) by (simp add: raw_def)
  have bad: "length bad \<noteq> length raw \<or> (length bad = length raw \<and> unframe_block L bad m = Inl Corrupt)"
    using assms(7) unframe_burst [OF assms(2), of _ L m] by (auto simp: raw_def)
  have st: "store_get env (rd_name rd) (offset h) (length raw) = Inr bad"
      "a (rd_name rd) (offset h) (length raw) = Inr raw" "unat (hlength h) = length raw"
    using assms(5,6,9) by (simp_all only: raw_def)
  from bad show ?thesis
    using nine good st assms(4,8) by (auto simp: fetch_content_def kBlockTrailerLength_def Let_def)
qed

text \<open>
  An object that has vanished reads as an absent key. A data block the store reports as not found
  becomes corruption in \<open>get\<close>, so that no caller takes it for a missing key; the filter is read
  first, and its status is handed through unchanged: a fresh reader of an object that is gone answers
  every lookup with the status of a missing key.
\<close>

theorem vanished_object_as_absent:
  assumes "store_get env (rd_name rd) = (\<lambda>off len. Inl NotFound)" and "rd_filter rd = None"
    and "handle_fits (ffilter (rd_footer rd)) (rd_file_size rd)"
    and "kBlockTrailerLength \<le> unat (hlength (ffilter (rd_footer rd)))"
  shows "fst (sst_get L env rd k) = Inl NotFound"
  using assms by (auto simp: sst_get_def ensure_filter_def fetch_content_def kBlockTrailerLength_def Let_def)

section \<open>Witnesses\<close>

text \<open>A store that holds one object and has no caches.\<close>

definition plain_env :: "bytes \<Rightarrow> blob_env" where
  "plain_env fl = \<lparr> env_store = Store (\<lambda>name off len. Inr (take len (drop (unat off) fl))), invalidated = [], block_cache = None \<rparr>"

lemma plain_env_holds: "holds (plain_env fl) name fl" "cache_fresh (plain_env fl) fn"
  by (simp_all add: plain_env_def holds_def reads_object_def cache_fresh_def store_get_def authority_get_def)

definition sample_ranges :: "range_tombstone list" where
  "sample_ranges = [\<lparr> lower = [1], upper = [5] \<rparr>, \<lparr> lower = [7], upper = [9] \<rparr>]"

lemmas limit_defs = kMaxKeyBytes_def kMaxValueBytes_def kMaxEntryBlockBytes_def LZ4_MAX_INPUT_SIZE_def

lemma sample_openable: "openable zero_run_codecs default_sst_options sample_entries sample_ranges"
proof -
  have w: "writable default_sst_options sample_entries"
    by (simp add: writable_def default_sst_options_def sample_entries_def sorted_keys_def limit_defs)
  have "length sample_ranges < 2 ^ 64" by (simp add: sample_ranges_def)
  from index_size_le [OF zero_run_codecs_total w this]
  have "index_size zero_run_codecs default_sst_options sample_entries sample_ranges \<le> max_uncompressed (block_bytes default_sst_options)"
    by (rule order_trans) (simp add: sample_entries_def index_cost_def max_uncompressed_def limit_defs)
  then show ?thesis
    using w by (simp add: openable_def) (simp add: default_sst_options_def sample_entries_def file_cost_def sample_ranges_def limit_defs)
qed

text \<open>
  The options of an instance by default take memtables of 64 MiB. Their keys may have 28 bytes, whatever
  the values, before the index can outgrow the limit of the reader.
\<close>

lemma default_memtable_openable:
  assumes "codecs_total L" and "sorted_keys es" and "\<forall>(k, t, v) \<in> set es. length k \<le> 28 \<and> length v \<le> kMaxValueBytes"
    and "sum_list (map entry_cost es) \<le> 64 * 2 ^ 20"
  shows "openable L default_sst_options es []"
proof -
  have n: "20 * length es \<le> sum_list (map entry_cost es)" by (induction es) (auto simp: entry_cost_def)
  then have "int (length es) < 2 ^ 22" using assms(4) by simp
  then have w: "writable default_sst_options es"
    using assms(2,3) by (auto simp: writable_def default_sst_options_def limit_defs)
  have "\<forall>e \<in> set es. length (fst e) \<le> 28" using assms(3) by auto
  then have "index_size L default_sst_options es [] \<le> 8 + (40 + 28) * (sum_list (map entry_cost es) div 4088 + 1)"
    using index_size_bytes [OF assms(1) w, of "[]" 28] by (simp add: default_sst_options_def)
  moreover have "sum_list (map entry_cost es) div 4088 \<le> 64 * 2 ^ 20 div 4088" by (rule div_le_mono [OF assms(4)])
  ultimately have i: "index_size L default_sst_options es [] \<le> max_uncompressed (block_bytes default_sst_options)"
    by (simp add: max_uncompressed_def default_sst_options_def limit_defs)
  have "sum_list (map (\<lambda>(k, t, v). 77 + 2 * length k + length v) es) \<le> 4 * sum_list (map entry_cost es)"
    by (induction es) (auto simp: entry_cost_def)
  then have "file_cost default_sst_options es [] < LZ4_MAX_INPUT_SIZE"
    using n assms(4) by (simp add: file_cost_def default_sst_options_def limit_defs)
  with w i show ?thesis by (simp add: openable_def)
qed

lemma sample_filtered: "[(k, t, v) \<leftarrow> sample_entries. \<not> (False \<and> t = Delete)] = sample_entries"
  by simp

lemma sample_ranges_fit: "ranges_fit default_sst_options sample_ranges"
  using chunk_content_le [of default_sst_options "range_entries sample_ranges"]
  by (simp add: ranges_fit_def) (simp add: sample_ranges_def range_entries_def entry_cost_def default_sst_options_def max_uncompressed_def limit_defs)

lemma sample_written:
  "\<exists>rd env. written_and_opened zero_run_codecs default_sst_options sample_entries False sample_ranges [] 7 rd env"
proof -
  let ?es = "[(k, t, v) \<leftarrow> sample_entries. \<not> (False \<and> t = Delete)]"
  have n: "length sample_ranges < 2 ^ 64" by (simp add: sample_ranges_def)
  have op: "openable zero_run_codecs default_sst_options ?es sample_ranges"
    unfolding sample_filtered by (rule sample_openable)
  then have w: "writable default_sst_options ?es" unfolding openable_def by blast
  from sst_opens [OF zero_run_codecs_ok zero_run_codecs_total op n] obtain r
    where r: "build_sst zero_run_codecs sample_entries Ok default_sst_options False sample_ranges = Inr r"
      "length (r_bytes r) < 2 ^ 32"
      and o: "\<And>env name fn. holds env name (r_bytes r) \<Longrightarrow> cache_fresh env fn \<Longrightarrow>
      \<exists>rd env'. sst_open zero_run_codecs env name (of_nat (length (r_bytes r))) (block_bytes default_sst_options) fn = (Inr rd, env')"
    by metis
  from o [OF plain_env_holds, of "[]" 7] obtain rd env'
    where "sst_open zero_run_codecs (plain_env (r_bytes r)) [] (of_nat (length (r_bytes r)))
        (block_bytes default_sst_options) 7 = (Inr rd, env')" by blast
  with r w n plain_env_holds show ?thesis unfolding written_and_opened_def by blast
qed

theorem sst_get_correct_witness:
  "\<exists>rd env. written_and_opened zero_run_codecs default_sst_options sample_entries False sample_ranges [] 7 rd env
     \<and> fst (sst_get zero_run_codecs env rd [0x62]) = Inr (Some (Put, [2, 3]))
     \<and> fst (sst_get zero_run_codecs env rd [0x61, 0x63]) = Inr (Some (Delete, []))
     \<and> fst (sst_get zero_run_codecs env rd [0x61]) = Inr None"
proof -
  obtain rd env where w: "written_and_opened zero_run_codecs default_sst_options sample_entries False sample_ranges [] 7 rd env"
    using sample_written by blast
  note g = sst_get_correct [OF zero_run_codecs_ok zero_run_codecs_total w, unfolded sample_filtered]
  show ?thesis
    using w g [of "[0x62]"] g [of "[0x61, 0x63]"] g [of "[0x61]"]
    by (auto simp: sample_entries_def entry_view_def)
qed

theorem sst_scan_correct_witness:
  "\<exists>rd env. written_and_opened zero_run_codecs default_sst_options sample_entries False sample_ranges [] 7 rd env
     \<and> fst (drain si_valid si_entry (si_next zero_run_codecs) 3 (si_seek_to_first zero_run_codecs (SstIterator rd env)))
         = sample_entries
     \<and> fst (drain si_valid si_entry (si_prev zero_run_codecs) 3 (si_seek_to_last zero_run_codecs (SstIterator rd env)))
         = rev sample_entries"
proof -
  obtain rd env where w: "written_and_opened zero_run_codecs default_sst_options sample_entries False sample_ranges [] 7 rd env"
    using sample_written by blast
  have "map entry_view sample_entries = sample_entries" "length sample_entries = 3"
    by (simp_all add: sample_entries_def entry_view_def)
  then show ?thesis
    using w sst_scan_correct [OF zero_run_codecs_ok zero_run_codecs_total w]
    unfolding sample_filtered by (auto simp: Let_def split_def)
qed

theorem sst_written_opens_witness:
  "\<exists>r. build_sst zero_run_codecs sample_entries Ok default_sst_options False sample_ranges = Inr r \<and>
    (\<exists>rd env'. sst_open zero_run_codecs (plain_env (r_bytes r)) [] (of_nat (length (r_bytes r)))
       (block_bytes default_sst_options) 7 = (Inr rd, env'))"
proof -
  have n: "length sample_ranges < 2 ^ 64" by (simp add: sample_ranges_def)
  have "openable zero_run_codecs default_sst_options [(k, t, v) \<leftarrow> sample_entries. \<not> (False \<and> t = Delete)] sample_ranges"
    unfolding sample_filtered by (rule sample_openable)
  from sst_written_opens [OF zero_run_codecs_ok zero_run_codecs_total n this] show ?thesis
    using plain_env_holds by blast
qed

theorem sst_ranges_correct_witness:
  "\<exists>rd env. written_and_opened zero_run_codecs default_sst_options sample_entries False sample_ranges [] 7 rd env
     \<and> fst (range_deletes zero_run_codecs env rd [2]) = Inr True
     \<and> fst (range_deletes zero_run_codecs env rd [5]) = Inr False
     \<and> fst (range_tombstones zero_run_codecs env rd) = Inr sample_ranges"
proof -
  obtain rd env where w: "written_and_opened zero_run_codecs default_sst_options sample_entries False sample_ranges [] 7 rd env"
    using sample_written by blast
  note g = sst_ranges_correct [OF zero_run_codecs_ok zero_run_codecs_total sample_ranges_fit w]
  have "any_covers sample_ranges [2]" "\<not> any_covers sample_ranges [5]"
    by (simp_all add: sample_ranges_def covers_def)
  then show ?thesis using w g [of "[2]"] g [of "[5]"] by auto
qed

theorem sst_large_index_unreadable_witness:
  "\<exists>r. build_sst zero_run_codecs wide_entries Ok default_sst_options False [] = Inr r \<and>
     fst (sst_open zero_run_codecs (plain_env (r_bytes r)) [] (of_nat (length (r_bytes r)))
       (block_bytes default_sst_options) 7) = Inl Corrupt"
  using sst_large_index_unreadable plain_env_holds by blast

definition sample_reader :: sst_reader where
  "sample_reader = \<lparr> rd_name = [1], rd_file_size = 100, rd_block_bytes = 4096, rd_file_number = 7,
     rd_footer = \<lparr> ffilter = \<lparr> offset = 0, hlength = 40 \<rparr>, findex = zero_handle, fnum_entries = 1,
       format_version = 3, range_del = zero_handle, fcrc = 0 \<rparr>,
     rd_index = [], rd_filter = None, rd_ranges = None \<rparr>"

theorem vanished_object_as_absent_witness:
  "fst (sst_get zero_run_codecs ((plain_env [])\<lparr> env_store := Store (\<lambda>_ _ _. Inl NotFound) \<rparr>) sample_reader [7]) = Inl NotFound"
  by (rule vanished_object_as_absent)
     (simp_all add: sample_reader_def handle_fits_def kBlockTrailerLength_def store_get_def)

theorem rotten_cache_repaired_witness:
  "\<exists>raw. frame_block zero_run_codecs (replicate 20 0) Lz4 [] = (Ok, raw) \<and> length raw = 11 \<and>
     fst (fetch_content zero_run_codecs
       \<lparr> env_store = Cache_store (\<lambda>_ _ _. Inr (take 5 raw)) (Store (\<lambda>_ _ _. Inr raw)), invalidated = [], block_cache = None \<rparr>
       sample_reader \<lparr> offset = 0, hlength = 11 \<rparr> [] 64) = Inr (replicate 20 0)"
proof -
  define raw where "raw = snd (frame_block zero_run_codecs (replicate 20 0) Lz4 [])"
  have f: "frame_block zero_run_codecs (replicate 20 0) Lz4 [] = (Ok, [] @ [] @ raw)" and len: "length raw = 11"
    by (simp_all add: raw_def zero_run_frame)
  then have short: "length (take 5 raw) < 11" by simp
  have "fetch_content zero_run_codecs
       \<lparr> env_store = Cache_store (\<lambda>_ _ _. Inr (take 5 raw)) (Store (\<lambda>_ _ _. Inr raw)), invalidated = [], block_cache = None \<rparr>
       sample_reader \<lparr> offset = 0, hlength = 11 \<rparr> [] 64
     = (Inr (replicate 20 0), \<lparr> env_store = Cache_store (\<lambda>_ _ _. Inr (take 5 raw)) (Store (\<lambda>_ _ _. Inr raw)), invalidated = [], block_cache = None \<rparr>
          \<lparr> invalidated := [rd_name sample_reader] \<rparr>)"
    by (rule trans [OF rotten_cache_repaired [OF zero_run_codecs_ok f]])
       (use short in \<open>simp_all add: len sample_reader_def handle_fits_def store_get_def authority_get_def authoritative_store.simps del: length_take\<close>)
  then show ?thesis using f len by simp
qed

end
