(* ===== verification/Encryption.thy ===== *)
theory Encryption
  imports Sst_Round_Trip
begin

text \<open>
  The object boundary of src/crypt/encrypted\_object.cpp: an object is cut into chunks, each sealed
  under associated data that names the object and the chunk, and a read at a logical offset is mapped to
  the chunks that hold it. Also the passthrough of no\_encryption\_provider.cpp.

  A cipher is a parameter, a record of the functions of \<open>ObjectCipher\<close>; \<open>cipher_ok\<close> is what its
  documentation promises. Sealing appends to a buffer; here it returns what it appends. Lengths and
  offsets inside an object are natural numbers; where a physical offset is handed to the store it is a
  64-bit word, and an object whose physical size fits one has offsets that do not wrap.
\<close>

section \<open>Ciphers\<close>

record cipher =
  c_chunk_bytes :: nat
  c_overhead_bytes :: nat
  c_object_id :: u64
  c_seal :: "u64 \<Rightarrow> bytes \<Rightarrow> bytes \<Rightarrow> bytes res"
  c_open :: "u64 \<Rightarrow> bytes \<Rightarrow> bytes \<Rightarrow> bytes res"

definition cipher_ok :: "cipher \<Rightarrow> bool" where
  "cipher_ok C \<longleftrightarrow>
     0 < c_chunk_bytes C
     \<and> (\<forall>k p aad s. c_seal C k p aad = Inr s \<longrightarrow> length s = length p + c_overhead_bytes C \<and> c_open C k s aad = Inr p)"

definition NoEncryptionCipher :: cipher where
  "NoEncryptionCipher = \<lparr> c_chunk_bytes = 4096, c_overhead_bytes = 0, c_object_id = 0,
     c_seal = (\<lambda>_ p _. Inr p), c_open = (\<lambda>_ s _. Inr s) \<rparr>"

lemma no_encryption_ok: "cipher_ok NoEncryptionCipher"
  by (simp add: cipher_ok_def NoEncryptionCipher_def)

record encryption_provider =
  p_create :: "u64 \<Rightarrow> (cipher \<times> bytes) res"
  p_open :: "u64 \<Rightarrow> bytes \<Rightarrow> cipher res"

definition NoEncryptionProvider :: encryption_provider where
  "NoEncryptionProvider = \<lparr> p_create = (\<lambda>_. Inr (NoEncryptionCipher, [])),
     p_open = (\<lambda>_ metadata. if metadata \<noteq> [] then Inl Corrupt else Inr NoEncryptionCipher) \<rparr>"

section \<open>Chunks\<close>

definition chunk_aad :: "u64 \<Rightarrow> u64 \<Rightarrow> u64 \<Rightarrow> bytes" where
  "chunk_aad object_id chunk logical_bytes =
     put_fixed64 object_id @ put_fixed64 chunk @ (if chunk = 0 then put_fixed64 logical_bytes else [])"

definition chunk_count :: "nat \<Rightarrow> nat \<Rightarrow> nat" where
  "chunk_count logical_bytes chunk_bytes = (logical_bytes + chunk_bytes - 1) div chunk_bytes"

definition chunk_plain_bytes :: "nat \<Rightarrow> nat \<Rightarrow> nat \<Rightarrow> nat" where
  "chunk_plain_bytes k logical_bytes chunk_bytes =
     (let start = k * chunk_bytes in
      if start \<ge> logical_bytes then 0 else min chunk_bytes (logical_bytes - start))"

definition physical_size :: "nat \<Rightarrow> nat \<Rightarrow> nat \<Rightarrow> nat" where
  "physical_size logical_bytes chunk_bytes overhead_bytes =
     logical_bytes + chunk_count logical_bytes chunk_bytes * overhead_bytes"

text \<open>The loop that seals chunks \<open>k\<close> to \<open>k + n - 1\<close> of a plaintext, under the associated data \<open>aad\<close> gives them.\<close>

fun seal_chunks :: "cipher \<Rightarrow> (nat \<Rightarrow> bytes) \<Rightarrow> bytes \<Rightarrow> nat \<Rightarrow> nat \<Rightarrow> bytes \<Rightarrow> bytes res" where
  "seal_chunks C aad plain k 0 out = Inr out"
| "seal_chunks C aad plain k (Suc n) out =
     (let start = k * c_chunk_bytes C; len = chunk_plain_bytes k (length plain) (c_chunk_bytes C) in
      case c_seal C (of_nat k) (take len (drop start plain)) (aad k) of
        Inl s \<Rightarrow> Inl s
      | Inr sealed \<Rightarrow> seal_chunks C aad plain (k + 1) n (out @ sealed))"

definition seal_object :: "cipher \<Rightarrow> bytes \<Rightarrow> bytes res" where
  "seal_object C plaintext =
     seal_chunks C (\<lambda>k. chunk_aad (c_object_id C) (of_nat k) (of_nat (length plaintext))) plaintext 0
       (chunk_count (length plaintext) (c_chunk_bytes C)) []"

text \<open>The loop that opens chunks \<open>k\<close> to \<open>k + n - 1\<close> of an object from a fetch that starts at chunk \<open>base\<close>.\<close>

fun open_chunks ::
    "cipher \<Rightarrow> (nat \<Rightarrow> bytes) \<Rightarrow> nat \<Rightarrow> nat \<Rightarrow> bytes \<Rightarrow> nat \<Rightarrow> nat \<Rightarrow> bytes \<Rightarrow> bytes res" where
  "open_chunks C aad logical base fetched k 0 out = Inr out"
| "open_chunks C aad logical base fetched k (Suc n) out =
     (let at = (k - base) * (c_chunk_bytes C + c_overhead_bytes C);
          len = chunk_plain_bytes k logical (c_chunk_bytes C) + c_overhead_bytes C in
      case c_open C (of_nat k) (take len (drop at fetched)) (aad k) of
        Inl s \<Rightarrow> Inl s
      | Inr plain \<Rightarrow> open_chunks C aad logical base fetched (k + 1) n (out @ plain))"

record encrypted_object =
  eo_delegate :: blob_get
  eo_cipher :: cipher
  eo_object_name :: bytes
  eo_logical_bytes :: u64

definition eo_fetch :: "encrypted_object \<Rightarrow> nat \<Rightarrow> nat \<Rightarrow> bytes res" where
  "eo_fetch E off want =
     (let logical = unat (eo_logical_bytes E); cb = c_chunk_bytes (eo_cipher E); ov = c_overhead_bytes (eo_cipher E);
          first = off div cb; final = (off + want - 1) div cb; stride = cb + ov;
          physical_begin = first * stride;
          physical_end = final * stride + chunk_plain_bytes final logical cb + ov in
      case eo_delegate E (eo_object_name E) (of_nat physical_begin) (physical_end - physical_begin) of
        Inl s \<Rightarrow> Inl s
      | Inr fetched \<Rightarrow>
          if length fetched \<noteq> physical_end - physical_begin then Inl Corrupt
          else
            (case open_chunks (eo_cipher E)
                (\<lambda>k. chunk_aad (c_object_id (eo_cipher E)) (of_nat k) (eo_logical_bytes E))
                logical first fetched first (final - first + 1) [] of
               Inl s \<Rightarrow> Inl s
             | Inr plain \<Rightarrow> Inr (take want (drop (off - first * cb) plain))))"

definition eo_read :: "encrypted_object \<Rightarrow> blob_get" where
  "eo_read E name pos len =
     (let logical = unat (eo_logical_bytes E); off = unat pos in
      if name \<noteq> eo_object_name E then Inl Config
      else if off \<ge> logical then Inr []
      else
        let available = logical - off; want = (if len > available then available else len) in
        if want = 0 then Inr [] else eo_fetch E off want)"

definition eo_put :: "(bytes \<Rightarrow> bytes \<Rightarrow> status) \<Rightarrow> encrypted_object \<Rightarrow> bytes \<Rightarrow> bytes \<Rightarrow> status" where
  "eo_put put E name bs =
     (if name \<noteq> eo_object_name E then Config
      else case seal_object (eo_cipher E) bs of Inl s \<Rightarrow> s | Inr sealed \<Rightarrow> put name sealed)"

section \<open>The layout\<close>

definition chunk_of :: "nat \<Rightarrow> bytes \<Rightarrow> nat \<Rightarrow> bytes" where
  "chunk_of cb p k = take cb (drop (k * cb) p)"

lemma take_chunk: "take (chunk_plain_bytes k (length p) cb) (drop (k * cb) p) = chunk_of cb p k"
  by (simp add: chunk_plain_bytes_def chunk_of_def Let_def min_def)

lemma length_chunk_of: "length (chunk_of cb p k) = chunk_plain_bytes k (length p) cb"
  by (simp add: chunk_plain_bytes_def chunk_of_def Let_def min.commute)

lemma concat_chunks:
  "a \<le> b \<Longrightarrow> concat (map (chunk_of cb p) [a..<b]) = take ((b - a) * cb) (drop (a * cb) p)"
proof (induction b)
  case (Suc b)
  show ?case
  proof (cases "a = Suc b")
    case False
    then have ab: "a \<le> b" using Suc.prems by simp
    have "drop ((b - a) * cb) (drop (a * cb) p) = drop (b * cb) p"
      using ab by (simp add: add_mult_distrib [symmetric])
    moreover have "(Suc b - a) * cb = (b - a) * cb + cb" using ab by (simp add: Suc_diff_le)
    ultimately show ?thesis using Suc.IH [OF ab] ab by (simp add: take_add chunk_of_def)
  qed simp
qed simp

lemma chunk_plain_full:
  assumes "Suc k < chunk_count n cb"
  shows "chunk_plain_bytes k n cb = cb"
proof -
  have "Suc (Suc k) \<le> (n + cb - 1) div cb" using assms by (simp add: chunk_count_def)
  then have "Suc (Suc k) * cb \<le> n + cb - 1"
    by (metis div_times_less_eq_dividend mult_le_mono1 order_trans)
  moreover have "0 < cb" using assms by (cases cb) (simp_all add: chunk_count_def)
  ultimately have "Suc k * cb < n" by simp
  then show ?thesis by (simp add: chunk_plain_bytes_def Let_def min_def)
qed

lemma chunk_count_covers:
  assumes "0 < cb"
  shows "n \<le> chunk_count n cb * cb"
proof -
  have "n + cb - 1 = (n + cb - 1) div cb * cb + (n + cb - 1) mod cb" by (simp add: div_mult_mod_eq)
  moreover have "(n + cb - 1) mod cb < cb" using assms by simp
  ultimately show ?thesis unfolding chunk_count_def by linarith
qed

lemma chunk_count_index: "0 < cb \<Longrightarrow> i < n \<Longrightarrow> i div cb < chunk_count n cb"
  using chunk_count_covers [of cb n] by (simp add: less_mult_imp_div_less order.strict_trans2)

text \<open>A list of pieces all of which but the last have one length.\<close>

definition evenly :: "nat \<Rightarrow> bytes list \<Rightarrow> bool" where
  "evenly st ss \<longleftrightarrow> (\<forall>k. Suc k < length ss \<longrightarrow> length (ss ! k) = st)"

lemma evenly_Cons: "evenly st (s # ss) \<longleftrightarrow> (ss \<noteq> [] \<longrightarrow> length s = st) \<and> evenly st ss"
  by (cases ss) (auto simp: evenly_def nth_Cons' less_Suc_eq_0_disj)

lemma drop_evenly: "evenly st ss \<Longrightarrow> k < length ss \<Longrightarrow> drop (k * st) (concat ss) = concat (drop k ss)"
proof (induction ss arbitrary: k)
  case (Cons s ss)
  show ?case
  proof (cases k)
    case (Suc j)
    then have "length s = st" "j < length ss" using Cons.prems by (auto simp: evenly_Cons)
    then show ?thesis using Cons Suc by (simp add: evenly_Cons)
  qed simp
qed simp

lemma nth_evenly:
  assumes "evenly st ss" and "k < length ss"
  shows "take (length (ss ! k)) (drop (k * st) (concat ss)) = ss ! k"
  using drop_evenly [OF assms] assms(2) by (simp add: Cons_nth_drop_Suc [symmetric])

text \<open>What sealing leaves: one piece per chunk, each the seal of its chunk.\<close>

definition pieces :: "cipher \<Rightarrow> (nat \<Rightarrow> bytes) \<Rightarrow> bytes \<Rightarrow> nat \<Rightarrow> bytes list \<Rightarrow> bool" where
  "pieces C aad p k ss \<longleftrightarrow>
     (\<forall>i < length ss. c_seal C (of_nat (k + i)) (chunk_of (c_chunk_bytes C) p (k + i)) (aad (k + i)) = Inr (ss ! i))"

lemma seal_chunks_pieces:
  "seal_chunks C aad p k n out = Inr sealed \<Longrightarrow>
   \<exists>ss. length ss = n \<and> sealed = out @ concat ss \<and> pieces C aad p k ss"
proof (induction n arbitrary: k out)
  case 0
  then show ?case by (intro exI [of _ "[]"]) (simp add: pieces_def)
next
  case (Suc n)
  obtain s where s: "c_seal C (of_nat k) (chunk_of (c_chunk_bytes C) p k) (aad k) = Inr s"
    and rest: "seal_chunks C aad p (k + 1) n (out @ s) = Inr sealed"
    using Suc.prems by (auto simp: Let_def take_chunk split: sum.splits)
  obtain ss where "length ss = n" "sealed = (out @ s) @ concat ss" "pieces C aad p (k + 1) ss"
    using Suc.IH [OF rest] by blast
  then show ?case
    using s by (intro exI [of _ "s # ss"]) (auto simp: pieces_def nth_Cons' less_Suc_eq_0_disj ac_simps)
qed

lemma pieces_evenly:
  assumes "cipher_ok C" and "pieces C aad p 0 ss" and "length ss = chunk_count (length p) (c_chunk_bytes C)"
  shows "evenly (c_chunk_bytes C + c_overhead_bytes C) ss"
    and "k < length ss \<Longrightarrow> length (ss ! k) = chunk_plain_bytes k (length p) (c_chunk_bytes C) + c_overhead_bytes C"
    and "k < length ss \<Longrightarrow> c_open C (of_nat k) (ss ! k) (aad k) = Inr (chunk_of (c_chunk_bytes C) p k)"
proof -
  show len: "length (ss ! k) = chunk_plain_bytes k (length p) (c_chunk_bytes C) + c_overhead_bytes C"
    if "k < length ss" for k
    using assms(1,2) that by (auto simp: cipher_ok_def pieces_def length_chunk_of)
  then show "evenly (c_chunk_bytes C + c_overhead_bytes C) ss"
    using chunk_plain_full [of _ "length p" "c_chunk_bytes C"] by (simp add: evenly_def assms(3))
  show "c_open C (of_nat k) (ss ! k) (aad k) = Inr (chunk_of (c_chunk_bytes C) p k)" if "k < length ss"
    using assms(1,2) that by (auto simp: cipher_ok_def pieces_def)
qed

lemma open_chunks_pieces:
  assumes even: "evenly (c_chunk_bytes C + c_overhead_bytes C) gs"
    and piece: "\<And>i. i < length gs \<Longrightarrow>
        length (gs ! i) = chunk_plain_bytes (base + i) logical (c_chunk_bytes C) + c_overhead_bytes C
        \<and> c_open C (of_nat (base + i)) (gs ! i) (aad (base + i)) = Inr (chunk_of (c_chunk_bytes C) p (base + i))"
  shows "base \<le> k \<Longrightarrow> k + n = base + length gs \<Longrightarrow>
    open_chunks C aad logical base (concat gs) k n out = Inr (out @ concat (map (chunk_of (c_chunk_bytes C) p) [k..<k + n]))"
proof (induction n arbitrary: k out)
  case (Suc n)
  let ?i = "k - base"
  have i: "?i < length gs" and k: "base + ?i = k" using Suc.prems by auto
  have "take (length (gs ! ?i)) (drop (?i * (c_chunk_bytes C + c_overhead_bytes C)) (concat gs)) = gs ! ?i"
    by (rule nth_evenly [OF even i])
  then have "open_chunks C aad logical base (concat gs) k (Suc n) out =
      open_chunks C aad logical base (concat gs) (k + 1) n (out @ chunk_of (c_chunk_bytes C) p k)"
    using piece [OF i] by (simp add: k Let_def)
  also have "\<dots> = Inr (out @ concat (map (chunk_of (c_chunk_bytes C) p) [k..<k + Suc n]))"
  proof -
    have "[k..<k + Suc n] = k # [k + 1..<k + 1 + n]" by (simp add: upt_conv_Cons del: upt_Suc)
    then show ?thesis
      using Suc.IH [of "k + 1" "out @ chunk_of (c_chunk_bytes C) p k"] Suc.prems by (simp del: upt_Suc)
  qed
  finally show ?case .
qed simp

lemma evenly_length: "evenly st gs \<Longrightarrow> gs \<noteq> [] \<Longrightarrow> length (concat gs) = (length gs - 1) * st + length (last gs)"
proof (induction gs)
  case (Cons g gs)
  then show ?case by (cases gs) (auto simp: evenly_Cons)
qed simp

lemma evenly_slice: "evenly st ss \<Longrightarrow> evenly st (take n (drop k ss))"
  by (auto simp: evenly_def)

text \<open>Fetching the pieces \<open>a\<close> to \<open>b\<close> by offset.\<close>

lemma fetch_slice:
  assumes even: "evenly st ss" and ab: "a \<le> b" "b < length ss"
  shows "take (b * st + length (ss ! b) - a * st) (drop (a * st) (concat ss)) = concat (take (Suc b - a) (drop a ss))"
proof -
  let ?gs = "take (Suc b - a) (drop a ss)"
  have len: "length ?gs = Suc (b - a)" using ab by (simp add: Suc_diff_le)
  then have "last ?gs = ss ! b" "?gs \<noteq> []" using ab by (auto simp: last_conv_nth)
  then have "length (concat ?gs) = (b - a) * st + length (ss ! b)"
    using evenly_length [OF evenly_slice [OF even, of "Suc b - a" a]] len by simp
  then have n: "b * st + length (ss ! b) - a * st = length (concat ?gs)"
    using ab by (simp add: diff_mult_distrib)
  have "concat (drop a ss) = concat ?gs @ concat (drop (Suc b - a) (drop a ss))"
    by (metis append_take_drop_id concat_append)
  then show ?thesis unfolding n using drop_evenly [OF even, of a] ab by simp
qed

lemma eo_read_correct:
  assumes C: "cipher_ok C" and sealed: "seal_object C p = Inr sealed"
    and fits: "length p < 2 ^ 64" "length sealed < 2 ^ 64" and g: "reads_object g name sealed"
  shows "reads_object (eo_read \<lparr> eo_delegate = g, eo_cipher = C, eo_object_name = name, eo_logical_bytes = of_nat (length p) \<rparr>) name p"
  unfolding reads_object_def
proof (intro allI)
  fix pos :: u64 and len :: nat
  let ?E = "\<lparr> eo_delegate = g, eo_cipher = C, eo_object_name = name, eo_logical_bytes = of_nat (length p) \<rparr>"
  let ?cb = "c_chunk_bytes C" and ?ov = "c_overhead_bytes C" and ?n = "length p" and ?off = "unat pos"
  let ?aad = "\<lambda>k. chunk_aad (c_object_id C) (of_nat k) (of_nat ?n)"
  obtain ss where ss: "length ss = chunk_count ?n ?cb" "sealed = concat ss" and pc: "pieces C ?aad p 0 ss"
    using seal_chunks_pieces [OF sealed [unfolded seal_object_def]] by auto
  note even = pieces_evenly(1) [OF C pc ss(1)] and plen = pieces_evenly(2) [OF C pc ss(1)]
    and popen = pieces_evenly(3) [OF C pc ss(1)]
  have cb: "0 < ?cb" using C by (simp add: cipher_ok_def)
  have un: "unat (of_nat ?n :: u64) = ?n" using fits(1) by (rule unat_of_nat_u64)
  show "eo_read ?E name pos len = Inr (take len (drop ?off p))"
  proof (cases "?off < ?n \<and> len \<noteq> 0")
    case False
    then show ?thesis by (auto simp: eo_read_def un Let_def not_less)
  next
    case True
    define want where "want = (if ?n - ?off < len then ?n - ?off else len)"
    define a b where "a = ?off div ?cb" and "b = (?off + want - 1) div ?cb"
    let ?pb = "a * (?cb + ?ov)" and ?pe = "b * (?cb + ?ov) + chunk_plain_bytes b ?n ?cb + ?ov"
    have w: "0 < want" "?off + want \<le> ?n" using True by (auto simp: want_def)
    have ab: "a \<le> b" using w by (simp add: a_def b_def div_le_mono)
    have b: "b < length ss" unfolding ss(1) b_def by (rule chunk_count_index [OF cb]) (use w in linarith)
    let ?gs = "take (Suc b - a) (drop a ss)"
    have fetch: "take (?pe - ?pb) (drop ?pb sealed) = concat ?gs"
      using fetch_slice [OF even ab b] plen [OF b] by (simp add: ss(2) add.assoc)
    have pe: "?pe \<le> length sealed"
    proof -
      have "ss \<noteq> []" using b by auto
      then have "length (concat (take (Suc b) ss)) = ?pe"
        using evenly_length [OF evenly_slice [OF even, of "Suc b" 0]] b plen [OF b] by (simp add: last_conv_nth add.assoc)
      moreover have "length (concat (take (Suc b) ss)) \<le> length (concat ss)"
        by (metis append_take_drop_id concat_append length_append le_add1)
      ultimately show ?thesis by (simp add: ss(2))
    qed
    have "?pb \<le> ?pe" using ab by (simp add: trans_le_add1)
    then have pb: "unat (of_nat ?pb :: u64) = ?pb"
      by (intro unat_of_nat_u64) (use pe fits(2) in linarith)
    have len_f: "length (concat ?gs) = ?pe - ?pb"
      using pe fetch by (metis diff_le_mono length_drop length_take min.absorb2)
    have gs: "length ?gs = b - a + 1" "a + (b - a + 1) = Suc b" using ab b by auto
    have "open_chunks C ?aad ?n a (concat ?gs) a (b - a + 1) [] =
        Inr ([] @ concat (map (chunk_of ?cb p) [a..<a + (b - a + 1)]))"
    proof (rule open_chunks_pieces [OF evenly_slice [OF even]])
      fix i assume "i < length ?gs"
      then have i: "a + i < length ss" "?gs ! i = ss ! (a + i)" by auto
      then show "length (?gs ! i) = chunk_plain_bytes (a + i) ?n ?cb + ?ov
          \<and> c_open C (of_nat (a + i)) (?gs ! i) (?aad (a + i)) = Inr (chunk_of ?cb p (a + i))"
        using plen [OF i(1)] popen [OF i(1)] by simp
    qed (use gs in simp_all)
    also have "concat (map (chunk_of ?cb p) [a..<a + (b - a + 1)]) = take ((Suc b - a) * ?cb) (drop (a * ?cb) p)"
      unfolding gs(2) by (rule concat_chunks) (use ab in simp)
    finally have opened: "open_chunks C ?aad ?n a (concat ?gs) a (b - a + 1) [] =
        Inr (take ((Suc b - a) * ?cb) (drop (a * ?cb) p))" by simp
    have "eo_read ?E name pos len = Inr (take want (drop (?off - a * ?cb) (take ((Suc b - a) * ?cb) (drop (a * ?cb) p))))"
    proof -
      have "g name (of_nat ?pb) (?pe - ?pb) = Inr (concat ?gs)"
        using g fetch by (simp add: reads_object_def pb del: of_nat_mult of_nat_add)
      moreover have "eo_fetch ?E ?off want =
          (case g name (of_nat ?pb) (?pe - ?pb) of Inl s \<Rightarrow> Inl s
           | Inr fetched \<Rightarrow> if length fetched \<noteq> ?pe - ?pb then Inl Corrupt
             else (case open_chunks C ?aad ?n a fetched a (b - a + 1) [] of Inl s \<Rightarrow> Inl s
                   | Inr plain \<Rightarrow> Inr (take want (drop (?off - a * ?cb) plain))))"
        by (simp only: eo_fetch_def Let_def a_def b_def encrypted_object.simps un)
      ultimately have "eo_fetch ?E ?off want = Inr (take want (drop (?off - a * ?cb) (take ((Suc b - a) * ?cb) (drop (a * ?cb) p))))"
        by (simp only: sum.case len_f opened) simp
      then show ?thesis using True w(1) by (simp add: eo_read_def un Let_def want_def [symmetric])
    qed
    also have "\<dots> = Inr (take len (drop ?off p))"
    proof -
      have aoff: "a * ?cb \<le> ?off" unfolding a_def by (simp add: div_times_less_eq_dividend)
      have "?off + want - 1 < Suc b * ?cb"
        unfolding b_def using cb dividend_less_div_times [of ?cb "?off + want - 1"] by simp
      then have "want \<le> (Suc b - a) * ?cb - (?off - a * ?cb)"
        using aoff w(1) ab by (simp add: diff_mult_distrib)
      then have "take want (drop (?off - a * ?cb) (take ((Suc b - a) * ?cb) (drop (a * ?cb) p))) =
          take want (drop ?off p)"
        using aoff by (simp add: drop_take take_take min_def)
      also have "\<dots> = take len (drop ?off p)" by (simp add: want_def)
      finally show ?thesis by simp
    qed
    finally show ?thesis .
  qed
qed

lemma pieces_length:
  assumes C: "cipher_ok C" and pc: "pieces C aad p 0 ss"
    and n: "length ss = chunk_count (length p) (c_chunk_bytes C)"
  shows "length (concat ss) = physical_size (length p) (c_chunk_bytes C) (c_overhead_bytes C)"
proof -
  let ?cb = "c_chunk_bytes C" and ?ov = "c_overhead_bytes C"
  have cb: "0 < ?cb" using C by (simp add: cipher_ok_def)
  have "map length ss = map (\<lambda>k. length (chunk_of ?cb p k) + ?ov) [0..<length ss]"
    by (rule nth_equalityI) (use pieces_evenly(2) [OF C pc n] in \<open>simp_all add: length_chunk_of\<close>)
  then have "length (concat ss) = length (concat (map (chunk_of ?cb p) [0..<length ss])) + length ss * ?ov"
    by (simp add: length_concat sum_list_addf sum_list_triv comp_def)
  also have "concat (map (chunk_of ?cb p) [0..<length ss]) = p"
    using chunk_count_covers [OF cb, of "length p"] by (simp add: concat_chunks n)
  finally show ?thesis by (simp add: physical_size_def n)
qed

lemma seal_object_length:
  assumes "cipher_ok C" and "seal_object C p = Inr sealed"
  shows "length sealed = physical_size (length p) (c_chunk_bytes C) (c_overhead_bytes C)"
  using seal_chunks_pieces [OF assms(2) [unfolded seal_object_def]] pieces_length [OF assms(1)] by fastforce

section \<open>Properties\<close>

text \<open>
  [C16] Encryption is invisible above the object boundary. When the store underneath serves the sealed
  bytes of an object, a read of any length at any logical offset through \<open>EncryptedObject\<close> returns
  exactly the plaintext there, cut at its end: the mapping of offsets to chunks, the final short chunk
  and the associated data agree between sealing and reading. The object occupies the size
  \<open>physical_size\<close> computes.
\<close>

theorem encrypted_reads_plaintext:
  assumes "cipher_ok C" and "seal_object C p = Inr sealed"
    and "length p < 2 ^ 64" and "length sealed < 2 ^ 64"
    and "\<And>pos len. g name pos len = Inr (take len (drop (unat pos) sealed))"
  shows "eo_read \<lparr> eo_delegate = g, eo_cipher = C, eo_object_name = name, eo_logical_bytes = of_nat (length p) \<rparr>
      name pos len = Inr (take len (drop (unat pos) p))
    \<and> length sealed = physical_size (length p) (c_chunk_bytes C) (c_overhead_bytes C)"
  using eo_read_correct [OF assms(1-4), of g name] assms(5) seal_object_length [OF assms(1,2)]
  by (simp add: reads_object_def)

section \<open>Witnesses\<close>

text \<open>A cipher of four-byte chunks that masks every byte and ends each chunk with two bytes of its associated data.\<close>

definition mask_cipher :: cipher where
  "mask_cipher = \<lparr> c_chunk_bytes = 4, c_overhead_bytes = 2, c_object_id = 7,
     c_seal = (\<lambda>k p aad. Inr (map (\<lambda>b. b XOR 0x5A) p @ [aad ! 0, aad ! 8])),
     c_open = (\<lambda>k s aad. if length s < 2 \<or> drop (length s - 2) s \<noteq> [aad ! 0, aad ! 8] then Inl Corrupt
                        else Inr (map (\<lambda>b. b XOR 0x5A) (take (length s - 2) s))) \<rparr>"

lemma mask_cipher_ok: "cipher_ok mask_cipher"
  by (simp add: cipher_ok_def mask_cipher_def comp_def xor.assoc)

theorem encrypted_reads_plaintext_witness:
  "\<exists>sealed. seal_object mask_cipher [1, 2, 3, 4, 5, 6] = Inr sealed \<and> length sealed = 10
     \<and> eo_read \<lparr> eo_delegate = (\<lambda>_ pos len. Inr (take len (drop (unat pos) sealed))), eo_cipher = mask_cipher,
          eo_object_name = [111], eo_logical_bytes = 6 \<rparr> [111] 3 2 = Inr [4, 5]"
proof -
  obtain sealed where s: "seal_object mask_cipher [1, 2, 3, 4, 5, 6] = Inr sealed" and len: "length sealed = 10"
    by (simp add: seal_object_def mask_cipher_def chunk_count_def chunk_plain_bytes_def numeral_2_eq_2)
  from encrypted_reads_plaintext [OF mask_cipher_ok s, of "\<lambda>_ pos len. Inr (take len (drop (unat pos) sealed))" "[111]" 3 2] s len
  show ?thesis by simp
qed

end
