(* ===== verification/Db_Tables.thy ===== *)
theory Db_Tables
  imports Reads Sst_Limits Encryption
begin

text \<open>
  The tables of an instance: names of objects, \<open>cipher_for\<close>, \<open>decrypting_view\<close> and \<open>reader_for\<close> of
  src/db/db\_impl.cpp over the readers of tables, which keep the contract the reads rely on.

  The stores, the providers and the resident readers are arguments: what the configuration and the
  reader cache answer at the time of a call, how a store answers a put, and what the stores list. A
  reader carries the environment it reads from.
\<close>

section \<open>Names of objects\<close>

function decimal_text :: "nat \<Rightarrow> bytes" where
  "decimal_text n = (if n < 10 then [of_nat (48 + n)] else decimal_text (n div 10) @ [of_nat (48 + n mod 10)])"
  by pat_completeness auto
termination by (relation "measure id") auto

declare decimal_text.simps [simp del]

definition kSstSuffix :: bytes where "kSstSuffix = [0x2E, 0x73, 0x73, 0x74]"

definition sst_object_name :: "u64 \<Rightarrow> bytes" where
  "sst_object_name file_number =
     (let digits = decimal_text (unat file_number) in replicate (12 - length digits) 0x30 @ digits @ kSstSuffix)"

fun sst_number_loop :: "u64 \<Rightarrow> bytes \<Rightarrow> u64 option" where
  "sst_number_loop number [] = Some number"
| "sst_number_loop number (c # cs) =
     (if c < 0x30 \<or> 0x39 < c then None else sst_number_loop (number * 10 + ucast (c - 0x30)) cs)"

definition sst_file_number :: "bytes \<Rightarrow> u64 option" where
  "sst_file_number name =
     (if length name < length kSstSuffix \<or> drop (length name - length kSstSuffix) name \<noteq> kSstSuffix then None
      else
        let digits = take (length name - length kSstSuffix) name in
        if length digits \<noteq> 12 then None else sst_number_loop 0 digits)"

section \<open>Opening a reader\<close>

record db_env =
  e_codecs :: codec_library
  e_readers :: "u64 \<Rightarrow> (sst_reader \<times> blob_env) option"
  e_store_for :: "bytes \<Rightarrow> blob_env option"
  e_store_is_discardable :: "bytes \<Rightarrow> bool"
  e_block_bytes :: nat
  e_provider_for :: "bytes \<Rightarrow> encryption_provider option"
  e_primary :: bytes
  e_accept_plaintext :: bool
  e_manifest_has_advanced :: bool
  e_put :: "bytes \<Rightarrow> bytes \<Rightarrow> bytes \<Rightarrow> status"
  e_list :: "bytes list res list"

definition cipher_for :: "db_env \<Rightarrow> file_metadata \<Rightarrow> cipher res" where
  "cipher_for E f =
     (if fm_encryption_provider f = [] \<and> e_primary E \<noteq> [] \<and> \<not> e_accept_plaintext E then Inl Config
      else case e_provider_for E (fm_encryption_provider f) of
        None \<Rightarrow> Inl Config
      | Some provider \<Rightarrow> p_open provider (fm_file_number f) (fm_encryption_metadata f))"

text \<open>
  The view is a store of its own, in front of whatever chain the store is. Its class has the
  \<open>as_cache\<close> of the base class.
\<close>

definition decrypting_view :: "db_env \<Rightarrow> blob_env \<Rightarrow> file_metadata \<Rightarrow> blob_env res" where
  "decrypting_view E store f =
     (case cipher_for E f of
        Inl s \<Rightarrow> Inl s
      | Inr C \<Rightarrow>
          Inr (store\<lparr> env_store := Encrypted_object
                        (eo_read \<lparr> eo_delegate = store_get store, eo_cipher = C,
                           eo_object_name = sst_object_name (fm_file_number f), eo_logical_bytes = fm_file_bytes f \<rparr>)
                        (env_store store) \<rparr>))"

definition fail_terminal :: "db \<Rightarrow> db" where
  "fail_terminal D = D\<lparr> db_unusable := True \<rparr>"

definition reader_for :: "db_env \<Rightarrow> db \<Rightarrow> file_metadata \<Rightarrow> (sst_reader \<times> blob_env) res \<times> db" where
  "reader_for E D f =
     (case e_readers E (fm_file_number f) of
        Some resident \<Rightarrow> (Inr resident, D)
      | None \<Rightarrow>
          (case e_store_for E (fm_store_id f) of
             None \<Rightarrow> (Inl Corrupt, D)
           | Some store \<Rightarrow>
               (case decrypting_view E store f of
                  Inl s \<Rightarrow> (Inl s, D)
                | Inr view \<Rightarrow>
                    (case sst_open (e_codecs E) view (sst_object_name (fm_file_number f)) (fm_file_bytes f)
                       (e_block_bytes E) (fm_file_number f) of
                       (Inr rd, env) \<Rightarrow> (Inr (rd, env), D)
                     | (Inl s, env) \<Rightarrow>
                         if s = NotFound \<and> db_read_only D \<and> e_manifest_has_advanced E then (Inl Stale, D)
                         else if s = NotFound
                         then (Inl (if e_store_is_discardable E (fm_store_id f) then Unusable else Corrupt), fail_terminal D)
                         else (Inl s, D)))))"

definition sst_iterator_ops :: "codec_library \<Rightarrow> sst_iter internal_iterator" where
  "sst_iterator_ops L =
     \<lparr> ii_valid = si_valid, ii_entry = si_entry, ii_status = si_status_of, ii_seek_to_first = si_seek_to_first L,
       ii_seek = si_seek L, ii_next = si_next L, ii_seek_to_last = si_seek_to_last L,
       ii_seek_for_prev = si_seek_for_prev L, ii_prev = si_prev L \<rparr>"

definition db_tables :: "db_env \<Rightarrow> (sst_reader \<times> blob_env, sst_iter) tables" where
  "db_tables E =
     \<lparr> tb_reader_for = reader_for E,
       tb_get = (\<lambda>(rd, env) key. sst_get (e_codecs E) env rd key),
       tb_range_deletes = (\<lambda>(rd, env) key. case range_deletes (e_codecs E) env rd key of (x, env) \<Rightarrow> (x, rd, env)),
       tb_range_tombstones = (\<lambda>(rd, env). range_tombstones (e_codecs E) env rd),
       tb_iterator = (\<lambda>(rd, env). SstIterator rd env),
       tb_ops = sst_iterator_ops (e_codecs E),
       tb_manifest_has_advanced = e_manifest_has_advanced E \<rparr>"

section \<open>The contract\<close>

text \<open>
  A reader of a written file, with or without its filter and its range tombstones loaded, in an
  environment whose block cache is consistent with the file.
\<close>

definition sst_serves :: "codec_library \<Rightarrow> sst_reader \<times> blob_env \<Rightarrow> source \<Rightarrow> bool" where
  "sst_serves L r s \<longleftrightarrow>
     codecs_ok L \<and>
     (\<exists>opts cs ranges n name fn fl F R.
        Sst_Round_Trip.file_ok L opts cs ranges n fl \<and> ranges_fit opts ranges
        \<and> int (length (concat cs)) * max 1 (bloom_bits_per_key opts) < 2 ^ 40
        \<and> fst r = (table_reader L opts cs ranges n name fn fl)\<lparr> rd_filter := F, rd_ranges := R \<rparr>
        \<and> snd r \<in> table_envs L opts cs ranges name fn fl
        \<and> (\<forall>f. F = Some f \<longrightarrow> (\<forall>e \<in> set (concat cs). bloom_may_contain f (fst e)))
        \<and> (R = None \<or> R = Some ranges)
        \<and> s = (map entry_view (concat cs), ranges))"

lemma sst_servesE:
  assumes "sst_serves L (rd, env) s"
  obtains opts cs ranges n name fn fl F R
  where "codecs_ok L" and "Sst_Round_Trip.file_ok L opts cs ranges n fl" and "ranges_fit opts ranges"
    and "int (length (concat cs)) * max 1 (bloom_bits_per_key opts) < 2 ^ 40"
    and "rd = (table_reader L opts cs ranges n name fn fl)\<lparr> rd_filter := F, rd_ranges := R \<rparr>"
    and "env \<in> table_envs L opts cs ranges name fn fl"
    and "\<forall>f. F = Some f \<longrightarrow> (\<forall>e \<in> set (concat cs). bloom_may_contain f (fst e))"
    and "R = None \<or> R = Some ranges"
    and "s = (map entry_view (concat cs), ranges)"
  using assms unfolding sst_serves_def by auto

lemma sst_servesI:
  assumes "codecs_ok L" and "Sst_Round_Trip.file_ok L opts cs ranges n fl" and "ranges_fit opts ranges"
    and "int (length (concat cs)) * max 1 (bloom_bits_per_key opts) < 2 ^ 40"
    and "rd = (table_reader L opts cs ranges n name fn fl)\<lparr> rd_filter := F, rd_ranges := R \<rparr>"
    and "env \<in> table_envs L opts cs ranges name fn fl"
    and "\<forall>f. F = Some f \<longrightarrow> (\<forall>e \<in> set (concat cs). bloom_may_contain f (fst e))"
    and "R = None \<or> R = Some ranges"
  shows "sst_serves L (rd, env) (map entry_view (concat cs), ranges)"
  unfolding sst_serves_def fst_conv snd_conv using assms by blast

lemma served_fields:
  "rd_name (rd\<lparr> rd_filter := F, rd_ranges := R \<rparr>) = rd_name rd"
  "rd_file_size (rd\<lparr> rd_filter := F, rd_ranges := R \<rparr>) = rd_file_size rd"
  "rd_block_bytes (rd\<lparr> rd_filter := F, rd_ranges := R \<rparr>) = rd_block_bytes rd"
  "rd_file_number (rd\<lparr> rd_filter := F, rd_ranges := R \<rparr>) = rd_file_number rd"
  by simp_all

lemma fetch_served:
  "fetch_content L env (rd\<lparr> rd_filter := F, rd_ranges := R \<rparr>) h pre m = fetch_content L env rd h pre m"
  unfolding fetch_content_def served_fields ..

lemma table_served:
  assumes "table L rd envs ies cs"
  shows "table L (rd\<lparr> rd_filter := F, rd_ranges := R \<rparr>) envs ies cs"
proof -
  have "load_block L env (rd\<lparr> rd_filter := F, rd_ranges := R \<rparr>) h [] = load_block L env rd h []" for env h
    unfolding load_block_def served_fields fetch_served ..
  then show ?thesis using assms by (simp add: table_def serves_def)
qed

lemma find_map_of: "map_option snd (find (\<lambda>e. fst e = k) es) = map_of es k"
  by (induction es) auto

lemma sst_serves_get:
  assumes "sst_serves L (rd, env) s"
  shows "\<exists>rd' env'. sst_get L env rd key = (Inr (map_of (fst s) key), rd', env') \<and> sst_serves L (rd', env') s"
proof -
  from assms obtain opts cs ranges n name fn fl F R
    where w: "codecs_ok L" "Sst_Round_Trip.file_ok L opts cs ranges n fl" "ranges_fit opts ranges"
      "int (length (concat cs)) * max 1 (bloom_bits_per_key opts) < 2 ^ 40"
      and rd: "rd = (table_reader L opts cs ranges n name fn fl)\<lparr> rd_filter := F, rd_ranges := R \<rparr>"
      and env: "env \<in> table_envs L opts cs ranges name fn fl"
      and F: "\<forall>f. F = Some f \<longrightarrow> (\<forall>e \<in> set (concat cs). bloom_may_contain f (fst e))"
      and R: "R = None \<or> R = Some ranges"
      and s: "s = (map entry_view (concat cs), ranges)" by (rule sst_servesE)
  let ?t = "table_reader L opts cs ranges n name fn fl"
  have "\<exists>f. ensure_filter L env rd = (Ok, rd\<lparr> rd_filter := Some f \<rparr>, env) \<and> (\<forall>e \<in> set (concat cs). bloom_may_contain f (fst e))"
  proof (cases F)
    case None
    obtain f where f: "ensure_filter L env ?t = (Ok, ?t\<lparr> rd_filter := Some f \<rparr>, env)" "\<forall>e \<in> set (concat cs). bloom_may_contain f (fst e)"
      using filter_of_file [OF w(1,2) env w(4)] by blast
    have none: "rd_filter ?t = None" by (simp add: table_reader_def opened_reader_def)
    have neq: "?t \<noteq> ?t\<lparr> rd_filter := Some f \<rparr>"
    proof
      assume eq: "?t = ?t\<lparr> rd_filter := Some f \<rparr>"
      have "rd_filter (?t\<lparr> rd_filter := Some f \<rparr>) = Some f" by simp
      then show False using none by (simp add: eq [symmetric])
    qed
    have upd: "x = f" if "?t\<lparr> rd_filter := Some x \<rparr> = ?t\<lparr> rd_filter := Some f \<rparr>" for x
    proof -
      have "rd_filter (?t\<lparr> rd_filter := Some x \<rparr>) = rd_filter (?t\<lparr> rd_filter := Some f \<rparr>)" by (simp only: that)
      then show ?thesis by simp
    qed
    have "fetch_content L env ?t (ffilter (rd_footer ?t)) [] (unat (hlength (ffilter (rd_footer ?t)))) = (Inr f, env)"
      using f(1) none neq upd by (auto simp: ensure_filter_def split: prod.splits sum.splits)
    then have "ensure_filter L env rd = (Ok, rd\<lparr> rd_filter := Some f \<rparr>, env)"
      by (auto simp: ensure_filter_def rd None fetch_served split: prod.splits)
    then show ?thesis using f(2) by blast
  next
    case (Some f)
    then have "rd\<lparr> rd_filter := Some f \<rparr> = rd" by (simp add: rd)
    then show ?thesis using F Some by (intro exI [of _ f]) (simp add: ensure_filter_def rd)
  qed
  then obtain f where f: "ensure_filter L env rd = (Ok, rd\<lparr> rd_filter := Some f \<rparr>, env)" "\<forall>e \<in> set (concat cs). bloom_may_contain f (fst e)"
    by blast
  let ?rd = "?t\<lparr> rd_filter := Some f, rd_ranges := R \<rparr>"
  have rd': "rd\<lparr> rd_filter := Some f \<rparr> = ?rd" by (simp add: rd)
  have cv: "concat (map (map entry_view) cs) = map entry_view (concat cs)" by (rule concat_map_map)
  have fv: "bloom_may_contain f (fst e)" if "e \<in> set (concat (map (map entry_view) cs))" for e
  proof -
    from that obtain x where "x \<in> set (concat cs)" "e = entry_view x"
      unfolding cv set_map by (rule imageE)
    with f(2) show ?thesis by (simp only: fst_entry_view)
  qed
  have "rd_filter ?rd = Some f" by simp
  from sst_get_loaded [OF table_served [OF table_of_file [OF w(1,2)]] env this fv]
  obtain env' where "env' \<in> table_envs L opts cs ranges name fn fl"
    "sst_get L env ?rd key = (Inr (map_of (fst s) key), ?rd, env')"
    unfolding cv find_map_of by (auto simp: s)
  moreover have "sst_get L env rd key = sst_get L env ?rd key"
    using sst_get_first_use [OF f(1)] by (simp add: rd')
  ultimately show ?thesis
    using sst_servesI [OF w refl, of env' name fn "Some f" R] f(2) R by (auto simp: s)
qed

lemma sst_serves_ranges:
  assumes "sst_serves L (rd, env) s"
  shows "\<exists>env'. range_deletes L env rd key = (Inr (any_covers (snd s) key), env') \<and> sst_serves L (rd, env') s"
    and "\<exists>rd' env'. range_tombstones L env rd = (Inr (snd s), rd', env') \<and> sst_serves L (rd', env') s"
    and "sorted_disjoint (snd s)"
proof -
  from assms obtain opts cs ranges n name fn fl F R
    where w: "codecs_ok L" "Sst_Round_Trip.file_ok L opts cs ranges n fl" "ranges_fit opts ranges"
      "int (length (concat cs)) * max 1 (bloom_bits_per_key opts) < 2 ^ 40"
      and rd: "rd = (table_reader L opts cs ranges n name fn fl)\<lparr> rd_filter := F, rd_ranges := R \<rparr>"
      and env: "env \<in> table_envs L opts cs ranges name fn fl"
      and F: "\<forall>f. F = Some f \<longrightarrow> (\<forall>e \<in> set (concat cs). bloom_may_contain f (fst e))"
      and R: "R = None \<or> R = Some ranges"
      and s: "s = (map entry_view (concat cs), ranges)" by (rule sst_servesE)
  show "\<exists>env'. range_deletes L env rd key = (Inr (any_covers (snd s) key), env') \<and> sst_serves L (rd, env') s"
    using range_deletes_loaded [OF w(1,2) env w(3) rd, of key] sst_servesI [OF w rd _ F R] by (auto simp: s)
  obtain R' env' where r: "env' \<in> table_envs L opts cs ranges name fn fl"
    "range_tombstones L env rd = (Inr ranges, rd\<lparr> rd_ranges := R' \<rparr>, env')" "R' = None \<or> R' = Some ranges"
    using range_tombstones_loaded [OF w(1,2) env w(3) rd R] by blast
  have "rd\<lparr> rd_ranges := R' \<rparr> = (table_reader L opts cs ranges n name fn fl)\<lparr> rd_filter := F, rd_ranges := R' \<rparr>"
    by (simp add: rd)
  from sst_servesI [OF w this r(1) F r(3)]
  show "\<exists>rd' env'. range_tombstones L env rd = (Inr (snd s), rd', env') \<and> sst_serves L (rd', env') s"
    using r(2) by (auto simp: s)
  show "sorted_disjoint (snd s)" using w(3) by (simp add: s ranges_fit_def)
qed

lemma sst_serves_iterator:
  assumes "sst_serves L (rd, env) s"
  shows "si_rep L (SstIterator rd env) (fst s) (length (fst s))"
proof -
  from assms obtain opts cs ranges n name fn fl F R
    where w: "codecs_ok L" "Sst_Round_Trip.file_ok L opts cs ranges n fl"
      and rd: "rd = (table_reader L opts cs ranges n name fn fl)\<lparr> rd_filter := F, rd_ranges := R \<rparr>"
      and env: "env \<in> table_envs L opts cs ranges name fn fl"
      and s: "s = (map entry_view (concat cs), ranges)" by (rule sst_servesE)
  have t: "table L rd (table_envs L opts cs ranges name fn fl) (index_entries L opts cs) (map (map entry_view) cs)"
    unfolding rd by (rule table_served [OF table_of_file [OF w]])
  have "si_at (SstIterator rd env) rd (table_envs L opts cs ranges name fn fl)
      (index_entries L opts cs) (map (map entry_view) cs) (length (index_entries L opts cs))"
    using t env by (simp add: si_at_def SstIterator_def table_def)
  from si_rep_end [OF t this] show ?thesis by (simp add: SstIterator_def concat_map_map s)
qed

interpretation sst_it: iterators "sst_iterator_ops L" "si_rep L"
  unfolding iterators_def sst_iterator_ops_def internal_iterator.simps by (rule sst.cursor_axioms)

interpretation tables: table_store "db_tables E" "si_rep (e_codecs E)" "sst_serves (e_codecs E)"
proof -
  have I: "iterators (tb_ops (db_tables E)) (si_rep (e_codecs E))"
    using sst_it.iterators_axioms [of "e_codecs E"] by (simp add: db_tables_def)
  show "table_store (db_tables E) (si_rep (e_codecs E)) (sst_serves (e_codecs E))"
  proof (intro table_store.intro table_store_axioms.intro I)
    fix r s key
    assume r: "sst_serves (e_codecs E) r s"
    obtain rd env where rde: "r = (rd, env)" by (cases r)
    note laws = sst_serves_get [of _ rd env s key] sst_serves_ranges [of _ rd env s]
    show "\<exists>r'. tb_get (db_tables E) r key = (Inr (map_of (fst s) key), r') \<and> sst_serves (e_codecs E) r' s"
      using laws(1) r by (auto simp: db_tables_def rde)
    show "\<exists>r'. tb_range_deletes (db_tables E) r key = (Inr (any_covers (snd s) key), r') \<and> sst_serves (e_codecs E) r' s"
      using laws(2) [of "e_codecs E" key] r by (auto simp: db_tables_def rde)
    show "\<exists>r'. tb_range_tombstones (db_tables E) r = (Inr (snd s), r') \<and> sst_serves (e_codecs E) r' s"
      using laws(3) r by (auto simp: db_tables_def rde)
    show "\<exists>p. si_rep (e_codecs E) (tb_iterator (db_tables E) r) (fst s) p"
      using sst_serves_iterator [of "e_codecs E" rd env s] r by (auto simp: db_tables_def rde)
    show "sorted_disjoint (snd s)" using laws(4) r by (simp add: rde)
  qed
qed

section \<open>Names\<close>

lemma digit_cases: "d < 10 \<Longrightarrow> d = 0 \<or> d = 1 \<or> d = 2 \<or> d = 3 \<or> d = 4 \<or> d = 5 \<or> d = 6 \<or> d = 7 \<or> d = 8 \<or> d = (9 :: nat)"
  by arith

lemma digit_byte:
  assumes "d < 10"
  shows "\<not> (of_nat (48 + d) :: byte) < 0x30" "\<not> 0x39 < (of_nat (48 + d) :: byte)" "(ucast ((of_nat (48 + d) :: byte) - 0x30) :: u64) = of_nat d"
  using digit_cases [OF assms] by auto

lemma number_loop_append:
  "sst_number_loop a (xs @ ys) = (case sst_number_loop a xs of None \<Rightarrow> None | Some b \<Rightarrow> sst_number_loop b ys)"
  by (induction xs arbitrary: a) auto

lemma number_loop_decimal: "sst_number_loop a (decimal_text n) = Some (a * 10 ^ length (decimal_text n) + of_nat n)"
proof (induction n arbitrary: a rule: decimal_text.induct)
  case (1 n)
  show ?case
  proof (cases "n < 10")
    case True
    then show ?thesis using digit_byte [OF True] by (simp add: decimal_text.simps [of n])
  next
    case False
    have d: "n mod 10 < 10" by simp
    have "of_nat n = (of_nat (n div 10) * 10 + of_nat (n mod 10) :: u64)"
      by (metis div_mult_mod_eq of_nat_add of_nat_mult of_nat_numeral)
    then show ?thesis using False 1 digit_byte [OF d]
      by (subst (1 2) decimal_text.simps) (simp add: number_loop_append algebra_simps)
  qed
qed

lemma number_loop_zeros: "sst_number_loop 0 (replicate z 0x30 @ xs) = sst_number_loop 0 xs"
  by (induction z) auto

lemma decimal_length: "0 < k \<Longrightarrow> length (decimal_text n) \<le> k \<longleftrightarrow> n < 10 ^ k"
proof (induction n arbitrary: k rule: decimal_text.induct)
  case (1 n)
  show ?case
  proof (cases "n < 10")
    case True
    have "(10 :: nat) \<le> 10 ^ k" using power_increasing [of 1 k "10 :: nat"] "1.prems" by simp
    then show ?thesis using True "1.prems" by (simp add: decimal_text.simps [of n])
  next
    case False
    then have l: "length (decimal_text n) = Suc (length (decimal_text (n div 10)))" by (simp add: decimal_text.simps [of n])
    show ?thesis
    proof (cases "k = 1")
      case True
      have "decimal_text (n div 10) \<noteq> []" by (subst decimal_text.simps) simp
      then show ?thesis using False l True by simp
    next
      case k: False
      then obtain j where j: "k = Suc j" "0 < j" using "1.prems" by (cases k) auto
      have "n div 10 < 10 ^ j \<longleftrightarrow> n < 10 ^ k" using j by (simp add: div_less_iff_less_mult mult.commute)
      then show ?thesis using l j 1(1) [OF False, of j] by simp
    qed
  qed
qed

text \<open>
  [C34] Object names and file numbers: every file number below a million million is read back from the
  name its object is given, and a name built from a larger one is recognised as no table at all. The
  sweep and the recovery of the file number counter see exactly the first kind.
\<close>

theorem sst_names_bounded:
  "sst_file_number (sst_object_name n) = (if unat n < 10 ^ 12 then Some n else None)"
proof -
  let ?d = "decimal_text (unat n)"
  have suffix: "length kSstSuffix = 4" by (simp add: kSstSuffix_def)
  have "sst_object_name n = (replicate (12 - length ?d) 0x30 @ ?d) @ kSstSuffix" by (simp add: sst_object_name_def Let_def)
  moreover have "length ?d \<le> 12 \<longleftrightarrow> unat n < 10 ^ 12" by (rule decimal_length) simp
  moreover have "sst_number_loop 0 (replicate (12 - length ?d) 0x30 @ ?d) = Some n"
    by (simp add: number_loop_zeros number_loop_decimal)
  ultimately show ?thesis by (auto simp: sst_file_number_def Let_def suffix)
qed

section \<open>From a written file to a reader\<close>

lemma written_serves:
  assumes "codecs_ok L" and "codecs_total L" and "ranges_fit opts ranges"
    and "written_and_opened L opts source dt ranges name fn rd env"
  shows "sst_serves L (rd, env) (map entry_view [(k, t, v) \<leftarrow> source. \<not> (dt \<and> t = Delete)], ranges)"
proof -
  from openedE [OF assms(1,2,4)] obtain cs n fl
    where es: "concat cs = [(k, t, v) \<leftarrow> source. \<not> (dt \<and> t = Delete)]"
      and ok: "Sst_Round_Trip.file_ok L opts cs ranges n fl" and rd: "rd = table_reader L opts cs ranges n name fn fl"
      and env: "env \<in> table_envs L opts cs ranges name fn fl"
      and size: "int (length (concat cs)) * max 1 (bloom_bits_per_key opts) < 2 ^ 40" .
  have "rd = (table_reader L opts cs ranges n name fn fl)\<lparr> rd_filter := None, rd_ranges := None \<rparr>"
    by (simp add: rd table_reader_def opened_reader_def)
  from sst_servesI [OF assms(1) ok assms(3) size this env] show ?thesis by (simp add: es)
qed

text \<open>A file that was built, sealed under a cipher its metadata opens again, and put where its metadata says.\<close>

definition placed_in ::
    "db_env \<Rightarrow> sst_options \<Rightarrow> entry list \<Rightarrow> bool \<Rightarrow> range_tombstone list \<Rightarrow> file_metadata \<Rightarrow> bool" where
  "placed_in E opts source dt ranges f \<longleftrightarrow>
     (\<exists>r C sealed st.
        build_sst (e_codecs E) source Ok opts dt ranges = Inr r
        \<and> openable (e_codecs E) opts [(k, t, v) \<leftarrow> source. \<not> (dt \<and> t = Delete)] ranges \<and> ranges_fit opts ranges \<and> length ranges < 2 ^ 64
        \<and> cipher_for E f = Inr C \<and> cipher_ok C \<and> seal_object C (r_bytes r) = Inr sealed \<and> length sealed < 2 ^ 64
        \<and> e_store_for E (fm_store_id f) = Some st \<and> reads_object (store_get st) (sst_object_name (fm_file_number f)) sealed
        \<and> cache_fresh st (fm_file_number f) \<and> e_readers E (fm_file_number f) = None
        \<and> fm_file_bytes f = of_nat (length (r_bytes r)) \<and> e_block_bytes E = block_bytes opts)"

lemma placed_reader:
  assumes L: "codecs_ok (e_codecs E)" "codecs_total (e_codecs E)" and p: "placed_in E opts source dt ranges f"
  shows "\<exists>r. reader_for E D f = (Inr r, D)
    \<and> sst_serves (e_codecs E) r (map entry_view [(k, t, v) \<leftarrow> source. \<not> (dt \<and> t = Delete)], ranges)"
proof -
  let ?L = "e_codecs E" and ?name = "sst_object_name (fm_file_number f)" and ?fn = "fm_file_number f"
  obtain r C sealed st where r: "build_sst ?L source Ok opts dt ranges = Inr r"
    and op: "openable ?L opts [(k, t, v) \<leftarrow> source. \<not> (dt \<and> t = Delete)] ranges" and rs: "ranges_fit opts ranges" and n: "length ranges < 2 ^ 64"
    and C: "cipher_for E f = Inr C" "cipher_ok C" "seal_object C (r_bytes r) = Inr sealed" "length sealed < 2 ^ 64"
    and st: "e_store_for E (fm_store_id f) = Some st" "reads_object (store_get st) ?name sealed" "cache_fresh st ?fn"
    and none: "e_readers E ?fn = None" and f: "fm_file_bytes f = of_nat (length (r_bytes r))" and bb: "e_block_bytes E = block_bytes opts"
    using p unfolding placed_in_def by blast
  from sst_opens [OF L op n] obtain r' where r': "build_sst ?L source Ok opts dt ranges = Inr r'" "length (r_bytes r') < 2 ^ 32"
    and o': "\<And>env name fn. Sst_Round_Trip.holds env name (r_bytes r') \<Longrightarrow> cache_fresh env fn \<Longrightarrow>
      \<exists>rd env'. sst_open ?L env name (of_nat (length (r_bytes r'))) (block_bytes opts) fn = (Inr rd, env')"
    by metis
  then have "r' = r" using r by simp
  note small = r'(2) [unfolded this] and o = o' [unfolded this]
  obtain view where view: "decrypting_view E st f = Inr view" "Sst_Round_Trip.holds view ?name (r_bytes r)" "cache_fresh view ?fn"
    using C st eo_read_correct [OF C(2,3) _ C(4) st(2)] small f
    by (auto simp: decrypting_view_def Sst_Round_Trip.holds_def cache_fresh_def store_get_def authority_get_def)
  obtain rd env where op': "sst_open ?L view ?name (fm_file_bytes f) (e_block_bytes E) ?fn = (Inr rd, env)"
    using o [OF view(2,3)] f bb by auto
  have "written_and_opened ?L opts source dt ranges ?name ?fn rd env"
    unfolding written_and_opened_def using r n small view(2,3) op' op by (auto simp: openable_def f bb)
  from written_serves [OF L rs this] show ?thesis
    using none st(1) view(1) op' by (auto simp: reader_for_def)
qed

section \<open>Properties of the reads\<close>

lemma scan_of_pairs:
  "(k, v) \<in> set (scan_of es lo up hu reversed) \<longleftrightarrow> (k, Put, v) \<in> set es \<and> in_range lo up hu k"
  by (force simp: scan_of_def Let_def puts_def)

lemma scan_of_order:
  assumes "sorted_keys es"
  shows "sorted_wrt (\<lambda>a b. if reversed then b < a else a < b) (map fst (scan_of es lo up hu reversed))"
proof -
  have "map fst (puts xs) = keys_of (filter (\<lambda>(k, t, v). t = Put) xs)" for xs by (induction xs) (auto simp: puts_def)
  then have "sorted_wrt (<) (map fst (puts (filter (\<lambda>e. in_range lo up hu (fst e)) es)))"
    using sorted_keys_filter [OF sorted_keys_filter [OF assms]] by (simp add: sorted_keys_def)
  then show ?thesis by (auto simp: scan_of_def Let_def sorted_wrt_rev simp flip: rev_map)
qed

lemma clamp_range: "in_range (clamp_lower v lo) up hu k \<longleftrightarrow> in_range lo up hu k \<and> \<not> truncated v k"
  by (auto simp: clamp_lower_def in_range_def truncated_def not_less)

lemma answer_put: "answer x = Inr v \<longleftrightarrow> x = Some (Put, v)"
  by (auto simp: answer_def split: option.splits value_type.splits)

text \<open>
  [C1] A lookup in an instance whose files open and are what their metadata says: \<open>get\<close> returns, and
  answers with the newest entry for the key among the live memtable, the frozen one, the files of level 0
  newest first and the deeper levels, a tombstone or a covering range delete of a newer source making it
  absent; a key below the truncation point is absent. The binary search below level 0 and the key spans
  that keep files closed change nothing.
\<close>

theorem db_get_correct:
  assumes "readable (db_tables E) (sst_serves (e_codecs E)) content D mss" and "\<not> reads_are_blocked D"
  shows "db_get (db_tables E) D key =
    Some (if truncated (db_version D) key then Inl NotFound else answer (lookup (stack_of content D mss) key), D)"
  using assms by (rule tables.db_get_readable)

lemma scan_agrees:
  assumes "readable (db_tables E) (sst_serves (e_codecs E)) content D mss" and "\<not> reads_are_blocked D"
    and "hu \<or> up = []"
  shows "\<exists>it out it'. make_iterator (db_tables E) D lo up hu reversed = Some (it, D)
    \<and> di_scan (tb_ops (db_tables E)) it = Some (out, it') \<and> di_status (tb_ops (db_tables E)) it' = Ok
    \<and> sorted_wrt (\<lambda>a b. if reversed then b < a else a < b) (map fst out)
    \<and> (\<forall>k v. (k, v) \<in> set out \<longleftrightarrow> in_range lo up hu k \<and> db_get (db_tables E) D k = Some (Inr v, D))"
proof -
  let ?css = "stack_of content D mss"
  let ?lo = "clamp_lower (db_version D) lo"
  obtain it it' where it: "make_iterator (db_tables E) D lo up hu reversed = Some (it, D)"
    "di_scan (tb_ops (db_tables E)) it = Some (scan_of (visible ?css) ?lo up hu reversed, it')"
    "di_status (tb_ops (db_tables E)) it' = Ok"
    using tables.iterator_readable [OF assms] by blast
  note sorted = tables.stack_sorted [OF assms(1)]
  have s: "sorted_keys (visible ?css)" by (rule visible_sorted [OF sorted])
  have "(k, v) \<in> set (scan_of (visible ?css) ?lo up hu reversed) \<longleftrightarrow>
      in_range lo up hu k \<and> db_get (db_tables E) D k = Some (Inr v, D)" for k v
    using tables.db_get_readable [OF assms(1,2), of k] sorted_map_of [OF s, of k "(Put, v)"] visible_lookup [OF sorted, of k]
    by (auto simp: scan_of_pairs clamp_range answer_put)
  then show ?thesis using it scan_of_order [OF s] by blast
qed

text \<open>
  [C4] Scans agree with lookups: an iterator over a range, in either direction, is built and comes to its
  end without an error. It has then yielded the pairs of a key in the range and a value for which \<open>get\<close>
  returns that value, all of them, each once, in ascending or descending order of keys.
\<close>

theorem db_scan_correct:
  assumes "readable (db_tables E) (sst_serves (e_codecs E)) content D mss" and "\<not> reads_are_blocked D"
    and "hu \<or> up = []"
  shows "\<exists>it out it'. make_iterator (db_tables E) D lo up hu reversed = Some (it, D)
    \<and> di_scan (tb_ops (db_tables E)) it = Some (out, it') \<and> di_status (tb_ops (db_tables E)) it' = Ok
    \<and> sorted_wrt (\<lambda>a b. if reversed then b < a else a < b) (map fst out)
    \<and> (\<forall>k v. (k, v) \<in> set out \<longleftrightarrow> in_range lo up hu k \<and> db_get (db_tables E) D k = Some (Inr v, D))"
  using assms by (rule scan_agrees)

text \<open>
  [C33] Prefix scans: an iterator over a prefix, in either direction, yields exactly the live keys that
  start with the prefix and comes to its end without an error, also for a prefix of \<open>0xFF\<close> bytes, which
  has no upper bound.
\<close>

theorem db_prefix_scan_correct:
  assumes "readable (db_tables E) (sst_serves (e_codecs E)) content D mss" and "\<not> reads_are_blocked D"
  shows "\<exists>it out it'. prefix_iterator (db_tables E) D prefix reversed = Some (it, D)
    \<and> di_scan (tb_ops (db_tables E)) it = Some (out, it') \<and> di_status (tb_ops (db_tables E)) it' = Ok
    \<and> (\<forall>k v. (k, v) \<in> set out \<longleftrightarrow> starts_with k prefix \<and> db_get (db_tables E) D k = Some (Inr v, D))"
proof -
  let ?T = "db_tables E"
  have "\<exists>up hu. prefix_iterator ?T D prefix reversed = make_iterator ?T D prefix up hu reversed \<and> (hu \<or> up = [])
      \<and> (\<forall>k. in_range prefix up hu k \<longleftrightarrow> starts_with k prefix)"
    using prefix_upper_bound_exact [of prefix]
    by (cases "prefix_upper_bound prefix") (auto simp: prefix_iterator_def in_range_def)
  then obtain up hu where p: "prefix_iterator ?T D prefix reversed = make_iterator ?T D prefix up hu reversed"
    "hu \<or> up = []" "\<forall>k. in_range prefix up hu k \<longleftrightarrow> starts_with k prefix" by blast
  show ?thesis using scan_agrees [OF assms p(2), of prefix reversed] p(1,3) by auto
qed

lemma load_block_store: "env_store (snd (load_block L env rd h pre)) = env_store env"
  by (auto simp: load_block_def fetch_content_def Let_def split: option.splits sum.splits prod.splits)

lemma sst_open_store: "env_store (snd (sst_open L env name len bb fn)) = env_store env"
proof -
  define I where "I r \<longleftrightarrow> env_store (snd r) = env_store env" for r :: "sst_reader res \<times> blob_env"
  have [intro!]: "I (Inl s, env)" for s by (simp add: I_def)
  have [intro!]: "I (if b then x else y)" if "I x" "I y" for b x y using that by simp
  have [intro!]: "I (case x of Inl s \<Rightarrow> f s | Inr y \<Rightarrow> g y)" if "\<And>s. I (f s)" "\<And>y. I (g y)" for x :: "status + 'x" and f g
    using that by (cases x) simp_all
  have [intro!]: "I (case load_block L env rd h pre of (Inl s, e) \<Rightarrow> (Inl s, e) | (Inr i, e) \<Rightarrow> (Inr (rd\<lparr> rd_index := i \<rparr>), e))" for rd h pre
    using load_block_store [of L env rd h pre] by (auto simp: I_def split: prod.splits sum.splits)
  have "I (sst_open L env name len bb fn)" unfolding sst_open_def Let_def by blast
  then show ?thesis by (simp add: I_def)
qed

text \<open>
  [C35] The repair of rotten caches is out of reach of an instance. A reader that it opens reads through
  the decrypting view in front of the chain of stores of the file, also without encryption. The view is
  not a cache layer, so the walk to the authoritative store ends at the view itself: whatever caches the
  chain behind it has, a block whose cached copy does not verify is reported with the error of that copy,
  nothing is invalidated, and the authoritative store is not asked.
\<close>

theorem decrypting_view_defeats_repair:
  assumes "reader_for E D f = (Inr (rd, env), D')" and "e_readers E (fm_file_number f) = None"
  shows "(\<exists>store read. e_store_for E (fm_store_id f) = Some store \<and> env_store env = Encrypted_object read (env_store store))
    \<and> authoritative_store (env_store env) = env_store env \<and> authority_get env = None
    \<and> (\<forall>h m framed s. kBlockTrailerLength \<le> unat (hlength h) \<longrightarrow> handle_fits h (rd_file_size rd)
         \<longrightarrow> store_get env (rd_name rd) (offset h) (unat (hlength h)) = Inr framed \<longrightarrow> length framed = unat (hlength h)
         \<longrightarrow> unframe_block (e_codecs E) framed m = Inl s
         \<longrightarrow> fetch_content (e_codecs E) env rd h [] m = (Inl s, env))"
proof -
  obtain store view where st: "e_store_for E (fm_store_id f) = Some store" and v: "decrypting_view E store f = Inr view"
    and o: "sst_open (e_codecs E) view (sst_object_name (fm_file_number f)) (fm_file_bytes f) (e_block_bytes E) (fm_file_number f) = (Inr rd, env)"
    using assms by (auto simp: reader_for_def split: option.splits sum.splits prod.splits if_splits)
  obtain read where "env_store view = Encrypted_object read (env_store store)"
    using v by (auto simp: decrypting_view_def split: sum.splits)
  then have e: "env_store env = Encrypted_object read (env_store store)" using sst_open_store [of "e_codecs E" view] o by (metis snd_conv)
  then have "authority_get env = None" "authoritative_store (env_store env) = env_store env"
    by (simp_all add: authority_get_def authoritative_store.simps)
  then show ?thesis using st e by (auto simp: fetch_content_def Let_def kBlockTrailerLength_def)
qed

lemma get_files_append:
  "get_files T key D (xs @ ys) = (case get_files T key D xs of (None, D') \<Rightarrow> get_files T key D' ys | r \<Rightarrow> r)"
  by (induction xs arbitrary: D) (auto simp: Let_def split: prod.splits sum.splits option.splits value_type.splits bool.splits)

text \<open>
  [C36] A file that has vanished under its reader: the object of a resident reader is gone, no memtable
  and no newer file answers for a key in its span, and the instance is writable. When the filter of the
  reader was never loaded and its handle in the footer lies in the file, \<open>get\<close> answers with the status of an absent key, as if the key had been
  deleted. When the filter is in memory and passes the key, the index leads to a block and the block is
  not in the block cache, the same state of the store is reported as corruption.
\<close>

theorem vanished_file_reads_as_absent:
  assumes "\<not> reads_are_blocked D" and "\<not> db_read_only D" and "\<not> truncated (db_version D) key"
    and "get_memtables key (memtables D) = Some None"
    and "concat (map (\<lambda>level. level_candidates (db_version D) level key) [0..<length (v_levels (db_version D))]) = newer @ f # older"
    and "get_files (db_tables E) key D newer = (None, D)" and "file_may_contain f key"
    and "e_readers E (fm_file_number f) = Some (rd, env)"
    and "store_get env (rd_name rd) = (\<lambda>off len. Inl NotFound)"
  shows "(rd_filter rd = None \<and> handle_fits (ffilter (rd_footer rd)) (rd_file_size rd)
        \<and> kBlockTrailerLength \<le> unat (hlength (ffilter (rd_footer rd)))
      \<longrightarrow> db_get (db_tables E) D key = Some (Inl NotFound, D))
    \<and> (\<forall>flt. rd_filter rd = Some flt \<and> bloom_may_contain flt key \<and> it_valid (bi_seek (BlockIterator (rd_index rd)) key)
        \<and> (\<forall>blocks h. block_cache env = Some blocks \<and> decode_index_handle (it_value (bi_seek (BlockIterator (rd_index rd)) key)) = Some h
             \<longrightarrow> blocks (rd_file_number rd, offset h) = None)
      \<longrightarrow> db_get (db_tables E) D key = Some (Inl Corrupt, D))"
proof -
  have step: "db_get (db_tables E) D key = Some (Inl s, D)" if "fst (sst_get (e_codecs E) env rd key) = Inl s" for s
  proof -
    have "get_files (db_tables E) key D (f # older) = (Some (Inl s), D)"
      using assms(2,7,8) that
      by (cases "sst_get (e_codecs E) env rd key") (simp add: Let_def db_tables_def reader_for_def classify_read_failure_def)
    then have "get_files (db_tables E) key D (newer @ f # older) = (Some (Inl s), D)"
      using assms(6) by (simp add: get_files_append del: get_files.simps)
    then show ?thesis using assms(1,3-5) by (simp add: db_get_def del: get_files.simps)
  qed
  have "db_get (db_tables E) D key = Some (Inl NotFound, D)"
    if "rd_filter rd = None" "handle_fits (ffilter (rd_footer rd)) (rd_file_size rd)" "kBlockTrailerLength \<le> unat (hlength (ffilter (rd_footer rd)))"
    using that assms(9) by (intro step) (auto simp: sst_get_def ensure_filter_def fetch_content_def kBlockTrailerLength_def Let_def)
  moreover have "db_get (db_tables E) D key = Some (Inl Corrupt, D)"
    if "rd_filter rd = Some flt" "bloom_may_contain flt key" "it_valid (bi_seek (BlockIterator (rd_index rd)) key)"
      "\<forall>blocks h. block_cache env = Some blocks \<and> decode_index_handle (it_value (bi_seek (BlockIterator (rd_index rd)) key)) = Some h
        \<longrightarrow> blocks (rd_file_number rd, offset h) = None" for flt
    using that assms(9)
    by (intro step) (auto simp: sst_get_def ensure_filter_def load_block_def fetch_content_def kBlockTrailerLength_def Let_def split: option.splits)
  ultimately show ?thesis by blast
qed

section \<open>Witnesses\<close>

text \<open>A memtable with a put and a remove over a table of level 0 that has range tombstones.\<close>

definition read_file :: file_metadata where
  "read_file = sample_file\<lparr> fm_level := 0, fm_smallest_key := [0x61, 0x62], fm_largest_key := [0x62],
     fm_num_range_tombstones := 2, fm_smallest_range_key := [1], fm_largest_range_key := [9] \<rparr>"

definition read_env :: "(sst_reader \<times> blob_env) \<Rightarrow> db_env" where
  "read_env r = \<lparr> e_codecs = zero_run_codecs, e_readers = [7 \<mapsto> r], e_store_for = (\<lambda>_. None), e_store_is_discardable = (\<lambda>_. False),
     e_block_bytes = 4096, e_provider_for = (\<lambda>_. Some NoEncryptionProvider), e_primary = [], e_accept_plaintext = True,
     e_manifest_has_advanced = False, e_put = (\<lambda>_ _ _. Ok), e_list = [] \<rparr>"

definition read_db :: "memtable \<Rightarrow> db" where
  "read_db m = \<lparr> db_mem = m, db_imm = None, db_version = Version [[read_file]] 8 [] [] None, db_requires_recovery = False,
     db_allow_reads_before_recovery = False, db_read_only = False, db_unusable = False, db_bg_error = Ok, db_write_floor = [],
     db_next_file_number = 8, db_established_watermark = None \<rparr>"

definition read_content :: "file_metadata \<Rightarrow> source" where
  "read_content f = (sample_entries, sample_ranges)"

definition read_memtable :: "entry list" where
  "read_memtable = [([0x61], Put, [9]), ([0x62], Delete, [])]"

lemma read_memtable_source: "\<exists>m. memtable_source m (read_memtable, [])"
proof -
  obtain m1 where m1: "mt_insert SkiplistMemtable [0x61] Put [9] = Some m1" "Memtable.holds m1 (upsert [0x61] Put [9] [])"
    "mt_ranges m1 = mt_ranges SkiplistMemtable"
    using mt_insert_holds [OF _ _ fresh_holds, of "[0x61]" "[9]"] by auto
  obtain m2 where m2: "Memtable.holds m2 (upsert [0x62] Delete [] (upsert [0x61] Put [9] []))" "mt_ranges m2 = mt_ranges m1"
    using mt_insert_holds [OF _ _ m1(2), of "[0x62]" "[]"] by auto
  have "mt_ranges SkiplistMemtable = []" by (simp add: SkiplistMemtable_def new_node_def Let_def case_prod_beta)
  moreover have "upsert [0x62] Delete [] (upsert [0x61] Put [9] []) = read_memtable"
    by (simp add: upsert_def read_memtable_def)
  ultimately show ?thesis
    using m2 m1(3) by (intro exI [of _ m2]) (simp add: memtable_source_def mt_range_tombstones_def merge_ranges_def)
qed

lemma sample_readable:
  "\<exists>r m. readable (db_tables (read_env r)) (sst_serves (e_codecs (read_env r))) read_content (read_db m) [(read_memtable, [])]"
proof -
  obtain rd env where w: "written_and_opened zero_run_codecs default_sst_options sample_entries False sample_ranges [] 7 rd env"
    using sample_written by blast
  obtain m where m: "memtable_source m (read_memtable, [])" using read_memtable_source by blast
  have "map entry_view sample_entries = sample_entries" by (simp add: sample_entries_def entry_view_def)
  then have r: "sst_serves zero_run_codecs (rd, env) (read_content read_file)"
    using written_serves [OF zero_run_codecs_ok zero_run_codecs_total sample_ranges_fit w] by (simp add: read_content_def)
  have d: "described read_file (read_content read_file)"
    by (auto simp: described_def read_file_def read_content_def sample_file_def sample_entries_def sample_ranges_def
        range_may_cover_def any_covers_def covers_def intro: order_less_trans [of _ "[5]" "[9]"] order_trans [of "[1]" "[7]"])
  have f: "files_at (db_version (read_db m)) l = (if l = 0 then [read_file] else [])" for l
    by (simp add: files_at_def read_db_def Version_def)
  have v: "version_ok (db_version (read_db m))" "partitioned_levels (db_version (read_db m))"
    by (simp_all add: version_ok_def partitioned_levels_def f) (simp_all add: read_db_def Version_def placed_def level_sorted_def read_file_def)
  have "stored (db_tables (read_env (rd, env))) (sst_serves zero_run_codecs) read_content (read_db m) read_file"
    using r d by (auto simp: stored_def db_tables_def reader_for_def read_env_def read_file_def sample_file_def)
  then show ?thesis
    using m v f by (intro exI [of _ "(rd, env)"] exI [of _ m]) (auto simp: readable_def memtables_def read_db_def read_env_def)
qed

lemma read_db_open: "\<not> reads_are_blocked (read_db m)" "\<not> truncated (db_version (read_db m)) k"
  by (simp_all add: reads_are_blocked_def read_db_def truncated_def Version_def)

lemma read_lookup:
  "lookup (stack_of read_content (read_db m) [(read_memtable, [])]) k =
     (case map_of read_memtable k of Some x \<Rightarrow> Some x | None \<Rightarrow> map_of sample_entries k)"
  by (auto simp: stack_of_def read_db_def Version_def files_at_def read_content_def split: option.splits)

theorem db_get_correct_witness:
  "\<exists>r m. db_get (db_tables (read_env r)) (read_db m) [0x61] = Some (Inr [9], read_db m)
     \<and> db_get (db_tables (read_env r)) (read_db m) [0x61, 0x62] = Some (Inr [1], read_db m)
     \<and> db_get (db_tables (read_env r)) (read_db m) [0x62] = Some (Inl NotFound, read_db m)"
proof -
  obtain r m where rm: "readable (db_tables (read_env r)) (sst_serves (e_codecs (read_env r))) read_content (read_db m) [(read_memtable, [])]"
    using sample_readable by blast
  note g = db_get_correct [OF rm read_db_open(1), unfolded read_lookup]
  show ?thesis
    by (rule exI [of _ r], rule exI [of _ m]) (simp add: g read_db_open(2) read_memtable_def sample_entries_def answer_def)
qed

theorem db_scan_correct_witness:
  "\<exists>r m it out it'. make_iterator (db_tables (read_env r)) (read_db m) [] [] False True = Some (it, read_db m)
     \<and> di_scan (tb_ops (db_tables (read_env r))) it = Some (out, it')
     \<and> ([0x61], [9]) \<in> set out \<and> ([0x61, 0x62], [1]) \<in> set out \<and> ([0x62], [2, 3]) \<notin> set out"
proof -
  obtain r m where rm: "readable (db_tables (read_env r)) (sst_serves (e_codecs (read_env r))) read_content (read_db m) [(read_memtable, [])]"
    using sample_readable by blast
  have g: "db_get (db_tables (read_env r)) (read_db m) k = Some (answer (case map_of read_memtable k of Some x \<Rightarrow> Some x | None \<Rightarrow> map_of sample_entries k), read_db m)" for k
    using tables.db_get_readable [OF rm read_db_open(1), of k] read_db_open(2) by (simp add: read_lookup)
  obtain it out it' where it: "make_iterator (db_tables (read_env r)) (read_db m) [] [] False True = Some (it, read_db m)"
    "di_scan (tb_ops (db_tables (read_env r))) it = Some (out, it')"
    "\<forall>k v. (k, v) \<in> set out \<longleftrightarrow> in_range [] [] False k \<and> db_get (db_tables (read_env r)) (read_db m) k = Some (Inr v, read_db m)"
    using db_scan_correct [OF rm read_db_open(1), of False "[]" "[]" True] by blast
  show ?thesis
    by (rule exI [of _ r], rule exI [of _ m], rule exI [of _ it], rule exI [of _ out], rule exI [of _ it'])
       (simp add: it in_range_def g read_memtable_def sample_entries_def answer_def)
qed

theorem db_prefix_scan_correct_witness:
  "\<exists>r m it out it'. prefix_iterator (db_tables (read_env r)) (read_db m) [0x61] False = Some (it, read_db m)
     \<and> di_scan (tb_ops (db_tables (read_env r))) it = Some (out, it')
     \<and> ([0x61], [9]) \<in> set out \<and> ([0x61, 0x62], [1]) \<in> set out"
proof -
  obtain r m where rm: "readable (db_tables (read_env r)) (sst_serves (e_codecs (read_env r))) read_content (read_db m) [(read_memtable, [])]"
    using sample_readable by blast
  have g: "db_get (db_tables (read_env r)) (read_db m) k = Some (answer (case map_of read_memtable k of Some x \<Rightarrow> Some x | None \<Rightarrow> map_of sample_entries k), read_db m)" for k
    using tables.db_get_readable [OF rm read_db_open(1), of k] read_db_open(2) by (simp add: read_lookup)
  obtain it out it' where it: "prefix_iterator (db_tables (read_env r)) (read_db m) [0x61] False = Some (it, read_db m)"
    "di_scan (tb_ops (db_tables (read_env r))) it = Some (out, it')"
    "\<forall>k v. (k, v) \<in> set out \<longleftrightarrow> starts_with k [0x61] \<and> db_get (db_tables (read_env r)) (read_db m) k = Some (Inr v, read_db m)"
    using db_prefix_scan_correct [OF rm read_db_open(1), of "[0x61]" False] by blast
  show ?thesis
    by (rule exI [of _ r], rule exI [of _ m], rule exI [of _ it], rule exI [of _ out], rule exI [of _ it'])
       (simp add: it starts_with_take g read_memtable_def sample_entries_def answer_def)
qed

text \<open>Without encryption an object is stored as it is.\<close>

lemma seal_none_chunks:
  "seal_chunks NoEncryptionCipher aad p k n out = Inr (out @ concat (map (chunk_of 4096 p) [k..<k + n]))"
proof (induction n arbitrary: k out)
  case (Suc n)
  have "take (chunk_plain_bytes k (length p) 4096) (drop (k * 4096) p) = chunk_of 4096 p k"
    by (rule take_chunk)
  moreover have "[k..<k + Suc n] = k # [Suc k..<Suc k + n]" by (simp add: upt_rec)
  ultimately show ?case using Suc by (simp add: Let_def) (simp add: NoEncryptionCipher_def)
qed simp

lemma seal_none: "seal_object NoEncryptionCipher p = Inr p"
proof -
  have "length p \<le> chunk_count (length p) 4096 * 4096" unfolding chunk_count_def by simp
  then show ?thesis
    using concat_chunks [of 0 "chunk_count (length p) 4096" 4096 p] by (simp add: seal_object_def seal_none_chunks) (simp add: NoEncryptionCipher_def)
qed

text \<open>A table in a store that has a cache above an authoritative store.\<close>

definition stored_file :: "sst_build_result \<Rightarrow> file_metadata" where
  "stored_file r = sample_file\<lparr> fm_file_bytes := of_nat (length (r_bytes r)) \<rparr>"

definition cached_env :: "bytes \<Rightarrow> blob_env" where
  "cached_env fl = (plain_env fl)\<lparr> env_store := Cache_store (store_get (plain_env fl)) (env_store (plain_env fl)) \<rparr>"

definition stored_env :: "sst_build_result \<Rightarrow> db_env" where
  "stored_env r = (read_env (sample_reader, plain_env []))\<lparr> e_readers := Map.empty,
     e_store_for := (\<lambda>_. Some (cached_env (r_bytes r))),
     e_block_bytes := block_bytes default_sst_options \<rparr>"

lemma sample_placed: "\<exists>r. placed_in (stored_env r) default_sst_options sample_entries False sample_ranges (stored_file r)"
proof -
  have n: "length sample_ranges < 2 ^ 64" by (simp add: sample_ranges_def)
  have op: "openable zero_run_codecs default_sst_options [(k, t, v) \<leftarrow> sample_entries. \<not> (False \<and> t = Delete)] sample_ranges"
    unfolding sample_filtered by (rule sample_openable)
  from sst_opens [OF zero_run_codecs_ok zero_run_codecs_total op n] obtain r
    where r: "build_sst zero_run_codecs sample_entries Ok default_sst_options False sample_ranges = Inr r" "length (r_bytes r) < 2 ^ 32"
    by metis
  let ?st = "cached_env (r_bytes r)"
  have "cipher_for (stored_env r) (stored_file r) = Inr NoEncryptionCipher"
    by (simp add: cipher_for_def stored_env_def read_env_def stored_file_def sample_file_def NoEncryptionProvider_def)
  moreover have "reads_object (store_get ?st) name (r_bytes r)" "cache_fresh ?st fn" for name fn
    by (simp_all add: cached_env_def plain_env_def reads_object_def cache_fresh_def store_get_def)
  ultimately show ?thesis
    unfolding placed_in_def using r op n sample_ranges_fit seal_none [of "r_bytes r"] no_encryption_ok
    by (intro exI [of _ r] exI [of _ NoEncryptionCipher] exI [of _ "r_bytes r"] exI [of _ ?st])
       (simp add: stored_env_def read_env_def stored_file_def)
qed

theorem decrypting_view_defeats_repair_witness:
  "\<exists>r rd env st. reader_for (stored_env r) (read_db SkiplistMemtable) (stored_file r) = (Inr (rd, env), read_db SkiplistMemtable)
     \<and> e_store_for (stored_env r) (fm_store_id (stored_file r)) = Some st \<and> authority_get st \<noteq> None \<and> authority_get env = None"
proof -
  obtain r where p: "placed_in (stored_env r) default_sst_options sample_entries False sample_ranges (stored_file r)"
    using sample_placed by blast
  have L: "codecs_ok (e_codecs (stored_env r))" "codecs_total (e_codecs (stored_env r))"
    using zero_run_codecs_ok zero_run_codecs_total by (simp_all add: stored_env_def read_env_def)
  obtain rd env where rd: "reader_for (stored_env r) (read_db SkiplistMemtable) (stored_file r) = (Inr (rd, env), read_db SkiplistMemtable)"
    using placed_reader [OF L p, of "read_db SkiplistMemtable"] by auto
  have "e_readers (stored_env r) (fm_file_number (stored_file r)) = None" by (simp add: stored_env_def)
  from decrypting_view_defeats_repair [OF rd this] rd show ?thesis
    by (intro exI [of _ r] exI [of _ rd] exI [of _ env] exI [of _ "the (e_store_for (stored_env r) [])"]) 
       (auto simp: stored_env_def cached_env_def authority_get_def)
qed

definition vanished_env :: blob_env where
  "vanished_env = (plain_env [])\<lparr> env_store := Store (\<lambda>_ _ _. Inl NotFound) \<rparr>"

definition loaded_reader :: sst_reader where
  "loaded_reader = sample_reader\<lparr> rd_index := build_block 2 sample_entries, rd_filter := Some [] \<rparr>"

lemma fresh_says_nothing: "get_memtables key (memtables (read_db SkiplistMemtable)) = Some None"
proof -
  have "memtable_source SkiplistMemtable ([], [])"
    using fresh_holds by (simp add: memtable_source_def mt_range_tombstones_def merge_ranges_def)
      (simp add: SkiplistMemtable_def new_node_def Let_def case_prod_beta)
  then show ?thesis
    using get_memtables_heard [of "[SkiplistMemtable]" "[([], [])]"] by (simp add: memtables_def read_db_def heard_Cons)
qed

lemma vanished_state:
  "\<not> db_read_only (read_db m)" "file_may_contain read_file [0x62]"
  "concat (map (\<lambda>level. level_candidates (db_version (read_db m)) level k) [0..<length (v_levels (db_version (read_db m)))]) = [] @ read_file # []"
  "e_readers (read_env (rd, env)) (fm_file_number read_file) = Some (rd, env)"
  "store_get vanished_env name = (\<lambda>off len. Inl NotFound)"
  by (simp_all add: read_db_def Version_def read_env_def read_file_def sample_file_def file_may_contain_def vanished_env_def
      level_candidates_def files_at_def store_get_def)

lemma loaded_index: "it_valid (bi_seek (BlockIterator (rd_index loaded_reader)) [0x62])"
  using block_rep_valid [OF block_rep_seek [OF block_rep_new [OF sample_blockable]], of "[0x62]"]
  by (simp add: loaded_reader_def) (simp add: sample_entries_def entry_view_def lower_pos_def)

theorem vanished_file_reads_as_absent_witness:
  "db_get (db_tables (read_env (sample_reader, vanished_env))) (read_db SkiplistMemtable) [0x62] = Some (Inl NotFound, read_db SkiplistMemtable)
   \<and> db_get (db_tables (read_env (loaded_reader, vanished_env))) (read_db SkiplistMemtable) [0x62] = Some (Inl Corrupt, read_db SkiplistMemtable)"
proof
  note gone = vanished_file_reads_as_absent [OF read_db_open(1) vanished_state(1) read_db_open(2) fresh_says_nothing
      vanished_state(3) _ vanished_state(2,4,5), simplified]
  show "db_get (db_tables (read_env (sample_reader, vanished_env))) (read_db SkiplistMemtable) [0x62] = Some (Inl NotFound, read_db SkiplistMemtable)"
    using gone [of sample_reader] by (simp add: sample_reader_def handle_fits_def kBlockTrailerLength_def)
  show "db_get (db_tables (read_env (loaded_reader, vanished_env))) (read_db SkiplistMemtable) [0x62] = Some (Inl Corrupt, read_db SkiplistMemtable)"
    using gone [of loaded_reader] loaded_index by (simp add: loaded_reader_def vanished_env_def plain_env_def bloom_may_contain_def)
qed

end
