(* ===== verification/Write_Path.thy ===== *)
theory Write_Path
  imports Db_Tables
begin

text \<open>
  The writes of src/db/db\_impl.cpp and the way of a memtable to a file: \<open>put\<close>, \<open>remove\<close>,
  \<open>delete_range\<close>, \<open>write\<close> of a batch and \<open>truncate_below\<close>, sealing the memtable, and the flush that turns
  the frozen memtable into a table of level 0.

  A store runs its background work on threads of their own; a sequence of steps is one of their
  interleavings. The status of \<open>throttle_writes\<close> and of a manifest write are arguments, and so is the
  width of the jitter window, which the source computes in floating point. On success the manifest
  write installs the version the edit makes, as the theory of version sets has it. The option
  \<open>paranoid_checks\<close>, which adds a check of the new version after a flush, is off.
\<close>

section \<open>Jitter\<close>

definition jitter_offset :: "u64 \<Rightarrow> u64 \<Rightarrow> u64 \<Rightarrow> u64" where
  "jitter_offset seed_a seed_b window_ms =
     (if window_ms = 0 then 0
      else
        let x = seed_a * 0x9E3779B97F4A7C15 + seed_b;
            x = x XOR drop_bit 30 x;
            x = x * 0xBF58476D1CE4E5B9;
            x = x XOR drop_bit 27 x;
            x = x * 0x94D049BB133111EB;
            x = x XOR drop_bit 31 x
        in x mod window_ms)"

section \<open>Options\<close>

record write_options =
  wo_memtable_bytes :: u64
  wo_flush_interval :: "u64 option"
  wo_flush_window :: u64
  wo_sst :: sst_options
  wo_tier_for :: "u64 \<Rightarrow> bytes"

section \<open>Admission\<close>

definition check_entry_size :: "bytes \<Rightarrow> bytes \<Rightarrow> status" where
  "check_entry_size key value =
     (if kMaxKeyBytes < length key then Config
      else if kMaxValueBytes < length value then Config
      else Ok)"

definition check_below_truncation :: "db \<Rightarrow> bytes \<Rightarrow> status" where
  "check_below_truncation D key = (if db_write_floor D \<noteq> [] \<and> key < db_write_floor D then Config else Ok)"

definition flush_interval_for :: "write_options \<Rightarrow> u64 \<Rightarrow> u64" where
  "flush_interval_for W created_ms =
     (let interval = the (wo_flush_interval W); window = wo_flush_window W in
      if window = 0 then interval else interval - window + jitter_offset created_ms 0 (2 * window + 1))"

definition memtable_flush_due :: "write_options \<Rightarrow> u64 \<Rightarrow> bool \<Rightarrow> db \<Rightarrow> bool" where
  "memtable_flush_due W now force D =
     (if force then True
      else if wo_memtable_bytes W \<le> mt_approximate_bytes (db_mem D) then True
      else if wo_flush_interval W = None then False
      else if mt_empty (db_mem D) then False
      else
        let born = mt_creation_time_ms (db_mem D) in
        if now \<le> born then False else flush_interval_for W born \<le> now - born)"

definition new_memtable :: "u64 \<Rightarrow> db \<Rightarrow> memtable" where
  "new_memtable now D =
     (let m = set_creation_time_ms SkiplistMemtable now in
      case db_established_watermark D of
        None \<Rightarrow> m
      | Some w \<Rightarrow> set_watermark_bounds m \<lparr> wm_low = Some w, wm_high = Some w \<rparr>)"

definition seal_memtable :: "u64 \<Rightarrow> db \<Rightarrow> db" where
  "seal_memtable now D =
     D\<lparr> db_imm := Some (set_sealed_time_ms (db_mem D) now), db_mem := new_memtable now D \<rparr>"

text \<open>
  The background mode. Without \<open>force\<close> there is no frozen memtable left when the slot is asked for, so the
  wait for it ends at once; with \<open>force\<close> its status is an argument, and the wait ends with the slot free.
\<close>

definition maybe_freeze_memtable :: "write_options \<Rightarrow> u64 \<Rightarrow> bool \<Rightarrow> status \<Rightarrow> db \<Rightarrow> status \<times> db" where
  "maybe_freeze_memtable W now force slot D =
     (if \<not> memtable_flush_due W now force D then (Ok, D)
      else if mt_empty (db_mem D) \<and> db_imm D = None then (Ok, D)
      else if \<not> force \<and> db_imm D \<noteq> None then (Ok, D)
      else if force \<and> slot \<noteq> Ok then (slot, D)
      else if mt_empty (db_mem D) then (Ok, D)
      else (Ok, seal_memtable now D))"

definition landed :: "write_options \<Rightarrow> u64 \<Rightarrow> db \<Rightarrow> memtable option \<Rightarrow> (status \<times> db) option" where
  "landed W now D written = map_option (\<lambda>m. maybe_freeze_memtable W now False Ok (D\<lparr> db_mem := m \<rparr>)) written"

section \<open>Writes\<close>

definition db_put :: "write_options \<Rightarrow> u64 \<Rightarrow> status \<Rightarrow> db \<Rightarrow> bytes \<Rightarrow> bytes \<Rightarrow> (status \<times> db) option" where
  "db_put W now admitted D key value =
     (if db_read_only D then Some (Config, D)
      else if check_entry_size key value \<noteq> Ok then Some (check_entry_size key value, D)
      else if admitted \<noteq> Ok then Some (admitted, D)
      else if db_bg_error D \<noteq> Ok \<and> is_terminal (db_bg_error D) then Some (db_bg_error D, D)
      else if check_below_truncation D key \<noteq> Ok then Some (check_below_truncation D key, D)
      else landed W now D (mt_put (db_mem D) key value))"

definition db_remove :: "write_options \<Rightarrow> u64 \<Rightarrow> status \<Rightarrow> db \<Rightarrow> bytes \<Rightarrow> (status \<times> db) option" where
  "db_remove W now admitted D key =
     (if db_read_only D then Some (Config, D)
      else if check_entry_size key [] \<noteq> Ok then Some (check_entry_size key [], D)
      else if admitted \<noteq> Ok then Some (admitted, D)
      else if db_bg_error D \<noteq> Ok \<and> is_terminal (db_bg_error D) then Some (db_bg_error D, D)
      else if check_below_truncation D key \<noteq> Ok then Some (check_below_truncation D key, D)
      else landed W now D (mt_remove (db_mem D) key))"

definition db_delete_range :: "write_options \<Rightarrow> u64 \<Rightarrow> status \<Rightarrow> db \<Rightarrow> bytes \<Rightarrow> bytes \<Rightarrow> (status \<times> db) option" where
  "db_delete_range W now admitted D lo up =
     (if db_read_only D then Some (Config, D)
      else if check_entry_size lo [] \<noteq> Ok then Some (check_entry_size lo [], D)
      else if check_entry_size up [] \<noteq> Ok then Some (check_entry_size up [], D)
      else
        let floor = v_truncation_point (db_version D);
            lo = (if floor \<noteq> [] \<and> lo < floor then floor else lo) in
        if \<not> lo < up then Some (Ok, D)
        else if admitted \<noteq> Ok then Some (admitted, D)
        else if db_bg_error D \<noteq> Ok \<and> is_terminal (db_bg_error D) then Some (db_bg_error D, D)
        else landed W now D (mt_delete_range (db_mem D) lo up))"

datatype batch_op = BatchPut bytes bytes | BatchRemove bytes | BatchDeleteRange bytes bytes

text \<open>The first pass over a batch, one operation: what it does to the memtable, if anything.\<close>

fun resolve_op :: "db \<Rightarrow> batch_op \<Rightarrow> memtable_op option res" where
  "resolve_op D (BatchDeleteRange lo up) =
     (if check_entry_size lo [] \<noteq> Ok then Inl (check_entry_size lo [])
      else if check_entry_size up [] \<noteq> Ok then Inl (check_entry_size up [])
      else
        let floor = db_write_floor D; lo = (if floor \<noteq> [] \<and> lo < floor then floor else lo) in
        Inr (if lo < up then Some (MDeleteRange lo up) else None))"
| "resolve_op D (BatchPut key value) =
     (if check_entry_size key value \<noteq> Ok then Inl (check_entry_size key value)
      else if check_below_truncation D key \<noteq> Ok then Inl (check_below_truncation D key)
      else Inr (Some (MPut key value)))"
| "resolve_op D (BatchRemove key) =
     (if check_entry_size key [] \<noteq> Ok then Inl (check_entry_size key [])
      else if check_below_truncation D key \<noteq> Ok then Inl (check_below_truncation D key)
      else Inr (Some (MRemove key)))"

fun resolve_ops :: "db \<Rightarrow> batch_op list \<Rightarrow> memtable_op list res" where
  "resolve_ops D [] = Inr []"
| "resolve_ops D (op # ops) =
     (case resolve_op D op of
        Inl s \<Rightarrow> Inl s
      | Inr x \<Rightarrow>
          (case resolve_ops D ops of
             Inl s \<Rightarrow> Inl s
           | Inr xs \<Rightarrow> Inr ((case x of None \<Rightarrow> [] | Some y \<Rightarrow> [y]) @ xs)))"

definition db_write :: "write_options \<Rightarrow> u64 \<Rightarrow> status \<Rightarrow> db \<Rightarrow> batch_op list \<Rightarrow> (status \<times> db) option" where
  "db_write W now admitted D batch =
     (if db_read_only D then Some (Config, D)
      else if admitted \<noteq> Ok then Some (admitted, D)
      else if db_bg_error D \<noteq> Ok \<and> is_terminal (db_bg_error D) then Some (db_bg_error D, D)
      else case resolve_ops D batch of
        Inl s \<Rightarrow> Some (s, D)
      | Inr ops \<Rightarrow> landed W now D (mt_run (db_mem D) ops))"

section \<open>The manifest\<close>

definition apply_edit :: "status \<Rightarrow> version_edit \<Rightarrow> db \<Rightarrow> db" where
  "apply_edit applied e D =
     (if applied = Ok
      then D\<lparr> db_version := version_apply (db_version D) (e\<lparr> ve_next_file_number := db_next_file_number D \<rparr>) \<rparr>
      else D)"

text \<open>
  A truncation publishes its floor under the memtable lock, writes the manifest without it, and takes the
  lock again if that failed; writers and other truncations run in between.
\<close>

definition publish_floor :: "db \<Rightarrow> bytes \<Rightarrow> (bytes \<times> db) option" where
  "publish_floor D key =
     (if \<not> db_write_floor D < key then None else Some (db_write_floor D, D\<lparr> db_write_floor := key \<rparr>))"

definition settle_floor :: "status \<Rightarrow> bytes \<Rightarrow> bytes \<Rightarrow> db \<Rightarrow> status \<times> db" where
  "settle_floor applied key previous_floor D =
     (if applied \<noteq> Ok
      then (applied, if db_write_floor D = key then D\<lparr> db_write_floor := previous_floor \<rparr> else D)
      else (Ok, apply_edit Ok (VersionEdit\<lparr> ve_truncation_point := key \<rparr>) D))"

definition truncate_below :: "status \<Rightarrow> db \<Rightarrow> bytes \<Rightarrow> status \<times> db" where
  "truncate_below applied D key =
     (if db_read_only D then (Config, D)
      else if key = [] then (Ok, D)
      else case publish_floor D key of
        None \<Rightarrow> (Ok, D)
      | Some (previous_floor, D) \<Rightarrow> settle_floor applied key previous_floor D)"

definition range_is_erased :: "db \<Rightarrow> bytes \<Rightarrow> bytes \<Rightarrow> bool" where
  "range_is_erased D lo up \<longleftrightarrow> \<not> any_file_holds (db_version D) lo up"

section \<open>Writing a table\<close>

definition put_object :: "bytes \<Rightarrow> bytes \<Rightarrow> bytes \<Rightarrow> db_env \<Rightarrow> db_env" where
  "put_object store name payload E =
     E\<lparr> e_store_for := (e_store_for E)(store := map_option (\<lambda>st. st\<lparr> env_store :=
          map_store_chain (\<lambda>g. g(name := (\<lambda>off len. Inr (take len (drop (unat off) payload))))) (env_store st) \<rparr>)
          (e_store_for E store)) \<rparr>"

record written_object =
  wr_file_number :: u64
  wr_encryption_provider :: bytes
  wr_encryption_metadata :: bytes

definition kAttempts :: nat where "kAttempts = 16"

fun observe_names :: "bytes list \<Rightarrow> db \<Rightarrow> db" where
  "observe_names [] D = D"
| "observe_names (name # names) D =
     observe_names names
       (case sst_file_number name of
          None \<Rightarrow> D
        | Some number \<Rightarrow> if db_next_file_number D \<le> number then D\<lparr> db_next_file_number := number + 1 \<rparr> else D)"

fun observe_stores :: "bytes list res list \<Rightarrow> db \<Rightarrow> status \<times> db" where
  "observe_stores [] D = (Ok, D)"
| "observe_stores (Inl s # rest) D = (if s = NotFound then Io else s, D)"
| "observe_stores (Inr names # rest) D = observe_stores rest (observe_names names D)"

fun write_attempts ::
    "nat \<Rightarrow> encryption_provider \<Rightarrow> bytes \<Rightarrow> bytes \<Rightarrow> bool \<Rightarrow> db_env \<Rightarrow> db \<Rightarrow> written_object res \<times> db_env \<times> db" where
  "write_attempts 0 provider store bs seal E D = (Inl Unusable, E, D)"
| "write_attempts (Suc n) provider store bs seal E D =
     (let file_number = db_next_file_number D;
          D = D\<lparr> db_next_file_number := file_number + 1 \<rparr>;
          name = sst_object_name file_number in
      case (if seal
            then (case p_create provider file_number of
                    Inl s \<Rightarrow> Inl s
                  | Inr (C, metadata) \<Rightarrow>
                      (case seal_object C bs of
                         Inl s \<Rightarrow> Inl s
                       | Inr sealed \<Rightarrow> Inr (sealed, e_primary E, metadata)))
            else Inr (bs, [], [])) of
        Inl s \<Rightarrow> (Inl s, E, D)
      | Inr (payload, pid, metadata) \<Rightarrow>
          let status = e_put E store name payload in
          if status = Ok
          then (Inr \<lparr> wr_file_number = file_number, wr_encryption_provider = pid, wr_encryption_metadata = metadata \<rparr>,
                put_object store name payload E, D)
          else if status \<noteq> Unusable then (Inl status, E, D)
          else
            (case observe_stores (e_list E) D of
               (s, D) \<Rightarrow> if s \<noteq> Ok then (Inl s, E, D) else write_attempts n provider store bs seal E D))"

definition write_new_sst :: "bytes \<Rightarrow> bytes \<Rightarrow> bool \<Rightarrow> db_env \<Rightarrow> db \<Rightarrow> written_object res \<times> db_env \<times> db" where
  "write_new_sst store bs seal E D =
     (case e_provider_for E (e_primary E) of
        None \<Rightarrow> (Inl Config, E, D)
      | Some provider \<Rightarrow> write_attempts kAttempts provider store bs seal E D)"

section \<open>Flushes\<close>

text \<open>What the iterator of a memtable visits; no list of nodes is longer than the nodes.\<close>

definition memtable_entries :: "memtable \<Rightarrow> entry list" where
  "memtable_entries m =
     fst (drain (\<lambda>c. sl_valid (snd c)) (\<lambda>c. sl_entry (fst c) (snd c)) (\<lambda>c. mtc_with c (\<lambda>m it. Some (sl_next m it)))
       (length (mt_nodes m)) (m, mt_ascending m))"

definition flushed_file :: "write_options \<Rightarrow> memtable \<Rightarrow> sst_build_result \<Rightarrow> written_object \<Rightarrow> file_metadata" where
  "flushed_file W m built written =
     \<lparr> fm_level = 0, fm_file_number = wr_file_number written, fm_store_id = wo_tier_for W (mt_creation_time_ms m),
       fm_smallest_key = r_smallest_key built, fm_largest_key = r_largest_key built,
       fm_file_bytes = of_nat (length (r_bytes built)), fm_num_entries = r_num_entries built,
       fm_num_tombstones = r_num_tombstones built, fm_num_range_tombstones = r_num_range_tombstones built,
       fm_smallest_range_key = r_smallest_range_key built, fm_largest_range_key = r_largest_range_key built,
       fm_compression = opt_compression (wo_sst W), fm_min_write_time_ms = mt_creation_time_ms m,
       fm_max_write_time_ms = mt_sealed_time_ms m, fm_watermark = mt_watermark m,
       fm_encryption_provider = wr_encryption_provider written, fm_encryption_metadata = wr_encryption_metadata written \<rparr>"

definition flush_memtable :: "write_options \<Rightarrow> status \<Rightarrow> memtable \<Rightarrow> db_env \<Rightarrow> db \<Rightarrow> status \<times> db_env \<times> db" where
  "flush_memtable W applied m E D =
     (case build_sst (e_codecs E) (memtable_entries m) Ok (wo_sst W) False (mt_range_tombstones m) of
        Inl s \<Rightarrow> (s, E, D)
      | Inr built \<Rightarrow>
          if r_num_entries built = 0 \<and> r_num_range_tombstones built = 0 then (Ok, E, D)
          else
            (case write_new_sst (wo_tier_for W (mt_creation_time_ms m)) (r_bytes built) True E D of
               (Inl s, E, D) \<Rightarrow> (s, E, D)
             | (Inr written, E, D) \<Rightarrow>
                 (applied, E, apply_edit applied (VersionEdit\<lparr> ve_added := [flushed_file W m built written] \<rparr>) D)))"

definition run_one_flush :: "write_options \<Rightarrow> status \<Rightarrow> db_env \<Rightarrow> db \<Rightarrow> bool \<times> status \<times> db_env \<times> db" where
  "run_one_flush W applied E D =
     (case db_imm D of
        None \<Rightarrow> (False, Ok, E, D)
      | Some pending \<Rightarrow>
          (case flush_memtable W applied pending E D of
             (s, E, D) \<Rightarrow>
               (s = Ok, s, E,
                if s = Ok then D\<lparr> db_imm := None \<rparr>
                else if db_bg_error D = Ok \<or> is_retryable (db_bg_error D) then D\<lparr> db_bg_error := s \<rparr>
                else D)))"

end
