(* ===== verification/Writes.thy ===== *)
theory Writes
  imports Write_Path
begin

text \<open>
  What the writes and the flush do to the answers of the reads: a write changes the answers for its keys
  and no others, and neither sealing the memtable nor flushing it changes any answer.
\<close>

section \<open>Jitter\<close>

lemma jitter_offset_less: "0 < window \<Longrightarrow> jitter_offset a b window < window"
  by (simp add: jitter_offset_def Let_def word_mod_less_divisor)

text \<open>
  [C37] The time a memtable may collect writes before it is flushed: with the jitter, whatever the seed, it is
  within the window of the configured interval on either side, and the arithmetic does not wrap.
\<close>

theorem flush_interval_bounded:
  assumes "wo_flush_interval W = Some interval" and "wo_flush_window W \<le> interval"
    and "unat interval + unat (wo_flush_window W) < 2 ^ 64"
  shows "unat interval - unat (wo_flush_window W) \<le> unat (flush_interval_for W created)
    \<and> unat (flush_interval_for W created) \<le> unat interval + unat (wo_flush_window W)"
proof (cases "wo_flush_window W = 0")
  case False
  let ?w = "wo_flush_window W"
  let ?j = "jitter_offset created 0 (2 * ?w + 1)"
  have le: "unat ?w \<le> unat interval" using assms(2) by (simp add: word_le_nat_alt)
  then have "unat ?w < 2 ^ 63" using assms(3) by simp
  then have small: "2 * unat ?w + 1 < 2 ^ 64" by simp
  then have "unat (2 * ?w + 1) = 2 * unat ?w + 1" by (simp add: unat_word_ariths)
  moreover from this have "?j < 2 * ?w + 1" by (intro jitter_offset_less) (simp add: word_less_nat_alt)
  ultimately have j: "unat ?j \<le> 2 * unat ?w" by (simp add: word_less_nat_alt)
  have "unat (interval - ?w) = unat interval - unat ?w" using assms(2) by (rule unat_sub)
  moreover have "unat (interval - ?w + ?j) = unat (interval - ?w) + unat ?j"
    using j le assms(3) calculation by (subst unat_add_lem [THEN iffD1]) simp_all
  moreover have "flush_interval_for W created = interval - ?w + ?j" using False assms(1) by (simp add: flush_interval_for_def Let_def)
  ultimately have "unat (flush_interval_for W created) = unat interval - unat ?w + unat ?j" by simp
  then show ?thesis using j le by (intro conjI) linarith+
qed (use assms(1) in \<open>simp add: flush_interval_for_def\<close>)

section \<open>Memtables\<close>

lemma level_next_fun: "level_next m l = (\<lambda>i. n_next (node_at m i) l)"
  by (rule ext) (rule level_next_def)

lemma holds_times [simp]:
  "Memtable.holds (set_sealed_time_ms m t) es = Memtable.holds m es"
  "Memtable.holds (set_creation_time_ms m t) es = Memtable.holds m es"
  "Memtable.holds (set_watermark_bounds m b) es = Memtable.holds m es"
  by (simp_all add: Memtable.holds_def holds_by_def shape_def on_level_def level_next_fun
      set_sealed_time_ms_def set_creation_time_ms_def set_watermark_bounds_def)

lemma source_times [simp]:
  "memtable_source (set_sealed_time_ms m t) s = memtable_source m s"
  "memtable_source (set_creation_time_ms m t) s = memtable_source m s"
  "memtable_source (set_watermark_bounds m b) s = memtable_source m s"
  unfolding memtable_source_def mt_range_tombstones_def
  by (simp_all, simp_all add: set_sealed_time_ms_def set_creation_time_ms_def set_watermark_bounds_def)

lemma fresh_source: "memtable_source SkiplistMemtable ([], [])"
  using fresh_holds by (simp add: memtable_source_def mt_range_tombstones_def merge_ranges_def)
    (simp add: SkiplistMemtable_def new_node_def Let_def case_prod_beta)

lemma new_memtable_source: "memtable_source (new_memtable now D) ([], [])"
  using fresh_source by (simp add: new_memtable_def Let_def split: option.splits)

text \<open>What an operation does to the answers.\<close>

fun op_effect :: "memtable_op \<Rightarrow> (bytes \<Rightarrow> bytes res) \<Rightarrow> bytes \<Rightarrow> bytes res" where
  "op_effect (MPut key value) g = g(key := Inr value)"
| "op_effect (MRemove key) g = g(key := Inl NotFound)"
| "op_effect (MDeleteRange lo up) g = (\<lambda>k. if lo \<le> k \<and> k < up then Inl NotFound else g k)"

definition answers :: "source list \<Rightarrow> bytes \<Rightarrow> bytes res" where
  "answers css k = answer (lookup css k)"

lemma op_effect_source:
  assumes "memtable_source m s" and fits: "op_fits op"
  shows "\<exists>m' s'. mt_apply m op = Some m' \<and> memtable_source m' s' \<and> (\<forall>old. answers (s' # old) = op_effect op (answers (s # old)))"
proof -
  obtain es rs where s: "s = (es, rs)" by (cases s)
  have h: "Memtable.holds m es" and rs: "rs = mt_range_tombstones m" and w: "\<forall>r \<in> set (mt_ranges m). lower r < upper r"
    using assms(1) by (simp_all add: memtable_source_def s)
  have cov: "any_covers rs k = mt_range_deletes m k" for k
    using memtable_source_covers [OF assms(1)] by (simp add: s)
  have ins: "\<exists>m'. mt_insert m key t v = Some m' \<and> memtable_source m' (upsert key t v es, rs)"
    if "length key < 2 ^ 32" "length v < 2 ^ 32" for key t v
    using mt_insert_holds [OF that h, of t] w rs by (auto simp: memtable_source_def mt_range_tombstones_def)
  have ans: "answers ((upsert key t v es, rs) # old) = (answers ((es, rs) # old))(key := answer (Some (t, v)))" for key t v old
    by (rule ext) (simp add: answers_def map_of_upsert)
  show ?thesis
  proof (cases op)
    case (MPut key v)
    then show ?thesis using ins [of key v Put] fits ans [of key Put v] by (auto simp: mt_put_def s answer_def)
  next
    case (MRemove key)
    then show ?thesis using ins [of key "[]" Delete] fits ans [of key Delete "[]"] by (auto simp: mt_remove_def s answer_def)
  next
    case (MDeleteRange lo up)
    obtain m' where m': "mt_delete_range m lo up = Some m'" "Memtable.holds m' (bury_range lo up es)"
      and r': "mt_ranges m' = (if lo < up then [\<lparr> lower = lo, upper = up \<rparr>] else []) @ mt_ranges m"
      using mt_delete_range_holds [OF h] by blast
    let ?s = "(bury_range lo up es, mt_range_tombstones m')"
    have src: "memtable_source m' ?s" using m'(2) w r' by (auto simp: memtable_source_def)
    have cov': "any_covers (snd ?s) k \<longleftrightarrow> lo \<le> k \<and> k < up \<or> any_covers rs k" for k
      unfolding memtable_source_covers [OF src, symmetric] cov mt_range_deletes_def r' by auto
    have "answers (?s # old) k = op_effect op (answers ((es, rs) # old)) k" for old k
      using cov' [of k] MDeleteRange by (cases "lo \<le> k \<and> k < up") (auto simp: answers_def map_of_bury_range answer_def split: option.splits)
    then show ?thesis using m'(1) src MDeleteRange s by (intro exI [of _ m'] exI [of _ ?s]) (auto simp: fun_eq_iff)
  qed
qed

lemma ops_effect_source:
  "memtable_source m s \<Longrightarrow> \<forall>op \<in> set ops. op_fits op \<Longrightarrow>
   \<exists>m' s'. mt_run m ops = Some m' \<and> memtable_source m' s' \<and> (\<forall>old. answers (s' # old) = fold op_effect ops (answers (s # old)))"
proof (induction ops arbitrary: m s)
  case (Cons op ops)
  obtain m1 s1 where 1: "mt_apply m op = Some m1" "memtable_source m1 s1" "\<forall>old. answers (s1 # old) = op_effect op (answers (s # old))"
    using op_effect_source [OF Cons.prems(1), of op] Cons.prems(2) by (metis list.set_intros(1))
  from Cons.IH [OF 1(2)] Cons.prems(2) 1(1,3) show ?case by auto
qed auto

section \<open>Landing a write\<close>

lemma stored_db: "stored (db_tables E) sv content D f \<Longrightarrow> stored (db_tables E) sv content D' f"
  by (auto simp: stored_def db_tables_def reader_for_def split: option.splits sum.splits prod.splits if_splits)

definition same_instance :: "db \<Rightarrow> db \<Rightarrow> bool" where
  "same_instance D D' \<longleftrightarrow> db_version D' = db_version D \<and> db_requires_recovery D' = db_requires_recovery D
     \<and> db_allow_reads_before_recovery D' = db_allow_reads_before_recovery D \<and> db_read_only D' = db_read_only D
     \<and> db_bg_error D' = db_bg_error D \<and> db_write_floor D' = db_write_floor D"

lemma readable_update:
  assumes "readable (db_tables E) sv content D mss" and "db_version D' = db_version D"
    and "list_all2 memtable_source (memtables D') mss'"
  shows "readable (db_tables E) sv content D' mss'"
  using assms stored_db [of E sv content D] by (auto simp: readable_def)

lemma landed_readable:
  assumes "readable (db_tables E) sv content D (s # old)" and "memtable_source m s'"
  shows "\<exists>D' mss'. landed W now D (Some m) = Some (Ok, D') \<and> readable (db_tables E) sv content D' mss'
    \<and> answers (stack_of content D' mss') = answers (stack_of content D (s' # old)) \<and> same_instance D D'"
proof -
  let ?D = "D\<lparr> db_mem := m \<rparr>"
  have old: "list_all2 memtable_source (case db_imm D of None \<Rightarrow> [] | Some m \<Rightarrow> [m]) old"
    using assms(1) by (simp add: readable_def memtables_def)
  show ?thesis
  proof (cases "maybe_freeze_memtable W now False Ok ?D = (Ok, ?D)")
    case True
    have "readable (db_tables E) sv content ?D (s' # old)"
      using assms(2) old by (intro readable_update [OF assms(1)]) (simp_all add: memtables_def)
    then show ?thesis
      using True by (intro exI [of _ ?D] exI [of _ "s' # old"]) (simp add: landed_def stack_of_def same_instance_def)
  next
    case False
    let ?D' = "seal_memtable now ?D"
    have f: "maybe_freeze_memtable W now False Ok ?D = (Ok, ?D')" and imm: "db_imm D = None"
      using False by (auto simp: maybe_freeze_memtable_def split: if_splits)
    have "old = []" using old imm by simp
    have "readable (db_tables E) sv content ?D' [([], []), s']"
      using assms(2) new_memtable_source by (intro readable_update [OF assms(1)]) (simp_all add: memtables_def seal_memtable_def)
    then show ?thesis
      using f \<open>old = []\<close> by (intro exI [of _ ?D'] exI [of _ "[([], []), s']"])
        (simp add: landed_def stack_of_def same_instance_def seal_memtable_def answers_def fun_eq_iff)
  qed
qed


section \<open>What the writes do to the reads\<close>

definition reads_as :: "db_env \<Rightarrow> db \<Rightarrow> (bytes \<Rightarrow> bytes res) \<Rightarrow> bool" where
  "reads_as E D g \<longleftrightarrow> (\<forall>k. db_get (db_tables E) D k = Some (g k, D))"

definition accepting :: "db \<Rightarrow> bool" where
  "accepting D \<longleftrightarrow> \<not> db_read_only D \<and> \<not> reads_are_blocked D \<and> (db_bg_error D = Ok \<or> \<not> is_terminal (db_bg_error D))
     \<and> db_write_floor D = v_truncation_point (db_version D)"

fun batch_effect :: "batch_op \<Rightarrow> (bytes \<Rightarrow> bytes res) \<Rightarrow> bytes \<Rightarrow> bytes res" where
  "batch_effect (BatchPut key value) g = g(key := Inr value)"
| "batch_effect (BatchRemove key) g = g(key := Inl NotFound)"
| "batch_effect (BatchDeleteRange lo up) g = (\<lambda>k. if lo \<le> k \<and> k < up then Inl NotFound else g k)"

abbreviation "intact E \<equiv> readable (db_tables E) (sst_serves (e_codecs E))"

lemma reads_as_intact:
  assumes "intact E content D mss" and "\<not> reads_are_blocked D"
  shows "reads_as E D g \<longleftrightarrow>
    g = (\<lambda>k. if truncated (db_version D) k then Inl NotFound else answers (stack_of content D mss) k)"
  using tables.db_get_readable [OF assms] by (auto simp: reads_as_def answers_def fun_eq_iff)

lemma reads_as_transfer:
  assumes "intact E content D mss" and "intact E' content' D' mss'" and "\<not> reads_are_blocked D" and "\<not> reads_are_blocked D'"
    and "v_truncation_point (db_version D') = v_truncation_point (db_version D)"
    and "answers (stack_of content' D' mss') = answers (stack_of content D mss)" and "reads_as E D g"
  shows "reads_as E' D' g"
  using assms(5-7) unfolding reads_as_intact [OF assms(1,3)] reads_as_intact [OF assms(2,4)] truncated_def by (simp cong: if_cong)

lemma same_instance_blocked: "same_instance D D' \<Longrightarrow> reads_are_blocked D' = reads_are_blocked D"
  by (simp add: same_instance_def reads_are_blocked_def)

lemma same_instance_accepting: "same_instance D D' \<Longrightarrow> accepting D' = accepting D"
  using same_instance_blocked [of D D'] by (simp add: same_instance_def accepting_def)

text \<open>Operations at keys that can be read do to the answers what they do to the stack.\<close>

lemma op_effect_at: "g k = h k \<Longrightarrow> op_effect op g k = op_effect op h k"
  by (cases op) simp_all

lemma ops_effect_at: "g k = h k \<Longrightarrow> fold op_effect ops g k = fold op_effect ops h k"
proof (induction ops arbitrary: g h)
  case (Cons op ops)
  have "op_effect op g k = op_effect op h k" using Cons.prems by (rule op_effect_at)
  then show ?case using Cons.IH [of "op_effect op g" "op_effect op h"] by simp
qed simp

fun puts_at :: "memtable_op \<Rightarrow> bytes \<Rightarrow> bool" where
  "puts_at (MPut key value) k = (k = key)"
| "puts_at _ k = False"

lemma ops_effect_absent:
  "g k = Inl NotFound \<Longrightarrow> \<forall>op \<in> set ops. \<not> puts_at op k \<Longrightarrow> fold op_effect ops g k = Inl NotFound"
proof (induction ops arbitrary: g)
  case (Cons op ops)
  then have "op_effect op g k = Inl NotFound" by (cases op) auto
  then show ?case using Cons by simp
qed simp

lemma ops_land:
  assumes fits: "\<forall>op \<in> set ops. op_fits op" and "intact E content D (s # old)" and "accepting D" and "reads_as E D g"
    and hidden: "\<forall>k. truncated (db_version D) k \<longrightarrow> (\<forall>op \<in> set ops. \<not> puts_at op k)"
  shows "\<exists>D' mss'. landed W now D (mt_run (db_mem D) ops) = Some (Ok, D') \<and> intact E content D' mss'
    \<and> accepting D' \<and> reads_as E D' (fold op_effect ops g)"
proof -
  note assms = assms(2-4)
  have unblocked: "\<not> reads_are_blocked D" using assms(2) by (simp add: accepting_def)
  have "memtable_source (db_mem D) s" using assms(1) by (simp add: readable_def memtables_def)
  then obtain m s' where m: "mt_run (db_mem D) ops = Some m" "memtable_source m s'"
    and eff: "\<And>old. answers (s' # old) = fold op_effect ops (answers (s # old))"
    using ops_effect_source fits by blast
  obtain D' mss' where D': "landed W now D (Some m) = Some (Ok, D')" "intact E content D' mss'"
    "answers (stack_of content D' mss') = answers (stack_of content D (s' # old))" "same_instance D D'"
    using landed_readable [OF assms(1) m(2)] by blast
  have g: "g k = (if truncated (db_version D) k then Inl NotFound else answers (stack_of content D (s # old)) k)" for k
    using assms(3) reads_as_intact [OF assms(1) unblocked] by simp
  have "fold op_effect ops g k =
      (if truncated (db_version D) k then Inl NotFound else answers (stack_of content D (s' # old)) k)" for k
    using g [of k] hidden ops_effect_absent [of g k ops] ops_effect_at [of g k "answers (stack_of content D (s # old))" ops]
    by (simp add: stack_of_def eff)
  then have "reads_as E D' (fold op_effect ops g)"
    using D' reads_as_intact [OF D'(2)] same_instance_blocked [OF D'(4)] unblocked by (simp add: same_instance_def fun_eq_iff)
  then show ?thesis using m(1) D' same_instance_accepting [OF D'(4)] assms(2) by auto
qed

lemma intact_memtables: "intact E content D mss \<Longrightarrow> \<exists>s old. mss = s # old"
  by (cases mss) (auto simp: readable_def memtables_def)

lemma below_floor: "accepting D \<Longrightarrow> check_below_truncation D k = Ok \<longleftrightarrow> \<not> truncated (db_version D) k"
  by (simp add: accepting_def check_below_truncation_def truncated_def)

lemma checked_fits: "check_entry_size key value = Ok \<Longrightarrow> length key < 2 ^ 32 \<and> length value < 2 ^ 32"
  by (simp add: check_entry_size_def kMaxKeyBytes_def kMaxValueBytes_def split: if_splits)

lemma resolve_op_fits: "resolve_op D b = Inr (Some op) \<Longrightarrow> op_fits op"
  by (cases b) (auto simp: Let_def dest!: checked_fits split: if_splits)

lemma resolve_ops_fit: "resolve_ops D batch = Inr ops \<Longrightarrow> op \<in> set ops \<Longrightarrow> op_fits op"
proof (induction batch arbitrary: ops)
  case (Cons b batch)
  then show ?case using resolve_op_fits [of D b op] by (auto split: sum.splits option.splits)
qed simp

lemma resolve_op_hidden:
  "accepting D \<Longrightarrow> resolve_op D b = Inr (Some op) \<Longrightarrow> truncated (db_version D) k \<Longrightarrow> \<not> puts_at op k"
  using below_floor by (cases b) (fastforce split: if_splits simp: Let_def)+

lemma resolve_ops_hidden:
  "accepting D \<Longrightarrow> resolve_ops D batch = Inr ops \<Longrightarrow> truncated (db_version D) k \<Longrightarrow> op \<in> set ops \<Longrightarrow> \<not> puts_at op k"
proof (induction batch arbitrary: ops)
  case (Cons b batch)
  then show ?case using resolve_op_hidden [of D b op k] by (auto split: sum.splits option.splits)
qed simp

lemma resolve_op_effect:
  assumes "accepting D" and "resolve_op D b = Inr x" and "\<forall>k. truncated (db_version D) k \<longrightarrow> g k = Inl NotFound"
  shows "(case x of None \<Rightarrow> g | Some op \<Rightarrow> op_effect op g) = batch_effect b g"
    and "\<forall>k. truncated (db_version D) k \<longrightarrow> batch_effect b g k = Inl NotFound"
proof -
  have f: "db_write_floor D = v_truncation_point (db_version D)" using assms(1) by (simp add: accepting_def)
  show "(case x of None \<Rightarrow> g | Some op \<Rightarrow> op_effect op g) = batch_effect b g"
  proof (cases b)
    case (BatchDeleteRange lo up)
    define lo' where "lo' = (if db_write_floor D \<noteq> [] \<and> lo < db_write_floor D then db_write_floor D else lo)"
    have x: "x = (if lo' < up then Some (MDeleteRange lo' up) else None)"
      using assms(2) BatchDeleteRange by (auto simp: lo'_def Let_def split: if_splits)
    have "lo \<le> k \<Longrightarrow> \<not> lo' \<le> k \<Longrightarrow> g k = Inl NotFound" for k
      using assms(3) f by (auto simp: lo'_def truncated_def not_le split: if_splits)
    moreover have "lo' \<le> k \<Longrightarrow> lo \<le> k" for k by (auto simp: lo'_def split: if_splits)
    ultimately have "(if lo' \<le> k \<and> k < up then Inl NotFound else g k) = (if lo \<le> k \<and> k < up then Inl NotFound else g k)" for k
      by (cases "lo' \<le> k"; cases "lo \<le> k") simp_all
    moreover have "\<not> (lo' \<le> k \<and> k < up)" if "\<not> lo' < up" for k using that by auto
    ultimately show ?thesis using BatchDeleteRange by (cases "lo' < up") (simp_all add: x fun_eq_iff)
  qed (use assms(2) in \<open>auto split: if_splits\<close>)
  show "\<forall>k. truncated (db_version D) k \<longrightarrow> batch_effect b g k = Inl NotFound"
  proof (cases b)
    case (BatchPut key v)
    then have "check_below_truncation D key = Ok" using assms(2) by (simp split: if_splits)
    then have "\<not> truncated (db_version D) key" using below_floor [OF assms(1)] by blast
    then show ?thesis using assms(3) BatchPut by auto
  qed (use assms(3) in simp_all)
qed

lemma resolve_ops_effect:
  "accepting D \<Longrightarrow> resolve_ops D batch = Inr ops \<Longrightarrow> \<forall>k. truncated (db_version D) k \<longrightarrow> g k = Inl NotFound \<Longrightarrow>
   fold op_effect ops g = fold batch_effect batch g"
proof (induction batch arbitrary: ops g)
  case (Cons b batch)
  obtain x xs where x: "resolve_op D b = Inr x" "resolve_ops D batch = Inr xs"
    and ops: "ops = (case x of None \<Rightarrow> [] | Some y \<Rightarrow> [y]) @ xs"
    using Cons.prems(2) by (auto split: sum.splits)
  note e = resolve_op_effect [OF Cons.prems(1) x(1) Cons.prems(3)]
  show ?case using Cons.IH [OF Cons.prems(1) x(2) e(2)] e(1) by (simp add: ops fold_append split: option.splits)
qed simp


text \<open>
  [C5] Writes are read back: on a sound instance \<open>put\<close>, \<open>remove\<close> and \<open>delete_range\<close> within the size limits,
  the first two at a key that is not truncated, return \<open>Ok\<close>. Afterwards \<open>get\<close> answers with the new value
  for the key put, not-found for the key removed and for every key of the range deleted, and as before for
  all other keys, whether or not the write sealed the memtable; and the instance is as sound as it was.
\<close>

theorem db_writes_read_back:
  assumes "intact E content D mss" and "accepting D" and "reads_as E D g"
  shows "(check_entry_size key value = Ok \<and> \<not> truncated (db_version D) key \<longrightarrow>
      (\<exists>D' mss'. db_put W now Ok D key value = Some (Ok, D') \<and> intact E content D' mss' \<and> accepting D'
         \<and> reads_as E D' (g(key := Inr value))))
    \<and> (check_entry_size key [] = Ok \<and> \<not> truncated (db_version D) key \<longrightarrow>
      (\<exists>D' mss'. db_remove W now Ok D key = Some (Ok, D') \<and> intact E content D' mss' \<and> accepting D'
         \<and> reads_as E D' (g(key := Inl NotFound))))
    \<and> (check_entry_size lo [] = Ok \<and> check_entry_size up [] = Ok \<longrightarrow>
      (\<exists>D' mss'. db_delete_range W now Ok D lo up = Some (Ok, D') \<and> intact E content D' mss' \<and> accepting D'
         \<and> reads_as E D' (\<lambda>k. if lo \<le> k \<and> k < up then Inl NotFound else g k)))"
proof -
  obtain s old where mss: "mss = s # old" using intact_memtables [OF assms(1)] by blast
  note land = ops_land [OF _ assms(1) [unfolded mss] assms(2,3)]
  have w: "\<not> db_read_only D" "\<not> (db_bg_error D \<noteq> Ok \<and> is_terminal (db_bg_error D))" using assms(2) by (auto simp: accepting_def)
  have put: "\<exists>D' mss'. db_put W now Ok D key value = Some (Ok, D') \<and> intact E content D' mss' \<and> accepting D'
      \<and> reads_as E D' (g(key := Inr value))" if "check_entry_size key value = Ok" "\<not> truncated (db_version D) key"
    using that checked_fits [OF that(1)] w land [of "[MPut key value]" W now] below_floor [OF assms(2), of key] by (auto simp: db_put_def)
  have remove: "\<exists>D' mss'. db_remove W now Ok D key = Some (Ok, D') \<and> intact E content D' mss' \<and> accepting D'
      \<and> reads_as E D' (g(key := Inl NotFound))" if "check_entry_size key [] = Ok" "\<not> truncated (db_version D) key"
    using that checked_fits [OF that(1)] w land [of "[MRemove key]" W now] below_floor [OF assms(2), of key] by (auto simp: db_remove_def)
  have range: "\<exists>D' mss'. db_delete_range W now Ok D lo up = Some (Ok, D') \<and> intact E content D' mss' \<and> accepting D'
      \<and> reads_as E D' (\<lambda>k. if lo \<le> k \<and> k < up then Inl NotFound else g k)"
    if ok: "check_entry_size lo [] = Ok" "check_entry_size up [] = Ok"
  proof -
    have hidden: "\<forall>k. truncated (db_version D) k \<longrightarrow> g k = Inl NotFound"
      using assms(3) reads_as_intact [OF assms(1)] assms(2) by (simp add: accepting_def)
    obtain x where x: "resolve_op D (BatchDeleteRange lo up) = Inr x" using ok by (simp add: Let_def)
    note e = resolve_op_effect(1) [OF assms(2) x hidden]
    show ?thesis
    proof (cases x)
      case None
      then have "db_delete_range W now Ok D lo up = Some (Ok, D)"
        using x ok w assms(2) by (auto simp: db_delete_range_def accepting_def Let_def split: if_splits)
      then show ?thesis using assms None e by auto
    next
      case (Some op)
      then have "db_delete_range W now Ok D lo up = landed W now D (mt_run (db_mem D) [op])"
        using x ok w assms(2) by (auto simp: db_delete_range_def accepting_def Let_def split: if_splits)
      moreover have "\<not> puts_at op k" for k using x Some by (auto simp: Let_def split: if_splits)
      ultimately show ?thesis using land [of "[op]" W now] resolve_op_fits [of D "BatchDeleteRange lo up" op] x e Some by auto
    qed
  qed
  from put remove range show ?thesis by blast
qed

text \<open>
  [C6] A batch lands whole: one whose operations are all within the limits and not below the floor returns
  \<open>Ok\<close>, and then every key reads as if its operations had been applied one after the other, a range delete
  covering the puts before it and not those after it. A batch that is refused leaves the instance as it was.
\<close>

theorem db_batch_atomic:
  assumes "intact E content D mss" and "accepting D" and "reads_as E D g"
  shows "case resolve_ops D batch of
      Inl s \<Rightarrow> db_write W now Ok D batch = Some (s, D)
    | Inr ops \<Rightarrow> \<exists>D' mss'. db_write W now Ok D batch = Some (Ok, D') \<and> intact E content D' mss' \<and> accepting D'
        \<and> reads_as E D' (fold batch_effect batch g)"
proof (cases "resolve_ops D batch")
  case (Inr ops)
  obtain s old where mss: "mss = s # old" using intact_memtables [OF assms(1)] by blast
  have hidden: "\<forall>k. truncated (db_version D) k \<longrightarrow> g k = Inl NotFound"
    using assms(3) reads_as_intact [OF assms(1)] assms(2) by (simp add: accepting_def)
  have "\<forall>k. truncated (db_version D) k \<longrightarrow> (\<forall>op \<in> set ops. \<not> puts_at op k)"
    using resolve_ops_hidden [OF assms(2) Inr] by blast
  from ops_land [OF _ assms(1) [unfolded mss] assms(2,3) this, of W now] resolve_ops_fit [OF Inr] show ?thesis
    using Inr assms(2) resolve_ops_effect [OF assms(2) Inr hidden] by (auto simp: db_write_def accepting_def)
qed (use assms(2) in \<open>auto simp: db_write_def accepting_def\<close>)

section \<open>Versions\<close>

lemma sort_level_newest:
  assumes "level_sorted 0 fs" and "\<forall>g \<in> set fs. fm_file_number g < fm_file_number f"
  shows "sort_level 0 (fs @ [f]) = f # fs"
proof -
  have srt: "sorted (map (\<lambda>f. - uint (fm_file_number f)) (f # fs))"
    using assms by (auto simp: level_sorted_def sorted_map word_le_def word_less_def elim!: sorted_wrt_mono_rel [rotated])
  have flt: "filter (\<lambda>x. - uint (fm_file_number k) = - uint (fm_file_number x)) (f # fs) =
      filter (\<lambda>x. - uint (fm_file_number k) = - uint (fm_file_number x)) (fs @ [f])" if "k \<in> set (f # fs)" for k
  proof (cases "fm_file_number k = fm_file_number f")
    case True
    have "filter (\<lambda>x. - uint (fm_file_number k) = - uint (fm_file_number x)) fs = []"
      using assms(2) True by (auto simp: filter_empty_conv word_less_def)
    then show ?thesis using True by simp
  qed (simp add: word_uint_eq_iff)
  have "mset (f # fs) = mset (fs @ [f])" by simp
  from properties_for_sort_key [OF this flt srt] show ?thesis by (simp add: sort_level_def)
qed

lemma resorted_id:
  assumes "\<forall>l < length levels. level_sorted l (levels ! l)"
  shows "map (\<lambda>(level, files). sort_level level files) (List.enumerate 0 levels) = levels"
  using assms by (intro nth_equalityI) (auto simp: nth_enumerate_eq sort_level_id)

lemma version_apply_counters:
  assumes "version_ok v" and "ve_added e = []" and "ve_deleted e = []"
  shows "v_levels (version_apply v e) = v_levels v" and "v_carries_ranges (version_apply v e) = v_carries_ranges v"
proof -
  show same: "v_levels (version_apply v e) = v_levels v"
    using assms resorted_id [of "v_levels v"] by (simp add: version_apply_def Version_def Let_def version_ok_def)
  show "v_carries_ranges (version_apply v e) = v_carries_ranges v"
    using assms(1) version_apply_ok [OF assms(1), of e] by (simp add: version_ok_def same)
qed

lemma version_apply_flushed:
  assumes v: "version_ok v" and e: "ve_added e = [f]" "ve_deleted e = []" and f: "fm_level f = 0"
    and newest: "\<forall>g \<in> set (files_at v 0). fm_file_number g < fm_file_number f"
  shows "files_at (version_apply v e) l = (if l = 0 then f # files_at v 0 else files_at v l)"
    and "length (v_levels (version_apply v e)) = max 1 (length (v_levels v))"
proof -
  note s = files_at_sorted [OF v]
  show "files_at (version_apply v e) l = (if l = 0 then f # files_at v 0 else files_at v l)"
    using sort_level_newest [OF s newest] sort_level_id [OF s] f by (simp add: files_at_apply e)
  show "length (v_levels (version_apply v e)) = max 1 (length (v_levels v))"
    by (simp add: version_apply_def Version_def Let_def e add_file_def f max_def Suc_le_eq)
qed

section \<open>Truncation\<close>

text \<open>
  [C7] Truncation: once \<open>truncate_below\<close> has returned \<open>Ok\<close>, every key below the point reads as not found, all
  others as before, and a put below the point is refused; a call that fails changes nothing.
\<close>

theorem truncate_below_correct:
  assumes "intact E content D mss" and "accepting D" and "reads_as E D g"
  shows "\<exists>D'. truncate_below applied D point = (if db_write_floor D < point then applied else Ok, D')
    \<and> (if applied = Ok
       then intact E content D' mss \<and> accepting D' \<and> reads_as E D' (\<lambda>k. if k < point then Inl NotFound else g k)
         \<and> (\<forall>key value. key < point \<longrightarrow> db_put W now Ok D' key value = Some (Config, D'))
       else D' = D)"
proof (cases "db_write_floor D < point")
  case True
  then have ne: "point \<noteq> []" by auto
  let ?e = "VersionEdit\<lparr> ve_truncation_point := point, ve_next_file_number := db_next_file_number D \<rparr>"
  let ?v = "version_apply (db_version D) ?e"
  let ?D = "D\<lparr> db_write_floor := point, db_version := ?v \<rparr>"
  have ok: "version_ok (db_version D)" using assms(1) by (simp add: readable_def)
  have same: "v_levels ?v = v_levels (db_version D)" "v_carries_ranges ?v = v_carries_ranges (db_version D)"
    using version_apply_counters [OF ok, of ?e] by (simp_all add: VersionEdit_def)
  have tp: "v_truncation_point ?v = point"
    using True assms(2) by (simp add: version_apply_def Version_def Let_def accepting_def VersionEdit_def)
  have below: "truncate_below applied D point = (applied, if applied = Ok then ?D else D)"
    using ne True assms(2) by (auto simp: truncate_below_def publish_floor_def settle_floor_def apply_edit_def accepting_def)
  have "version_ok ?v" by (rule version_apply_ok [OF ok])
  moreover have fa: "files_at ?v = files_at (db_version D)" "carries_ranges ?v = carries_ranges (db_version D)"
    using same by (simp_all add: fun_eq_iff files_at_def carries_ranges_def)
  ultimately have intact: "intact E content ?D mss"
    using assms(1) stored_db [of E _ content D _ ?D] by (auto simp: readable_def memtables_def partitioned_levels_def)
  have "accepting ?D" using assms(2) tp by (simp add: accepting_def reads_are_blocked_def)
  moreover have "reads_as E ?D (\<lambda>k. if k < point then Inl NotFound else g k)"
  proof -
    have "stack_of content ?D mss = stack_of content D mss" using same fa by (simp add: stack_of_def)
    moreover have "truncated (db_version D) k \<Longrightarrow> k < point" for k using True assms(2) by (auto simp: truncated_def accepting_def)
    ultimately show ?thesis
      using reads_as_intact [OF intact] reads_as_intact [OF assms(1)] assms(2,3) \<open>accepting ?D\<close> tp ne
      by (auto simp: accepting_def truncated_def)
  qed
  moreover have "db_put W now Ok ?D key v = Some (Config, ?D)" if "key < point" for key v
    using that assms(2) ne by (auto simp: db_put_def accepting_def check_entry_size_def check_below_truncation_def)
  ultimately show ?thesis using below True intact by auto
next
  case False
  have below: "truncate_below applied D point = (Ok, D)"
    using False assms(2) by (auto simp: truncate_below_def publish_floor_def accepting_def)
  have t: "k < point \<Longrightarrow> truncated (db_version D) k" for k
    using False assms(2) by (auto simp: truncated_def accepting_def not_less)
  then have "(\<lambda>k. if k < point then Inl NotFound else g k) = g"
    using reads_as_intact [OF assms(1)] assms(2,3) by (auto simp: accepting_def fun_eq_iff)
  moreover have "db_put W now Ok D key v = Some (Config, D)" if "key < point" for key v
    using t [OF that] assms(2) by (auto simp: db_put_def accepting_def check_entry_size_def check_below_truncation_def truncated_def)
  ultimately show ?thesis using below False assms by auto
qed


text \<open>
  Between its two critical sections a truncation that will fail has already raised the floor. A batch that
  deletes a range below it in that window is acknowledged, and does nothing.
\<close>

lemma batch_delete_lost:
  assumes "intact E content D mss" and "accepting D" and "reads_as E D g"
    and "db_write_floor D < point" and "up \<le> point" and "check_entry_size lo [] = Ok" and "check_entry_size up [] = Ok"
    and "applied \<noteq> Ok"
  shows "\<exists>floor D1 D2 D3. publish_floor D point = Some (floor, D1)
    \<and> db_write W now Ok D1 [BatchDeleteRange lo up] = Some (Ok, D2)
    \<and> settle_floor applied point floor D2 = (applied, D3) \<and> accepting D3 \<and> reads_as E D3 g"
proof -
  obtain s old where mss: "mss = s # old" using intact_memtables [OF assms(1)] by blast
  let ?D1 = "D\<lparr> db_write_floor := point \<rparr>"
  have "list_all2 memtable_source (memtables ?D1) mss" using assms(1) by (simp add: readable_def memtables_def)
  then have i1: "intact E content ?D1 (s # old)" using readable_update [OF assms(1), of ?D1] by (simp add: mss)
  have "memtable_source (db_mem D) s" using assms(1) by (simp add: readable_def memtables_def mss)
  from landed_readable [OF i1 this, of W now] obtain D2 mss2 where D2: "landed W now ?D1 (Some (db_mem D)) = Some (Ok, D2)"
    "intact E content D2 mss2" "answers (stack_of content D2 mss2) = answers (stack_of content ?D1 (s # old))" "same_instance ?D1 D2"
    by blast
  let ?D3 = "D2\<lparr> db_write_floor := db_write_floor D \<rparr>"
  have "\<not> (if point \<noteq> [] \<and> lo < point then point else lo) < up" using assms(5) by (auto simp: not_less)
  then have none: "resolve_op ?D1 (BatchDeleteRange lo up) = Inr None" using assms(6,7) by (simp add: Let_def)
  have w: "db_write W now Ok ?D1 [BatchDeleteRange lo up] = Some (Ok, D2)"
    using none assms(2) D2(1) by (auto simp: db_write_def accepting_def)
  have acc: "accepting ?D3" using assms(2) D2(4) by (simp add: accepting_def same_instance_def reads_are_blocked_def)
  have "list_all2 memtable_source (memtables ?D3) mss2" using D2(2) by (simp add: readable_def memtables_def)
  then have i3: "intact E content ?D3 mss2" using readable_update [OF D2(2), of ?D3] by simp
  have v: "db_version D2 = db_version D" using D2(4) by (simp add: same_instance_def)
  have "answers (stack_of content ?D3 mss2) = answers (stack_of content D mss)" using D2(3) v by (simp add: stack_of_def mss)
  then have "reads_as E ?D3 g"
    using reads_as_transfer [OF assms(1) i3 _ _ _ _ assms(3)] assms(2) acc v by (simp add: accepting_def)
  moreover have "publish_floor D point = Some (db_write_floor D, ?D1)" using assms(4) by (simp add: publish_floor_def)
  moreover have "settle_floor applied point (db_write_floor D) D2 = (applied, ?D3)"
    using D2(4) assms(8) by (simp add: settle_floor_def same_instance_def)
  ultimately show ?thesis using w acc by blast
qed

text \<open>
  Two truncations in flight, the first to publish failing first: the second restores the floor it found,
  which the first has given up. No edit has landed, and writes below the floor are refused.
\<close>

lemma failed_truncations_keep_floor:
  assumes "db_write_floor D < a" and "a < b" and "s1 \<noteq> Ok" and "s2 \<noteq> Ok"
  shows "\<exists>D1 D2 D3 D4. publish_floor D a = Some (db_write_floor D, D1) \<and> publish_floor D1 b = Some (a, D2)
    \<and> settle_floor s1 a (db_write_floor D) D2 = (s1, D3) \<and> settle_floor s2 b a D3 = (s2, D4)
    \<and> D4 = D\<lparr> db_write_floor := a \<rparr>"
  using assms by (auto simp: publish_floor_def settle_floor_def)


section \<open>Witnesses\<close>

text \<open>Every write seals the memtable it lands in.\<close>

definition write_sample :: write_options where
  "write_sample = \<lparr> wo_memtable_bytes = 0, wo_flush_interval = None, wo_flush_window = 0, wo_sst = default_sst_options,
     wo_tier_for = (\<lambda>_. []) \<rparr>"

definition read_answers :: "bytes \<Rightarrow> bytes res" where
  "read_answers k = answer (case map_of read_memtable k of Some x \<Rightarrow> Some x | None \<Rightarrow> map_of sample_entries k)"

theorem flush_interval_bounded_witness:
  "50 \<le> unat (flush_interval_for (write_sample\<lparr> wo_flush_interval := Some 60, wo_flush_window := 10 \<rparr>) 7)
   \<and> unat (flush_interval_for (write_sample\<lparr> wo_flush_interval := Some 60, wo_flush_window := 10 \<rparr>) 7) \<le> 70"
  using flush_interval_bounded [of "write_sample\<lparr> wo_flush_interval := Some 60, wo_flush_window := 10 \<rparr>" 60 7] by simp

lemma sample_reads:
  "\<exists>r m. intact (read_env r) read_content (read_db m) [(read_memtable, [])] \<and> accepting (read_db m)
     \<and> reads_as (read_env r) (read_db m) read_answers"
proof -
  obtain r m where rm: "intact (read_env r) read_content (read_db m) [(read_memtable, [])]" using sample_readable by blast
  have "reads_as (read_env r) (read_db m) read_answers"
    using tables.db_get_readable [OF rm read_db_open(1)] read_db_open(2)
    by (simp add: reads_as_def read_answers_def read_lookup [of m])
  moreover have "accepting (read_db m)" using read_db_open(1) by (simp add: accepting_def) (simp add: read_db_def Version_def)
  ultimately show ?thesis using rm by blast
qed

lemma sample_answers: "read_answers [0x61] = Inr [9]" "read_answers [0x61, 0x62] = Inr [1]" "read_answers [0x62] = Inl NotFound"
  by (simp_all add: read_answers_def read_memtable_def sample_entries_def answer_def)

lemma sample_entry_sizes: "check_entry_size [0x62] [7] = Ok" "check_entry_size [a] [] = Ok" "check_entry_size [] [] = Ok"
  by (simp_all add: check_entry_size_def kMaxKeyBytes_def kMaxValueBytes_def)

theorem db_writes_read_back_witness:
  "\<exists>r m D1 D2. db_put write_sample 5 Ok (read_db m) [0x62] [7] = Some (Ok, D1)
     \<and> db_get (db_tables (read_env r)) D1 [0x62] = Some (Inr [7], D1)
     \<and> db_get (db_tables (read_env r)) D1 [0x61] = Some (Inr [9], D1)
     \<and> db_delete_range write_sample 5 Ok (read_db m) [] [0x62] = Some (Ok, D2)
     \<and> db_get (db_tables (read_env r)) D2 [0x61, 0x62] = Some (Inl NotFound, D2)"
proof -
  obtain r m where rm: "intact (read_env r) read_content (read_db m) [(read_memtable, [])]" "accepting (read_db m)"
    "reads_as (read_env r) (read_db m) read_answers"
    using sample_reads by blast
  note wr = db_writes_read_back [OF rm, of "[0x62]" "[7]" write_sample 5 "[]" "[0x62]"]
  obtain D1 where D1: "db_put write_sample 5 Ok (read_db m) [0x62] [7] = Some (Ok, D1)"
    "reads_as (read_env r) D1 (read_answers([0x62] := Inr [7]))"
    using wr sample_entry_sizes read_db_open(2) by blast
  obtain D2 where D2: "db_delete_range write_sample 5 Ok (read_db m) [] [0x62] = Some (Ok, D2)"
    "reads_as (read_env r) D2 (\<lambda>k. if [] \<le> k \<and> k < [0x62] then Inl NotFound else read_answers k)"
    using wr sample_entry_sizes by blast
  show ?thesis
    using D1 D2 sample_answers by (intro exI [of _ r] exI [of _ m] exI [of _ D1] exI [of _ D2]) (simp add: reads_as_def)
qed

theorem db_batch_atomic_witness:
  "\<exists>r m D'. db_write write_sample 5 Ok (read_db m) [BatchDeleteRange [] [0x62], BatchPut [0x61] [4]] = Some (Ok, D')
     \<and> db_get (db_tables (read_env r)) D' [0x61] = Some (Inr [4], D')
     \<and> db_get (db_tables (read_env r)) D' [0x61, 0x62] = Some (Inl NotFound, D')"
proof -
  obtain r m where rm: "intact (read_env r) read_content (read_db m) [(read_memtable, [])]" "accepting (read_db m)"
    "reads_as (read_env r) (read_db m) read_answers"
    using sample_reads by blast
  have "resolve_ops (read_db m) [BatchDeleteRange [] [0x62], BatchPut [0x61] [4]] = Inr [MDeleteRange [] [0x62], MPut [0x61] [4]]"
    by (simp add: check_entry_size_def check_below_truncation_def read_db_def kMaxKeyBytes_def kMaxValueBytes_def)
  with db_batch_atomic [OF rm, where batch = "[BatchDeleteRange [] [0x62], BatchPut [0x61] [4]]" and W = write_sample and now = 5]
  obtain D' where "db_write write_sample 5 Ok (read_db m) [BatchDeleteRange [] [0x62], BatchPut [0x61] [4]] = Some (Ok, D')"
    "reads_as (read_env r) D' (fold batch_effect [BatchDeleteRange [] [0x62], BatchPut [0x61] [4]] read_answers)"
    by auto
  then show ?thesis by (intro exI [of _ r] exI [of _ m] exI [of _ D']) (simp add: reads_as_def)
qed

theorem truncate_below_correct_witness:
  "\<exists>r m D'. truncate_below Ok (read_db m) [0x61, 0x62] = (Ok, D')
     \<and> db_get (db_tables (read_env r)) D' [0x61] = Some (Inl NotFound, D')
     \<and> db_get (db_tables (read_env r)) D' [0x61, 0x62] = Some (Inr [1], D')
     \<and> db_put write_sample 5 Ok D' [0x61] [4] = Some (Config, D')"
proof -
  obtain r m where rm: "intact (read_env r) read_content (read_db m) [(read_memtable, [])]" "accepting (read_db m)"
    "reads_as (read_env r) (read_db m) read_answers"
    using sample_reads by blast
  from truncate_below_correct [OF rm, where applied = Ok and point = "[0x61, 0x62]" and W = write_sample and now = 5]
  obtain D' where "truncate_below Ok (read_db m) [0x61, 0x62] = (Ok, D')"
    "reads_as (read_env r) D' (\<lambda>k. if k < [0x61, 0x62] then Inl NotFound else read_answers k)"
    "\<forall>key value. key < [0x61, 0x62] \<longrightarrow> db_put write_sample 5 Ok D' key value = Some (Config, D')"
    by auto
  then show ?thesis using sample_answers by (intro exI [of _ r] exI [of _ m] exI [of _ D']) (simp add: reads_as_def)
qed

end
