(* ===== verification/Flush.thy ===== *)
theory Flush
  imports Writes
begin

text \<open>
  The flush of src/db/db\_impl.cpp changes no answer: what the metadata of a built table says, that a new
  object takes a name no other file has, and that the reads before and after agree on every key, whatever
  the stores and the manifest answer.
\<close>

section \<open>What the metadata of a table says\<close>

lemma flush_data_block_meta:
  "smallest_key (snd (flush_data_block L w)) = smallest_key w" "largest_key (snd (flush_data_block L w)) = largest_key w"
  "num_entries (snd (flush_data_block L w)) = num_entries w"
  "num_range_tombstones (snd (flush_data_block L w)) = num_range_tombstones w"
  "smallest_range_key (snd (flush_data_block L w)) = smallest_range_key w"
  "largest_range_key (snd (flush_data_block L w)) = largest_range_key w"
  by (simp_all add: flush_data_block_def Let_def split: prod.splits)

lemma sw_add_meta:
  "smallest_key (sw_add L w k t v) = (if num_entries w = 0 then k else smallest_key w)"
  "largest_key (sw_add L w k t v) = k" "num_entries (sw_add L w k t v) = num_entries w + 1"
  "num_range_tombstones (sw_add L w k t v) = num_range_tombstones w"
  "smallest_range_key (sw_add L w k t v) = smallest_range_key w"
  "largest_range_key (sw_add L w k t v) = largest_range_key w"
  by (simp_all add: sw_add_def Let_def flush_data_block_meta)

lemma of_nat_positive: "0 < n \<Longrightarrow> n < 2 ^ 64 \<Longrightarrow> (of_nat n :: u64) \<noteq> 0"
  using u64_of_nat [of n] by (metis less_numeral_extra(3) unat_0)

lemma sw_add_all_meta:
  "num_entries w = 0 \<Longrightarrow> length es < 2 ^ 64 \<Longrightarrow>
   num_entries (sw_add_all L es w) = of_nat (length es)
   \<and> smallest_key (sw_add_all L es w) = (if es = [] then smallest_key w else fst (hd es))
   \<and> largest_key (sw_add_all L es w) = (if es = [] then largest_key w else fst (last es))
   \<and> num_range_tombstones (sw_add_all L es w) = num_range_tombstones w
   \<and> smallest_range_key (sw_add_all L es w) = smallest_range_key w
   \<and> largest_range_key (sw_add_all L es w) = largest_range_key w"
proof (induction es rule: rev_induct)
  case (snoc e es)
  then show ?case using of_nat_positive [of "length es"] by (cases e) (auto simp: sw_add_all_def sw_add_meta)
qed (simp add: sw_add_all_def)

lemma add_ranges_meta:
  fixes w opts ranges
  defines "w \<equiv> fold (\<lambda>r w. sw_add_range_tombstone w (lower r) (upper r)) ranges (SstWriter opts)"
  assumes "length ranges < 2 ^ 64"
  shows "num_entries w = 0 \<and> smallest_key w = [] \<and> largest_key w = [] \<and> num_range_tombstones w = of_nat (length ranges)
   \<and> smallest_range_key w = (if ranges = [] then [] else lower (hd ranges))
   \<and> largest_range_key w = (if ranges = [] then [] else upper (last ranges))"
  using assms(2) unfolding w_def
proof (induction ranges rule: rev_induct)
  case (snoc r ranges)
  then show ?case using of_nat_positive [of "length ranges"] by (auto simp: sw_add_range_tombstone_def)
qed (simp add: SstWriter_def)

lemma sw_finish_meta:
  assumes "sw_finish L w = Inr r"
  shows "r_num_entries r = num_entries w \<and> r_smallest_key r = smallest_key w \<and> r_largest_key r = largest_key w
    \<and> r_num_range_tombstones r = num_range_tombstones w \<and> r_smallest_range_key r = smallest_range_key w
    \<and> r_largest_range_key r = largest_range_key w"
  using assms flush_data_block_meta [of L "w\<lparr> w_finished := True \<rparr>"]
  by (auto simp: sw_finish_def split: prod.splits if_splits sum.splits)

lemma build_sst_meta:
  assumes "build_sst L es Ok opts False ranges = Inr r" and "length es < 2 ^ 64" and "length ranges < 2 ^ 64"
  shows "r_num_entries r = of_nat (length es)" "r_num_range_tombstones r = of_nat (length ranges)"
    "r_smallest_key r = (if es = [] then [] else fst (hd es))" "r_largest_key r = (if es = [] then [] else fst (last es))"
    "r_smallest_range_key r = (if ranges = [] then [] else lower (hd ranges))"
    "r_largest_range_key r = (if ranges = [] then [] else upper (last ranges))"
proof -
  let ?w = "fold (\<lambda>r w. sw_add_range_tombstone w (lower r) (upper r)) ranges (SstWriter opts)"
  have "sw_finish L (sw_add_all L es ?w) = Inr r" using assms(1) by (simp add: build_sst_def Let_def)
  note m = sw_finish_meta [OF this] add_ranges_meta [OF assms(3), of opts]
  note n = sw_add_all_meta [of ?w es L]
  show "r_num_entries r = of_nat (length es)" "r_num_range_tombstones r = of_nat (length ranges)"
    "r_smallest_key r = (if es = [] then [] else fst (hd es))" "r_largest_key r = (if es = [] then [] else fst (last es))"
    "r_smallest_range_key r = (if ranges = [] then [] else lower (hd ranges))"
    "r_largest_range_key r = (if ranges = [] then [] else upper (last ranges))"
    using m n assms(2) by simp_all
qed

lemma sorted_ends:
  assumes "sorted_keys es" and "e \<in> set es"
  shows "fst (hd es) \<le> fst e" "fst e \<le> fst (last es)"
proof -
  obtain i where i: "i < length es" "e = es ! i" using assms(2) by (auto simp: in_set_conv_nth)
  have lt: "j < k \<Longrightarrow> k < length es \<Longrightarrow> fst (es ! j) < fst (es ! k)" for j k
    using assms(1) by (auto simp: sorted_keys_def sorted_wrt_iff_nth_less)
  have ne: "es \<noteq> []" using assms(2) by auto
  show "fst (hd es) \<le> fst e" using lt [of 0 i] i ne by (cases "i = 0") (auto simp: hd_conv_nth)
  have "i = length es - 1 \<or> i < length es - 1" using i by arith
  then show "fst e \<le> fst (last es)" using lt [of i "length es - 1"] i ne by (auto simp: last_conv_nth)
qed

lemma sorted_disjoint_ends:
  "sorted_disjoint rs \<Longrightarrow> any_covers rs k \<Longrightarrow> lower (hd rs) \<le> k \<and> k < upper (last rs)"
proof (induction rs)
  case (Cons r rs)
  note s = Cons.prems(1) [unfolded sorted_disjoint_Cons]
  show ?case
  proof (cases "rs = []")
    case False
    have wf: "sorted_disjoint xs \<Longrightarrow> \<forall>x \<in> set xs. lower x < upper x" for xs
      by (induction xs) (auto simp: sorted_disjoint_Cons)
    have l: "upper r < lower (last rs)" "lower (last rs) < upper (last rs)" "upper r < lower (hd rs)"
      using s wf [of rs] False by auto
    from Cons.prems(2) consider "covers r k" | "any_covers rs k" by (auto simp: any_covers_def)
    then show ?thesis
    proof cases
      case 1
      then have "lower r \<le> k" "k < upper r" by (simp_all add: covers_def)
      then show ?thesis using l False by (auto dest: less_trans)
    next
      case 2
      have "lower (hd rs) \<le> k" "k < upper (last rs)" using Cons.IH s 2 by auto
      moreover have "lower r < lower (hd rs)" using s l(3) by (auto dest: less_trans)
      ultimately show ?thesis using False by auto
    qed
  qed (use Cons.prems in \<open>simp add: covers_def any_covers_def\<close>)
qed simp

lemma flushed_described:
  assumes b: "build_sst L es Ok opts False ranges = Inr r" and n: "length es < 2 ^ 64" "length ranges < 2 ^ 64"
    and s: "sorted_keys es" "sorted_disjoint ranges"
  shows "described (flushed_file W m r wr) (map entry_view es, ranges)"
proof -
  note meta = build_sst_meta [OF b n]
  have "fm_smallest_key (flushed_file W m r wr) \<le> fst e \<and> fst e \<le> fm_largest_key (flushed_file W m r wr)"
    if "e \<in> set es" for e
    using sorted_ends [OF s(1) that] that by (auto simp: flushed_file_def meta)
  moreover have "fm_smallest_key (flushed_file W m r wr) \<le> fm_largest_key (flushed_file W m r wr)"
    using sorted_ends(2) [OF s(1), of "hd es"] by (auto simp: flushed_file_def meta)
  moreover have "range_may_cover (flushed_file W m r wr) k" if c: "any_covers ranges k" for k
    using sorted_disjoint_ends [OF s(2) c] of_nat_positive [of "length ranges"] n(2) c
    by (cases ranges) (auto simp: range_may_cover_def flushed_file_def meta)
  ultimately show ?thesis by (auto simp: described_def entry_view_def)
qed


lemma memtable_entries_holds:
  assumes "Memtable.holds m es"
  shows "memtable_entries m = es" and "sorted_keys es"
proof -
  obtain ids where h: "holds_by m ids es" using assms by (auto simp: Memtable.holds_def)
  have "memtable_rep (m, mt_ascending m) es 0"
    using h sl_seek_to_first_pos [OF h] by (auto simp: memtable_rep_def mt_ascending_def)
  moreover have "length es \<le> length (mt_nodes m)"
  proof -
    have "distinct ids" "set ids \<subseteq> {..< length (mt_nodes m)}" "length ids = length es"
      using h by (auto simp: holds_by_def shape_def)
    then show ?thesis using card_mono [of "{..< length (mt_nodes m)}" "set ids"] by (simp add: distinct_card)
  qed
  ultimately show "memtable_entries m = es" unfolding memtable_entries_def using memtable.drain_rep by fastforce
  show "sorted_keys es" by (rule holds_by_sorted [OF h])
qed

section \<open>Names and objects\<close>

lemma sst_object_name_inj: "sst_object_name a = sst_object_name b \<Longrightarrow> a = b"
proof -
  have "sst_number_loop 0 (take (length (sst_object_name n) - 4) (sst_object_name n)) = Some n" for n
    by (simp add: sst_object_name_def kSstSuffix_def Let_def number_loop_zeros number_loop_decimal)
  then show "sst_object_name a = sst_object_name b \<Longrightarrow> a = b" by (metis option.inject)
qed

lemma bs_get_map: "bs_get (map_store_chain h s) = h (bs_get s)"
  by (cases s) simp_all

lemma placed_in_put:
  assumes "placed_in E opts source dt ranges f" and "fm_file_number f \<noteq> n"
  shows "placed_in (put_object store (sst_object_name n) payload E) opts source dt ranges f"
proof -
  have "sst_object_name n \<noteq> sst_object_name (fm_file_number f)" using assms(2) sst_object_name_inj by blast
  moreover have "cipher_for (put_object store (sst_object_name n) payload E) f = cipher_for E f"
    by (simp add: put_object_def cipher_for_def)
  ultimately show ?thesis
    using assms(1) unfolding placed_in_def by (auto simp: put_object_def store_get_def bs_get_map reads_object_def cache_fresh_def)
qed

text \<open>A file of the version: its reader is resident, or its object is where its metadata says.\<close>

definition filed :: "db_env \<Rightarrow> (file_metadata \<Rightarrow> source) \<Rightarrow> file_metadata \<Rightarrow> bool" where
  "filed E content f \<longleftrightarrow> described f (content f)
     \<and> ((\<exists>r. e_readers E (fm_file_number f) = Some r \<and> sst_serves (e_codecs E) r (content f))
        \<or> (\<exists>opts es dt ranges. placed_in E opts es dt ranges f
             \<and> content f = (map entry_view [(k, t, v) \<leftarrow> es. \<not> (dt \<and> t = Delete)], ranges)))"

lemma filed_put: "filed E content f \<Longrightarrow> fm_file_number f \<noteq> n \<Longrightarrow> filed (put_object store (sst_object_name n) payload E) content f"
  unfolding filed_def using placed_in_put [of E _ _ _ _ f n store payload] by (fastforce simp: put_object_def)

lemma filed_stored:
  assumes "codecs_ok (e_codecs E)" and "codecs_total (e_codecs E)" and "filed E content f"
  shows "stored (db_tables E) (sst_serves (e_codecs E)) content D f"
proof -
  have d: "described f (content f)" using assms(3) by (simp add: filed_def)
  have "\<exists>r. reader_for E D f = (Inr r, D) \<and> sst_serves (e_codecs E) r (content f)"
  proof (cases "\<exists>r. e_readers E (fm_file_number f) = Some r \<and> sst_serves (e_codecs E) r (content f)")
    case True
    then show ?thesis by (auto simp: reader_for_def)
  next
    case False
    then obtain opts es dt ranges where p: "placed_in E opts es dt ranges f"
      and c: "content f = (map entry_view [(k, t, v) \<leftarrow> es. \<not> (dt \<and> t = Delete)], ranges)"
      using assms(3) unfolding filed_def by blast
    from placed_reader [OF assms(1,2) p, of D] show ?thesis unfolding c .
  qed
  then show ?thesis using d by (simp add: stored_def db_tables_def)
qed

text \<open>The instance a flush starts from: readable files with numbers below the counter, and nothing cached above it.\<close>

definition sound :: "db_env \<Rightarrow> (file_metadata \<Rightarrow> source) \<Rightarrow> db \<Rightarrow> source list \<Rightarrow> bool" where
  "sound E content D mss \<longleftrightarrow>
     codecs_ok (e_codecs E) \<and> codecs_total (e_codecs E)
     \<and> list_all2 memtable_source (memtables D) mss
     \<and> version_ok (db_version D) \<and> partitioned_levels (db_version D)
     \<and> (\<forall>l. \<forall>f \<in> set (files_at (db_version D) l). filed E content f \<and> fm_file_number f < db_next_file_number D)
     \<and> (\<forall>n \<ge> db_next_file_number D. e_readers E n = None
          \<and> (\<forall>sid st. e_store_for E sid = Some st \<longrightarrow> cache_fresh st n))"

lemma sound_intact: "sound E content D mss \<Longrightarrow> intact E content D mss"
  by (auto simp: sound_def readable_def intro: filed_stored)


section \<open>File numbers\<close>

lemma number_loop_bound:
  "sst_number_loop a cs = Some n \<Longrightarrow> (unat a + 1) * 10 ^ length cs \<le> 2 ^ 63 \<Longrightarrow> unat n < (unat a + 1) * 10 ^ length cs"
proof (induction cs arbitrary: a)
  case (Cons c cs)
  let ?d = "ucast (c - 0x30) :: u64"
  have c: "\<not> (c < 0x30 \<or> 0x39 < c)" and r: "sst_number_loop (a * 10 + ?d) cs = Some n"
    using Cons.prems(1) by (auto split: if_splits)
  have "unat (c - 0x30) = unat c - 0x30" using c by (simp add: unat_sub not_less)
  moreover have "unat c \<le> 0x39" using c by (simp add: word_le_nat_alt not_less)
  ultimately have d: "unat ?d \<le> 9" by (simp add: unsigned_ucast_eq take_bit_nat_eq_self)
  have "unat (a * 10) \<le> unat a * 10" using unat_word_ariths(2) [of a 10] by simp
  moreover have "unat (a * 10 + ?d) \<le> unat (a * 10) + unat ?d" by (simp add: unat_word_ariths(1))
  ultimately have "unat (a * 10 + ?d) \<le> unat a * 10 + unat ?d" by simp
  with d have le: "unat (a * 10 + ?d) + 1 \<le> (unat a + 1) * 10" by simp
  then have m: "(unat (a * 10 + ?d) + 1) * 10 ^ length cs \<le> (unat a + 1) * 10 ^ length (c # cs)"
    using mult_le_mono1 [OF le, of "10 ^ length cs"] by (simp add: algebra_simps)
  then have "(unat (a * 10 + ?d) + 1) * 10 ^ length cs \<le> 2 ^ 63" using Cons.prems(2) by (rule order_trans)
  from Cons.IH [OF r this] m show ?case by (rule less_le_trans)
qed simp

lemma sst_file_number_bound: "sst_file_number name = Some n \<Longrightarrow> unat n < 10 ^ 12"
  using number_loop_bound [of 0 "take 12 name" n]
  by (auto simp: sst_file_number_def kSstSuffix_def Let_def split: if_splits)

definition counted :: "nat \<Rightarrow> db \<Rightarrow> db \<Rightarrow> bool" where
  "counted bound D D' \<longleftrightarrow> D' = D\<lparr> db_next_file_number := db_next_file_number D' \<rparr>
     \<and> db_next_file_number D \<le> db_next_file_number D'
     \<and> unat (db_next_file_number D') \<le> max (unat (db_next_file_number D)) bound"

lemma counted_refl: "counted b D D"
  by (simp add: counted_def)

lemma counted_trans: "counted b D D1 \<Longrightarrow> counted b D1 D2 \<Longrightarrow> counted b D D2"
proof -
  assume c: "counted b D D1" "counted b D1 D2"
  have "D2 = D\<lparr> db_next_file_number := db_next_file_number D2 \<rparr>"
    using c unfolding counted_def by (cases D, cases D1, cases D2) simp
  then show "counted b D D2" using c unfolding counted_def by fastforce
qed

lemma observe_names_counted: "counted (10 ^ 12) D (observe_names names D)"
proof (induction names arbitrary: D)
  case (Cons name names)
  let ?D = "case sst_file_number name of None \<Rightarrow> D
    | Some number \<Rightarrow> if db_next_file_number D \<le> number then D\<lparr> db_next_file_number := number + 1 \<rparr> else D"
  have "counted (10 ^ 12) D ?D"
  proof (cases "sst_file_number name")
    case (Some n)
    then have b: "unat n < 10 ^ 12" by (rule sst_file_number_bound)
    then have "unat (n + 1) = unat n + 1" by (subst unat_add_lem [THEN iffD1]) simp_all
    then show ?thesis using Some b by (auto simp: counted_def word_le_nat_alt)
  qed (simp add: counted_refl)
  from counted_trans [OF this Cons.IH] show ?case by simp
qed (simp add: counted_refl)

lemma observe_stores_counted: "observe_stores listings D = (s, D') \<Longrightarrow> counted (10 ^ 12) D D'"
proof (induction listings D rule: observe_stores.induct)
  case (3 names rest D)
  then show ?case using counted_trans [OF observe_names_counted] by auto
qed (auto simp: counted_refl)


text \<open>
  What \<open>write_new_sst\<close> promises: the counter only grows, nothing else of the instance changes, and a written
  object has a number from the counter, below what it is afterwards, under the primary provider's cipher.
\<close>

definition sealed_object :: "encryption_provider \<Rightarrow> bytes \<Rightarrow> bytes \<Rightarrow> db_env \<Rightarrow> written_object \<Rightarrow> db_env \<Rightarrow> bool" where
  "sealed_object provider store bs E w E' \<longleftrightarrow>
     (\<exists>C sealed. p_create provider (wr_file_number w) = Inr (C, wr_encryption_metadata w)
        \<and> seal_object C bs = Inr sealed \<and> wr_encryption_provider w = e_primary E
        \<and> E' = put_object store (sst_object_name (wr_file_number w)) sealed E)"

text \<open>An encryption provider as documented: it opens what it creates, and its ciphers seal every table.\<close>

definition provider_ok :: "encryption_provider \<Rightarrow> bool" where
  "provider_ok provider \<longleftrightarrow>
     (\<forall>n. \<exists>C metadata. p_create provider n = Inr (C, metadata) \<and> p_open provider n metadata = Inr C \<and> cipher_ok C
        \<and> (\<forall>p. length p < 2 ^ 32 \<longrightarrow> (\<exists>sealed. seal_object C p = Inr sealed \<and> length sealed < 2 ^ 64)))"

lemma write_attempts_counted:
  "write_attempts n provider store bs True E D = (x, E', D') \<Longrightarrow> provider_ok provider \<Longrightarrow> length bs < 2 ^ 32 \<Longrightarrow>
   max (unat (db_next_file_number D)) (10 ^ 12) + n < 2 ^ 64 \<Longrightarrow>
   D' = D\<lparr> db_next_file_number := db_next_file_number D' \<rparr> \<and> db_next_file_number D \<le> db_next_file_number D'
   \<and> (case x of Inl s \<Rightarrow> s \<noteq> Ok \<and> E' = E
      | Inr w \<Rightarrow> db_next_file_number D \<le> wr_file_number w \<and> wr_file_number w < db_next_file_number D'
          \<and> sealed_object provider store bs E w E')"
proof (induction n arbitrary: D)
  case (Suc n)
  let ?n = "db_next_file_number D"
  let ?D = "D\<lparr> db_next_file_number := ?n + 1 \<rparr>"
  obtain C md sealed where P: "p_create provider ?n = Inr (C, md)" "seal_object C bs = Inr sealed"
    using Suc.prems(2,3) unfolding provider_ok_def by blast
  have up: "unat (?n + 1) = unat ?n + 1" using Suc.prems(4) by (subst unat_add_lem [THEN iffD1]) simp_all
  then have le: "?n < ?n + 1" by (simp add: word_less_nat_alt)
  let ?put = "e_put E store (sst_object_name ?n) sealed"
  note step = Suc.prems(1) [unfolded write_attempts.simps Let_def, simplified P, simplified]
  consider (landing) "?put = Ok" | (failed) "?put \<noteq> Ok" "?put \<noteq> Unusable" | (taken) "?put = Unusable" by blast
  then show ?case
  proof cases
    case landing
    then show ?thesis using step P le by (auto simp: sealed_object_def)
  next
    case failed
    then show ?thesis using step P le by auto
  next
    case taken
    obtain s D2 where o: "observe_stores (e_list E) ?D = (s, D2)" by fastforce
    have c: "D2 = ?D\<lparr> db_next_file_number := db_next_file_number D2 \<rparr>" "?n + 1 \<le> db_next_file_number D2"
      "unat (db_next_file_number D2) \<le> max (unat (?n + 1)) (10 ^ 12)"
      using observe_stores_counted [OF o] by (simp_all add: counted_def)
    have D2: "D2 = D\<lparr> db_next_file_number := db_next_file_number D2 \<rparr>" "?n \<le> db_next_file_number D2"
      using c le by (cases D, simp, cases D2, simp)
    show ?thesis
    proof (cases "s = Ok")
      case True
      have "write_attempts n provider store bs True E D2 = (x, E', D')" using step P taken o True by simp
      moreover have "max (unat (db_next_file_number D2)) (10 ^ 12) + n < 2 ^ 64" using c(3) up Suc.prems(4) by simp
      ultimately have ih: "D' = D2\<lparr> db_next_file_number := db_next_file_number D' \<rparr> \<and> db_next_file_number D2 \<le> db_next_file_number D'
        \<and> (case x of Inl s \<Rightarrow> s \<noteq> Ok \<and> E' = E
           | Inr w \<Rightarrow> db_next_file_number D2 \<le> wr_file_number w \<and> wr_file_number w < db_next_file_number D'
               \<and> sealed_object provider store bs E w E')"
        using Suc.IH Suc.prems(2,3) by blast
      then have "D' = D\<lparr> db_next_file_number := db_next_file_number D' \<rparr>" using D2(1) by (cases D, simp, cases D2, simp)
      then show ?thesis using ih D2(2) by (auto split: sum.splits)
    next
      case False
      then show ?thesis using step P taken o D2 by auto
    qed
  qed
qed auto

section \<open>The flush\<close>

text \<open>
  A memtable that the reader takes back: its table is within the limits of the reader, which are on the
  size of the file, of its index block and of its block of range tombstones. The writer has no such limits.
\<close>

definition flushable :: "write_options \<Rightarrow> db_env \<Rightarrow> source \<Rightarrow> bool" where
  "flushable W E s \<longleftrightarrow> openable (e_codecs E) (wo_sst W) (fst s) (snd s) \<and> ranges_fit (wo_sst W) (snd s) \<and> length (snd s) < 2 ^ 64
     \<and> block_bytes (wo_sst W) = e_block_bytes E"

lemma default_memtable_flushable:
  assumes "codecs_total (e_codecs E)" and "wo_sst W = default_sst_options" and "e_block_bytes E = block_bytes default_sst_options"
    and "sorted_keys es" and "\<forall>(k, t, v) \<in> set es. length k \<le> 28 \<and> length v \<le> kMaxValueBytes"
    and "sum_list (map entry_cost es) \<le> 64 * 2 ^ 20"
  shows "flushable W E (es, [])"
proof -
  have "length (chunk_content default_sst_options []) \<le> 8" using chunk_content_le [of default_sst_options "[]"] by simp
  then have "ranges_fit default_sst_options []"
    by (simp add: ranges_fit_def range_entries_def) (simp add: default_sst_options_def max_uncompressed_def limit_defs)
  then show ?thesis using default_memtable_openable [OF assms(1,4-6)] assms(2,3) by (simp add: flushable_def)
qed

text \<open>Where a flush writes: the primary provider and every tier exist, and file numbers are not about to run out.\<close>

definition flush_target :: "write_options \<Rightarrow> db_env \<Rightarrow> db \<Rightarrow> bool" where
  "flush_target W E D \<longleftrightarrow>
     (\<exists>provider. e_provider_for E (e_primary E) = Some provider \<and> provider_ok provider)
     \<and> (\<forall>t. e_store_for E (wo_tier_for W t) \<noteq> None)
     \<and> max (unat (db_next_file_number D)) (10 ^ 12) + kAttempts < 2 ^ 64"

lemma sound_put:
  assumes "sound E content D mss" and "db_version D' = db_version D" and "list_all2 memtable_source (memtables D') mss'"
    and "db_next_file_number D \<le> db_next_file_number D'"
    and "E' = E \<or> (\<exists>store n payload. db_next_file_number D \<le> n \<and> E' = put_object store (sst_object_name n) payload E)"
  shows "sound E' content D' mss'"
proof -
  have fresh: "e_codecs E' = e_codecs E \<and> e_readers E' = e_readers E
      \<and> (\<forall>sid st. e_store_for E' sid = Some st \<longrightarrow> (\<exists>st'. e_store_for E sid = Some st' \<and> block_cache st = block_cache st'))"
    using assms(5) by (auto simp: put_object_def split: if_splits)
  have "filed E' content f \<and> fm_file_number f < db_next_file_number D'" if "f \<in> set (files_at (db_version D) l)" for f l
  proof -
    have f: "filed E content f" "fm_file_number f < db_next_file_number D" using assms(1) that by (auto simp: sound_def)
    moreover from f(2) assms(5) have "filed E' content f" using filed_put [OF f(1)] f(1) by auto
    ultimately show ?thesis using assms(4) by auto
  qed
  moreover have "e_readers E' n = None \<and> (\<forall>sid st. e_store_for E' sid = Some st \<longrightarrow> cache_fresh st n)"
    if "db_next_file_number D' \<le> n" for n
  proof -
    have n: "e_readers E n = None" "\<And>sid st. e_store_for E sid = Some st \<Longrightarrow> cache_fresh st n"
      using assms(1,4) that by (auto simp: sound_def)
    show ?thesis using n fresh by (fastforce simp: cache_fresh_def)
  qed
  ultimately show ?thesis using assms(1-3) fresh by (auto simp: sound_def)
qed

lemma placed_flushed:
  assumes b: "build_sst (e_codecs E) es Ok (wo_sst W) False ranges = Inr r" "length (r_bytes r) < 2 ^ 32"
    and f: "flushable W E (es, ranges)"
    and P: "provider_ok provider" "e_provider_for E (e_primary E) = Some provider"
    and w: "sealed_object provider (wo_tier_for W (mt_creation_time_ms m)) (r_bytes r) E wr E'"
    and n: "e_readers E (wr_file_number wr) = None" "\<And>sid st. e_store_for E sid = Some st \<Longrightarrow> cache_fresh st (wr_file_number wr)"
    and st: "e_store_for E (wo_tier_for W (mt_creation_time_ms m)) \<noteq> None"
  shows "placed_in E' (wo_sst W) es False ranges (flushed_file W m r wr)"
proof -
  let ?f = "flushed_file W m r wr" and ?tier = "wo_tier_for W (mt_creation_time_ms m)"
  obtain C sealed where C: "p_create provider (wr_file_number wr) = Inr (C, wr_encryption_metadata wr)" "seal_object C (r_bytes r) = Inr sealed"
    "wr_encryption_provider wr = e_primary E" and E': "E' = put_object ?tier (sst_object_name (wr_file_number wr)) sealed E"
    using w unfolding sealed_object_def by blast
  have ok: "p_open provider (wr_file_number wr) (wr_encryption_metadata wr) = Inr C" "cipher_ok C" "length sealed < 2 ^ 64"
  proof -
    obtain C' md where C': "p_create provider (wr_file_number wr) = Inr (C', md)" "p_open provider (wr_file_number wr) md = Inr C'" "cipher_ok C'"
      "\<forall>p. length p < 2 ^ 32 \<longrightarrow> (\<exists>sealed. seal_object C' p = Inr sealed \<and> length sealed < 2 ^ 64)"
      using P(1) unfolding provider_ok_def by blast
    then have "C' = C" "md = wr_encryption_metadata wr" using C(1) by simp_all
    then show "p_open provider (wr_file_number wr) (wr_encryption_metadata wr) = Inr C" "cipher_ok C" "length sealed < 2 ^ 64"
      using C' C(2) b(2) by auto
  qed
  obtain st where s: "e_store_for E ?tier = Some st" using assms(9) by blast
  let ?st = "st\<lparr> env_store := map_store_chain (\<lambda>g. g(sst_object_name (wr_file_number wr) := (\<lambda>off len. Inr (take len (drop (unat off) sealed))))) (env_store st) \<rparr>"
  have "cipher_for E' ?f = Inr C" using C(3) ok(1) P(2) by (simp add: cipher_for_def E' put_object_def flushed_file_def)
  moreover have "e_store_for E' (fm_store_id ?f) = Some ?st" by (simp add: E' put_object_def flushed_file_def s)
  moreover have "reads_object (store_get ?st) (sst_object_name (fm_file_number ?f)) sealed" by (simp add: reads_object_def flushed_file_def store_get_def bs_get_map)
  moreover have "cache_fresh ?st (fm_file_number ?f)" using n(2) [OF s] by (simp add: cache_fresh_def flushed_file_def)
  moreover have "e_readers E' (fm_file_number ?f) = None" "e_codecs E' = e_codecs E" "e_block_bytes E' = e_block_bytes E"
    "fm_file_bytes ?f = of_nat (length (r_bytes r))"
    using n(1) by (simp_all add: E' put_object_def flushed_file_def)
  ultimately show ?thesis
    unfolding placed_in_def using b(1) C(2) ok(2,3) f by (intro exI [of _ r] exI [of _ C] exI [of _ sealed] exI [of _ ?st]) (simp add: flushable_def)
qed


lemma answers_view: "answers (s # (map entry_view es, rs) # old) = answers (s # (es, rs) # old)"
proof -
  have "map_of (map entry_view es) k = map_option (\<lambda>(t, v). (t, if t = Delete then [] else v)) (map_of es k)" for k
    by (induction es) (auto simp: entry_view_def)
  then have "answer (lookup ((map entry_view es, rs) # old) k) = answer (lookup ((es, rs) # old) k)" for k
    by (auto simp: answer_def split: option.splits value_type.splits)
  then show ?thesis by (cases s) (simp add: answers_def fun_eq_iff split: option.splits)
qed

lemma flushed_stack:
  assumes v: "version_ok (db_version D)" and f: "fm_level f = 0"
    and newest: "\<forall>l. \<forall>g \<in> set (files_at (db_version D) l). fm_file_number g < fm_file_number f"
    and e: "ve_added e = [f]" "ve_deleted e = []"
    and D': "db_version D' = version_apply (db_version D) e"
  shows "stack_of (content(f := c)) D' mss = mss @ c # stack_of content D []"
proof -
  let ?v = "db_version D" and ?c = "content(f := c)"
  note fl = version_apply_flushed [OF v e f] newest
  have old: "map ?c (files_at ?v l) = map content (files_at ?v l)" for l
    using newest by (intro map_cong) auto
  have len: "[0..<length (v_levels (db_version D'))] = 0 # [1..<length (v_levels ?v)]"
    using fl by (cases "v_levels ?v") (simp_all add: D' upt_conv_Cons max_def del: upt_Suc)
  have first: "concat (map (\<lambda>l. map content (files_at ?v l)) [0..<length (v_levels ?v)])
      = map content (files_at ?v 0) @ concat (map (\<lambda>l. map content (files_at ?v l)) [1..<length (v_levels ?v)])"
    by (cases "v_levels ?v") (simp_all add: upt_conv_Cons files_at_def del: upt_Suc)
  have tail: "map (\<lambda>l. map ?c (files_at (db_version D') l)) [1..<length (v_levels ?v)]
      = map (\<lambda>l. map content (files_at ?v l)) [1..<length (v_levels ?v)]"
    using fl old by (intro map_cong) (simp_all add: D')
  have head: "map ?c (files_at (db_version D') 0) = c # map content (files_at ?v 0)"
    using fl old [of 0] by (simp add: D')
  show ?thesis unfolding stack_of_def len first list.map(2) concat.simps head tail by simp
qed

definition flush_kept :: "(file_metadata \<Rightarrow> source) \<Rightarrow> db \<Rightarrow> source list \<Rightarrow> db_env \<Rightarrow> db \<Rightarrow> bool" where
  "flush_kept content D mss E' D' \<longleftrightarrow>
     (\<exists>content' mss'. sound E' content' D' mss' \<and> answers (stack_of content' D' mss') = answers (stack_of content D mss))
     \<and> v_truncation_point (db_version D') = v_truncation_point (db_version D)
     \<and> reads_are_blocked D' = reads_are_blocked D \<and> db_mem D' = db_mem D"

lemma flush_keptI:
  assumes "sound E' content' D' mss'" and "answers (stack_of content' D' mss') = answers (stack_of content D mss)"
    and "v_truncation_point (db_version D') = v_truncation_point (db_version D)" and "reads_are_blocked D' = reads_are_blocked D"
    and "db_mem D' = db_mem D"
  shows "flush_kept content D mss E' D'"
  using assms unfolding flush_kept_def by blast

text \<open>An edit that adds the flushed file: it answers for the memtable it was made of.\<close>

lemma flush_installed:
  assumes s: "sound E content D [s, t]" and t: "memtable_source m t" and n: "length (fst t) < 2 ^ 64" "length (snd t) < 2 ^ 64" "sorted_disjoint (snd t)"
    and b: "build_sst L (fst t) Ok (wo_sst W) False (snd t) = Inr r"
    and placed: "placed_in E (wo_sst W) (fst t) False (snd t) (flushed_file W m r wr)"
    and w: "\<forall>l. \<forall>g \<in> set (files_at (db_version D) l). fm_file_number g < wr_file_number wr" "wr_file_number wr < db_next_file_number D"
    and D': "D' = (apply_edit Ok (VersionEdit\<lparr> ve_added := [flushed_file W m r wr] \<rparr>) D)\<lparr> db_imm := None \<rparr>"
  shows "flush_kept content D [s, t] E D'"
proof -
  let ?f = "flushed_file W m r wr" and ?c = "(map entry_view (fst t), snd t)"
  let ?e = "(VersionEdit\<lparr> ve_added := [?f] \<rparr>)\<lparr> ve_next_file_number := db_next_file_number D \<rparr>"
  have e: "ve_added ?e = [?f]" "ve_deleted ?e = []" by (simp_all add: VersionEdit_def)
  have l: "fm_level ?f = 0" "fm_file_number ?f = wr_file_number wr" by (simp_all add: flushed_file_def)
  have v: "version_ok (db_version D)" using s by (simp add: sound_def)
  have v': "db_version D' = version_apply (db_version D) ?e" by (simp add: D' apply_edit_def)
  have w1: "\<forall>l. \<forall>g \<in> set (files_at (db_version D) l). fm_file_number g < fm_file_number ?f" using w(1) l(2) by simp
  have at: "files_at (db_version D') l = (if l = 0 then ?f # files_at (db_version D) 0 else files_at (db_version D) l)" for l
    unfolding v' using w1 by (intro version_apply_flushed [OF v e l(1)]) auto
  have "filed E (content(?f := ?c)) ?f"
    using flushed_described [OF b n(1,2) _ n(3), of W m wr] memtable_entries_holds(2) [of m "fst t"] t placed
    unfolding filed_def by (fastforce simp: memtable_source_def)
  moreover have "filed E (content(?f := ?c)) g" if "g \<in> set (files_at (db_version D) l)" for g l
  proof -
    have "g \<noteq> ?f" using that w1 by auto
    moreover have "filed E content g" using s that by (simp add: sound_def)
    ultimately show ?thesis by (simp add: filed_def)
  qed
  moreover have "carries_ranges (db_version D') l = carries_ranges (db_version D) l" if "0 < l" for l
  proof -
    have "v_carries_ranges x = map (list_ex (\<lambda>f. fm_num_range_tombstones f \<noteq> 0)) (v_levels x)" if "version_ok x" for x
      using that by (simp add: version_ok_def)
    then have "carries_ranges x l = list_ex (\<lambda>f. fm_num_range_tombstones f \<noteq> 0) (files_at x l)" if "version_ok x" for x
      using that by (auto simp: carries_ranges_def files_at_def)
    then show ?thesis using v version_apply_ok [OF v, of ?e] at [of l] \<open>0 < l\<close> by (simp add: v')
  qed
  moreover have "version_ok (db_version D')" using version_apply_ok [OF v] by (simp add: v')
  moreover have rest: "db_next_file_number D' = db_next_file_number D" "db_mem D' = db_mem D" "db_imm D' = None"
      "reads_are_blocked D' = reads_are_blocked D"
    by (simp_all add: D' apply_edit_def reads_are_blocked_def)
  ultimately have "sound E (content(?f := ?c)) D' [s]"
    using s w l(2) unfolding sound_def partitioned_levels_def memtables_def
    by (auto simp: at split: if_splits option.splits)
  moreover have "stack_of (content(?f := ?c)) D' [s] = [s] @ ?c # stack_of content D []"
    using flushed_stack [OF v l(1) w1 e v'] .
  then have "answers (stack_of (content(?f := ?c)) D' [s]) = answers (stack_of content D [s, t])"
    by (cases t) (simp add: answers_view stack_of_def)
  moreover have "v_truncation_point (db_version D') = v_truncation_point (db_version D)"
    by (simp add: v' version_apply_def Version_def Let_def VersionEdit_def)
  ultimately show ?thesis using rest by (blast intro: flush_keptI)
qed


lemma sound_imm:
  assumes "sound E content D mss" and "db_imm D = Some m"
  obtains s t where "mss = [s, t]" and "memtable_source (db_mem D) s" and "memtable_source m t"
  using assms by (auto simp: sound_def memtables_def list_all2_Cons1)

lemma flush_kept_same:
  assumes "sound E content D mss" and "db_version D' = db_version D" "db_mem D' = db_mem D" "db_imm D' = db_imm D"
    and "db_next_file_number D \<le> db_next_file_number D'" and "reads_are_blocked D' = reads_are_blocked D"
    and "E' = E \<or> (\<exists>store n payload. db_next_file_number D \<le> n \<and> E' = put_object store (sst_object_name n) payload E)"
  shows "flush_kept content D mss E' D'"
proof -
  have "list_all2 memtable_source (memtables D') mss" using assms(1,3,4) by (simp add: sound_def memtables_def)
  from sound_put [OF assms(1,2) this assms(5,7)] show ?thesis
    using assms(2,3,6) by (auto simp: stack_of_def intro: flush_keptI)
qed

abbreviation "flush_ended st D D' \<equiv>
  (if st = Ok then db_imm D' = None else db_imm D' = db_imm D \<and> db_version D' = db_version D)"

text \<open>The end of a flush that has something to write, whatever the stores and the manifest answer.\<close>

lemma flush_written:
  assumes s: "sound E content D [x, y]" and m: "db_imm D = Some m" "memtable_source m y"
    and P: "e_provider_for E (e_primary E) = Some provider" "provider_ok provider"
    and tier: "e_store_for E (wo_tier_for W (mt_creation_time_ms m)) \<noteq> None"
    and cnt: "max (unat (db_next_file_number D)) (10 ^ 12) + kAttempts < 2 ^ 64"
    and f: "flushable W E (fst y, snd y)" and n: "length (fst y) < 2 ^ 64"
    and r: "build_sst (e_codecs E) (fst y) Ok (wo_sst W) False (snd y) = Inr r" "length (r_bytes r) < 2 ^ 32"
    and w: "write_attempts kAttempts provider (wo_tier_for W (mt_creation_time_ms m)) (r_bytes r) True E D = (o1, E1, D1)"
    and fin: "(st, E', D2) = (case o1 of Inl e \<Rightarrow> (e, E1, D1)
        | Inr wr \<Rightarrow> (applied, E1, apply_edit applied (VersionEdit\<lparr> ve_added := [flushed_file W m r wr] \<rparr>) D1))"
    and D': "D' = (if st = Ok then D2\<lparr> db_imm := None \<rparr>
        else if db_bg_error D2 = Ok \<or> is_retryable (db_bg_error D2) then D2\<lparr> db_bg_error := st \<rparr> else D2)"
  shows "flush_kept content D [x, y] E' D' \<and> flush_ended st D D'"
proof -
  note wc = write_attempts_counted [OF w P(2) r(2) cnt]
  have D1: "db_version D1 = db_version D" "db_mem D1 = db_mem D" "db_imm D1 = db_imm D" "reads_are_blocked D1 = reads_are_blocked D"
      "db_next_file_number D \<le> db_next_file_number D1"
    using wc by (cases D, cases D1, simp add: reads_are_blocked_def)+
  show ?thesis
  proof (cases o1)
    case (Inl e)
    then have "st \<noteq> Ok" "E' = E" "D2 = D1" using wc fin by auto
    then show ?thesis using D1 D' by (auto simp: reads_are_blocked_def intro!: flush_kept_same [OF s])
  next
    case (Inr wr)
    have wr: "db_next_file_number D \<le> wr_file_number wr" "wr_file_number wr < db_next_file_number D1"
      and so: "sealed_object provider (wo_tier_for W (mt_creation_time_ms m)) (r_bytes r) E wr E1"
      and res: "st = applied" "E' = E1" using wc fin Inr by auto
    have put: "\<exists>store n payload. db_next_file_number D \<le> n \<and> E1 = put_object store (sst_object_name n) payload E"
      using so wr(1) unfolding sealed_object_def by blast
    show ?thesis
    proof (cases "applied = Ok")
      case True
      have "list_all2 memtable_source (memtables D1) [x, y]" using s D1 by (simp add: sound_def memtables_def)
      with put have s1: "sound E1 content D1 [x, y]" using D1 by (intro sound_put [OF s]) auto
      have unused: "e_readers E (wr_file_number wr) = None" "\<And>sid st. e_store_for E sid = Some st \<Longrightarrow> cache_fresh st (wr_file_number wr)"
        using s wr(1) by (auto simp: sound_def)
      have pl: "placed_in E1 (wo_sst W) (fst y) False (snd y) (flushed_file W m r wr)"
        using placed_flushed [OF r f P(2,1) so unused tier] .
      have old: "\<forall>l. \<forall>g \<in> set (files_at (db_version D1) l). fm_file_number g < wr_file_number wr"
        using s wr(1) D1(1) by (fastforce simp: sound_def)
      have "D' = (apply_edit Ok (VersionEdit\<lparr> ve_added := [flushed_file W m r wr] \<rparr>) D1)\<lparr> db_imm := None \<rparr>"
        using True Inr fin D' by simp
      from flush_installed [OF s1 m(2) n _ _ r(1) pl old wr(2) this] f
      have "flush_kept content D1 [x, y] E1 D'" by (simp add: flushable_def ranges_fit_def)
      then show ?thesis using D1 res True D' by (simp add: flush_kept_def stack_of_def)
    next
      case False
      then have "D2 = D1" using fin Inr by (simp add: apply_edit_def)
      then show ?thesis using False res put D1 D' by (auto simp: reads_are_blocked_def intro!: flush_kept_same [OF s])
    qed
  qed
qed

definition puts_succeed :: "db_env \<Rightarrow> bool" where
  "puts_succeed E \<longleftrightarrow> (\<forall>store name payload. e_put E store name payload = Ok)"

lemma kAttempts_Suc: "kAttempts = Suc 15"
  by (simp add: kAttempts_def)

lemma write_attempts_succeeds:
  assumes "puts_succeed E" and "provider_ok provider" and "length bs < 2 ^ 32"
    and "write_attempts kAttempts provider store bs True E D = (x, E', D')"
  shows "\<exists>wr. x = Inr wr"
proof -
  obtain C md sealed where "p_create provider (db_next_file_number D) = Inr (C, md)" "seal_object C bs = Inr sealed"
    using assms(2,3) unfolding provider_ok_def by blast
  then show ?thesis using assms(1) assms(4) [unfolded kAttempts_Suc write_attempts.simps] by (auto simp: puts_succeed_def Let_def)
qed

lemma run_one_flush_keeps:
  assumes s: "sound E content D mss" and t: "flush_target W E D" and f: "\<forall>m. db_imm D = Some m \<longrightarrow> flushable W E (memtable_entries m, mt_range_tombstones m)"
    and run: "run_one_flush W applied E D = (freed, st, E', D')"
  shows "flush_kept content D mss E' D' \<and> flush_ended st D D' \<and> (applied = Ok \<and> puts_succeed E \<longrightarrow> st = Ok)"
proof (cases "db_imm D")
  case None
  then show ?thesis using run s by (auto simp: run_one_flush_def intro!: flush_keptI)
next
  case (Some m)
  from sound_imm [OF s Some] obtain x y where mss: "mss = [x, y]" and ms: "memtable_source (db_mem D) x" "memtable_source m y" .
  obtain provider where P: "e_provider_for E (e_primary E) = Some provider" "provider_ok provider"
    and tier: "e_store_for E (wo_tier_for W (mt_creation_time_ms m)) \<noteq> None"
    and cnt: "max (unat (db_next_file_number D)) (10 ^ 12) + kAttempts < 2 ^ 64"
    using t unfolding flush_target_def by blast
  have L: "codecs_ok (e_codecs E)" "codecs_total (e_codecs E)" using s by (simp_all add: sound_def)
  have mt: "memtable_entries m = fst y" "mt_range_tombstones m = snd y"
    using ms(2) memtable_entries_holds(1) by (auto simp: memtable_source_def)
  have fy: "flushable W E (fst y, snd y)" using f Some mt by simp
  then have op: "openable (e_codecs E) (wo_sst W) [(k, t, v) \<leftarrow> fst y. \<not> (False \<and> t = Delete)] (snd y)"
    and n: "length (snd y) < 2 ^ 64" by (simp_all add: flushable_def)
  have n2: "length (fst y) < 2 ^ 64" using fy writable_length by (auto simp: flushable_def openable_def)
  from sst_opens [OF L op n] obtain r where r: "build_sst (e_codecs E) (fst y) Ok (wo_sst W) False (snd y) = Inr r" "length (r_bytes r) < 2 ^ 32"
    by metis
  show ?thesis
  proof (cases "r_num_entries r = 0 \<and> r_num_range_tombstones r = 0")
    case True
    then have y: "y = ([], [])"
      using build_sst_meta(1,2) [OF r(1) n2 n] of_nat_positive [of "length (fst y)"] of_nat_positive [of "length (snd y)"] n n2
      by (cases y) auto
    have D': "D' = D\<lparr> db_imm := None \<rparr>" "E' = E" "st = Ok" using run Some r mt True by (auto simp: run_one_flush_def flush_memtable_def)
    have "sound E content D' [x]" using ms(1) by (intro sound_put [OF s]) (auto simp: D' memtables_def)
    moreover have "answers (stack_of content D' [x]) = answers (stack_of content D mss)"
      by (cases x) (simp add: mss y D' stack_of_def answers_def fun_eq_iff split: option.splits)
    ultimately show ?thesis using D' by (auto simp: reads_are_blocked_def intro!: flush_keptI)
  next
    case False
    obtain o1 E1 D1 where w: "write_attempts kAttempts provider (wo_tier_for W (mt_creation_time_ms m)) (r_bytes r) True E D = (o1, E1, D1)"
      by (cases "write_attempts kAttempts provider (wo_tier_for W (mt_creation_time_ms m)) (r_bytes r) True E D") auto
    have fm: "flush_memtable W applied m E D = (case o1 of Inl e \<Rightarrow> (e, E1, D1)
        | Inr wr \<Rightarrow> (applied, E1, apply_edit applied (VersionEdit\<lparr> ve_added := [flushed_file W m r wr] \<rparr>) D1))"
      unfolding flush_memtable_def write_new_sst_def using r(1) mt False P w by (auto split: sum.splits)
    obtain D2 where D2: "flush_memtable W applied m E D = (st, E', D2)"
      and D': "D' = (if st = Ok then D2\<lparr> db_imm := None \<rparr>
        else if db_bg_error D2 = Ok \<or> is_retryable (db_bg_error D2) then D2\<lparr> db_bg_error := st \<rparr> else D2)"
      using run Some by (auto simp: run_one_flush_def split: prod.splits)
    have "st = Ok" if "applied = Ok" "puts_succeed E"
      using write_attempts_succeeds [OF that(2) P(2) r(2) w] that(1) fm D2 by auto
    then show ?thesis unfolding mss
      using flush_written [OF s [unfolded mss] Some ms(2) P tier cnt fy n2 r w fm [unfolded D2] D'] by blast
  qed
qed


text \<open>
  [C2] A flush changes no answer, when the table of the frozen memtable is within the limits of the reader
  (\<open>flushable\<close>): keys and values are within the limits that every write is checked against, an estimate
  of the file is below the 2 GiB of the codecs, and its index block, which has an entry for each data
  block, and its block of range tombstones are within what the reader lets a block be. With an index
  beyond that the flush writes a table that does not open. With the default options entries of 64 MiB in all, 20
  bytes for each of them counted in, with keys of up to 28 bytes and no range tombstones, are within them
  (\<open>default_memtable_flushable\<close>). The instance is \<open>sound\<close>: its files read as written and have numbers
  below the counter; and \<open>flush_target\<close> says that the provider and the stores of the tiers exist. Whatever the store answers to
  the put, whatever names it lists, and whether or not the manifest write succeeds: after
  \<open>run_one_flush\<close> every key reads as it did before. If it returns \<open>Ok\<close> the frozen memtable is gone and its entries and range tombstones are read from the table that
  was built, sealed and installed in its place; otherwise the memtable is kept and no file was added. It does
  return \<open>Ok\<close> when the store takes the object and the manifest write lands.
\<close>

theorem flush_changes_no_answer:
  assumes "sound E content D mss" and "flush_target W E D" 
    and "\<forall>m. db_imm D = Some m \<longrightarrow> flushable W E (memtable_entries m, mt_range_tombstones m)"
    and "\<not> reads_are_blocked D" and "reads_as E D g"
    and "run_one_flush W applied E D = (freed, s, E', D')"
  shows "reads_as E' D' g \<and> (\<exists>content' mss'. sound E' content' D' mss')
    \<and> (if s = Ok then db_imm D' = None else db_imm D' = db_imm D \<and> db_version D' = db_version D)
    \<and> (applied = Ok \<and> puts_succeed E \<longrightarrow> s = Ok)"
proof -
  note k = run_one_flush_keeps [OF assms(1-3,6)]
  then obtain content' mss' where s': "sound E' content' D' mss'" "answers (stack_of content' D' mss') = answers (stack_of content D mss)"
    "v_truncation_point (db_version D') = v_truncation_point (db_version D)" "reads_are_blocked D' = reads_are_blocked D"
    unfolding flush_kept_def by blast
  have "reads_as E' D' g"
    using reads_as_transfer [OF sound_intact [OF assms(1)] sound_intact [OF s'(1)] assms(4) _ s'(3,2) assms(5)] s'(4) assms(4) by simp
  then show ?thesis using s'(1) k by blast
qed


section \<open>Witnesses\<close>

definition flush_env :: db_env where
  "flush_env = (read_env (sample_reader, plain_env []))\<lparr> e_readers := Map.empty, e_store_for := (\<lambda>_. Some (plain_env [])) \<rparr>"

definition flush_db :: "memtable \<Rightarrow> db" where
  "flush_db m = (read_db SkiplistMemtable)\<lparr> db_imm := Some m, db_version := empty_version \<rparr>"

lemma no_encryption_provider_ok: "provider_ok NoEncryptionProvider"
  using no_encryption_ok seal_none by (auto simp: provider_ok_def NoEncryptionProvider_def)

lemma flush_sample_ready: "flush_target write_sample flush_env (flush_db m)" "puts_succeed flush_env" "\<not> reads_are_blocked (flush_db m)"
  using no_encryption_provider_ok
  by (simp_all add: flush_target_def flush_env_def read_env_def flush_db_def read_db_def kAttempts_def write_sample_def
      puts_succeed_def reads_are_blocked_def)

lemma flush_sample_flushable:
  assumes "memtable_source m (read_memtable, [])"
  shows "\<forall>n. db_imm (flush_db m) = Some n \<longrightarrow> flushable write_sample flush_env (memtable_entries n, mt_range_tombstones n)"
proof -
  have "flushable write_sample flush_env (read_memtable, [])"
    using zero_run_codecs_total
    by (intro default_memtable_flushable)
       (simp_all add: flush_env_def read_env_def write_sample_def default_sst_options_def read_memtable_def sorted_keys_def entry_cost_def limit_defs)
  then show ?thesis
    using assms memtable_entries_holds(1) [of m] by (auto simp: flush_db_def memtable_source_def)
qed

lemma flush_sample_sound:
  assumes "memtable_source m (read_memtable, [])"
  shows "sound flush_env read_content (flush_db m) [([], []), (read_memtable, [])]"
  using assms fresh_source empty_version_ok zero_run_codecs_ok zero_run_codecs_total
  by (simp add: sound_def flush_env_def read_env_def flush_db_def read_db_def memtables_def partitioned_levels_def files_at_def
      empty_version_def cache_fresh_def plain_env_def)

theorem flush_changes_no_answer_witness:
  "\<exists>m freed E' D'. run_one_flush write_sample Ok flush_env (flush_db m) = (freed, Ok, E', D') \<and> db_imm D' = None
     \<and> db_get (db_tables E') D' [0x61] = Some (Inr [9], D') \<and> db_get (db_tables E') D' [0x62] = Some (Inl NotFound, D')"
proof -
  obtain m where m: "memtable_source m (read_memtable, [])" using read_memtable_source by blast
  note s = flush_sample_sound [OF m]
  obtain freed st E' D' where run: "run_one_flush write_sample Ok flush_env (flush_db m) = (freed, st, E', D')" by (metis prod_cases4)
  let ?g = "\<lambda>k. answer (map_of read_memtable k)"
  have "reads_as flush_env (flush_db m) ?g"
    using reads_as_intact [OF sound_intact [OF s] flush_sample_ready(3)]
    by (auto simp: answers_def stack_of_def flush_db_def empty_version_def truncated_def fun_eq_iff split: option.splits)
  from flush_changes_no_answer [OF s flush_sample_ready(1) flush_sample_flushable [OF m] flush_sample_ready(3) this run]
  have "reads_as E' D' ?g \<and> st = Ok \<and> db_imm D' = None" using flush_sample_ready(2) by auto
  then show ?thesis
    using run by (intro exI [of _ m] exI [of _ freed] exI [of _ E'] exI [of _ D']) (simp add: reads_as_def read_memtable_def answer_def)
qed

end
