(* ===== verification/Picker.thy ===== *)
theory Picker
  imports Version
begin

text \<open>
  src/db/level\_config.cpp and src/compact/picker.cpp: the levels of a configuration, and the choice of the
  files a compaction merges. The scores of the levels are floating point numbers; the choice only
  compares them, so they are an argument, of any linear order, and not kept with the compaction.

  The loop that closes the inputs under overlap need not end, and the model says so: \<open>None\<close> is a call that
  does not return.
\<close>

section \<open>Level configuration\<close>

record level_options =
  lo_compression :: compression
  lo_max_bytes :: "u64 option"
  lo_max_files :: "int option"
  lo_slowdown_at :: "int option"
  lo_stop_at :: "int option"
  lo_target_file_bytes :: u64

definition LevelOptions :: level_options where
  "LevelOptions = \<lparr> lo_compression = None_codec, lo_max_bytes = None, lo_max_files = None, lo_slowdown_at = None,
     lo_stop_at = None, lo_target_file_bytes = push_bit 20 16 \<rparr>"

record resolved_level =
  rl_level :: nat
  rl_compression :: compression
  rl_max_bytes :: "u64 option"
  rl_max_files :: "int option"
  rl_slowdown_at :: "int option"
  rl_stop_at :: "int option"
  rl_target_file_bytes :: u64

fun geometric_loop :: "u64 \<Rightarrow> u64 \<Rightarrow> int \<Rightarrow> int list \<Rightarrow> (int \<times> level_options) list" where
  "geometric_loop capacity multiplier n_levels [] = []"
| "geometric_loop capacity multiplier n_levels (level # ls) =
     (if level \<noteq> n_levels - 1
      then (level, LevelOptions\<lparr> lo_max_bytes := Some capacity \<rparr>) # geometric_loop (capacity * multiplier) multiplier n_levels ls
      else (level, LevelOptions) # geometric_loop capacity multiplier n_levels ls)"

definition geometric :: "u64 \<Rightarrow> int \<Rightarrow> int \<Rightarrow> (int \<times> level_options) list" where
  "geometric base multiplier n_levels =
     (0, LevelOptions\<lparr> lo_max_files := Some 4, lo_slowdown_at := Some 8, lo_stop_at := Some 12 \<rparr>)
       # geometric_loop base (of_int multiplier) n_levels [1..n_levels - 1]"

definition resolved_entry :: "nat \<Rightarrow> level_options \<Rightarrow> resolved_level" where
  "resolved_entry level opts =
     \<lparr> rl_level = level, rl_compression = lo_compression opts, rl_max_bytes = lo_max_bytes opts, rl_max_files = lo_max_files opts,
       rl_slowdown_at = lo_slowdown_at opts, rl_stop_at = lo_stop_at opts, rl_target_file_bytes = lo_target_file_bytes opts \<rparr>"

fun resolve_loop :: "(int \<times> level_options) list \<Rightarrow> level_options option \<Rightarrow> nat list \<Rightarrow> resolved_level list res" where
  "resolve_loop levels inherited [] = Inr []"
| "resolve_loop levels inherited (level # ls) =
     (let inherited = (case map_of levels (int level) of Some opts \<Rightarrow> Some opts | None \<Rightarrow> inherited) in
      case inherited of
        None \<Rightarrow> Inl Config
      | Some opts \<Rightarrow>
          (case resolve_loop levels inherited ls of
             Inl s \<Rightarrow> Inl s
           | Inr entries \<Rightarrow> Inr (resolved_entry level opts # entries)))"

text \<open>A \<open>std::map\<close> from levels to options is an association list in key order.\<close>

definition resolve_levels :: "(int \<times> level_options) list \<Rightarrow> resolved_level list res" where
  "resolve_levels levels =
     (if levels = [] then Inl Config
      else
        let highest = fst (last levels) in
        if highest < 0 \<or> fst (hd levels) < 0 then Inl Config
        else case resolve_loop levels None [0..<nat highest + 1] of
          Inl s \<Rightarrow> Inl s
        | Inr resolved \<Rightarrow> if rl_max_bytes (last resolved) \<noteq> None then Inl Config else Inr resolved)"

section \<open>Selecting files\<close>

definition is_overlapping_level :: "nat \<Rightarrow> resolved_level \<Rightarrow> bool" where
  "is_overlapping_level level config \<longleftrightarrow> level = 0 \<or> rl_max_files config \<noteq> None"

fun widen :: "file_metadata list \<Rightarrow> bytes \<Rightarrow> bytes \<Rightarrow> bytes \<times> bytes" where
  "widen [] lo up = (lo, up)"
| "widen (f # fs) lo up =
     widen fs (if lo = [] \<or> effective_smallest f < lo then effective_smallest f else lo)
       (if up = [] \<or> up < effective_largest f then effective_largest f else up)"

definition files_bytes :: "file_metadata list \<Rightarrow> u64" where
  "files_bytes files = fold (\<lambda>f bytes. bytes + fm_file_bytes f) files 0"

partial_function (option) transitive_loop ::
    "version \<Rightarrow> nat \<Rightarrow> bytes \<Rightarrow> bytes \<Rightarrow> file_metadata list \<Rightarrow> file_metadata list option" where
  "transitive_loop v level lo up selected =
     (let found = overlapping_inclusive v level lo up in
      if length found = length selected then Some found
      else
        case widen found lo up of
          (widened_lo, widened_up) \<Rightarrow>
            if widened_lo = lo \<and> widened_up = up then Some found
            else transitive_loop v level widened_lo widened_up found)"

declare transitive_loop.simps [code]

definition transitive_overlap :: "version \<Rightarrow> nat \<Rightarrow> bytes \<Rightarrow> bytes \<Rightarrow> file_metadata list option" where
  "transitive_overlap v level lo up = transitive_loop v level lo up []"

fun keep_loop :: "file_metadata list \<Rightarrow> u64 \<Rightarrow> u64 list \<Rightarrow> u64 \<Rightarrow> u64 list \<Rightarrow> u64 list" where
  "keep_loop inputs budget keep bytes [] = keep"
| "keep_loop inputs budget keep bytes (number # numbers) =
     (case find (\<lambda>f. fm_file_number f = number) inputs of
        None \<Rightarrow> keep
      | Some f \<Rightarrow>
          if keep \<noteq> [] \<and> budget < bytes + fm_file_bytes f then keep
          else keep_loop inputs budget (keep @ [number]) (bytes + fm_file_bytes f) numbers)"

definition trim_to_budget :: "file_metadata list \<Rightarrow> u64 \<Rightarrow> bool \<times> file_metadata list" where
  "trim_to_budget inputs budget =
     (if budget = 0 \<or> files_bytes inputs \<le> budget then (False, inputs)
      else
        let keep = keep_loop inputs budget [] 0 (sort (map fm_file_number inputs))
        in (True, filter (\<lambda>f. fm_file_number f \<in> set keep) inputs))"

definition seed_after_pointer :: "file_metadata list \<Rightarrow> bytes \<Rightarrow> file_metadata option" where
  "seed_after_pointer files pointer =
     (case find (\<lambda>f. pointer = [] \<or> pointer < fm_largest_key f) files of
        Some f \<Rightarrow> Some f
      | None \<Rightarrow> (case files of [] \<Rightarrow> None | f # _ \<Rightarrow> Some f))"

section \<open>Compactions\<close>

record compaction =
  cp_level :: nat
  cp_output_level :: nat
  cp_inputs :: "file_metadata list"
  cp_overlaps :: "file_metadata list"
  cp_grandparents :: "file_metadata list"
  cp_output_is_bottommost :: bool
  cp_trivial_move :: bool
  cp_triggered_by_density :: bool
  cp_inputs_trimmed :: bool

definition max_grandparent_overlap_bytes :: "resolved_level \<Rightarrow> u64" where
  "max_grandparent_overlap_bytes output_level = rl_target_file_bytes output_level * 10"

definition all_inputs :: "compaction \<Rightarrow> file_metadata list" where
  "all_inputs c = cp_inputs c @ cp_overlaps c"

definition cp_min_write_time_ms :: "compaction \<Rightarrow> u64" where
  "cp_min_write_time_ms c =
     fold (\<lambda>f oldest. if oldest = 0 \<or> fm_min_write_time_ms f < oldest then fm_min_write_time_ms f else oldest) (all_inputs c) 0"

definition cp_max_write_time_ms :: "compaction \<Rightarrow> u64" where
  "cp_max_write_time_ms c =
     fold (\<lambda>f newest. if newest < fm_max_write_time_ms f then fm_max_write_time_ms f else newest) (all_inputs c) 0"

definition effective_hull :: "compaction \<Rightarrow> bytes \<times> bytes" where
  "effective_hull c = widen (all_inputs c) [] []"

definition cp_largest_key :: "compaction \<Rightarrow> bytes" where
  "cp_largest_key c =
     fold (\<lambda>f largest. if largest = [] \<or> largest < fm_largest_key f then fm_largest_key f else largest) (all_inputs c) []"

definition is_bottommost_for_range :: "version \<Rightarrow> nat \<Rightarrow> nat \<Rightarrow> bytes \<Rightarrow> bytes \<Rightarrow> bool" where
  "is_bottommost_for_range v output_level last_level lo up =
     list_all (\<lambda>level. overlapping_inclusive v level lo up = []) [output_level + 1..<last_level + 1]"

text \<open>The level with the highest score above one, with whether density decided it.\<close>

fun choose_level ::
    "version \<Rightarrow> (nat \<Rightarrow> 's \<times> 's) \<Rightarrow> 's \<Rightarrow> nat list \<Rightarrow> (nat \<times> 's \<times> bool) option \<Rightarrow> (nat \<times> 's :: linorder \<times> bool) option" where
  "choose_level v scores one [] chosen = chosen"
| "choose_level v scores one (level # levels) chosen =
     choose_level v scores one levels
       (if file_count v level = 0 then chosen
        else
          let (by_size, by_density) = scores level; score = max by_size by_density in
          if score \<le> one then chosen
          else case chosen of
            None \<Rightarrow> Some (level, score, by_size < by_density)
          | Some (_, chosen_score, _) \<Rightarrow>
              if chosen_score < score then Some (level, score, by_size < by_density) else chosen)"

definition oldest_file :: "file_metadata list \<Rightarrow> file_metadata" where
  "oldest_file files = fold (\<lambda>f seed. if fm_file_number f < fm_file_number seed then f else seed) files (hd files)"

text \<open>The files at the source level: the closure of the oldest, trimmed, or the next after the pointer.\<close>

definition pick_inputs :: "version \<Rightarrow> nat \<Rightarrow> bool \<Rightarrow> u64 \<Rightarrow> (bool \<times> file_metadata list) option option" where
  "pick_inputs v level overlapping max_compaction_bytes =
     (let files = files_at v level in
      if overlapping
      then
        let seed = oldest_file files in
        map_option (\<lambda>closure. Some (trim_to_budget closure max_compaction_bytes))
          (transitive_overlap v level (effective_smallest seed) (effective_largest seed))
      else
        let pointer = (case map_of (v_compaction_pointers v) level of None \<Rightarrow> [] | Some p \<Rightarrow> p) in
        Some (map_option (\<lambda>seed. (False, [seed])) (seed_after_pointer files pointer)))"

text \<open>The inputs with the files of their level that fall inside the output, if the budget allows them.\<close>

definition expand_inputs ::
    "version \<Rightarrow> nat \<Rightarrow> bool \<Rightarrow> u64 \<Rightarrow> file_metadata list \<Rightarrow> file_metadata list \<Rightarrow> bytes \<Rightarrow> bytes \<Rightarrow> file_metadata list" where
  "expand_inputs v level overlapping max_compaction_bytes inputs overlaps lo up =
     (if overlaps \<noteq> [] \<and> \<not> overlapping
      then
        let (expanded_lo, expanded_up) = widen overlaps lo up;
            expanded = overlapping_inclusive v level expanded_lo expanded_up in
        if length inputs < length expanded \<and> files_bytes expanded + files_bytes overlaps \<le> max_compaction_bytes
        then
          let (check_lo, check_up) = widen expanded expanded_lo expanded_up;
              reoverlap = overlapping_inclusive v (level + 1) check_lo check_up in
          if length reoverlap = length overlaps then expanded else inputs
        else inputs
      else inputs)"

definition finish_pick ::
    "version \<Rightarrow> resolved_level list \<Rightarrow> nat \<Rightarrow> bool \<Rightarrow> bool \<Rightarrow> file_metadata list \<Rightarrow> file_metadata list \<Rightarrow> compaction" where
  "finish_pick v config level by_density trimmed inputs overlaps =
     (let final = length config - 1;
          c = \<lparr> cp_level = level, cp_output_level = level + 1, cp_inputs = inputs, cp_overlaps = overlaps, cp_grandparents = [],
                cp_output_is_bottommost = False, cp_trivial_move = False, cp_triggered_by_density = by_density,
                cp_inputs_trimmed = trimmed \<rparr>;
          (lo, up) = effective_hull c;
          grandparents = (if level + 2 \<le> final then overlapping_inclusive v (level + 2) lo up else []);
          bottommost = is_bottommost_for_range v (level + 1) final lo up;
          drops_nothing = (\<not> bottommost \<or> fm_num_tombstones (hd inputs) = 0 \<and> fm_num_range_tombstones (hd inputs) = 0)
      in c\<lparr> cp_grandparents := grandparents, cp_output_is_bottommost := bottommost,
            cp_trivial_move := length inputs = 1 \<and> overlaps = [] \<and> drops_nothing
              \<and> files_bytes grandparents < max_grandparent_overlap_bytes (config ! (level + 1)) \<rparr>)"

definition pick_compaction ::
    "version \<Rightarrow> resolved_level list \<Rightarrow> u64 \<Rightarrow> (nat \<Rightarrow> 's \<times> 's) \<Rightarrow> 's :: linorder \<Rightarrow> compaction option option" where
  "pick_compaction v config max_compaction_bytes scores one =
     (if length config < 2 then Some None
      else case choose_level v scores one [0..<length config - 1] None of
        None \<Rightarrow> Some None
      | Some (level, _, by_density) \<Rightarrow>
          let overlapping = is_overlapping_level level (config ! level) in
          (case pick_inputs v level overlapping max_compaction_bytes of
             None \<Rightarrow> None
           | Some None \<Rightarrow> Some None
           | Some (Some (trimmed, inputs)) \<Rightarrow>
               let (lo, up) = widen inputs (effective_smallest (hd inputs)) (effective_largest (hd inputs));
                   overlaps = overlapping_inclusive v (level + 1) lo up;
                   inputs = expand_inputs v level overlapping max_compaction_bytes inputs overlaps lo up
               in Some (Some (finish_pick v config level by_density trimmed inputs overlaps))))"


section \<open>Overlap\<close>

text \<open>
  A file that reaches from one nonempty key to another. The selection takes an empty bound for one that is
  not known yet, so it is only right for files like this.
\<close>

definition spanned :: "file_metadata \<Rightarrow> bool" where
  "spanned f \<longleftrightarrow> effective_smallest f \<noteq> [] \<and> effective_smallest f \<le> effective_largest f"

definition overlaps_file :: "file_metadata \<Rightarrow> file_metadata \<Rightarrow> bool" where
  "overlaps_file f g \<longleftrightarrow> effective_smallest f \<le> effective_largest g \<and> effective_smallest g \<le> effective_largest f"

definition inside :: "bytes \<Rightarrow> bytes \<Rightarrow> file_metadata \<Rightarrow> bool" where
  "inside lo up f \<longleftrightarrow> lo \<le> effective_smallest f \<and> effective_largest f \<le> up"

lemma spanned_ends: "spanned f \<Longrightarrow> effective_smallest f \<noteq> [] \<and> effective_largest f \<noteq> []"
  by (auto simp: spanned_def)

lemma inside_mono: "inside lo up f \<Longrightarrow> lo' \<le> lo \<Longrightarrow> up \<le> up' \<Longrightarrow> inside lo' up' f"
  by (auto simp: inside_def)

lemma widen_spanned:
  "\<forall>f \<in> set fs. spanned f \<Longrightarrow> lo \<noteq> [] \<Longrightarrow> up \<noteq> [] \<Longrightarrow> widen fs lo up = (lo', up') \<Longrightarrow>
   lo' \<noteq> [] \<and> up' \<noteq> [] \<and> lo' \<le> lo \<and> up \<le> up' \<and> (\<forall>f \<in> set fs. inside lo' up' f)"
proof (induction fs arbitrary: lo up)
  case (Cons f fs)
  let ?lo = "if effective_smallest f < lo then effective_smallest f else lo"
  let ?up = "if up < effective_largest f then effective_largest f else up"
  have ne: "?lo \<noteq> []" "?up \<noteq> []" using Cons.prems(1-3) spanned_ends by auto
  have w: "widen fs ?lo ?up = (lo', up')" using Cons.prems(2-4) by simp
  have ih: "lo' \<noteq> [] \<and> up' \<noteq> [] \<and> lo' \<le> ?lo \<and> ?up \<le> up' \<and> (\<forall>f \<in> set fs. inside lo' up' f)"
    using Cons.IH [OF _ ne w] Cons.prems(1) by simp
  moreover have "?lo \<le> lo" "up \<le> ?up" "inside ?lo ?up f" by (auto simp: inside_def not_less)
  ultimately show ?case using inside_mono [of ?lo ?up f lo' up'] by (auto dest: order_trans)
qed simp

lemma widen_hull:
  assumes "\<forall>f \<in> set fs. spanned f" and "widen fs [] [] = (lo, up)"
  shows "\<forall>f \<in> set fs. inside lo up f"
proof (cases fs)
  case (Cons f fs')
  have "widen fs' (effective_smallest f) (effective_largest f) = (lo, up)" using assms(2) Cons by simp
  with widen_spanned [of fs' "effective_smallest f" "effective_largest f" lo up] assms(1) Cons spanned_ends [of f]
  show ?thesis by (auto simp: inside_def)
qed simp

lemma filter_mono_length: "(\<And>x. P x \<Longrightarrow> Q x) \<Longrightarrow> length (filter P xs) \<le> length (filter Q xs)"
  by (induction xs) (auto simp: le_SucI)

lemma filter_same_length:
  assumes "\<And>x. P x \<Longrightarrow> Q x" and "length (filter P xs) = length (filter Q xs)"
  shows "filter P xs = filter Q xs"
  using assms(2)
proof (induction xs)
  case (Cons x xs)
  then show ?case using filter_mono_length [of P Q xs] assms(1) by (auto split: if_splits)
qed simp

lemma overlapping_mono:
  assumes "lo' \<le> lo" and "up \<le> up'"
  shows "length (overlapping_inclusive v l lo up) \<le> length (overlapping_inclusive v l lo' up')"
    and "length (overlapping_inclusive v l lo up) = length (overlapping_inclusive v l lo' up') \<Longrightarrow>
      overlapping_inclusive v l lo up = overlapping_inclusive v l lo' up'"
proof -
  have m: "\<not> effective_largest f < lo \<and> \<not> up < effective_smallest f \<Longrightarrow> \<not> effective_largest f < lo' \<and> \<not> up' < effective_smallest f" for f
    using assms by auto
  show "length (overlapping_inclusive v l lo up) \<le> length (overlapping_inclusive v l lo' up')"
    unfolding overlapping_inclusive_def using m by (rule filter_mono_length)
  show "overlapping_inclusive v l lo up = overlapping_inclusive v l lo' up'"
    if "length (overlapping_inclusive v l lo up) = length (overlapping_inclusive v l lo' up')"
    using m that unfolding overlapping_inclusive_def by (rule filter_same_length)
qed

lemma in_overlapping:
  "f \<in> set (overlapping_inclusive v l lo up) \<longleftrightarrow> f \<in> set (files_at v l) \<and> lo \<le> effective_largest f \<and> effective_smallest f \<le> up"
  by (auto simp: overlapping_inclusive_def not_less)

text \<open>The files the closure ends with: all that reach into a range which holds every one of them whole.\<close>

definition closed_range :: "version \<Rightarrow> nat \<Rightarrow> bytes \<Rightarrow> bytes \<Rightarrow> file_metadata list \<Rightarrow> bool" where
  "closed_range v l lo up S \<longleftrightarrow>
     (\<exists>lo' up'. lo' \<le> lo \<and> up \<le> up' \<and> S = overlapping_inclusive v l lo' up' \<and> (\<forall>f \<in> set S. inside lo' up' f))"

lemma closed_range_mono: "closed_range v l lo' up' S \<Longrightarrow> lo' \<le> lo \<Longrightarrow> up \<le> up' \<Longrightarrow> closed_range v l lo up S"
  unfolding closed_range_def by (blast intro: order_trans)

lemma closed_range_closed:
  assumes "closed_range v l lo up S" and "f \<in> set S" and "g \<in> set (files_at v l)" and "overlaps_file f g"
  shows "g \<in> set S"
proof -
  obtain lo' up' where S: "S = overlapping_inclusive v l lo' up'" "inside lo' up' f"
    using assms(1,2) by (auto simp: closed_range_def)
  have "lo' \<le> effective_largest g" "effective_smallest g \<le> up'"
    using S(2) assms(4) by (auto simp: inside_def overlaps_file_def)
  then show ?thesis using S(1) assms(3) by (simp add: in_overlapping)
qed

lemma transitive_loop_returns:
  assumes "\<forall>f \<in> set (files_at v l). spanned f" and "lo \<noteq> []" and "up \<noteq> []"
    and "selected = [] \<or> (\<exists>lo0 up0. selected = overlapping_inclusive v l lo0 up0 \<and> lo \<le> lo0 \<and> up0 \<le> up
      \<and> (\<forall>f \<in> set selected. inside lo up f))"
  shows "\<exists>S. transitive_loop v l lo up selected = Some S \<and> closed_range v l lo up S"
  using assms(2-)
proof (induction "length (files_at v l) - length selected" arbitrary: lo up selected rule: less_induct)
  case less
  let ?found = "overlapping_inclusive v l lo up"
  have sp: "\<forall>f \<in> set ?found. spanned f" using assms(1) by (simp add: in_overlapping)
  have le: "length selected \<le> length ?found" using less.prems(3) overlapping_mono(1) by auto
  obtain lo' up' where w: "widen ?found lo up = (lo', up')" by (cases "widen ?found lo up")
  note ww = widen_spanned [OF sp less.prems(1,2) w]
  consider (same) "length ?found = length selected" | (stable) "length ?found \<noteq> length selected" "lo' = lo" "up' = up"
    | (more) "length ?found \<noteq> length selected" "lo' \<noteq> lo \<or> up' \<noteq> up" by blast
  then show ?case
  proof cases
    case same
    have "\<forall>f \<in> set ?found. inside lo up f"
    proof (cases "selected = []")
      case False
      then obtain lo0 up0 where s: "selected = overlapping_inclusive v l lo0 up0" "lo \<le> lo0" "up0 \<le> up"
        "\<forall>f \<in> set selected. inside lo up f" using less.prems(3) by auto
      then have "selected = ?found" using overlapping_mono(2) [OF s(2,3), of v l] same by simp
      then show ?thesis using s(4) by simp
    qed (use same in simp)
    then show ?thesis using same by (subst transitive_loop.simps) (auto simp: closed_range_def)
  next
    case stable
    then show ?thesis using w ww by (subst transitive_loop.simps) (auto simp: closed_range_def)
  next
    case more
    have "length ?found \<le> length (files_at v l)" by (simp add: overlapping_inclusive_def)
    with le more(1) have dec: "length (files_at v l) - length ?found < length (files_at v l) - length selected" by simp
    have "\<exists>S. transitive_loop v l lo' up' ?found = Some S \<and> closed_range v l lo' up' S"
      using ww by (intro less.hyps [OF dec]) auto
    then obtain S where S: "transitive_loop v l lo' up' ?found = Some S" "closed_range v l lo' up' S" by blast
    have "transitive_loop v l lo up selected = Some S" using more w S(1) by (subst transitive_loop.simps) auto
    then show ?thesis using closed_range_mono [OF S(2)] ww by blast
  qed
qed


section \<open>Trimming\<close>

lemma keep_loop_prefix: "\<exists>j. keep_loop inputs budget keep bytes ns = keep @ take j ns"
proof (induction ns arbitrary: keep bytes)
  case (Cons n ns)
  show ?case
  proof (cases "find (\<lambda>f. fm_file_number f = n) inputs")
    case (Some f)
    obtain j where "keep_loop inputs budget (keep @ [n]) (bytes + fm_file_bytes f) ns = (keep @ [n]) @ take j ns"
      using Cons.IH by blast
    then have "keep_loop inputs budget keep bytes (n # ns) = keep @ take (if keep \<noteq> [] \<and> budget < bytes + fm_file_bytes f then 0 else Suc j) (n # ns)"
      using Some by simp
    then show ?thesis by blast
  qed (auto intro: exI [of _ 0])
qed simp

lemma keep_loop_oldest: "n \<in> fm_file_number ` set inputs \<Longrightarrow> n \<in> set (keep_loop inputs budget [] bytes (n # ns))"
proof -
  assume "n \<in> fm_file_number ` set inputs"
  then obtain f where "find (\<lambda>f. fm_file_number f = n) inputs = Some f"
    by (cases "find (\<lambda>f. fm_file_number f = n) inputs") (auto simp: find_None_iff)
  moreover obtain j where "keep_loop inputs budget [n] (bytes + fm_file_bytes f) ns = [n] @ take j ns"
    using keep_loop_prefix by blast
  ultimately show ?thesis by simp
qed

lemma trim_ok:
  assumes "trim_to_budget inputs budget = (trimmed, kept)"
  shows "set kept \<subseteq> set inputs" and "inputs \<noteq> [] \<Longrightarrow> kept \<noteq> []"
    and "f \<in> set kept \<Longrightarrow> g \<in> set inputs \<Longrightarrow> g \<notin> set kept \<Longrightarrow> fm_file_number f < fm_file_number g"
proof -
  let ?ns = "sort (map fm_file_number inputs)"
  obtain j where j: "keep_loop inputs budget [] 0 ?ns = take j ?ns"
    using keep_loop_prefix [of inputs budget "[]" 0 ?ns] by auto
  have k: "kept = inputs \<or> kept = filter (\<lambda>f. fm_file_number f \<in> set (take j ?ns)) inputs"
    using assms j by (auto simp: trim_to_budget_def Let_def split: if_splits)
  then show "set kept \<subseteq> set inputs" by auto
  show "kept \<noteq> []" if "inputs \<noteq> []"
  proof -
    have "length ?ns \<noteq> 0" using that by simp
    then obtain n ns where ns: "?ns = n # ns" by (cases ?ns) simp_all
    have "n \<in> set ?ns" unfolding ns by simp
    then have n: "n \<in> fm_file_number ` set inputs" by simp
    then obtain f where f: "f \<in> set inputs" "n = fm_file_number f" by blast
    have "n \<in> set (keep_loop inputs budget [] 0 ?ns)" unfolding ns by (rule keep_loop_oldest [OF n])
    then have "n \<in> set (take j ?ns)" unfolding j .
    then have "f \<in> set kept" using k f by auto
    then show ?thesis by auto
  qed
  show "fm_file_number f < fm_file_number g" if f: "f \<in> set kept" and g: "g \<in> set inputs" "g \<notin> set kept"
  proof -
    have n: "fm_file_number f \<in> set (take j ?ns)" "fm_file_number g \<notin> set (take j ?ns)" using k f g by auto
    have "fm_file_number g \<in> set (take j ?ns @ drop j ?ns)" using g(1) unfolding append_take_drop_id by simp
    then have "fm_file_number g \<in> set (drop j ?ns)" using n(2) unfolding set_append by blast
    moreover have "sorted (take j ?ns @ drop j ?ns)" by simp
    ultimately have "fm_file_number f \<le> fm_file_number g" using n(1) unfolding sorted_append by blast
    then show ?thesis using n by (auto simp: order_less_le)
  qed
qed

section \<open>Picking\<close>

lemma oldest_file_in: "files \<noteq> [] \<Longrightarrow> oldest_file files \<in> set files"
proof -
  have "fold (\<lambda>f s. if fm_file_number f < fm_file_number s then f else s) xs s \<in> insert s (set xs)" for xs and s :: file_metadata
    by (induction xs arbitrary: s) (auto split: if_splits)
  from this [of files "hd files"] show "oldest_file files \<in> set files" if "files \<noteq> []"
    using that unfolding oldest_file_def by (simp add: insert_absorb)
qed

lemma choose_level_in:
  "choose_level v scores one ls chosen = Some (l, r) \<Longrightarrow> (\<exists>r. chosen = Some (l, r)) \<or> l \<in> set ls \<and> files_at v l \<noteq> []"
proof (induction ls arbitrary: chosen)
  case (Cons k ls)
  from Cons.IH [OF Cons.prems [unfolded choose_level.simps]] show ?case
    by (auto simp: file_count_def Let_def split: if_splits prod.splits option.splits)
qed simp

definition well_spanned :: "version \<Rightarrow> bool" where
  "well_spanned v \<longleftrightarrow> (\<forall>l. \<forall>f \<in> set (files_at v l). spanned f)"

lemma inside_overlaps:
  "inside lo up f \<Longrightarrow> overlaps_file f g \<Longrightarrow> g \<in> set (files_at v l) \<Longrightarrow> g \<in> set (overlapping_inclusive v l lo up)"
  by (auto simp: in_overlapping inside_def overlaps_file_def)

lemma pick_inputs_ok:
  assumes "well_spanned v" and "files_at v l \<noteq> []"
  shows "\<exists>trimmed inputs. pick_inputs v l overlapping budget = Some (Some (trimmed, inputs))
    \<and> inputs \<noteq> [] \<and> set inputs \<subseteq> set (files_at v l)
    \<and> (overlapping \<longrightarrow> (\<forall>f \<in> set inputs. \<forall>g \<in> set (files_at v l) - set inputs. overlaps_file f g \<longrightarrow> fm_file_number f < fm_file_number g))"
proof (cases overlapping)
  case True
  let ?seed = "oldest_file (files_at v l)"
  have sp: "\<forall>f \<in> set (files_at v l). spanned f" using assms(1) by (simp add: well_spanned_def)
  have seed: "?seed \<in> set (files_at v l)" by (rule oldest_file_in [OF assms(2)])
  obtain S where S: "transitive_loop v l (effective_smallest ?seed) (effective_largest ?seed) [] = Some S"
    and c: "closed_range v l (effective_smallest ?seed) (effective_largest ?seed) S"
    using transitive_loop_returns [OF sp] spanned_ends [of ?seed] seed sp by blast
  obtain lo up where lo: "lo \<le> effective_smallest ?seed" "effective_largest ?seed \<le> up" "S = overlapping_inclusive v l lo up"
    using c unfolding closed_range_def by blast
  have "effective_smallest ?seed \<le> effective_largest ?seed" using sp seed by (simp add: spanned_def)
  then have "?seed \<in> set S" using lo seed by (auto simp: in_overlapping dest: order_trans)
  then have ne: "S \<noteq> []" by auto
  obtain t kept where t: "trim_to_budget S budget = (t, kept)" by fastforce
  have "pick_inputs v l overlapping budget = Some (Some (t, kept))"
    using True S t by (simp add: pick_inputs_def transitive_overlap_def Let_def)
  moreover have "set S \<subseteq> set (files_at v l)" using lo(3) by (auto simp: in_overlapping)
  moreover have "fm_file_number f < fm_file_number g"
    if f: "f \<in> set kept" and g: "g \<in> set (files_at v l) - set kept" "overlaps_file f g" for f g
  proof -
    have "g \<in> set S" using closed_range_closed [OF c _ _ g(2)] trim_ok(1) [OF t] f g(1) by auto
    then show ?thesis using trim_ok(3) [OF t f] g(1) by simp
  qed
  ultimately show ?thesis using trim_ok(1) [OF t] trim_ok(2) [OF t ne] by blast
next
  case False
  let ?p = "case map_of (v_compaction_pointers v) l of None \<Rightarrow> [] | Some p \<Rightarrow> p"
  obtain seed where "seed_after_pointer (files_at v l) ?p = Some seed" "seed \<in> set (files_at v l)"
  proof (cases "find (\<lambda>f. ?p = [] \<or> ?p < fm_largest_key f) (files_at v l)")
    case (Some f)
    then have "f \<in> set (files_at v l)" by (auto simp: find_Some_iff)
    then show thesis using that [of f] Some by (simp add: seed_after_pointer_def)
  next
    case None
    then show thesis using that assms(2) by (cases "files_at v l") (auto simp: seed_after_pointer_def)
  qed
  then show ?thesis using False by (auto simp: pick_inputs_def Let_def)
qed


lemma expand_inputs_ok:
  assumes v: "well_spanned v" and i: "inputs \<noteq> []" "set inputs \<subseteq> set (files_at v l)"
    and w: "widen inputs (effective_smallest (hd inputs)) (effective_largest (hd inputs)) = (lo, up)"
    and ov: "overlaps = overlapping_inclusive v (l + 1) lo up"
    and e: "inputs' = expand_inputs v l overlapping budget inputs overlaps lo up"
  shows "inputs' \<noteq> []" and "set inputs' \<subseteq> set (files_at v l)" and "overlapping \<Longrightarrow> inputs' = inputs"
    and "f \<in> set inputs' \<Longrightarrow> g \<in> set (files_at v (l + 1)) \<Longrightarrow> overlaps_file f g \<Longrightarrow> g \<in> set overlaps"
proof -
  have sp: "\<forall>f \<in> set (files_at v k). spanned f" for k using v by (simp add: well_spanned_def)
  have spi: "\<forall>f \<in> set inputs. spanned f" using sp i(2) by auto
  have "spanned (hd inputs)" using spi i(1) by simp
  note lo = widen_spanned [OF spi _ _ w] spanned_ends [OF this]
  have old: "g \<in> set overlaps" if "f \<in> set inputs" "g \<in> set (files_at v (l + 1))" "overlaps_file f g" for f g
    using inside_overlaps [OF _ that(3,2)] lo that(1) ov by blast
  show "overlapping \<Longrightarrow> inputs' = inputs" by (simp add: e expand_inputs_def)
  obtain elo eup where ew: "widen overlaps lo up = (elo, eup)" by fastforce
  let ?ex = "overlapping_inclusive v l elo eup"
  obtain clo cup where cw: "widen ?ex elo eup = (clo, cup)" by fastforce
  let ?re = "overlapping_inclusive v (l + 1) clo cup"
  have spo: "\<forall>f \<in> set overlaps. spanned f" using sp ov by (auto simp: in_overlapping)
  have spe: "\<forall>f \<in> set ?ex. spanned f" using sp by (auto simp: in_overlapping)
  have b1: "elo \<noteq> [] \<and> eup \<noteq> [] \<and> elo \<le> lo \<and> up \<le> eup" using widen_spanned [OF spo _ _ ew] lo by blast
  have b2: "clo \<le> elo \<and> eup \<le> cup \<and> (\<forall>f \<in> set ?ex. inside clo cup f)" using widen_spanned [OF spe _ _ cw] b1 by blast
  have cases: "inputs' = inputs \<or> inputs' = ?ex \<and> length inputs < length ?ex \<and> length ?re = length overlaps"
    unfolding e expand_inputs_def Let_def ew cw prod.case by simp
  have le: "clo \<le> lo" "up \<le> cup" using b1 b2 by (auto dest: order_trans)
  have re: "?re = overlaps" if "length ?re = length overlaps"
    using overlapping_mono(2) [OF le, of v "l + 1"] that ov by simp
  show "inputs' \<noteq> []" using cases i(1) by auto
  show "set inputs' \<subseteq> set (files_at v l)" using cases i(2) by (auto simp: in_overlapping)
  show "g \<in> set overlaps" if "f \<in> set inputs'" "g \<in> set (files_at v (l + 1))" "overlaps_file f g"
  proof -
    from cases consider "inputs' = inputs" | "inputs' = ?ex" "?re = overlaps" using re by blast
    then show ?thesis
    proof cases
      case 1
      then show ?thesis using old that by blast
    next
      case 2
      then show ?thesis using inside_overlaps [OF _ that(3,2), of clo cup] b2 that(1) by blast
    qed
  qed
qed

lemma finish_pick_fields:
  "cp_level (finish_pick v config l d t inputs overlaps) = l" "cp_output_level (finish_pick v config l d t inputs overlaps) = l + 1"
  "cp_inputs (finish_pick v config l d t inputs overlaps) = inputs" "cp_overlaps (finish_pick v config l d t inputs overlaps) = overlaps"
  by (simp_all add: finish_pick_def Let_def split: prod.splits)

lemma finish_pick_bottommost:
  assumes "\<forall>f \<in> set (inputs @ overlaps). spanned f"
    and "cp_output_is_bottommost (finish_pick v config l d t inputs overlaps)"
    and "l + 1 < k" and "k < length config" and "f \<in> set (inputs @ overlaps)" and "g \<in> set (files_at v k)"
  shows "\<not> overlaps_file f g"
proof
  assume o: "overlaps_file f g"
  obtain lo up where h: "widen (inputs @ overlaps) [] [] = (lo, up)" by fastforce
  have "inside lo up f" using widen_hull [OF assms(1) h] assms(5) by blast
  then have "g \<in> set (overlapping_inclusive v k lo up)" using inside_overlaps o assms(6) by blast
  moreover have "is_bottommost_for_range v (l + 1) (length config - 1) lo up"
    using assms(2) by (simp add: finish_pick_def effective_hull_def all_inputs_def h Let_def)
  then have "overlapping_inclusive v k lo up = []" using assms(3,4) unfolding is_bottommost_for_range_def list_all_iff by (auto simp del: upt_Suc)
  ultimately show False by simp
qed

text \<open>
  [C8] What a compaction may rely on, in a version whose files reach from nonempty keys: the picker
  returns, whatever the scores. A compaction it picks has inputs, all of one level. Where files of that
  level may overlap, each file left behind that overlaps an input is newer than it, so what stays above
  the output is newer than the output. Every file of the output level that overlaps an input is merged
  with it. And a compaction taken for bottommost, which drops tombstones, has no file below its output
  that overlaps any file it rewrites.
\<close>

theorem pick_compaction_sound:
  assumes "well_spanned v"
  shows "\<exists>picked. pick_compaction v config budget scores one = Some picked \<and>
    (case picked of None \<Rightarrow> True
     | Some c \<Rightarrow>
         cp_inputs c \<noteq> [] \<and> set (cp_inputs c) \<subseteq> set (files_at v (cp_level c)) \<and> cp_output_level c = cp_level c + 1
         \<and> (is_overlapping_level (cp_level c) (config ! cp_level c) \<longrightarrow>
              (\<forall>f \<in> set (cp_inputs c). \<forall>g \<in> set (files_at v (cp_level c)) - set (cp_inputs c).
                 overlaps_file f g \<longrightarrow> fm_file_number f < fm_file_number g))
         \<and> (\<forall>f \<in> set (cp_inputs c). \<forall>g \<in> set (files_at v (cp_output_level c)). overlaps_file f g \<longrightarrow> g \<in> set (cp_overlaps c))
         \<and> (cp_output_is_bottommost c \<longrightarrow>
              (\<forall>k. cp_output_level c < k \<and> k < length config \<longrightarrow>
                 (\<forall>f \<in> set (all_inputs c). \<forall>g \<in> set (files_at v k). \<not> overlaps_file f g))))"
proof (cases "length config < 2 \<or> choose_level v scores one [0..<length config - 1] None = None")
  case True
  then show ?thesis by (auto simp: pick_compaction_def)
next
  case False
  then obtain l sc d where ch: "choose_level v scores one [0..<length config - 1] None = Some (l, sc, d)" by auto
  have ne: "files_at v l \<noteq> []" using choose_level_in [OF ch] by auto
  let ?ov = "is_overlapping_level l (config ! l)"
  obtain t inputs where p: "pick_inputs v l ?ov budget = Some (Some (t, inputs))" "inputs \<noteq> []" "set inputs \<subseteq> set (files_at v l)"
    and newer: "?ov \<longrightarrow> (\<forall>f \<in> set inputs. \<forall>g \<in> set (files_at v l) - set inputs. overlaps_file f g \<longrightarrow> fm_file_number f < fm_file_number g)"
    using pick_inputs_ok [OF assms ne] by blast
  obtain lo up where w: "widen inputs (effective_smallest (hd inputs)) (effective_largest (hd inputs)) = (lo, up)" by fastforce
  define overlaps where "overlaps = overlapping_inclusive v (l + 1) lo up"
  define inputs' where "inputs' = expand_inputs v l ?ov budget inputs overlaps lo up"
  let ?c = "finish_pick v config l d t inputs' overlaps"
  have pick: "pick_compaction v config budget scores one = Some (Some ?c)"
    unfolding pick_compaction_def using False ch p(1) w by (simp add: overlaps_def inputs'_def Let_def)
  note x = expand_inputs_ok [OF assms p(2,3) w overlaps_def inputs'_def]
  have sp: "\<forall>f \<in> set (inputs' @ overlaps). spanned f"
    using assms x(2) by (auto simp: well_spanned_def overlaps_def in_overlapping)
  show ?thesis
    using pick x newer finish_pick_bottommost [OF sp, of v config l d t]
    by (intro exI [of _ "Some ?c"]) (auto simp: finish_pick_fields all_inputs_def)
qed


section \<open>Termination\<close>

text \<open>
  [C38] Closing the inputs under overlap ends when every file of the level reaches from a nonempty key,
  started from the reach of any of its files: the result has that file, and every file of the level that
  overlaps one of the result.
\<close>

theorem transitive_overlap_terminates:
  assumes "\<forall>f \<in> set (files_at v l). effective_smallest f \<noteq> [] \<and> effective_smallest f \<le> effective_largest f"
    and "seed \<in> set (files_at v l)"
  shows "\<exists>S. transitive_overlap v l (effective_smallest seed) (effective_largest seed) = Some S \<and> seed \<in> set S
    \<and> (\<forall>f \<in> set S. \<forall>g \<in> set (files_at v l).
         effective_smallest f \<le> effective_largest g \<and> effective_smallest g \<le> effective_largest f \<longrightarrow> g \<in> set S)"
proof -
  have sp: "\<forall>f \<in> set (files_at v l). spanned f" using assms(1) by (simp add: spanned_def)
  obtain S where S: "transitive_loop v l (effective_smallest seed) (effective_largest seed) [] = Some S"
    and c: "closed_range v l (effective_smallest seed) (effective_largest seed) S"
    using transitive_loop_returns [OF sp] spanned_ends [of seed] assms(2) sp by blast
  obtain lo up where lo: "lo \<le> effective_smallest seed" "effective_largest seed \<le> up" "S = overlapping_inclusive v l lo up"
    using c unfolding closed_range_def by blast
  have "effective_smallest seed \<le> effective_largest seed" using assms by blast
  then have "seed \<in> set S" using lo assms(2) by (auto simp: in_overlapping dest: order_trans)
  then show ?thesis using S closed_range_closed [OF c] by (auto simp: transitive_overlap_def overlaps_file_def)
qed

text \<open>
  [C39] With a file that reaches down to the empty key the picker may not return. Three files are enough:
  from the oldest the closure finds the newest and widens to its lower end; there it finds the one in
  the middle, takes its empty lower end for a bound not known yet, and is back where it started.
\<close>

theorem empty_key_hangs_picker:
  assumes files: "files_at v 0 = [newest, middle, oldest]"
    and numbers: "fm_file_number oldest < fm_file_number middle" "fm_file_number oldest < fm_file_number newest"
    and empty: "effective_smallest middle = []"
    and ends: "effective_smallest newest \<noteq> []" "effective_smallest newest \<le> effective_largest middle"
      "effective_largest middle < effective_smallest oldest" "effective_smallest oldest \<le> effective_largest newest"
      "effective_largest newest \<le> effective_largest oldest"
    and chosen: "length config = 2" "one < max (fst (scores 0)) (snd (scores 0))"
  shows "pick_compaction v config budget scores one = None"
proof -
  let ?a = "effective_smallest newest" and ?b = "effective_smallest oldest" and ?c = "effective_largest oldest"
  have lt: "?a < ?b" "?b \<le> ?c" "?a \<le> ?c" "effective_largest middle < ?c" "?b \<noteq> []" "?c \<noteq> []"
    using ends by (auto dest: order_trans less_le_trans le_less_trans)
  have low: "overlapping_inclusive v 0 ?b ?c = [newest, oldest]" "widen [newest, oldest] ?b ?c = (?a, ?c)"
    using files ends lt empty by (auto simp: overlapping_inclusive_def)
  have high: "overlapping_inclusive v 0 ?a ?c = [newest, middle, oldest]" "widen [newest, middle, oldest] ?a ?c = (?b, ?c)"
    using files ends lt empty by (auto simp: overlapping_inclusive_def)
  define cycle where "cycle w l lo up selected S \<longleftrightarrow>
      (lo = ?b \<and> length selected \<noteq> 2 \<or> lo = ?a \<and> length selected \<noteq> 3) \<and> w = v \<and> l = 0 \<and> up = ?c"
    for w and l :: nat and lo up and selected S :: "file_metadata list"
  have "\<not> cycle w l lo up selected S" if "transitive_loop w l lo up selected = Some S" for w l lo up selected S
  proof (rule transitive_loop.raw_induct [where P = "\<lambda>w l lo up selected S. \<not> cycle w l lo up selected S", OF _ that], rule notI)
    fix loop w l lo up selected S
    assume ih: "\<And>w l lo up selected S. loop w l lo up selected = Some S \<Longrightarrow> \<not> cycle w l lo up selected S"
      and step: "(let found = overlapping_inclusive w l lo up in
        if length found = length selected then Some found
        else case widen found lo up of (widened_lo, widened_up) \<Rightarrow>
          if widened_lo = lo \<and> widened_up = up then Some found else loop w l widened_lo widened_up found) = Some S"
      and "cycle w l lo up selected S"
    then have "loop v 0 ?a ?c [newest, oldest] = Some S \<or> loop v 0 ?b ?c [newest, middle, oldest] = Some S"
      using lt low high by (auto simp: cycle_def Let_def split: if_splits)
    then show False
      using ih [of v 0 ?a ?c "[newest, oldest]" S] ih [of v 0 ?b ?c "[newest, middle, oldest]" S] by (auto simp: cycle_def)
  qed
  from this [of v 0 ?b ?c "[]"] have "transitive_loop v 0 ?b ?c [] = None"
    by (cases "transitive_loop v 0 ?b ?c []") (auto simp: cycle_def)
  moreover have "oldest_file (files_at v 0) = oldest" using numbers by (auto simp: oldest_file_def files)
  ultimately have "pick_inputs v 0 True budget = None" by (simp add: pick_inputs_def transitive_overlap_def Let_def)
  moreover obtain sc d where ch: "choose_level v scores one [0..<length config - 1] None = Some (0, sc, d)"
    using chosen files by (simp add: file_count_def Let_def case_prod_beta not_le upt_rec less_max_iff_disj)
  ultimately show ?thesis unfolding pick_compaction_def ch by (simp add: chosen(1) is_overlapping_level_def)
qed

section \<open>Resolved levels\<close>

definition nearest :: "(int \<times> level_options) list \<Rightarrow> int \<Rightarrow> level_options" where
  "nearest levels l = snd (last (filter (\<lambda>(k, _). k \<le> l) levels))"

lemma filter_level_step:
  fixes i :: int
  shows "sorted_wrt (<) (map fst levels) \<Longrightarrow>
   filter (\<lambda>(k, _). k \<le> i) levels = filter (\<lambda>(k, _). k \<le> i - 1) levels @ (case map_of levels i of None \<Rightarrow> [] | Some opts \<Rightarrow> [(i, opts)])"
proof (induction levels)
  case (Cons e levels)
  obtain k opts where e: "e = (k, opts)" by (cases e)
  have gt: "k < k'" if "(k', opts') \<in> set levels" for k' opts' using Cons.prems that by (fastforce simp: e)
  have none: "map_of levels i = None" if "i \<le> k"
  proof (cases "map_of levels i")
    case (Some opts')
    from gt [OF map_of_SomeD [OF this]] that show ?thesis by simp
  qed
  have empty: "filter (\<lambda>(k, _). k \<le> j) levels = []" if "j \<le> k" for j using gt that by (force simp: filter_empty_conv)
  show ?case
    using Cons none empty [of i] empty [of "i - 1"] e by (cases "k < i") auto
qed simp

lemma nearest_step:
  assumes "sorted_wrt (<) (map fst levels)"
  shows "nearest levels i = (case map_of levels i of None \<Rightarrow> nearest levels (i - 1) | Some opts \<Rightarrow> opts)"
  unfolding nearest_def filter_level_step [OF assms, of i] by (simp split: option.splits)

lemma resolve_loop_nearest:
  assumes "sorted_wrt (<) (map fst levels)" and "l \<le> n" and "inherited = Some (nearest levels (int l - 1)) \<or> map_of levels (int l) \<noteq> None"
  shows "resolve_loop levels inherited [l..<n] = Inr (map (\<lambda>l. resolved_entry l (nearest levels (int l))) [l..<n])"
  using assms(2,3)
proof (induction "n - l" arbitrary: l inherited)
  case (Suc d)
  have opts: "(case map_of levels (int l) of Some opts \<Rightarrow> Some opts | None \<Rightarrow> inherited) = Some (nearest levels (int l))"
    using Suc.prems(2) nearest_step [OF assms(1), of "int l"] by (auto split: option.splits)
  have "[l..<n] = l # [Suc l..<n]" using Suc.hyps(2) by (simp add: upt_conv_Cons)
  moreover have "resolve_loop levels (Some (nearest levels (int l))) [Suc l..<n] = Inr (map (\<lambda>l. resolved_entry l (nearest levels (int l))) [Suc l..<n])"
    using Suc.hyps by (intro Suc.hyps(1)) auto
  ultimately show ?case using opts by simp
qed simp

text \<open>
  [C40] Resolving the levels: a configuration is accepted exactly when it configures level 0, nothing below
  it, and no capacity at the deepest level. It then has one entry per level down to the deepest, with the
  options of the nearest configured level at or above it.
\<close>

theorem resolve_levels_exact:
  assumes "sorted_wrt (<) (map fst levels)"
  shows "resolve_levels levels =
    (if levels = [] \<or> fst (hd levels) \<noteq> 0 \<or> lo_max_bytes (snd (last levels)) \<noteq> None then Inl Config
     else Inr (map (\<lambda>l. resolved_entry l (nearest levels (int l))) [0..<nat (fst (last levels)) + 1]))"
proof (cases "levels = [] \<or> fst (hd levels) < 0 \<or> fst (last levels) < 0")
  case True
  have "fst (hd levels) \<le> fst (last levels)" if "levels \<noteq> []"
    using assms that by (cases levels) (auto intro!: less_imp_le)
  then show ?thesis using True by (auto simp: resolve_levels_def Let_def)
next
  case False
  let ?n = "nat (fst (last levels)) + 1"
  have ne: "levels \<noteq> []" using False by simp
  obtain k opts rest where l: "levels = (k, opts) # rest" using ne by (cases levels) auto
  show ?thesis
  proof (cases "k = 0")
    case True
    have "filter (\<lambda>(k, _). k \<le> fst (last levels)) levels = levels"
      using assms ne by (intro filter_True) (cases levels rule: rev_cases, auto simp: sorted_wrt_append)
    then have last: "nearest levels (fst (last levels)) = snd (last levels)" by (simp add: nearest_def)
    have "resolve_loop levels None [0..<?n] = Inr (map (\<lambda>l. resolved_entry l (nearest levels (int l))) [0..<?n])"
      by (rule resolve_loop_nearest [OF assms]) (simp_all add: l True)
    then show ?thesis
      using False True ne last by (simp add: resolve_levels_def Let_def l resolved_entry_def)
  next
    case k: False
    then have "0 < k" using False l by simp
    moreover have "k < k'" if "(k', opts') \<in> set rest" for k' opts' using assms that by (fastforce simp: l)
    from this [of 0] have "0 < k \<Longrightarrow> map_of rest 0 = None" by (auto simp: map_of_eq_None_iff)
    ultimately have "map_of levels 0 = None" by (simp add: l)
    then have "resolve_loop levels None [0..<?n] = Inl Config" by (simp add: upt_conv_Cons del: upt_Suc)
    then show ?thesis using False k l by (simp add: resolve_levels_def)
  qed
qed

section \<open>Witnesses\<close>

definition span_file :: "u64 \<Rightarrow> bytes \<Rightarrow> bytes \<Rightarrow> file_metadata" where
  "span_file n lo up = sample_file\<lparr> fm_level := 0, fm_file_number := n, fm_smallest_key := lo, fm_largest_key := up \<rparr>"

definition two_levels :: "resolved_level list" where
  "two_levels = map (\<lambda>l. resolved_entry l LevelOptions) [0, 1]"

lemma span_file_ends [simp]: "effective_smallest (span_file n lo up) = lo" "effective_largest (span_file n lo up) = up"
  "fm_file_number (span_file n lo up) = n"
  by (simp_all add: span_file_def effective_smallest_def effective_largest_def sample_file_def)

lemma pick_sample_spanned: "well_spanned (Version [[span_file 9 [1] [4], span_file 8 [3] [7]], []] 10 [] [] None)"
  by (auto simp: well_spanned_def spanned_def files_at_def Version_def nth_Cons' split: if_splits)

theorem pick_compaction_sound_witness:
  "\<exists>c. pick_compaction (Version [[span_file 9 [1] [4], span_file 8 [3] [7]], []] 10 [] [] None) two_levels 0 (\<lambda>_. (2, 0)) (1 :: nat)
     = Some (Some c) \<and> cp_inputs c \<noteq> [] \<and> cp_output_level c = cp_level c + 1"
proof -
  let ?v = "Version [[span_file 9 [1] [4], span_file 8 [3] [7]], []] 10 [] [] None"
  obtain picked where p: "pick_compaction ?v two_levels 0 (\<lambda>_. (2, 0)) (1 :: nat) = Some picked"
    "case picked of None \<Rightarrow> True | Some c \<Rightarrow> cp_inputs c \<noteq> [] \<and> cp_output_level c = cp_level c + 1"
    using pick_compaction_sound [OF pick_sample_spanned, of two_levels 0 "\<lambda>_. (2, 0)" "1 :: nat"] by (auto split: option.splits)
  have "picked \<noteq> None"
    using p(1) by (auto simp: pick_compaction_def two_levels_def file_count_def files_at_def Version_def upt_rec
        is_overlapping_level_def pick_inputs_def Let_def split: option.splits prod.splits)
  then show ?thesis using p by auto
qed

theorem transitive_overlap_terminates_witness:
  "\<exists>S. transitive_overlap (Version [[span_file 9 [1] [4], span_file 8 [3] [7]], []] 10 [] [] None) 0 [3] [7] = Some S
     \<and> span_file 8 [3] [7] \<in> set S \<and> span_file 9 [1] [4] \<in> set S"
proof -
  let ?v = "Version [[span_file 9 [1] [4], span_file 8 [3] [7]], []] 10 [] [] None"
  have f: "files_at ?v 0 = [span_file 9 [1] [4], span_file 8 [3] [7]]" by (simp add: files_at_def Version_def)
  obtain S where S: "transitive_overlap ?v 0 [3] [7] = Some S" "span_file 8 [3] [7] \<in> set S"
    "\<forall>f \<in> set S. \<forall>g \<in> set (files_at ?v 0).
       effective_smallest f \<le> effective_largest g \<and> effective_smallest g \<le> effective_largest f \<longrightarrow> g \<in> set S"
    using transitive_overlap_terminates [of ?v 0 "span_file 8 [3] [7]"] by (auto simp: f)
  from S(3) [rule_format, OF S(2), of "span_file 9 [1] [4]"] S(1,2) show ?thesis by (simp add: f)
qed

theorem empty_key_hangs_picker_witness:
  "pick_compaction (Version [[span_file 9 [97] [99], span_file 8 [] [97, 53], span_file 7 [98] [99]], []] 10 [] [] None)
     two_levels 0 (\<lambda>_. (2, 0)) (1 :: nat) = None"
  by (rule empty_key_hangs_picker [of _ "span_file 9 [97] [99]" "span_file 8 [] [97, 53]" "span_file 7 [98] [99]"])
     (simp_all add: files_at_def Version_def two_levels_def)

theorem resolve_levels_exact_witness:
  "resolve_levels [(0, LevelOptions\<lparr> lo_max_bytes := Some 9 \<rparr>), (2, LevelOptions)] =
     Inr [resolved_entry 0 (LevelOptions\<lparr> lo_max_bytes := Some 9 \<rparr>), resolved_entry 1 (LevelOptions\<lparr> lo_max_bytes := Some 9 \<rparr>),
          resolved_entry 2 LevelOptions]"
  using resolve_levels_exact [of "[(0, LevelOptions\<lparr> lo_max_bytes := Some 9 \<rparr>), (2, LevelOptions)]"]
  by (simp add: LevelOptions_def nearest_def upt_rec numeral_2_eq_2)


text \<open>
  Where the picker does return with such a file, the closure may be incomplete. Here the newest file is moved
  down, past an older one that it overlaps and that stays behind, above it.
\<close>

lemma empty_key_inverts_recency:
  "\<exists>c. pick_compaction (Version [[span_file 9 [] [121], span_file 8 [97] [98], span_file 7 [120] [122]], []] 10 [] [] None)
      two_levels 0 (\<lambda>_. (2, 0)) (1 :: nat) = Some (Some c)
    \<and> cp_inputs c = [span_file 9 [] [121], span_file 7 [120] [122]]
    \<and> overlaps_file (span_file 9 [] [121]) (span_file 8 [97] [98])"
proof -
  let ?v = "Version [[span_file 9 [] [121], span_file 8 [97] [98], span_file 7 [120] [122]], []] 10 [] [] None"
  have f: "files_at ?v 0 = [span_file 9 [] [121], span_file 8 [97] [98], span_file 7 [120] [122]]" "files_at ?v (Suc 0) = []"
    by (simp_all add: files_at_def Version_def)
  have "transitive_overlap ?v 0 [120] [122] = Some [span_file 9 [] [121], span_file 7 [120] [122]]"
    unfolding transitive_overlap_def by (subst transitive_loop.simps) (simp add: overlapping_inclusive_def f Let_def)
  moreover have "oldest_file (files_at ?v 0) = span_file 7 [120] [122]" by (simp add: f oldest_file_def)
  ultimately have "pick_inputs ?v 0 True 0 = Some (Some (False, [span_file 9 [] [121], span_file 7 [120] [122]]))"
    by (simp add: pick_inputs_def trim_to_budget_def Let_def)
  then show ?thesis
    by (simp add: pick_compaction_def two_levels_def file_count_def f upt_rec is_overlapping_level_def Let_def expand_inputs_def
        finish_pick_fields overlaps_file_def split: prod.splits)
qed

end
