(* ===== verification/Manifest_Payload.thy ===== *)
theory Manifest_Payload
  imports Encryption
begin

text \<open>
  src/version/manifest\_payload.cpp: what every record of the manifest is wrapped in on its way to the
  catalog. A payload is compressed, cut into chunks and sealed under the primary provider; its header
  and its address in the manifest are bound into the associated data.

  The providers are a parameter, a map from identifiers to the functions of \<open>EncryptionProvider\<close>. The
  message that accompanies a failed open is not modelled.
\<close>

section \<open>Definitions\<close>

record provider_registry =
  rg_providers :: "bytes \<rightharpoonup> encryption_provider"
  rg_primary :: bytes
  rg_accept_plaintext :: bool

definition primary_provider :: "provider_registry \<Rightarrow> encryption_provider option" where
  "primary_provider R = rg_providers R (rg_primary R)"

definition passthrough_registry :: provider_registry where
  "passthrough_registry = \<lparr> rg_providers = [[] \<mapsto> NoEncryptionProvider], rg_primary = [], rg_accept_plaintext = False \<rparr>"

definition kPayloadHeaderBytes :: nat where "kPayloadHeaderBytes = 32"
definition kPayloadMagic :: u32 where "kPayloadMagic = 0x02564B45"
definition kHeaderVersion :: nat where "kHeaderVersion = 1"
definition kCodecNone :: u32 where "kCodecNone = 0"
definition kCodecZstd :: u32 where "kCodecZstd = 1"
definition kCompressionLevel :: int where "kCompressionLevel = 3"
definition kMaxPayloadBytes :: nat where "kMaxPayloadBytes = 256 * 2 ^ 20"

definition payload_chunk_count :: "nat \<Rightarrow> nat \<Rightarrow> nat" where
  "payload_chunk_count logical chunk_bytes =
     (if logical = 0 then 0 else (logical + chunk_bytes - 1) div chunk_bytes)"

definition payload_aad :: "nat \<Rightarrow> bytes \<Rightarrow> bytes \<Rightarrow> bytes" where
  "payload_aad chunk address header =
     put_fixed64 (of_nat chunk) @ address @ (if chunk = 0 then header else [])"

definition payload_compress :: "codec_library \<Rightarrow> bytes \<Rightarrow> (u32 \<times> bytes) res" where
  "payload_compress L plaintext =
     (case ZSTD_compress L plaintext (ZSTD_compressBound L (length plaintext)) kCompressionLevel of
        None \<Rightarrow> Inl Io
      | Some z \<Rightarrow> if length plaintext \<le> length z then Inr (kCodecNone, plaintext) else Inr (kCodecZstd, z))"

definition payload_decompress :: "codec_library \<Rightarrow> bytes \<Rightarrow> u32 \<Rightarrow> nat \<Rightarrow> bytes res" where
  "payload_decompress L packed codec plain_len =
     (if codec = kCodecNone then (if length packed \<noteq> plain_len then Inl Corrupt else Inr packed)
      else if codec \<noteq> kCodecZstd then Inl Corrupt
      else if plain_len = 0 then Inr []
      else case ZSTD_decompress L packed plain_len of
             None \<Rightarrow> Inl Corrupt
           | Some out \<Rightarrow> if length out \<noteq> plain_len then Inl Corrupt else Inr out)"

text \<open>The addresses are printed with \<open>\%012llu\<close>: decimal, padded with zeros to twelve digits.\<close>

fun decimal :: "nat \<Rightarrow> bytes" where
  "decimal n = (if n < 10 then [of_nat (48 + n)] else decimal (n div 10) @ [of_nat (48 + n mod 10)])"

declare decimal.simps [simp del]

definition decimal12 :: "u64 \<Rightarrow> bytes" where
  "decimal12 n = replicate (12 - length (decimal (unat n))) 48 @ decimal (unat n)"

definition snapshot_address :: "u64 \<Rightarrow> bytes" where
  "snapshot_address generation = [0x73, 0x6E, 0x61, 0x70, 0x23] @ decimal12 generation"

definition edit_address :: "u64 \<Rightarrow> u64 \<Rightarrow> bytes" where
  "edit_address generation sq =
     [0x65, 0x64, 0x69, 0x74, 0x23] @ decimal12 generation @ [0x23] @ decimal12 sq"

definition u16_bytes :: "nat \<Rightarrow> bytes" where
  "u16_bytes n = [of_nat n, of_nat (n div 256)]"

definition u16_at :: "bytes \<Rightarrow> nat \<Rightarrow> nat" where
  "u16_at p i = unat (p ! i) + 256 * unat (p ! (i + 1))"

definition payload_header :: "bytes \<Rightarrow> bytes \<Rightarrow> u32 \<Rightarrow> nat \<Rightarrow> nat \<Rightarrow> bytes" where
  "payload_header provider metadata codec plain_len packed_len =
     put_fixed32 kPayloadMagic @ u16_bytes kHeaderVersion @ u16_bytes (length provider)
     @ put_fixed32 (of_nat (length metadata)) @ put_fixed32 codec
     @ put_fixed64 (of_nat plain_len) @ put_fixed64 (of_nat packed_len) @ provider @ metadata"

definition payload_seal ::
    "codec_library \<Rightarrow> provider_registry \<Rightarrow> u64 \<Rightarrow> bytes \<Rightarrow> bytes \<Rightarrow> bytes res" where
  "payload_seal L R generation address plaintext =
     (case primary_provider R of
        None \<Rightarrow> Inl Config
      | Some provider \<Rightarrow>
          (case payload_compress L plaintext of
             Inl s \<Rightarrow> Inl s
           | Inr (codec, packed) \<Rightarrow>
               (case p_create provider generation of
                  Inl s \<Rightarrow> Inl s
                | Inr (C, metadata) \<Rightarrow>
                    let header = payload_header (rg_primary R) metadata codec (length plaintext) (length packed)
                    in seal_chunks C (\<lambda>k. payload_aad k address header) packed 0
                         (payload_chunk_count (length packed) (c_chunk_bytes C)) header)))"

definition payload_open ::
    "codec_library \<Rightarrow> provider_registry \<Rightarrow> u64 \<Rightarrow> bytes \<Rightarrow> bytes \<Rightarrow> (bytes \<times> bytes) res" where
  "payload_open L R generation address framed =
     (if length framed < kPayloadHeaderBytes \<or> decode_fixed32 framed \<noteq> kPayloadMagic then Inl Corrupt
      else if u16_at framed 4 \<noteq> kHeaderVersion then Inl Unsupported
      else
        let provider_len = u16_at framed 6; metadata_len = unat (decode_fixed32 (drop 8 framed));
            codec = decode_fixed32 (drop 12 framed); plain_len = unat (decode_fixed64 (drop 16 framed));
            packed_len = unat (decode_fixed64 (drop 24 framed));
            body = kPayloadHeaderBytes + provider_len + metadata_len in
        if kMaxPayloadBytes < plain_len \<or> kMaxPayloadBytes < packed_len then Inl Corrupt
        else if length framed < body then Inl Corrupt
        else
          let ident = take provider_len (drop kPayloadHeaderBytes framed) in
          if ident = [] \<and> rg_primary R \<noteq> [] \<and> \<not> rg_accept_plaintext R then Inl Config
          else
            (case rg_providers R ident of
               None \<Rightarrow> Inl Config
             | Some provider \<Rightarrow>
                 (case p_open provider generation (take metadata_len (drop (kPayloadHeaderBytes + provider_len) framed)) of
                    Inl s \<Rightarrow> Inl s
                  | Inr C \<Rightarrow>
                      let chunks = payload_chunk_count packed_len (c_chunk_bytes C) in
                      if length framed - body \<noteq> packed_len + chunks * c_overhead_bytes C then Inl Corrupt
                      else
                        (case open_chunks C (\<lambda>k. payload_aad k address (take body framed)) packed_len 0 (drop body framed) 0 chunks [] of
                           Inl s \<Rightarrow> Inl s
                         | Inr packed \<Rightarrow>
                             (case payload_decompress L packed codec plain_len of
                                Inl s \<Rightarrow> Inl s
                              | Inr plain \<Rightarrow> Inr (plain, ident))))))"

section \<open>The header reads back\<close>

lemma length_payload_header:
  "length (payload_header provider metadata codec n m) = kPayloadHeaderBytes + length provider + length metadata"
  by (simp add: payload_header_def u16_bytes_def kPayloadHeaderBytes_def)

lemma u16_bytes_at: "n < 65536 \<Longrightarrow> unat (of_nat n :: byte) + 256 * unat (of_nat (n div 256) :: byte) = n"
  by (simp add: unat_of_nat take_bit_eq_mod)

text \<open>The part of the header before the identifier and the metadata.\<close>

definition payload_fixed :: "nat \<Rightarrow> nat \<Rightarrow> u32 \<Rightarrow> nat \<Rightarrow> nat \<Rightarrow> bytes" where
  "payload_fixed ident_len metadata_len codec n m =
     put_fixed32 kPayloadMagic @ u16_bytes kHeaderVersion @ u16_bytes ident_len @ put_fixed32 (of_nat metadata_len)
     @ put_fixed32 codec @ put_fixed64 (of_nat n) @ put_fixed64 (of_nat m)"

lemma payload_header_split:
  "payload_header provider metadata codec n m @ r =
     payload_fixed (length provider) (length metadata) codec n m @ provider @ metadata @ r"
  by (simp add: payload_header_def payload_fixed_def)

lemma length_payload_fixed: "length (payload_fixed i l codec n m) = kPayloadHeaderBytes"
  by (simp add: payload_fixed_def u16_bytes_def kPayloadHeaderBytes_def)

lemma payload_fixed_fields:
  assumes "i < 65536" and "l < 2 ^ 32" and "n < 2 ^ 64" and "m < 2 ^ 64"
    and f: "f = payload_fixed i l codec n m @ r"
  shows "decode_fixed32 f = kPayloadMagic" "u16_at f 4 = kHeaderVersion" "u16_at f 6 = i"
    "unat (decode_fixed32 (drop 8 f)) = l" "decode_fixed32 (drop 12 f) = codec"
    "unat (decode_fixed64 (drop 16 f)) = n" "unat (decode_fixed64 (drop 24 f)) = m"
    "drop kPayloadHeaderBytes f = r"
proof -
  note split = f [unfolded payload_fixed_def]
  show "decode_fixed32 f = kPayloadMagic" unfolding split by (simp add: codec_simps)
  show "u16_at f 4 = kHeaderVersion" unfolding split
    by (simp add: u16_at_def nth_append u16_bytes_def kHeaderVersion_def)
  show "u16_at f 6 = i" unfolding split
    using u16_bytes_at [OF assms(1)] by (simp add: u16_at_def nth_append u16_bytes_def)
  show "unat (decode_fixed32 (drop 8 f)) = l" unfolding split
    using assms(2) by (simp add: u16_bytes_def codec_simps unat_of_nat_u32)
  show "decode_fixed32 (drop 12 f) = codec" unfolding split by (simp add: u16_bytes_def codec_simps)
  show "unat (decode_fixed64 (drop 16 f)) = n" unfolding split
    using assms(3) by (simp add: u16_bytes_def codec_simps unat_of_nat_u64)
  show "unat (decode_fixed64 (drop 24 f)) = m" unfolding split
    using assms(4) by (simp add: u16_bytes_def codec_simps unat_of_nat_u64)
  show "drop kPayloadHeaderBytes f = r" unfolding split by (simp add: u16_bytes_def kPayloadHeaderBytes_def)
qed

section \<open>Addresses\<close>

definition number_of :: "bytes \<Rightarrow> nat" where
  "number_of ds = foldl (\<lambda>a d. 10 * a + (unat d - 48)) 0 ds"

lemma digit: "d < 10 \<Longrightarrow> unat (of_nat (48 + d) :: byte) = 48 + d"
  by (simp add: unat_of_nat take_bit_nat_eq_self del: of_nat_add)

lemma number_of_decimal: "number_of (decimal n) = n"
proof (induction n rule: decimal.induct)
  case (1 n)
  show ?case
  proof (cases "n < 10")
    case True
    then show ?thesis using digit [of n] by (subst decimal.simps) (simp add: number_of_def del: of_nat_add)
  next
    case False
    have "number_of (decimal n) = 10 * number_of (decimal (n div 10)) + n mod 10"
      using False digit [of "n mod 10"] by (subst decimal.simps) (simp add: number_of_def del: of_nat_add)
    then show ?thesis using 1 [OF False] by simp
  qed
qed

lemma number_of_zeros: "number_of (replicate k 48 @ ds) = number_of ds"
proof -
  have "foldl (\<lambda>a d. 10 * a + (unat d - 48)) 0 (replicate k (48 :: byte)) = (0 :: nat)" by (induction k) simp_all
  then show ?thesis by (simp add: number_of_def)
qed

lemma decimal12_inj: "decimal12 a = decimal12 b \<longleftrightarrow> a = b"
  by (metis decimal12_def number_of_decimal number_of_zeros word_unat_eq_iff)

lemma edit_address_inj: "edit_address g a = edit_address g b \<longleftrightarrow> a = b"
  by (simp add: edit_address_def decimal12_inj)

lemma snapshot_edit_address: "snapshot_address g \<noteq> edit_address g' n"
  by (simp add: snapshot_address_def edit_address_def)

section \<open>Sealing and opening\<close>

text \<open>What is documented of a provider: it reopens what it created, with the metadata it returned.\<close>

definition provider_ok :: "encryption_provider \<Rightarrow> bool" where
  "provider_ok P \<longleftrightarrow>
     (\<forall>g C m. p_create P g = Inr (C, m) \<longrightarrow> p_open P g m = Inr C \<and> cipher_ok C \<and> length m < 2 ^ 32)"

lemma payload_chunk_count_eq: "0 < cb \<Longrightarrow> payload_chunk_count n cb = chunk_count n cb"
  by (simp add: payload_chunk_count_def chunk_count_def)

lemma compress_shrinks: "payload_compress L p = Inr (codec, packed) \<Longrightarrow> length packed \<le> length p"
  by (auto simp: payload_compress_def split: option.splits if_splits)

lemma decompress_compress:
  assumes "codecs_ok L" and "payload_compress L p = Inr (codec, packed)"
  shows "payload_decompress L packed codec (length p) = Inr p"
proof -
  obtain z where z: "ZSTD_compress L p (ZSTD_compressBound L (length p)) kCompressionLevel = Some z"
    and r: "(codec, packed) = (if length p \<le> length z then (kCodecNone, p) else (kCodecZstd, z))"
    using assms(2) by (simp add: payload_compress_def split: option.splits if_splits)
  have "ZSTD_decompress L z (length p) = Some p" using assms(1) z unfolding codecs_ok_def by blast
  with r show ?thesis
    by (cases "length p \<le> length z") (auto simp: payload_decompress_def kCodecNone_def kCodecZstd_def)
qed

text \<open>What sealing leaves: the header, and the sealed chunks of the packed bytes.\<close>

lemma payload_seal_shape:
  assumes P: "primary_provider R = Some P" "provider_ok P" and sealed: "payload_seal L R g address p = Inr framed"
  obtains C metadata codec packed header ss where
    "p_create P g = Inr (C, metadata)" "cipher_ok C" "p_open P g metadata = Inr C" "length metadata < 2 ^ 32"
    "payload_compress L p = Inr (codec, packed)"
    "header = payload_header (rg_primary R) metadata codec (length p) (length packed)"
    "framed = header @ concat ss" "length ss = chunk_count (length packed) (c_chunk_bytes C)"
    "pieces C (\<lambda>k. payload_aad k address header) packed 0 ss"
    "length (concat ss) = length packed + payload_chunk_count (length packed) (c_chunk_bytes C) * c_overhead_bytes C"
proof -
  obtain codec packed C metadata where comp: "payload_compress L p = Inr (codec, packed)"
    and mk: "p_create P g = Inr (C, metadata)"
    and loop: "seal_chunks C (\<lambda>k. payload_aad k address (payload_header (rg_primary R) metadata codec (length p) (length packed)))
      packed 0 (payload_chunk_count (length packed) (c_chunk_bytes C))
      (payload_header (rg_primary R) metadata codec (length p) (length packed)) = Inr framed"
    using sealed P(1) by (auto simp: payload_seal_def Let_def split: sum.splits prod.splits)
  have C: "cipher_ok C" "p_open P g metadata = Inr C" "length metadata < 2 ^ 32"
    using P(2) mk by (auto simp: provider_ok_def)
  have cb: "0 < c_chunk_bytes C" using C(1) by (simp add: cipher_ok_def)
  obtain ss where "length ss = chunk_count (length packed) (c_chunk_bytes C)"
    "framed = payload_header (rg_primary R) metadata codec (length p) (length packed) @ concat ss"
    "pieces C (\<lambda>k. payload_aad k address (payload_header (rg_primary R) metadata codec (length p) (length packed))) packed 0 ss"
    using seal_chunks_pieces [OF loop] payload_chunk_count_eq [OF cb] by auto
  with that [OF mk C comp refl] pieces_length [OF C(1)] show thesis
    by (simp add: physical_size_def payload_chunk_count_eq [OF cb])
qed

text \<open>
  Opening the header of a sealed record, cut after \<open>k\<close> bytes of what follows it: a record that is cut is
  noticed by its length.
\<close>

lemma payload_open_cut:
  assumes P: "primary_provider R = Some P" and C: "p_open P g metadata = Inr C"
    and lens: "length (rg_primary R) < 65536" "length metadata < 2 ^ 32" "n < 2 ^ 64" "m < 2 ^ 64"
    and f: "f = payload_header (rg_primary R) metadata codec n m @ rest"
  shows "payload_open L R g address f =
    (if kMaxPayloadBytes < n \<or> kMaxPayloadBytes < m then Inl Corrupt
     else if length rest \<noteq> m + payload_chunk_count m (c_chunk_bytes C) * c_overhead_bytes C then Inl Corrupt
     else case open_chunks C (\<lambda>k. payload_aad k address (payload_header (rg_primary R) metadata codec n m)) m 0 rest 0
              (payload_chunk_count m (c_chunk_bytes C)) [] of
            Inl s \<Rightarrow> Inl s
          | Inr packed \<Rightarrow>
              (case payload_decompress L packed codec n of Inl s \<Rightarrow> Inl s | Inr plain \<Rightarrow> Inr (plain, rg_primary R)))"
proof -
  let ?h = "payload_header (rg_primary R) metadata codec n m"
  have hl: "length ?h = kPayloadHeaderBytes + length (rg_primary R) + length metadata"
    by (simp add: length_payload_header)
  note fields = payload_fixed_fields [OF lens f [unfolded payload_header_split]]
  have parts: "take (length (rg_primary R)) (drop kPayloadHeaderBytes f) = rg_primary R"
    "take (length metadata) (drop (kPayloadHeaderBytes + length (rg_primary R)) f) = metadata"
    using fields(8) by (simp_all add: add.commute [of kPayloadHeaderBytes] flip: drop_drop)
  have body: "take (kPayloadHeaderBytes + length (rg_primary R) + length metadata) f = ?h"
    "drop (kPayloadHeaderBytes + length (rg_primary R) + length metadata) f = rest"
    "length f = kPayloadHeaderBytes + length (rg_primary R) + length metadata + length rest"
    using hl by (simp_all add: f flip: hl)
  show ?thesis
    unfolding payload_open_def Let_def fields(1-7) parts body
    using P C by (auto simp: primary_provider_def)
qed

lemma payload_open_torn:
  assumes P: "primary_provider R = Some P" "provider_ok P" and ident: "length (rg_primary R) < 65536"
    and sealed: "payload_seal L R g address p = Inr framed" and n: "length p < 2 ^ 64" and k: "k < length framed"
  shows "payload_open L R g address' (take k framed) = Inl Corrupt"
proof -
  obtain C metadata codec packed header ss where C: "p_open P g metadata = Inr C" "length metadata < 2 ^ 32"
    and comp: "payload_compress L p = Inr (codec, packed)"
    and header: "header = payload_header (rg_primary R) metadata codec (length p) (length packed)"
    and framed: "framed = header @ concat ss"
    and size: "length (concat ss) = length packed + payload_chunk_count (length packed) (c_chunk_bytes C) * c_overhead_bytes C"
    using payload_seal_shape [OF P sealed] by metis
  have packed: "length packed < 2 ^ 64" using compress_shrinks [OF comp] n by simp
  have hl: "length header = kPayloadHeaderBytes + length (rg_primary R) + length metadata"
    by (simp add: header length_payload_header)
  consider "k < kPayloadHeaderBytes" | "kPayloadHeaderBytes \<le> k" "k < length header" | "length header \<le> k" by linarith
  then show ?thesis
  proof cases
    case 1
    then have "length (take k framed) < kPayloadHeaderBytes" by simp
    then show ?thesis unfolding payload_open_def by simp
  next
    case 2
    let ?fixed = "payload_fixed (length (rg_primary R)) (length metadata) codec (length p) (length packed)"
    have "take k framed = ?fixed @ take (k - kPayloadHeaderBytes) (rg_primary R @ metadata @ concat ss)"
      using 2(1) by (simp add: framed header payload_header_split length_payload_fixed)
    note fields = payload_fixed_fields [OF ident C(2) n packed this]
    have "length (take k framed) = k" using k by simp
    then show ?thesis unfolding payload_open_def Let_def fields using 2 hl by simp
  next
    case 3
    have cut: "take k framed = header @ take (k - length header) (concat ss)" using 3 by (simp add: framed)
    have "length (take (k - length header) (concat ss)) \<noteq>
        length packed + payload_chunk_count (length packed) (c_chunk_bytes C) * c_overhead_bytes C"
      using k 3 unfolding size [symmetric] by (auto simp: framed)
    with payload_open_cut [OF P(1) C(1) ident C(2) n packed cut [unfolded header], of L address']
    show ?thesis unfolding header by (simp only: not_False_eq_True if_True if_cancel)
  qed
qed

lemma payload_open_sealed:
  assumes P: "primary_provider R = Some P" "provider_ok P" and ident: "length (rg_primary R) < 65536"
    and sealed: "payload_seal L R g address p = Inr framed" and n: "length p \<le> kMaxPayloadBytes"
  obtains C metadata codec packed header ss where
    "p_create P g = Inr (C, metadata)" "cipher_ok C" "payload_compress L p = Inr (codec, packed)"
    "length ss = chunk_count (length packed) (c_chunk_bytes C)"
    "pieces C (\<lambda>k. payload_aad k address header) packed 0 ss"
    "\<And>address'. payload_open L R g address' framed =
       (case open_chunks C (\<lambda>k. payload_aad k address' header) (length packed) 0 (concat ss) 0 (length ss) [] of
          Inl s \<Rightarrow> Inl s
        | Inr packed' \<Rightarrow>
            (case payload_decompress L packed' codec (length p) of Inl s \<Rightarrow> Inl s | Inr plain \<Rightarrow> Inr (plain, rg_primary R)))"
proof -
  obtain C metadata codec packed header ss where mk: "p_create P g = Inr (C, metadata)" and C: "cipher_ok C"
    "p_open P g metadata = Inr C" "length metadata < 2 ^ 32" and comp: "payload_compress L p = Inr (codec, packed)"
    and header: "header = payload_header (rg_primary R) metadata codec (length p) (length packed)"
    and framed: "framed = header @ concat ss" and ss: "length ss = chunk_count (length packed) (c_chunk_bytes C)"
    and pc: "pieces C (\<lambda>k. payload_aad k address header) packed 0 ss"
    and size: "length (concat ss) = length packed + payload_chunk_count (length packed) (c_chunk_bytes C) * c_overhead_bytes C"
    using payload_seal_shape [OF P sealed] by metis
  have small: "length packed \<le> kMaxPayloadBytes" "length p < 2 ^ 64" "length packed < 2 ^ 64"
    using n compress_shrinks [OF comp] by (auto simp: kMaxPayloadBytes_def)
  have cc: "payload_chunk_count (length packed) (c_chunk_bytes C) = length ss"
    using payload_chunk_count_eq [of "c_chunk_bytes C"] C(1) ss by (simp add: cipher_ok_def)
  show thesis
    by (rule that [OF mk C(1) comp ss pc, unfolded header])
       (use payload_open_cut [OF P(1) C(2) ident C(3) small(2,3) framed [unfolded header]] n small(1) size cc in simp)
qed

lemma payload_open_seal:
  assumes "codecs_ok L" and "primary_provider R = Some P" and "provider_ok P" and "length (rg_primary R) < 65536"
    and "payload_seal L R g address p = Inr framed" and "length p \<le> kMaxPayloadBytes"
  shows "payload_open L R g address framed = Inr (p, rg_primary R)"
proof -
  obtain C metadata codec packed header ss where C: "cipher_ok C" and comp: "payload_compress L p = Inr (codec, packed)"
    and ss: "length ss = chunk_count (length packed) (c_chunk_bytes C)"
    and pc: "pieces C (\<lambda>k. payload_aad k address header) packed 0 ss"
    and result: "payload_open L R g address framed =
       (case open_chunks C (\<lambda>k. payload_aad k address header) (length packed) 0 (concat ss) 0 (length ss) [] of
          Inl s \<Rightarrow> Inl s
        | Inr packed' \<Rightarrow>
            (case payload_decompress L packed' codec (length p) of Inl s \<Rightarrow> Inl s | Inr plain \<Rightarrow> Inr (plain, rg_primary R)))"
    by (rule payload_open_sealed [OF assms(2-6)]) metis
  have "open_chunks C (\<lambda>k. payload_aad k address header) (length packed) 0 (concat ss) 0 (length ss) [] =
      Inr (concat (map (chunk_of (c_chunk_bytes C) packed) [0..<length ss]))"
    using open_chunks_pieces [of C ss 0 "length packed" "\<lambda>k. payload_aad k address header" packed 0 "length ss" "[]"]
      pieces_evenly [OF C pc ss] by simp
  also have "concat (map (chunk_of (c_chunk_bytes C) packed) [0..<length ss]) = packed"
    using chunk_count_covers [of "c_chunk_bytes C" "length packed"] C by (simp add: concat_chunks ss cipher_ok_def)
  finally show ?thesis by (simp add: result decompress_compress [OF assms(1) comp])
qed

lemma payload_too_large:
  assumes P: "primary_provider R = Some P" "provider_ok P" and ident: "length (rg_primary R) < 65536"
    and sealed: "payload_seal L R g address p = Inr framed"
    and n: "kMaxPayloadBytes < length p" "length p < 2 ^ 64"
  shows "payload_open L R g address' framed = Inl Corrupt"
proof -
  obtain C metadata codec packed header ss where C: "p_open P g metadata = Inr C" "length metadata < 2 ^ 32"
    and comp: "payload_compress L p = Inr (codec, packed)"
    and framed: "framed = payload_header (rg_primary R) metadata codec (length p) (length packed) @ concat ss"
    using payload_seal_shape [OF P sealed] by metis
  have "length packed < 2 ^ 64" using compress_shrinks [OF comp] n(2) by simp
  from payload_open_cut [OF P(1) C(1) ident C(2) n(2) this framed] show ?thesis using n(1) by simp
qed

lemma open_first_chunk:
  assumes "open_chunks C aad logical 0 sealed 0 (Suc n) out = Inr x"
  shows "\<exists>q. c_open C 0 (take (chunk_plain_bytes 0 logical (c_chunk_bytes C) + c_overhead_bytes C) sealed) (aad 0) = Inr q"
  using assms by (auto simp: Let_def split: sum.splits)

section \<open>Properties\<close>

text \<open>
  [C30] A manifest record sealed under the primary provider is read back at its address as it was,
  together with the identifier of the provider; no more than 256 MiB of it: a longer one is sealed and
  stored all the same, and refused by every later read.
\<close>

theorem payload_round_trip:
  assumes "codecs_ok L" and "primary_provider R = Some P" and "provider_ok P" and "length (rg_primary R) < 65536"
    and "payload_seal L R g address p = Inr framed" and "length p < 2 ^ 64"
  shows "payload_open L R g address framed =
    (if length p \<le> kMaxPayloadBytes then Inr (p, rg_primary R) else Inl Corrupt)"
  using payload_open_seal [OF assms(1-5)] payload_too_large [OF assms(2-5)] assms(6) by (simp add: not_le)

text \<open>
  [C31] A record is bound to its place in the manifest. Opening a sealed record at any address but its
  own can only succeed if the cipher opens a chunk under associated data it was not sealed with, that
  is, if its authentication is broken. It needs a first chunk, so a record that is not empty; the
  hypothesis on the compressor says that a Zstandard frame is never empty.
\<close>

theorem payload_moved_is_forgery:
  assumes "primary_provider R = Some P" and "provider_ok P" and "length (rg_primary R) < 65536"
    and "\<And>c b l z. ZSTD_compress L c b l = Some z \<Longrightarrow> z \<noteq> []"
    and "payload_seal L R g address p = Inr framed" and "p \<noteq> []" and "length p \<le> kMaxPayloadBytes"
    and "address' \<noteq> address" and "payload_open L R g address' framed = Inr x"
  shows "\<exists>C metadata q aad s aad' q'. p_create P g = Inr (C, metadata) \<and> c_seal C 0 q aad = Inr s
    \<and> aad' \<noteq> aad \<and> c_open C 0 s aad' = Inr q'"
proof -
  obtain C metadata codec packed header ss where mk: "p_create P g = Inr (C, metadata)" and C: "cipher_ok C"
    and comp: "payload_compress L p = Inr (codec, packed)"
    and ss: "length ss = chunk_count (length packed) (c_chunk_bytes C)"
    and pc: "pieces C (\<lambda>k. payload_aad k address header) packed 0 ss"
    and result: "payload_open L R g address' framed =
       (case open_chunks C (\<lambda>k. payload_aad k address' header) (length packed) 0 (concat ss) 0 (length ss) [] of
          Inl s \<Rightarrow> Inl s
        | Inr packed' \<Rightarrow>
            (case payload_decompress L packed' codec (length p) of Inl s \<Rightarrow> Inl s | Inr plain \<Rightarrow> Inr (plain, rg_primary R)))"
    by (rule payload_open_sealed [OF assms(1-3,5,7)]) metis
  have "packed \<noteq> []"
    using comp assms(4,6) by (auto simp: payload_compress_def split: option.splits if_splits)
  then have "0 < length ss"
    using chunk_count_covers [of "c_chunk_bytes C" "length packed"] C ss
    by (cases "length ss") (auto simp: cipher_ok_def)
  then obtain n where n: "length ss = Suc n" using gr0_conv_Suc by blast
  obtain packed' where "open_chunks C (\<lambda>k. payload_aad k address' header) (length packed) 0 (concat ss) 0 (Suc n) [] = Inr packed'"
    using assms(9) result n by (cases "open_chunks C (\<lambda>k. payload_aad k address' header) (length packed) 0 (concat ss) 0 (Suc n) []") auto
  from open_first_chunk [OF this] obtain q' where
    "c_open C 0 (take (chunk_plain_bytes 0 (length packed) (c_chunk_bytes C) + c_overhead_bytes C) (concat ss)) (payload_aad 0 address' header) = Inr q'"
    by blast
  moreover have "take (chunk_plain_bytes 0 (length packed) (c_chunk_bytes C) + c_overhead_bytes C) (concat ss) = ss ! 0"
    using nth_evenly [OF pieces_evenly(1) [OF C pc ss], of 0] pieces_evenly(2) [OF C pc ss, of 0] n by simp
  ultimately have "c_open C 0 (ss ! 0) (payload_aad 0 address' header) = Inr q'" by simp
  moreover have "c_seal C 0 (chunk_of (c_chunk_bytes C) packed 0) (payload_aad 0 address header) = Inr (ss ! 0)"
    using pc n by (auto simp: pieces_def)
  moreover have "payload_aad 0 address' header \<noteq> payload_aad 0 address header"
    using assms(8) by (simp add: payload_aad_def)
  ultimately show ?thesis using mk by blast
qed

section \<open>Witnesses\<close>

definition sample_provider :: encryption_provider where
  "sample_provider = \<lparr> p_create = (\<lambda>_. Inr (mask_cipher, [9])), p_open = (\<lambda>_ _. Inr mask_cipher) \<rparr>"

definition sample_registry :: provider_registry where
  "sample_registry = \<lparr> rg_providers = [[109] \<mapsto> sample_provider], rg_primary = [109], rg_accept_plaintext = False \<rparr>"

lemma sample_provider_ok: "primary_provider sample_registry = Some sample_provider" "provider_ok sample_provider"
  "rg_primary sample_registry = [109]"
  by (simp_all add: sample_registry_def sample_provider_def provider_ok_def primary_provider_def mask_cipher_ok)

lemma sample_sealed: "\<exists>framed. payload_seal zero_run_codecs sample_registry 1 (edit_address 1 1) [1, 2, 3, 4, 5, 6] = Inr framed"
  by (simp add: payload_seal_def sample_provider_ok) (simp add: sample_provider_def payload_compress_def zero_run_codecs_def
      zero_run_compress_def mask_cipher_def payload_chunk_count_def chunk_plain_bytes_def numeral_2_eq_2 Let_def)

theorem payload_round_trip_witness:
  "\<exists>framed. payload_seal zero_run_codecs sample_registry 1 (edit_address 1 1) [1, 2, 3, 4, 5, 6] = Inr framed
     \<and> payload_open zero_run_codecs sample_registry 1 (edit_address 1 1) framed = Inr ([1, 2, 3, 4, 5, 6], [109])"
proof -
  obtain framed where s: "payload_seal zero_run_codecs sample_registry 1 (edit_address 1 1) [1, 2, 3, 4, 5, 6] = Inr framed"
    using sample_sealed by blast
  have "payload_open zero_run_codecs sample_registry 1 (edit_address 1 1) framed = Inr ([1, 2, 3, 4, 5, 6], rg_primary sample_registry)"
    using payload_round_trip [OF zero_run_codecs_ok sample_provider_ok(1,2) _ s]
    by (simp add: sample_provider_ok(3) kMaxPayloadBytes_def)
  then show ?thesis using s by (simp add: sample_provider_ok(3))
qed

text \<open>The passthrough authenticates nothing, so a record moves.\<close>

lemma passthrough_ok:
  "primary_provider passthrough_registry = Some NoEncryptionProvider" "provider_ok NoEncryptionProvider"
  "rg_primary passthrough_registry = []"
  by (simp_all add: passthrough_registry_def primary_provider_def NoEncryptionProvider_def provider_ok_def no_encryption_ok)

lemma passthrough_sealed:
  "payload_seal zero_run_codecs passthrough_registry 1 address [1, 2] = Inr (payload_header [] [] kCodecNone 2 2 @ [1, 2])"
  by (simp add: payload_seal_def passthrough_ok) (simp add: NoEncryptionProvider_def
      NoEncryptionCipher_def payload_compress_def zero_run_codecs_def zero_run_compress_def
      payload_chunk_count_def chunk_plain_bytes_def numeral_2_eq_2 Let_def passthrough_ok(3))

theorem payload_moved_is_forgery_witness:
  "\<exists>C metadata q aad s aad' q'. p_create NoEncryptionProvider 1 = Inr (C, metadata) \<and> c_seal C 0 q aad = Inr s
    \<and> aad' \<noteq> aad \<and> c_open C 0 s aad' = Inr q'"
  by (rule payload_moved_is_forgery [OF passthrough_ok(1,2) _ _ passthrough_sealed [of "edit_address 1 1"] _ _ _
      payload_open_seal [OF zero_run_codecs_ok passthrough_ok(1,2) _ passthrough_sealed [of "edit_address 1 2"]]])
    (simp_all add: passthrough_ok(3) kMaxPayloadBytes_def edit_address_inj zero_run_codecs_def zero_run_compress_def split: if_splits)

end
