(* ===== verification/Catalog.thy ===== *)
theory Catalog
  imports Manifest_Payload
begin

text \<open>
  The manifest catalog: the interface of include/elysiumkv/manifest\_catalog.hpp as a record of
  operations and a locale of what they promise, and src/manifest/disk\_manifest\_catalog.cpp, which
  implements it on a directory.

  Every operation takes the state of the world and returns the new one. The contract is stated
  against a view of the world, the manifest: the pointer and the write-once objects. It lets a write
  fail half way, with any part of its object left behind, as a crash or a full disk leaves it.
\<close>

section \<open>The interface\<close>

record catalog_entry =
  ce_generation :: u64
  ce_token :: bytes

record 'w catalog =
  cat_read :: "'w \<Rightarrow> catalog_entry option res \<times> 'w"
  cat_compare_and_set :: "catalog_entry option \<Rightarrow> u64 \<Rightarrow> 'w \<Rightarrow> catalog_entry option res \<times> 'w"
  cat_put_snapshot :: "u64 \<Rightarrow> bytes \<Rightarrow> 'w \<Rightarrow> status \<times> 'w"
  cat_get_snapshot :: "u64 \<Rightarrow> 'w \<Rightarrow> bytes res \<times> 'w"
  cat_put_edit :: "u64 \<Rightarrow> u64 \<Rightarrow> bytes \<Rightarrow> 'w \<Rightarrow> status \<times> 'w"
  cat_get_edit :: "u64 \<Rightarrow> u64 \<Rightarrow> 'w \<Rightarrow> bytes res \<times> 'w"
  cat_list_edits :: "u64 \<Rightarrow> 'w \<Rightarrow> u64 list res \<times> 'w"
  cat_delete_generation :: "u64 \<Rightarrow> 'w \<Rightarrow> status \<times> 'w"
  cat_list_generations :: "'w \<Rightarrow> u64 list res \<times> 'w"

record manifest =
  mf_pointer :: "catalog_entry option"
  mf_snapshots :: "u64 \<rightharpoonup> bytes"
  mf_edits :: "u64 \<times> u64 \<rightharpoonup> bytes"

text \<open>
  What a write-once put may do: store the object, refuse an occupied address, or fail with any part
  of the object stored.
\<close>

definition put_outcome ::
    "('w \<Rightarrow> bool) \<Rightarrow> ('w \<Rightarrow> manifest) \<Rightarrow> (bytes \<Rightarrow> manifest \<Rightarrow> manifest) \<Rightarrow> bytes option \<Rightarrow> bytes \<Rightarrow> 'w \<Rightarrow> status \<times> 'w \<Rightarrow> bool" where
  "put_outcome ok view store old bs w r \<longleftrightarrow>
     ok (snd r) \<and>
     (fst r = Ok \<and> old = None \<and> view (snd r) = store bs (view w)
      \<or> fst r = Config \<and> old \<noteq> None \<and> view (snd r) = view w
      \<or> fst r \<notin> {Ok, Config} \<and>
         (view (snd r) = view w \<or> old = None \<and> (\<exists>k. view (snd r) = store (take k bs) (view w))))"

definition cas_outcome ::
    "('w \<Rightarrow> bool) \<Rightarrow> ('w \<Rightarrow> manifest) \<Rightarrow> catalog_entry option \<Rightarrow> u64 \<Rightarrow> 'w \<Rightarrow> catalog_entry option res \<times> 'w \<Rightarrow> bool" where
  "cas_outcome ok view expected g w r \<longleftrightarrow>
     ok (snd r) \<and>
     (\<exists>e. ce_generation e = g \<and> mf_pointer (view w) = expected \<and> view (snd r) = (view w)\<lparr> mf_pointer := Some e \<rparr>
          \<and> fst r \<in> {Inr (Some e), Inl Io}
      \<or> fst r = Inr None \<and> mf_pointer (view w) \<noteq> expected \<and> view (snd r) = view w
      \<or> (\<exists>s. s \<noteq> Ok \<and> fst r = Inl s) \<and> view (snd r) = view w)"

definition without_generation :: "u64 \<Rightarrow> manifest \<Rightarrow> manifest \<Rightarrow> bool" where
  "without_generation g m m' \<longleftrightarrow>
     mf_pointer m' = mf_pointer m
     \<and> (\<forall>h. mf_snapshots m' h = mf_snapshots m h \<or> h = g \<and> mf_snapshots m' h = None)
     \<and> (\<forall>h n. mf_edits m' (h, n) = mf_edits m (h, n) \<or> h = g \<and> mf_edits m' (h, n) = None)"

locale manifest_catalog =
  fixes ops :: "'w catalog" and ok :: "'w \<Rightarrow> bool" and view :: "'w \<Rightarrow> manifest"
  assumes read: "ok w \<Longrightarrow> \<exists>w'. cat_read ops w = (Inr (mf_pointer (view w)), w') \<and> ok w' \<and> view w' = view w"
    and get_snapshot: "ok w \<Longrightarrow> \<exists>w'. cat_get_snapshot ops g w =
        (case mf_snapshots (view w) g of None \<Rightarrow> Inl NotFound | Some bs \<Rightarrow> Inr bs, w') \<and> ok w' \<and> view w' = view w"
    and get_edit: "ok w \<Longrightarrow> \<exists>w'. cat_get_edit ops g n w =
        (case mf_edits (view w) (g, n) of None \<Rightarrow> Inl NotFound | Some bs \<Rightarrow> Inr bs, w') \<and> ok w' \<and> view w' = view w"
    and list_edits: "ok w \<Longrightarrow> \<exists>w' ns. cat_list_edits ops g w = (Inr ns, w') \<and> ok w' \<and> view w' = view w
        \<and> distinct ns \<and> set ns = {n. mf_edits (view w) (g, n) \<noteq> None}"
    and list_generations: "ok w \<Longrightarrow> ok (snd (cat_list_generations ops w)) \<and> view (snd (cat_list_generations ops w)) = view w
        \<and> fst (cat_list_generations ops w) \<noteq> Inl Ok"
    and put_snapshot: "ok w \<Longrightarrow> put_outcome ok view
        (\<lambda>bs m. m\<lparr> mf_snapshots := (mf_snapshots m)(g \<mapsto> bs) \<rparr>) (mf_snapshots (view w) g) bs w (cat_put_snapshot ops g bs w)"
    and put_edit: "ok w \<Longrightarrow> put_outcome ok view
        (\<lambda>bs m. m\<lparr> mf_edits := (mf_edits m)((g, n) \<mapsto> bs) \<rparr>) (mf_edits (view w) (g, n)) bs w (cat_put_edit ops g n bs w)"
    and compare_and_set: "ok w \<Longrightarrow> cas_outcome ok view expected g w (cat_compare_and_set ops expected g w)"
    and delete_generation: "ok w \<Longrightarrow> ok (snd (cat_delete_generation ops g w))
        \<and> without_generation g (view w) (view (snd (cat_delete_generation ops g w)))"

section \<open>The catalog on a directory\<close>

text \<open>
  A directory tree, with the outcomes of the system calls to come: a call succeeds, fails, or a write
  or a recursive removal fails after some bytes or entries; when no more outcomes are given every
  call succeeds. Opening a file for reading and opening a directory have outcomes of their own.
\<close>

type_synonym path = "bytes list"

datatype outcome = Good | Bad | Partial nat

record disk =
  dk_files :: "(path \<times> bytes) list"
  dk_dirs :: "path list"
  dk_calls :: "outcome list"
  dk_reads :: "bool list"
  dk_lists :: "bool list"

definition dk_call :: "disk \<Rightarrow> outcome \<times> disk" where
  "dk_call d = (case dk_calls d of [] \<Rightarrow> (Good, d) | c # cs \<Rightarrow> (c, d\<lparr> dk_calls := cs \<rparr>))"

definition dk_open_read :: "disk \<Rightarrow> bool \<times> disk" where
  "dk_open_read d = (case dk_reads d of [] \<Rightarrow> (True, d) | b # bs \<Rightarrow> (b, d\<lparr> dk_reads := bs \<rparr>))"

definition dk_open_dir :: "disk \<Rightarrow> bool \<times> disk" where
  "dk_open_dir d = (case dk_lists d of [] \<Rightarrow> (True, d) | b # bs \<Rightarrow> (b, d\<lparr> dk_lists := bs \<rparr>))"

definition dk_file :: "disk \<Rightarrow> path \<Rightarrow> bytes option" where
  "dk_file d p = map_of (dk_files d) p"

definition dk_store :: "path \<Rightarrow> bytes \<Rightarrow> disk \<Rightarrow> disk" where
  "dk_store p bs d = d\<lparr> dk_files := (p, bs) # filter (\<lambda>(q, _). q \<noteq> p) (dk_files d) \<rparr>"

definition dk_unlink :: "path \<Rightarrow> disk \<Rightarrow> disk" where
  "dk_unlink p d = d\<lparr> dk_files := filter (\<lambda>(q, _). q \<noteq> p) (dk_files d) \<rparr>"

definition ascii :: "string \<Rightarrow> bytes" where
  "ascii s = map of_char s"

definition manifest_dir :: path where "manifest_dir = [ascii ''manifest'']"

definition generation_dir :: "u64 \<Rightarrow> path" where
  "generation_dir g = manifest_dir @ [decimal12 g]"

definition current_path :: path where "current_path = manifest_dir @ [ascii ''CURRENT'']"
definition temp_path :: path where "temp_path = manifest_dir @ [ascii ''CURRENT.tmp'']"
definition snapshot_path :: "u64 \<Rightarrow> path" where "snapshot_path g = generation_dir g @ [ascii ''snapshot'']"

definition edit_name :: "u64 \<Rightarrow> bytes" where
  "edit_name sq = ascii ''edit-'' @ decimal12 sq"

definition edit_path :: "u64 \<Rightarrow> u64 \<Rightarrow> path" where "edit_path g n = generation_dir g @ [edit_name n]"

text \<open>\<open>std::from_chars\<close>: the leading digits, an error when there are none or they overflow.\<close>

definition is_digit :: "byte \<Rightarrow> bool" where "is_digit b \<longleftrightarrow> 48 \<le> b \<and> b \<le> 57"

definition from_chars :: "bytes \<Rightarrow> (u64 \<times> bytes) option" where
  "from_chars s =
     (let ds = takeWhile is_digit s in
      if ds = [] \<or> 2 ^ 64 \<le> number_of ds then None else Some (of_nat (number_of ds), dropWhile is_digit s))"

definition parse_current :: "bytes \<Rightarrow> (u64 \<times> u64) option" where
  "parse_current text =
     (case from_chars text of
        None \<Rightarrow> None
      | Some (generation, rest) \<Rightarrow>
          if rest = [] \<or> hd rest \<noteq> 32 then None
          else map_option (\<lambda>(token, _). (generation, token)) (from_chars (tl rest)))"

definition max_u64 :: u64 where "max_u64 = - 1"

fun parse_u64_loop :: "u64 \<Rightarrow> bytes \<Rightarrow> u64 option" where
  "parse_u64_loop v [] = Some v"
| "parse_u64_loop v (c # cs) =
     (if \<not> is_digit c then None
      else if (max_u64 - ucast (c - 48)) div 10 < v then None
      else parse_u64_loop (v * 10 + ucast (c - 48)) cs)"

definition parse_u64 :: "bytes \<Rightarrow> u64 option" where
  "parse_u64 text = (if text = [] then None else parse_u64_loop 0 text)"

definition format_token :: "u64 \<Rightarrow> bytes" where
  "format_token token = decimal (unat token)"

definition sync_directory :: "disk \<Rightarrow> bool \<times> disk" where
  "sync_directory d = (case dk_call d of (c, d) \<Rightarrow> (c = Good, d))"

definition make_directories :: "path \<Rightarrow> disk \<Rightarrow> disk" where
  "make_directories p d =
     d\<lparr> dk_dirs := filter (\<lambda>q. q \<notin> set (dk_dirs d)) (map (\<lambda>n. take n p) [1..<length p + 1]) @ dk_dirs d \<rparr>"

definition ensure_directory :: "path \<Rightarrow> disk \<Rightarrow> status \<times> disk" where
  "ensure_directory p d =
     (case dk_call d of (c, d) \<Rightarrow>
        if c \<noteq> Good then (Io, d)
        else if p \<in> set (dk_dirs d) then (Ok, d)
        else case sync_directory (make_directories p d) of (synced, d) \<Rightarrow>
          if \<not> synced then (Io, d)
          else case sync_directory d of (synced, d) \<Rightarrow> (if synced then Ok else Io, d))"

text \<open>The write loop ends with every byte written, or with an error after some of them.\<close>

definition write_object :: "path \<Rightarrow> bytes \<Rightarrow> disk \<Rightarrow> status \<times> disk" where
  "write_object p bs d =
     (case ensure_directory (butlast p) d of (s, d) \<Rightarrow>
      if s \<noteq> Ok then (s, d)
      else case dk_call d of (opened, d) \<Rightarrow>
      if opened \<noteq> Good then (Io, d)
      else if dk_file d p \<noteq> None then (Config, d)
      else case (if bs = [] then (Good, d) else dk_call d) of (written, d) \<Rightarrow>
      if written \<noteq> Good
      then (let d = dk_store p (take (case written of Partial n \<Rightarrow> n | _ \<Rightarrow> 0) bs) d in
            case dk_call d of (unlinked, d) \<Rightarrow> (Io, if unlinked = Good then dk_unlink p d else d))
      else case dk_call (dk_store p bs d) of (synced, d) \<Rightarrow>
      case dk_call d of (closed, d) \<Rightarrow>
      if synced \<noteq> Good \<or> closed \<noteq> Good then (Io, d)
      else case sync_directory d of (synced, d) \<Rightarrow> (if synced then Ok else Io, d))"

definition read_object :: "path \<Rightarrow> disk \<Rightarrow> bytes res \<times> disk" where
  "read_object p d =
     (case dk_open_read d of (opened, d) \<Rightarrow>
        (if \<not> opened then Inl Io else case dk_file d p of None \<Rightarrow> Inl NotFound | Some bs \<Rightarrow> Inr bs, d))"

definition disk_read :: "disk \<Rightarrow> catalog_entry option res \<times> disk" where
  "disk_read d =
     (case read_object current_path d of (r, d) \<Rightarrow>
        (case r of
           Inl s \<Rightarrow> if s = NotFound then Inr None else Inl s
         | Inr text \<Rightarrow>
             (case parse_current text of
                None \<Rightarrow> Inl Corrupt
              | Some (generation, token) \<Rightarrow> Inr (Some \<lparr> ce_generation = generation, ce_token = format_token token \<rparr>)), d))"

text \<open>\<open>std::optional<Entry>\<close> compared field by field, as both users of the catalog do.\<close>

definition same_entry :: "catalog_entry option \<Rightarrow> catalog_entry option \<Rightarrow> bool" where
  "same_entry a b \<longleftrightarrow>
     a = None \<and> b = None
     \<or> a \<noteq> None \<and> b \<noteq> None \<and> ce_generation (the a) = ce_generation (the b) \<and> ce_token (the a) = ce_token (the b)"

definition disk_compare_and_set :: "catalog_entry option \<Rightarrow> u64 \<Rightarrow> disk \<Rightarrow> catalog_entry option res \<times> disk" where
  "disk_compare_and_set expected generation d =
     (case ensure_directory manifest_dir d of (s, d) \<Rightarrow>
      if s \<noteq> Ok then (Inl s, d)
      else case dk_call d of (locked, d) \<Rightarrow>
      if locked \<noteq> Good then (Inl Io, d)
      else case disk_read d of (observed, d) \<Rightarrow>
      (case observed of
         Inl s \<Rightarrow> (Inl s, d)
       | Inr observed \<Rightarrow>
           if \<not> same_entry expected observed then (Inr None, d)
           else
             let parsed = (case observed of None \<Rightarrow> 0
                           | Some e \<Rightarrow> (case from_chars (ce_token e) of None \<Rightarrow> 0 | Some (t, _) \<Rightarrow> t)) in
             if observed \<noteq> None \<and> parsed = max_u64 then (Inl Unusable, d)
             else
               let token = (if observed = None then 1 else parsed + 1);
                   text = decimal (unat generation) @ [32] @ format_token token @ [10] in
               case dk_call d of (removed, d) \<Rightarrow>
               if removed \<noteq> Good then (Inl Io, d)
               else case write_object temp_path text (dk_unlink temp_path d) of (s, d) \<Rightarrow>
               if s \<noteq> Ok then (Inl s, d)
               else case dk_call d of (renamed, d) \<Rightarrow>
               if renamed \<noteq> Good then (Inl Io, d)
               else case sync_directory (dk_unlink temp_path (dk_store current_path text d)) of (synced, d) \<Rightarrow>
               (if synced then Inr (Some \<lparr> ce_generation = generation, ce_token = format_token token \<rparr>) else Inl Io, d)))"

definition disk_list_generations :: "disk \<Rightarrow> u64 list res \<times> disk" where
  "disk_list_generations d =
     (case dk_open_dir d of (opened, d) \<Rightarrow>
        (Inr (if \<not> opened \<or> manifest_dir \<notin> set (dk_dirs d) then []
              else List.map_filter (\<lambda>p. if length (last p) \<noteq> 12 then None else parse_u64 (last p))
                     (filter (\<lambda>p. p \<noteq> [] \<and> butlast p = manifest_dir) (dk_dirs d))), d))"

definition edit_seq :: "bytes \<Rightarrow> u64 option" where
  "edit_seq name =
     (if take 5 name \<noteq> ascii ''edit-'' then None else map_option fst (from_chars (drop 5 name)))"

definition disk_list_edits :: "u64 \<Rightarrow> disk \<Rightarrow> u64 list res \<times> disk" where
  "disk_list_edits g d =
     (case dk_open_dir d of (opened, d) \<Rightarrow>
        (Inr (if \<not> opened \<or> generation_dir g \<notin> set (dk_dirs d) then []
              else sort (List.map_filter (\<lambda>p. edit_seq (last p))
                     (filter (\<lambda>p. p \<noteq> [] \<and> butlast p = generation_dir g) (map fst (dk_files d))))), d))"

text \<open>\<open>remove_all\<close> removes the entries one by one.\<close>

definition under :: "path \<Rightarrow> path \<Rightarrow> bool" where
  "under dir p \<longleftrightarrow> take (length dir) p = dir"

definition disk_delete_generation :: "u64 \<Rightarrow> disk \<Rightarrow> status \<times> disk" where
  "disk_delete_generation g d =
     (case dk_call d of (c, d) \<Rightarrow>
        let dir = generation_dir g; doomed = filter (under dir) (map fst (dk_files d)) in
        if c \<noteq> Good
        then (Io, fold dk_unlink (take (case c of Partial n \<Rightarrow> n | _ \<Rightarrow> 0) doomed) d)
        else
          let d = fold dk_unlink doomed d in
          case sync_directory (d\<lparr> dk_dirs := filter (\<lambda>p. \<not> under dir p) (dk_dirs d) \<rparr>) of (synced, d) \<Rightarrow>
          (if synced then Ok else Io, d))"

definition DiskManifestCatalog :: "disk catalog" where
  "DiskManifestCatalog =
     \<lparr> cat_read = disk_read, cat_compare_and_set = disk_compare_and_set,
       cat_put_snapshot = (\<lambda>g bs. write_object (snapshot_path g) bs),
       cat_get_snapshot = (\<lambda>g. read_object (snapshot_path g)),
       cat_put_edit = (\<lambda>g n bs. write_object (edit_path g n) bs),
       cat_get_edit = (\<lambda>g n. read_object (edit_path g n)),
       cat_list_edits = disk_list_edits, cat_delete_generation = disk_delete_generation,
       cat_list_generations = disk_list_generations \<rparr>"

section \<open>Paths and names\<close>

lemma ascii_names:
  "ascii ''edit-'' = [101, 100, 105, 116, 45]"
  "ascii ''snapshot'' = [115, 110, 97, 112, 115, 104, 111, 116]"
  "ascii ''CURRENT'' = [67, 85, 82, 82, 69, 78, 84]"
  "ascii ''CURRENT.tmp'' = [67, 85, 82, 82, 69, 78, 84, 46, 116, 109, 112]"
  "ascii ''manifest'' = [109, 97, 110, 105, 102, 101, 115, 116]"
  by (simp_all add: ascii_def)

lemma decimal_digits: "list_all is_digit (decimal n)"
proof (induction n rule: decimal.induct)
  case (1 n)
  have digit: "is_digit (of_nat (48 + d))" if "d < 10" for d
  proof -
    have "unat (of_nat (48 + d) :: byte) = 48 + d" by (rule digit [OF that])
    then show ?thesis using that unfolding is_digit_def word_le_nat_alt by simp
  qed
  show ?case
  proof (cases "n < 10")
    case True
    then show ?thesis using digit [OF True] by (subst decimal.simps) (simp del: of_nat_add)
  next
    case False
    then show ?thesis using digit [of "n mod 10"] 1 by (subst decimal.simps) (simp del: of_nat_add)
  qed
qed

lemma decimal_nonempty: "decimal n \<noteq> []"
  by (subst decimal.simps) simp

lemma decimal12_digits: "list_all is_digit (decimal12 n)" "decimal12 n \<noteq> []"
  using decimal_digits [of "unat n"] by (auto simp: decimal12_def decimal_nonempty list_all_iff is_digit_def)

lemma from_chars_digits:
  assumes "list_all is_digit ds" and "ds \<noteq> []" and "number_of ds < 2 ^ 64" and "rest = [] \<or> \<not> is_digit (hd rest)"
  shows "from_chars (ds @ rest) = Some (of_nat (number_of ds), rest)"
proof -
  have "takeWhile is_digit (ds @ rest) = ds" "dropWhile is_digit (ds @ rest) = rest"
    using assms(1,4) by (cases rest; auto simp: list_all_iff takeWhile_append dropWhile_append)+
  then show ?thesis using assms(2,3) by (simp add: from_chars_def)
qed

lemma number_of_decimal12: "number_of (decimal12 n) = unat n"
  by (simp add: decimal12_def number_of_zeros number_of_decimal)

lemma edit_seq_name: "edit_seq (edit_name n) = Some n"
  using from_chars_digits [OF decimal12_digits, of n "[]"] unat_u64 [of n]
  by (simp add: edit_seq_def edit_name_def ascii_names number_of_decimal12)

lemma edit_seq_snapshot: "edit_seq (ascii ''snapshot'') = None"
  by (simp add: edit_seq_def ascii_names)

lemma parse_current_text:
  "parse_current (decimal (unat g) @ [32] @ format_token t @ [10]) = Some (g, t)"
proof -
  have "from_chars (decimal (unat g) @ 32 # format_token t @ [10]) = Some (g, 32 # format_token t @ [10])"
    using from_chars_digits [OF decimal_digits decimal_nonempty, of "unat g" "32 # format_token t @ [10]"] unat_u64 [of g]
    by (simp add: number_of_decimal is_digit_def)
  moreover have "from_chars (format_token t @ [10]) = Some (t, [10])"
    using from_chars_digits [OF decimal_digits decimal_nonempty, of "unat t" "[10]"] unat_u64 [of t]
    by (simp add: number_of_decimal is_digit_def format_token_def)
  ultimately show ?thesis by (simp add: parse_current_def)
qed

lemma path_distinct [simp]:
  "snapshot_path g = snapshot_path g' \<longleftrightarrow> g = g'" "edit_path g n = edit_path g' n' \<longleftrightarrow> g = g' \<and> n = n'"
  "snapshot_path g \<noteq> edit_path g' n'" "edit_path g' n' \<noteq> snapshot_path g"
  "current_path \<noteq> snapshot_path g" "snapshot_path g \<noteq> current_path" "current_path \<noteq> edit_path g n" "edit_path g n \<noteq> current_path"
  "temp_path \<noteq> snapshot_path g" "snapshot_path g \<noteq> temp_path" "temp_path \<noteq> edit_path g n" "edit_path g n \<noteq> temp_path"
  "temp_path \<noteq> current_path" "current_path \<noteq> temp_path"
  by (simp_all add: snapshot_path_def edit_path_def edit_name_def generation_dir_def manifest_dir_def current_path_def
      temp_path_def ascii_names decimal12_inj)

lemma path_dirs [simp]:
  "butlast (snapshot_path g) = generation_dir g" "butlast (edit_path g n) = generation_dir g"
  "butlast current_path = manifest_dir" "butlast temp_path = manifest_dir"
  "last (snapshot_path g) = ascii ''snapshot''" "last (edit_path g n) = edit_name n"
  "snapshot_path g \<noteq> []" "edit_path g n \<noteq> []" "current_path \<noteq> []" "temp_path \<noteq> []"
  by (simp_all add: snapshot_path_def edit_path_def current_path_def temp_path_def)

lemma generation_dir_inj [simp]: "generation_dir g = generation_dir g' \<longleftrightarrow> g = g'" "manifest_dir \<noteq> generation_dir g"
  by (simp_all add: generation_dir_def manifest_dir_def decimal12_inj)

lemma current_not_digits:
  "\<not> list_all is_digit (ascii ''CURRENT'')" "\<not> list_all is_digit (ascii ''CURRENT.tmp'')"
  by (simp_all add: ascii_names is_digit_def)

lemma under_generation [simp]:
  "under (generation_dir g) (snapshot_path h) \<longleftrightarrow> g = h" "under (generation_dir g) (edit_path h n) \<longleftrightarrow> g = h"
  "\<not> under (generation_dir g) current_path" "\<not> under (generation_dir g) temp_path"
  using current_not_digits decimal12_digits(1) [of g]
  by (auto simp: under_def snapshot_path_def edit_path_def generation_dir_def manifest_dir_def current_path_def temp_path_def
      decimal12_inj)

section \<open>The directory keeps the contract\<close>

text \<open>
  The view of a directory, and what is kept of it: the objects have the names the catalog gives them,
  the pointer file is one it wrote. Reading files and directories does not fail; every other call
  may.
\<close>

definition disk_view :: "disk \<Rightarrow> manifest" where
  "disk_view d =
     \<lparr> mf_pointer = (case dk_file d current_path of None \<Rightarrow> None
         | Some text \<Rightarrow> map_option (\<lambda>(g, t). \<lparr> ce_generation = g, ce_token = format_token t \<rparr>) (parse_current text)),
       mf_snapshots = (\<lambda>g. dk_file d (snapshot_path g)),
       mf_edits = (\<lambda>(g, n). dk_file d (edit_path g n)) \<rparr>"

definition known_path :: "path \<Rightarrow> bool" where
  "known_path p \<longleftrightarrow>
     p = current_path \<or> p = temp_path \<or> (\<exists>g. p = snapshot_path g) \<or> (\<exists>g n. p = edit_path g n)"

definition disk_ok :: "disk \<Rightarrow> bool" where
  "disk_ok d \<longleftrightarrow>
     list_all id (dk_reads d) \<and> list_all id (dk_lists d)
     \<and> distinct (map fst (dk_files d))
     \<and> (\<forall>p bs. dk_file d p = Some bs \<longrightarrow> known_path p \<and> butlast p \<in> set (dk_dirs d))
     \<and> (\<forall>text. dk_file d current_path = Some text \<longrightarrow> parse_current text \<noteq> None)"

lemma dk_file_simps [simp]:
  "dk_file (dk_store p bs d) q = (if q = p then Some bs else dk_file d q)"
  "dk_file (dk_unlink p d) q = (if q = p then None else dk_file d q)"
  "dk_file (d\<lparr> dk_calls := cs \<rparr>) q = dk_file d q" "dk_file (d\<lparr> dk_reads := bs' \<rparr>) q = dk_file d q"
  "dk_file (d\<lparr> dk_lists := bs' \<rparr>) q = dk_file d q" "dk_file (d\<lparr> dk_dirs := ps \<rparr>) q = dk_file d q"
  by (auto simp: dk_file_def dk_store_def dk_unlink_def map_of_filter_key)

text \<open>Calls that change no file.\<close>

definition grows :: "disk \<Rightarrow> disk \<Rightarrow> bool" where
  "grows d d' \<longleftrightarrow>
     dk_files d' = dk_files d \<and> set (dk_dirs d) \<subseteq> set (dk_dirs d')
     \<and> (list_all id (dk_reads d) \<longrightarrow> list_all id (dk_reads d')) \<and> (list_all id (dk_lists d) \<longrightarrow> list_all id (dk_lists d'))"

lemma grows_refl [simp]: "grows d d"
  by (simp add: grows_def)

lemma grows_trans: "grows a b \<Longrightarrow> grows b c \<Longrightarrow> grows a c"
  by (auto simp: grows_def)

lemma grows_file: "grows d d' \<Longrightarrow> dk_file d' p = dk_file d p"
  by (simp add: grows_def dk_file_def)

lemma grows_keeps: "grows d d' \<Longrightarrow> disk_ok d \<Longrightarrow> disk_ok d' \<and> disk_view d' = disk_view d"
  by (auto simp: disk_ok_def disk_view_def grows_file) (auto simp: grows_def)

lemma dk_call_grows: "dk_call d = (c, d') \<Longrightarrow> grows d d'"
  by (auto simp: dk_call_def grows_def split: list.splits)

lemma sync_directory_grows: "sync_directory d = (b, d') \<Longrightarrow> grows d d'"
  by (auto simp: sync_directory_def dest: dk_call_grows split: prod.splits)

lemma make_directories_grows: "grows d (make_directories p d)" "p \<noteq> [] \<Longrightarrow> p \<in> set (dk_dirs (make_directories p d))"
  by (auto simp: grows_def make_directories_def image_iff Suc_le_eq intro!: bexI [of _ "length p"])

lemma ensure_directory_grows:
  assumes "ensure_directory p d = (s, d')" and "p \<noteq> []"
  shows "grows d d'" "s = Ok \<Longrightarrow> p \<in> set (dk_dirs d')" "s \<in> {Ok, Io}"
proof -
  obtain c d1 where c: "dk_call d = (c, d1)" by (cases "dk_call d")
  note g1 = dk_call_grows [OF c]
  obtain b d2 where b: "sync_directory (make_directories p d1) = (b, d2)" by (cases "sync_directory (make_directories p d1)")
  note g2 = grows_trans [OF make_directories_grows(1) sync_directory_grows [OF b]]
  obtain b' d3 where b': "sync_directory d2 = (b', d3)" by (cases "sync_directory d2")
  note g3 = sync_directory_grows [OF b']
  have p: "p \<in> set (dk_dirs d2)" "p \<in> set (dk_dirs d3)"
    using make_directories_grows(2) [OF assms(2), of d1] sync_directory_grows [OF b] g3 by (auto simp: grows_def)
  show "grows d d'" "s = Ok \<Longrightarrow> p \<in> set (dk_dirs d')" "s \<in> {Ok, Io}"
    using assms(1) g1 grows_trans [OF g1 g2] grows_trans [OF grows_trans [OF g1 g2] g3] p
    by (auto simp: ensure_directory_def c b b' split: if_splits)
qed

lemma dk_open_read_ok:
  assumes "disk_ok d"
  shows "\<exists>d'. dk_open_read d = (True, d') \<and> disk_ok d' \<and> disk_view d' = disk_view d \<and> dk_file d' = dk_file d"
proof (cases "dk_reads d")
  case (Cons b bs)
  have "grows d (d\<lparr> dk_reads := bs \<rparr>)" using Cons by (simp add: grows_def)
  from grows_keeps [OF this assms] have "disk_ok (d\<lparr> dk_reads := bs \<rparr>) \<and> disk_view (d\<lparr> dk_reads := bs \<rparr>) = disk_view d" .
  moreover have "b" using assms Cons by (simp add: disk_ok_def)
  ultimately show ?thesis using Cons by (simp add: dk_open_read_def fun_eq_iff)
qed (use assms in \<open>simp add: dk_open_read_def\<close>)

lemma dk_open_dir_ok:
  assumes "disk_ok d"
  shows "\<exists>d'. dk_open_dir d = (True, d') \<and> disk_ok d' \<and> disk_view d' = disk_view d \<and> dk_files d' = dk_files d \<and> dk_dirs d' = dk_dirs d"
proof (cases "dk_lists d")
  case (Cons b bs)
  have "grows d (d\<lparr> dk_lists := bs \<rparr>)" using Cons by (simp add: grows_def)
  from grows_keeps [OF this assms] have "disk_ok (d\<lparr> dk_lists := bs \<rparr>) \<and> disk_view (d\<lparr> dk_lists := bs \<rparr>) = disk_view d" .
  moreover have "b" using assms Cons by (simp add: disk_ok_def)
  ultimately show ?thesis using Cons by (simp add: dk_open_dir_def fun_eq_iff)
qed (use assms in \<open>simp add: dk_open_dir_def\<close>)

text \<open>Storing and removing objects other than the pointer.\<close>

lemma disk_ok_store:
  "disk_ok d \<Longrightarrow> known_path p \<Longrightarrow> butlast p \<in> set (dk_dirs d) \<Longrightarrow> (p = current_path \<Longrightarrow> parse_current bs \<noteq> None)
    \<Longrightarrow> disk_ok (dk_store p bs d)"
  by (auto simp: disk_ok_def) (auto simp: dk_store_def distinct_map_filter)

lemma disk_ok_unlink: "disk_ok d \<Longrightarrow> disk_ok (dk_unlink p d)"
  by (auto simp: disk_ok_def split: if_splits) (auto simp: dk_unlink_def distinct_map_filter)

lemma known_paths [simp]: "known_path (snapshot_path g)" "known_path (edit_path g n)" "known_path temp_path" "known_path current_path"
  by (auto simp: known_path_def)

lemma known_path_dir: "known_path p \<Longrightarrow> butlast p \<noteq> []"
  by (auto simp: known_path_def generation_dir_def manifest_dir_def)

lemma write_object_outcome:
  assumes ok: "disk_ok d" and p: "known_path p" "p \<noteq> current_path" and r: "write_object p bs d = (s, d')"
  shows "disk_ok d' \<and>
    (s = Ok \<and> dk_file d p = None \<and> dk_file d' = (dk_file d)(p \<mapsto> bs)
     \<or> s = Config \<and> dk_file d p \<noteq> None \<and> dk_file d' = dk_file d
     \<or> s = Io \<and> (dk_file d' = dk_file d \<or> dk_file d p = None \<and> (\<exists>k. dk_file d' = (dk_file d)(p \<mapsto> take k bs))))"
proof -
  obtain s1 d1 where e: "ensure_directory (butlast p) d = (s1, d1)" by (cases "ensure_directory (butlast p) d")
  note g1 = ensure_directory_grows [OF e known_path_dir [OF p(1)]]
  obtain c2 d2 where c2: "dk_call d1 = (c2, d2)" by (cases "dk_call d1")
  note g2 = grows_trans [OF g1(1) dk_call_grows [OF c2]]
  obtain c3 d3 where c3: "(if bs = [] then (Good, d2) else dk_call d2) = (c3, d3)"
    by (cases "if bs = [] then (Good, d2) else dk_call d2")
  have g3': "grows d2 d3" using c3 dk_call_grows by (auto split: if_splits)
  note g3 = grows_trans [OF g2 g3']
  have stored: "disk_ok d'' \<and> dk_file d'' = (dk_file d)(p \<mapsto> bs')" if "s1 = Ok" "grows (dk_store p bs' d3) d''" for bs' d''
  proof -
    have "butlast p \<in> set (dk_dirs d3)"
      using g1(2) [OF that(1)] dk_call_grows [OF c2] g3' by (auto simp: grows_def)
    then have "disk_ok (dk_store p bs' d3)" using grows_keeps [OF g3 ok] p by (simp add: disk_ok_store)
    then show ?thesis using grows_keeps [OF that(2)] grows_file [OF that(2)] grows_file [OF g3] by (simp add: fun_eq_iff)
  qed
  show ?thesis
  proof (cases "s1 = Ok \<and> c2 = Good \<and> dk_file d p = None")
    case False
    then have "(s, d') = (s1, d1) \<and> s1 \<noteq> Ok \<or> (s, d') = (Io, d2) \<or> (s, d') = (Config, d2) \<and> dk_file d p \<noteq> None"
      using r by (auto simp: write_object_def e c2 grows_file [OF g2] split: if_splits)
    then show ?thesis
      using g1 g2 grows_keeps [OF g1(1) ok] grows_keeps [OF g2 ok] grows_file [OF g1(1)] grows_file [OF g2] by (auto simp: fun_eq_iff)
  next
    case True
    then have s1: "s1 = Ok" and absent: "dk_file d2 p = None" using grows_file [OF g2] by auto
    show ?thesis
    proof (cases "c3 = Good")
      case False
      define k where "k = (case c3 of Partial n \<Rightarrow> n | _ \<Rightarrow> 0)"
      obtain c4 d4 where c4: "dk_call (dk_store p (take k bs) d3) = (c4, d4)" by (cases "dk_call (dk_store p (take k bs) d3)")
      have "(s, d') = (Io, if c4 = Good then dk_unlink p d4 else d4)"
        using r True False absent by (simp add: write_object_def e c2 c3 c4 Let_def k_def [symmetric])
      then show ?thesis
        using stored [OF s1 dk_call_grows [OF c4]] True disk_ok_unlink [of d4 p] by (auto simp: fun_eq_iff)
    next
      case good: True
      obtain c4 d4 where c4: "dk_call (dk_store p bs d3) = (c4, d4)" by (cases "dk_call (dk_store p bs d3)")
      obtain c5 d5 where c5: "dk_call d4 = (c5, d5)" by (cases "dk_call d4")
      obtain b6 d6 where b6: "sync_directory d5 = (b6, d6)" by (cases "sync_directory d5")
      note g5 = grows_trans [OF dk_call_grows [OF c4] dk_call_grows [OF c5]]
      note g6 = grows_trans [OF g5 sync_directory_grows [OF b6]]
      have "(s, d') = (Io, d5) \<or> (s, d') = (Ok, d6) \<or> (s, d') = (Io, d6)"
        using r True good absent by (auto simp: write_object_def e c2 c3 c4 c5 b6 split: if_splits)
      moreover have "take (length bs) bs = bs" by simp
      ultimately show ?thesis using stored [OF s1 g5] stored [OF s1 g6] True by (metis prod.inject)
    qed
  qed
qed

lemma disk_view_file:
  assumes "dk_file d' = (dk_file d)(p \<mapsto> bs)"
  shows "p = snapshot_path g \<Longrightarrow> disk_view d' = (disk_view d)\<lparr> mf_snapshots := (mf_snapshots (disk_view d))(g \<mapsto> bs) \<rparr>"
    and "p = edit_path g n \<Longrightarrow> disk_view d' = (disk_view d)\<lparr> mf_edits := (mf_edits (disk_view d))((g, n) \<mapsto> bs) \<rparr>"
    and "p = temp_path \<Longrightarrow> disk_view d' = disk_view d"
  using assms by (auto simp: disk_view_def fun_eq_iff)

lemma disk_view_same: "dk_file d' = dk_file d \<Longrightarrow> disk_view d' = disk_view d"
  by (simp add: disk_view_def)

lemma read_object_ok:
  assumes "disk_ok d"
  shows "\<exists>d'. read_object p d = (case dk_file d p of None \<Rightarrow> Inl NotFound | Some bs \<Rightarrow> Inr bs, d')
    \<and> disk_ok d' \<and> disk_view d' = disk_view d \<and> dk_file d' = dk_file d"
  using dk_open_read_ok [OF assms] by (auto simp: read_object_def)

lemma disk_read_ok:
  assumes "disk_ok d"
  shows "\<exists>d'. disk_read d = (Inr (mf_pointer (disk_view d)), d') \<and> disk_ok d' \<and> disk_view d' = disk_view d \<and> dk_file d' = dk_file d"
proof -
  obtain d' where r: "read_object current_path d = (case dk_file d current_path of None \<Rightarrow> Inl NotFound | Some bs \<Rightarrow> Inr bs, d')"
    and d': "disk_ok d'" "disk_view d' = disk_view d" "dk_file d' = dk_file d"
    using read_object_ok [OF assms] by blast
  show ?thesis
    using assms d'
    by (auto simp: disk_read_def r disk_view_def disk_ok_def split: option.splits)
qed

lemma same_entry_iff: "same_entry a b \<longleftrightarrow> a = b"
  by (cases a; cases b) (auto simp: same_entry_def)

text \<open>The last steps of the compare-and-set: the text is written to the side and renamed over the pointer.\<close>

lemma disk_cas_install:
  assumes ok: "disk_ok d" "manifest_dir \<in> set (dk_dirs d)" and parsed: "parse_current text = Some (g, t)"
    and r: "(case dk_call d of (removed, d) \<Rightarrow>
       if removed \<noteq> Good then (Inl Io, d)
       else case write_object temp_path text (dk_unlink temp_path d) of (s, d) \<Rightarrow>
       if s \<noteq> Ok then (Inl s, d)
       else case dk_call d of (renamed, d) \<Rightarrow>
       if renamed \<noteq> Good then (Inl Io, d)
       else case sync_directory (dk_unlink temp_path (dk_store current_path text d)) of (synced, d) \<Rightarrow>
       (if synced then Inr (Some \<lparr> ce_generation = g, ce_token = format_token t \<rparr>) else Inl Io, d)) = (res, d')"
  shows "disk_ok d' \<and>
    (disk_view d' = (disk_view d)\<lparr> mf_pointer := Some \<lparr> ce_generation = g, ce_token = format_token t \<rparr> \<rparr>
       \<and> res \<in> {Inr (Some \<lparr> ce_generation = g, ce_token = format_token t \<rparr>), Inl Io}
     \<or> (\<exists>s. s \<noteq> Ok \<and> res = Inl s) \<and> disk_view d' = disk_view d)"
proof -
  obtain c1 d1 where c1: "dk_call d = (c1, d1)" by (cases "dk_call d")
  note g1 = dk_call_grows [OF c1]
  note k1 = grows_keeps [OF g1 ok(1)]
  obtain s2 d2 where w: "write_object temp_path text (dk_unlink temp_path d1) = (s2, d2)"
    by (cases "write_object temp_path text (dk_unlink temp_path d1)")
  have u1: "disk_ok (dk_unlink temp_path d1)" "disk_view (dk_unlink temp_path d1) = disk_view d"
    using k1 disk_ok_unlink by (auto simp: disk_view_def grows_file [OF g1])
  have w2: "disk_ok d2 \<and> disk_view d2 = disk_view d"
    using write_object_outcome [OF u1(1) _ _ w] u1(2) disk_view_same [of d2 "dk_unlink temp_path d1"]
      disk_view_file(3) [of d2 "dk_unlink temp_path d1" temp_path] by auto
  obtain c3 d3 where c3: "dk_call d2 = (c3, d3)" by (cases "dk_call d2")
  have k3: "disk_ok d3 \<and> disk_view d3 = disk_view d" using grows_keeps [OF dk_call_grows [OF c3]] w2 by auto
  obtain b4 d4 where b4: "sync_directory (dk_unlink temp_path (dk_store current_path text d3)) = (b4, d4)"
    by (cases "sync_directory (dk_unlink temp_path (dk_store current_path text d3))")
  consider "(res, d') = (Inl Io, d1)" | "s2 \<noteq> Ok" "(res, d') = (Inl s2, d2)" | "(res, d') = (Inl Io, d3)"
    | "s2 = Ok" "(res, d') = (if b4 then Inr (Some \<lparr> ce_generation = g, ce_token = format_token t \<rparr>) else Inl Io, d4)"
    using r by (auto simp: c1 w c3 b4 split: if_splits)
  then show ?thesis
  proof cases
    case 4
    have "dk_file d2 temp_path = Some text"
      using write_object_outcome [OF u1(1) _ _ w] 4(1) by simp
    then have "dk_file d3 temp_path = Some text" using grows_file [OF dk_call_grows [OF c3]] by simp
    then have "butlast temp_path \<in> set (dk_dirs d3)" using k3 unfolding disk_ok_def by blast
    then have "disk_ok (dk_unlink temp_path (dk_store current_path text d3))"
      using k3 parsed by (intro disk_ok_unlink disk_ok_store) auto
    moreover have "disk_view (dk_unlink temp_path (dk_store current_path text d3)) =
        (disk_view d)\<lparr> mf_pointer := Some \<lparr> ce_generation = g, ce_token = format_token t \<rparr> \<rparr>"
      using k3 parsed by (simp add: disk_view_def fun_eq_iff)
    ultimately show ?thesis using grows_keeps [OF sync_directory_grows [OF b4]] 4(2) by (auto split: if_splits)
  qed (use k1 w2 k3 in auto)
qed

lemma disk_compare_and_set_outcome:
  assumes ok: "disk_ok d"
  shows "cas_outcome disk_ok disk_view expected g d (disk_compare_and_set expected g d)"
proof -
  obtain s1 d1 where e: "ensure_directory manifest_dir d = (s1, d1)" by (cases "ensure_directory manifest_dir d")
  have md: "manifest_dir \<noteq> []" by (simp add: manifest_dir_def)
  note g1 = ensure_directory_grows [OF e md]
  obtain c2 d2 where c2: "dk_call d1 = (c2, d2)" by (cases "dk_call d1")
  note g2 = grows_trans [OF g1(1) dk_call_grows [OF c2]]
  note k1 = grows_keeps [OF g1(1) ok] and k2 = grows_keeps [OF g2 ok]
  obtain d3 where rd: "disk_read d2 = (Inr (mf_pointer (disk_view d)), d3)"
    and k3: "disk_ok d3" "disk_view d3 = disk_view d" "dk_file d3 = dk_file d2"
    using disk_read_ok [of d2] k2 by auto
  let ?obs = "mf_pointer (disk_view d)"
  define parsed where "parsed = (case ?obs of None \<Rightarrow> 0 | Some e \<Rightarrow> (case from_chars (ce_token e) of None \<Rightarrow> 0 | Some (t, _) \<Rightarrow> t))"
  define t where "t = (if ?obs = None then 1 else parsed + 1)"
  have eq: "disk_compare_and_set expected g d =
      (if s1 \<noteq> Ok then (Inl s1, d1) else if c2 \<noteq> Good then (Inl Io, d2)
       else if ?obs \<noteq> expected then (Inr None, d3)
       else if ?obs \<noteq> None \<and> parsed = max_u64 then (Inl Unusable, d3)
       else case dk_call d3 of (removed, d) \<Rightarrow>
         if removed \<noteq> Good then (Inl Io, d)
         else case write_object temp_path (decimal (unat g) @ [32] @ format_token t @ [10]) (dk_unlink temp_path d) of (s, d) \<Rightarrow>
         if s \<noteq> Ok then (Inl s, d)
         else case dk_call d of (renamed, d) \<Rightarrow>
         if renamed \<noteq> Good then (Inl Io, d)
         else case sync_directory (dk_unlink temp_path (dk_store current_path (decimal (unat g) @ [32] @ format_token t @ [10]) d)) of (synced, d) \<Rightarrow>
         (if synced then Inr (Some \<lparr> ce_generation = g, ce_token = format_token t \<rparr>) else Inl Io, d))"
    unfolding disk_compare_and_set_def e prod.case c2 rd sum.case Let_def same_entry_iff parsed_def t_def
    by (simp only: eq_commute [of expected] split: if_splits)
  show ?thesis
  proof (cases "s1 \<noteq> Ok \<or> c2 \<noteq> Good \<or> ?obs \<noteq> expected \<or> ?obs \<noteq> None \<and> parsed = max_u64")
    case True
    then show ?thesis using k1 k2 k3 by (auto simp: eq cas_outcome_def)
  next
    case False
    have dir: "manifest_dir \<in> set (dk_dirs d3)"
    proof -
      have "dk_dirs d3 = dk_dirs d2"
        using rd by (auto simp: disk_read_def read_object_def dk_open_read_def split: list.splits prod.splits)
      then show ?thesis using g1(2) False dk_call_grows [OF c2] by (auto simp: grows_def)
    qed
    obtain res d' where r: "disk_compare_and_set expected g d = (res, d')" by (cases "disk_compare_and_set expected g d")
    note inst = disk_cas_install [OF k3(1) dir parse_current_text, of g t res d']
    have "disk_ok d' \<and>
      (disk_view d' = (disk_view d)\<lparr> mf_pointer := Some \<lparr> ce_generation = g, ce_token = format_token t \<rparr> \<rparr>
         \<and> res \<in> {Inr (Some \<lparr> ce_generation = g, ce_token = format_token t \<rparr>), Inl Io}
       \<or> (\<exists>s. s \<noteq> Ok \<and> res = Inl s) \<and> disk_view d' = disk_view d)"
      unfolding k3(2) [symmetric] by (rule inst) (use r False eq in auto)
    moreover have "ce_generation \<lparr> ce_generation = g, ce_token = format_token t \<rparr> = g" by simp
    ultimately show ?thesis using False unfolding r cas_outcome_def fst_conv snd_conv by blast
  qed
qed

lemma disk_list_edits_ok:
  assumes "disk_ok d"
  shows "\<exists>d' ns. disk_list_edits g d = (Inr ns, d') \<and> disk_ok d' \<and> disk_view d' = disk_view d
    \<and> distinct ns \<and> set ns = {n. mf_edits (disk_view d) (g, n) \<noteq> None}"
proof -
  obtain d' where o: "dk_open_dir d = (True, d')" and d': "disk_ok d'" "disk_view d' = disk_view d"
    "dk_files d' = dk_files d" "dk_dirs d' = dk_dirs d"
    using dk_open_dir_ok [OF assms] by blast
  let ?ps = "filter (\<lambda>p. p \<noteq> [] \<and> butlast p = generation_dir g) (map fst (dk_files d))"
  have paths: "p = snapshot_path g \<or> (\<exists>n. p = edit_path g n)" if "p \<in> set ?ps" for p
  proof -
    have "dk_file d p \<noteq> None" using that by (auto simp: dk_file_def map_of_eq_None_iff image_iff)
    then have "known_path p" using assms by (auto simp: disk_ok_def)
    then show ?thesis using that by (auto simp: known_path_def)
  qed
  have key: "p = edit_path g n" if "p \<in> set ?ps" "edit_seq (last p) = Some n" for p n
    using paths [OF that(1)] that(2) by (auto simp: edit_seq_name edit_seq_snapshot)
  let ?ns = "List.map_filter (\<lambda>p. edit_seq (last p)) ?ps"
  have dis: "distinct ?ns"
  proof -
    have "distinct (map fst (dk_files d))" using assms by (simp add: disk_ok_def)
    moreover have "inj_on (\<lambda>p. the (edit_seq (last p))) (set (filter (\<lambda>p. edit_seq (last p) \<noteq> None) ?ps))"
    proof (rule inj_onI)
      fix p q assume "p \<in> set (filter (\<lambda>p. edit_seq (last p) \<noteq> None) ?ps)" "q \<in> set (filter (\<lambda>p. edit_seq (last p) \<noteq> None) ?ps)"
        and eq: "the (edit_seq (last p)) = the (edit_seq (last q))"
      then have p: "p \<in> set ?ps" "q \<in> set ?ps" "edit_seq (last p) = Some (the (edit_seq (last p)))"
        "edit_seq (last q) = Some (the (edit_seq (last p)))" by auto
      show "p = q" using key [OF p(1,3)] key [OF p(2,4)] by (rule trans [OF _ sym])
    qed
    ultimately show ?thesis by (simp add: List.map_filter_def distinct_map [of _ "filter _ _"] comp_def)
  qed
  have mem: "n \<in> set ?ns \<longleftrightarrow> dk_file d (edit_path g n) \<noteq> None" for n
  proof -
    have "n \<in> set ?ns \<longleftrightarrow> (\<exists>p \<in> set ?ps. edit_seq (last p) = Some n)"
      by (auto simp: List.map_filter_def image_iff)
    also have "\<dots> \<longleftrightarrow> edit_path g n \<in> set ?ps"
      by (rule iffI) (use key in blast, intro bexI [of _ "edit_path g n"], simp_all only: path_dirs edit_seq_name)
    also have "\<dots> \<longleftrightarrow> dk_file d (edit_path g n) \<noteq> None"
      by (auto simp: dk_file_def map_of_eq_None_iff)
    finally show ?thesis .
  qed
  show ?thesis
  proof (cases "generation_dir g \<in> set (dk_dirs d)")
    case True
    then show ?thesis using o d' dis mem by (auto simp: disk_list_edits_def disk_view_def)
  next
    case False
    then have "dk_file d (edit_path g n) = None" for n
      using assms by (cases "dk_file d (edit_path g n)") (auto simp: disk_ok_def)
    then show ?thesis using False o d' by (auto simp: disk_list_edits_def disk_view_def)
  qed
qed

lemma disk_unlink_fold:
  "disk_ok d \<Longrightarrow> disk_ok (fold dk_unlink ps d)
    \<and> dk_file (fold dk_unlink ps d) q = (if q \<in> set ps then None else dk_file d q)"
  by (induction ps arbitrary: d) (auto simp: disk_ok_unlink)

lemma disk_delete_generation_outcome:
  assumes ok: "disk_ok d"
  shows "disk_ok (snd (disk_delete_generation g d)) \<and> without_generation g (disk_view d) (disk_view (snd (disk_delete_generation g d)))"
proof -
  obtain c d1 where c: "dk_call d = (c, d1)" by (cases "dk_call d")
  note k1 = grows_keeps [OF dk_call_grows [OF c] ok]
  let ?doomed = "filter (under (generation_dir g)) (map fst (dk_files d1))"
  have without: "without_generation g (disk_view d) (disk_view d')"
    if "\<And>q. dk_file d' q = (if q \<in> set ps then None else dk_file d1 q)" "set ps \<subseteq> set ?doomed" for d' ps
  proof -
    have "q \<in> set ps \<Longrightarrow> under (generation_dir g) q" for q using that(2) by auto
    then have "current_path \<notin> set ps" "snapshot_path h \<in> set ps \<Longrightarrow> h = g" "edit_path h n \<in> set ps \<Longrightarrow> h = g" for h n
      by force+
    then show ?thesis using that(1) unfolding conjunct2 [OF k1, symmetric]
      by (auto simp: without_generation_def disk_view_def)
  qed
  show ?thesis
  proof (cases "c = Good")
    case False
    let ?ps = "take (case c of Partial n \<Rightarrow> n | _ \<Rightarrow> 0) ?doomed"
    have "snd (disk_delete_generation g d) = fold dk_unlink ?ps d1"
      using False by (simp add: disk_delete_generation_def c Let_def)
    moreover have "without_generation g (disk_view d) (disk_view (fold dk_unlink ?ps d1))"
      by (rule without [of _ ?ps]) (use disk_unlink_fold [of d1 ?ps] k1 in simp, rule set_take_subset)
    ultimately show ?thesis using disk_unlink_fold [of d1 ?ps] k1 by simp
  next
    case True
    let ?d2 = "fold dk_unlink ?doomed d1"
    let ?d3 = "?d2\<lparr> dk_dirs := filter (\<lambda>p. \<not> under (generation_dir g) p) (dk_dirs ?d2) \<rparr>"
    obtain b d4 where b: "sync_directory ?d3 = (b, d4)" by (cases "sync_directory ?d3")
    have d4: "snd (disk_delete_generation g d) = d4"
      using True b by (simp add: disk_delete_generation_def c Let_def)
    have gone: "dk_file ?d3 q = (if q \<in> set ?doomed then None else dk_file d1 q)" for q
      using disk_unlink_fold [of d1 ?doomed] k1 by simp
    have "disk_ok ?d3"
    proof -
      have ok2: "disk_ok ?d2" using disk_unlink_fold [of d1 ?doomed] k1 by simp
      have "\<not> under (generation_dir g) (butlast p)" if "dk_file ?d2 p = Some bs" for p bs
      proof
        assume u: "under (generation_dir g) (butlast p)"
        have k: "known_path p" using ok2 that by (auto simp: disk_ok_def)
        then have "under (generation_dir g) p"
          using u by (auto simp: known_path_def) (auto simp: under_def generation_dir_def manifest_dir_def decimal12_inj)
        moreover have "dk_file d1 p = Some bs" and "p \<notin> set ?doomed"
          using that disk_unlink_fold [of d1 ?doomed p] k1 by (auto split: if_splits)
        ultimately show False using map_of_SomeD [of "dk_files d1" p bs] by (force simp: dk_file_def)
      qed
      then show ?thesis using ok2 by (auto simp: disk_ok_def)
    qed
    then show ?thesis
      using grows_keeps [OF sync_directory_grows [OF b]] without [of ?d3 ?doomed] gone by (auto simp: d4)
  qed
qed

lemma write_object_put:
  assumes ok: "disk_ok d" and p: "known_path p" "p \<noteq> current_path"
    and view: "\<And>d' bs. dk_file d' = (dk_file d)(p \<mapsto> bs) \<Longrightarrow> disk_view d' = store bs (disk_view d)"
  shows "put_outcome disk_ok disk_view store (dk_file d p) bs d (write_object p bs d)"
proof -
  obtain s d' where r: "write_object p bs d = (s, d')" by (cases "write_object p bs d")
  show ?thesis
    using write_object_outcome [OF ok p r] view disk_view_same [of d' d] unfolding r put_outcome_def by auto
qed

interpretation disk: manifest_catalog DiskManifestCatalog disk_ok disk_view
proof unfold_locales
  fix d :: disk and g n :: u64 and bs :: bytes and e :: "catalog_entry option"
  assume ok: "disk_ok d"
  show "\<exists>d'. cat_read DiskManifestCatalog d = (Inr (mf_pointer (disk_view d)), d') \<and> disk_ok d' \<and> disk_view d' = disk_view d"
    using disk_read_ok [OF ok] by (auto simp: DiskManifestCatalog_def)
  show "\<exists>d'. cat_get_snapshot DiskManifestCatalog g d =
      (case mf_snapshots (disk_view d) g of None \<Rightarrow> Inl NotFound | Some bs \<Rightarrow> Inr bs, d') \<and> disk_ok d' \<and> disk_view d' = disk_view d"
    using read_object_ok [OF ok, of "snapshot_path g"] by (auto simp: DiskManifestCatalog_def disk_view_def)
  show "\<exists>d'. cat_get_edit DiskManifestCatalog g n d =
      (case mf_edits (disk_view d) (g, n) of None \<Rightarrow> Inl NotFound | Some bs \<Rightarrow> Inr bs, d') \<and> disk_ok d' \<and> disk_view d' = disk_view d"
    using read_object_ok [OF ok, of "edit_path g n"] by (auto simp: DiskManifestCatalog_def disk_view_def)
  show "\<exists>d' ns. cat_list_edits DiskManifestCatalog g d = (Inr ns, d') \<and> disk_ok d' \<and> disk_view d' = disk_view d
      \<and> distinct ns \<and> set ns = {n. mf_edits (disk_view d) (g, n) \<noteq> None}"
    using disk_list_edits_ok [OF ok] by (simp add: DiskManifestCatalog_def)
  show "disk_ok (snd (cat_list_generations DiskManifestCatalog d)) \<and> disk_view (snd (cat_list_generations DiskManifestCatalog d)) = disk_view d
      \<and> fst (cat_list_generations DiskManifestCatalog d) \<noteq> Inl Ok"
    using dk_open_dir_ok [OF ok] by (auto simp: DiskManifestCatalog_def disk_list_generations_def)
  show "put_outcome disk_ok disk_view (\<lambda>bs m. m\<lparr> mf_snapshots := (mf_snapshots m)(g \<mapsto> bs) \<rparr>)
      (mf_snapshots (disk_view d) g) bs d (cat_put_snapshot DiskManifestCatalog g bs d)"
    using write_object_put [OF ok, of "snapshot_path g" "\<lambda>bs m. m\<lparr> mf_snapshots := (mf_snapshots m)(g \<mapsto> bs) \<rparr>" bs]
      disk_view_file(1) [of _ d "snapshot_path g" _ g] by (simp add: DiskManifestCatalog_def disk_view_def)
  show "put_outcome disk_ok disk_view (\<lambda>bs m. m\<lparr> mf_edits := (mf_edits m)((g, n) \<mapsto> bs) \<rparr>)
      (mf_edits (disk_view d) (g, n)) bs d (cat_put_edit DiskManifestCatalog g n bs d)"
    using write_object_put [OF ok, of "edit_path g n" "\<lambda>bs m. m\<lparr> mf_edits := (mf_edits m)((g, n) \<mapsto> bs) \<rparr>" bs]
      disk_view_file(2) [of _ d "edit_path g n" _ g n] by (simp add: DiskManifestCatalog_def disk_view_def)
  show "cas_outcome disk_ok disk_view e g d (cat_compare_and_set DiskManifestCatalog e g d)"
    using disk_compare_and_set_outcome [OF ok] by (simp add: DiskManifestCatalog_def)
  show "disk_ok (snd (cat_delete_generation DiskManifestCatalog g d))
      \<and> without_generation g (disk_view d) (disk_view (snd (cat_delete_generation DiskManifestCatalog g d)))"
    using disk_delete_generation_outcome [OF ok] by (simp add: DiskManifestCatalog_def)
qed

end
