(* ===== verification/Version_Set.thy ===== *)
theory Version_Set
  imports Catalog Version
begin

text \<open>
  src/version/version\_set.hpp and version\_set.cpp: the current version, the manifest that makes it
  durable and the deletion of the files no version needs any more.

  The catalog, the deleter, the clock and the readers are what the version set is constructed with or
  shares with others; they act on the state of the world, which every operation takes and returns. A
  version handed out is known by the number of its handle, so that a weak pointer is live while the
  handle is current or held by a reader. The mutexes are not modelled: an operation is one step. The
  text of \<open>last_error_\<close> is not modelled.
\<close>

section \<open>State\<close>

record 'w version_set_env =
  en_catalog :: "'w catalog"
  en_encryption :: provider_registry
  en_codecs :: codec_library
  en_edits_per_generation :: int
  en_deleter :: "(file_metadata list \<Rightarrow> 'w \<Rightarrow> file_metadata list \<times> 'w) option"
  en_clock :: "('w \<Rightarrow> u64) option"
  en_obsolete_retention :: u64
  en_held :: "'w \<Rightarrow> nat \<Rightarrow> bool"

record pending_deletion =
  pd_file :: file_metadata
  pd_unreferenced_since_ms :: u64

definition kPublishedLevels :: nat where "kPublishedLevels = 16"

record version_set =
  vt_current :: version
  vt_current_handle :: nat
  vt_handles :: nat
  vt_entry :: "catalog_entry option"
  vt_next_seq :: u64
  vt_live_versions :: "(nat \<times> version) list"
  vt_pending_deletions :: "pending_deletion list"
  vt_next_file_number :: u64
  vt_fenced :: bool
  vt_pending_deletions_hint :: nat
  vt_installs :: u64
  vt_pending_reencryption :: u64
  vt_file_counts :: "u32 list"

definition VersionSet :: version_set where
  "VersionSet =
     \<lparr> vt_current = empty_version, vt_current_handle = 0, vt_handles = 1, vt_entry = None, vt_next_seq = 1,
       vt_live_versions = [], vt_pending_deletions = [], vt_next_file_number = 1, vt_fenced = False,
       vt_pending_deletions_hint = 0, vt_installs = 0, vt_pending_reencryption = 0,
       vt_file_counts = replicate kPublishedLevels 0 \<rparr>"

definition edits_per_generation :: "'w version_set_env \<Rightarrow> int" where
  "edits_per_generation E = max 1 (en_edits_per_generation E)"

definition now_ms :: "'w version_set_env \<Rightarrow> 'w \<Rightarrow> u64" where
  "now_ms E w = (case en_clock E of None \<Rightarrow> 0 | Some clock \<Rightarrow> clock w)"

definition set_generation :: "version_set \<Rightarrow> u64" where
  "set_generation V = (case vt_entry V of None \<Rightarrow> 0 | Some e \<Rightarrow> ce_generation e)"

definition mark_fenced :: "version_set \<Rightarrow> version_set" where
  "mark_fenced V = V\<lparr> vt_fenced := True \<rparr>"

definition allocate_file_number :: "version_set \<Rightarrow> u64 \<times> version_set" where
  "allocate_file_number V = (vt_next_file_number V, V\<lparr> vt_next_file_number := vt_next_file_number V + 1 \<rparr>)"

definition observe_file_number :: "u64 \<Rightarrow> version_set \<Rightarrow> version_set" where
  "observe_file_number number V =
     (if vt_next_file_number V \<le> number then V\<lparr> vt_next_file_number := number + 1 \<rparr> else V)"

definition published_counts :: "version \<Rightarrow> u32 list" where
  "published_counts v =
     map (\<lambda>level. if level < length (v_levels v) then of_nat (file_count v level) else 0) [0..<kPublishedLevels]"

definition published_file_count :: "version_set \<Rightarrow> nat \<Rightarrow> u32" where
  "published_file_count V level = (if kPublishedLevels \<le> level then 0 else vt_file_counts V ! level)"

definition set_install :: "version \<Rightarrow> version_set \<Rightarrow> version_set" where
  "set_install v V =
     V\<lparr> vt_installs := vt_installs V + 1, vt_live_versions := vt_live_versions V @ [(vt_handles V, v)],
        vt_file_counts := published_counts v, vt_current := v, vt_current_handle := vt_handles V,
        vt_handles := vt_handles V + 1 \<rparr>"

section \<open>Snapshots\<close>

definition snapshot_of :: "version_set \<Rightarrow> version \<Rightarrow> version_snapshot" where
  "snapshot_of V v =
     \<lparr> vs_next_file_number = vt_next_file_number V, vs_files = all_files v,
       vs_compaction_pointers = v_compaction_pointers v, vs_truncation_point = v_truncation_point v,
       vs_watermark_floor = v_watermark_floor v \<rparr>"

definition kSnapshotAttempts :: nat where "kSnapshotAttempts = 16"

text \<open>
  The loop that finds a free generation. Its result is a status to return, with whether the writer is
  fenced, or the generation whose snapshot is stored; \<open>n\<close> is the number of attempts left.
\<close>

fun snapshot_attempts ::
    "'w version_set_env \<Rightarrow> catalog_entry option \<Rightarrow> bytes \<Rightarrow> u64 \<Rightarrow> nat \<Rightarrow> 'w \<Rightarrow> (status \<times> bool + u64) \<times> 'w" where
  "snapshot_attempts E entry bs generation 0 w = (Inr generation, w)"
| "snapshot_attempts E entry bs generation (Suc n) w =
     (case payload_seal (en_codecs E) (en_encryption E) generation (snapshot_address generation) bs of
        Inl s \<Rightarrow> (Inl (s, False), w)
      | Inr framed \<Rightarrow>
          (case cat_put_snapshot (en_catalog E) generation framed w of (s, w) \<Rightarrow>
             if s = Ok then (Inr generation, w)
             else if s \<noteq> Config then (Inl (s, False), w)
             else case cat_read (en_catalog E) w of
               (Inl s, w) \<Rightarrow> (Inl (s, False), w)
             | (Inr pointer, w) \<Rightarrow>
                 if \<not> same_entry entry pointer then (Inl (Fenced, True), w)
                 else case cat_list_generations (en_catalog E) w of (listed, w) \<Rightarrow>
                   (case listed of
                      Inl s \<Rightarrow>
                        if s \<noteq> Unsupported then (Inl (s, False), w)
                        else if generation = max_u64 then (Inl (Unusable, False), w)
                        else if n = 0 then (Inl (Unusable, False), w)
                        else snapshot_attempts E entry bs (generation + 1) n w
                    | Inr existing \<Rightarrow>
                        let generation = fold (\<lambda>g m. max m g) existing generation in
                        if generation = max_u64 then (Inl (Unusable, False), w)
                        else if n = 0 then (Inl (Unusable, False), w)
                        else snapshot_attempts E entry bs (generation + 1) n w)))"

text \<open>Adopting a pointer that has been installed, and removing the generation it replaces.\<close>

definition adopt_entry :: "'w version_set_env \<Rightarrow> catalog_entry \<Rightarrow> 'w \<Rightarrow> version_set \<Rightarrow> status \<times> 'w \<times> version_set" where
  "adopt_entry E entry w V =
     (Ok,
      case vt_entry V of None \<Rightarrow> w | Some previous \<Rightarrow> snd (cat_delete_generation (en_catalog E) (ce_generation previous) w),
      V\<lparr> vt_entry := Some entry, vt_pending_reencryption := 0 \<rparr>)"

definition write_snapshot_and_install ::
    "'w version_set_env \<Rightarrow> u64 \<Rightarrow> version \<Rightarrow> 'w \<Rightarrow> version_set \<Rightarrow> status \<times> 'w \<times> version_set" where
  "write_snapshot_and_install E generation v w V =
     (case snapshot_attempts E (vt_entry V) (encode_version_snapshot (en_codecs E) (snapshot_of V v)) generation kSnapshotAttempts w of
        (Inl (s, fence), w) \<Rightarrow> (s, w, if fence then mark_fenced V else V)
      | (Inr generation, w) \<Rightarrow>
          (case cat_compare_and_set (en_catalog E) (vt_entry V) generation w of
             (Inr (Some entry), w) \<Rightarrow> adopt_entry E entry w V
           | (Inr None, w) \<Rightarrow> (Fenced, w, mark_fenced V)
           | (Inl s, w) \<Rightarrow>
               if s \<noteq> Io then (s, w, V)
               else (case cat_read (en_catalog E) w of
                       (Inl s, w) \<Rightarrow> (s, w, V)
                     | (Inr seen, w) \<Rightarrow>
                         if seen \<noteq> None \<and> ce_generation (the seen) = generation
                         then adopt_entry E (the seen) w V
                         else if same_entry (vt_entry V) seen then (Io, w, V)
                         else (Fenced, w, mark_fenced V))))"

definition set_create :: "'w version_set_env \<Rightarrow> 'w \<Rightarrow> version_set \<Rightarrow> status \<times> 'w \<times> version_set" where
  "set_create E w V =
     (case write_snapshot_and_install E 1 empty_version w V of (s, w, V) \<Rightarrow>
        if s \<noteq> Ok then (s, w, V) else (Ok, w, set_install empty_version (V\<lparr> vt_next_seq := 1 \<rparr>)))"

section \<open>Recovery\<close>

definition refuses_plaintext :: "provider_registry \<Rightarrow> file_metadata list \<Rightarrow> bool" where
  "refuses_plaintext R files \<longleftrightarrow>
     rg_primary R \<noteq> [] \<and> \<not> rg_accept_plaintext R \<and> list_ex (\<lambda>f. fm_encryption_provider f = []) files"

definition version_of_snapshot :: "version_snapshot \<Rightarrow> version" where
  "version_of_snapshot s =
     version_apply
       (Version [] (vs_next_file_number s) (fold (\<lambda>(l, k) m. map_insert l k m) (vs_compaction_pointers s) [])
          (vs_truncation_point s) (vs_watermark_floor s))
       (VersionEdit\<lparr> ve_added := vs_files s \<rparr>)"

record replay_state =
  rs_expected_seq :: u64
  rs_version :: version
  rs_file_number :: u64
  rs_stale :: u64

text \<open>How the loop over the edits ends.\<close>

datatype replay_end = Replayed | Unreadable | Missing | Failed status

fun replay_edits ::
    "'w version_set_env \<Rightarrow> u64 \<Rightarrow> u64 \<Rightarrow> u64 list \<Rightarrow> replay_state \<Rightarrow> 'w \<Rightarrow> replay_end \<times> replay_state \<times> 'w" where
  "replay_edits E generation tail [] st w = (Replayed, st, w)"
| "replay_edits E generation tail (sq # sqs) st w =
     (if sq \<noteq> rs_expected_seq st then (Replayed, st, w)
      else case cat_get_edit (en_catalog E) generation sq w of
        (Inl s, w) \<Rightarrow>
          (if s = NotFound then (if sq = tail then Replayed else Missing) else Unreadable, st, w)
      | (Inr bs, w) \<Rightarrow>
          (case payload_open (en_codecs E) (en_encryption E) generation (edit_address generation sq) bs of
             Inl s \<Rightarrow>
               (if s = Config \<or> s = Unsupported then Failed s
                else if sq = tail \<and> s = Corrupt then Replayed
                else Failed Corrupt, st, w)
           | Inr (plain, provider) \<Rightarrow>
               (case decode_version_edit (en_codecs E) plain of
                  Inl s \<Rightarrow>
                    (if sq = tail \<and> s = Corrupt then Replayed
                     else Failed (if s = Unsupported then Unsupported else Corrupt), st, w)
                | Inr e \<Rightarrow>
                    if refuses_plaintext (en_encryption E) (ve_added e) then (Failed Config, st, w)
                    else replay_edits E generation tail sqs
                      (st\<lparr> rs_version := version_apply (rs_version st) e,
                           rs_stale := rs_stale st + (if provider \<noteq> rg_primary (en_encryption E) then 1 else 0),
                           rs_file_number := (if rs_file_number st < ve_next_file_number e then ve_next_file_number e
                                              else rs_file_number st),
                           rs_expected_seq := rs_expected_seq st + 1 \<rparr>) w)))"

definition kRecoverAttempts :: nat where "kRecoverAttempts = 4"

definition set_recovered :: "catalog_entry \<Rightarrow> replay_state \<Rightarrow> version_set \<Rightarrow> version_set" where
  "set_recovered entry st V =
     set_install (rs_version st)
       (V\<lparr> vt_entry := Some entry, vt_next_seq := rs_expected_seq st, vt_pending_reencryption := rs_stale st,
           vt_next_file_number := rs_file_number st \<rparr>)"

text \<open>
  The retry loop; \<open>n\<close> attempts are left. The result is \<^const>\<open>None\<close> where the source reads the value
  of a result that holds an error, which is undefined: after an edit that could not be read, the
  pointer is read again and used without asking whether that succeeded.
\<close>

fun recover_attempts :: "'w version_set_env \<Rightarrow> version_set \<Rightarrow> nat \<Rightarrow> 'w \<Rightarrow> status option \<times> 'w \<times> version_set" where
  "recover_attempts E V 0 w = (Some Stale, w, V)"
| "recover_attempts E V (Suc n) w =
     (case cat_read (en_catalog E) w of
        (Inl s, w) \<Rightarrow> (Some s, w, V)
      | (Inr None, w) \<Rightarrow> (Some NotFound, w, V)
      | (Inr (Some entry), w) \<Rightarrow>
          let generation = ce_generation entry in
          (case cat_get_snapshot (en_catalog E) generation w of
             (Inl s, w) \<Rightarrow>
               if s \<noteq> NotFound then (Some s, w, V)
               else (case cat_read (en_catalog E) w of
                       (Inl s, w) \<Rightarrow> (Some s, w, V)
                     | (Inr moved, w) \<Rightarrow>
                         if moved \<noteq> None \<and> ce_generation (the moved) \<noteq> generation then recover_attempts E V n w
                         else (Some Corrupt, w, V))
           | (Inr bs, w) \<Rightarrow>
          (case payload_open (en_codecs E) (en_encryption E) generation (snapshot_address generation) bs of
             Inl s \<Rightarrow> (Some s, w, V)
           | Inr (plain, provider) \<Rightarrow>
          (case decode_version_snapshot (en_codecs E) plain of
             Inl s \<Rightarrow> (Some s, w, V)
           | Inr snapshot \<Rightarrow>
          if refuses_plaintext (en_encryption E) (vs_files snapshot) then (Some Config, w, V)
          else (case cat_list_edits (en_catalog E) generation w of
             (Inl s, w) \<Rightarrow> (Some s, w, V)
           | (Inr sqs, w) \<Rightarrow>
          (case replay_edits E generation (last (sort sqs)) (sort sqs)
              \<lparr> rs_expected_seq = 1, rs_version = version_of_snapshot snapshot, rs_file_number = vs_next_file_number snapshot,
                rs_stale = (if provider = rg_primary (en_encryption E) then 0 else 1) \<rparr> w of
             (Failed s, st, w) \<Rightarrow> (Some s, w, V)
           | (Unreadable, st, w) \<Rightarrow>
               (case cat_read (en_catalog E) w of
                  (Inl s, w) \<Rightarrow> (None, w, V)
                | (Inr moved, w) \<Rightarrow>
                    if moved \<noteq> None \<and> ce_generation (the moved) \<noteq> generation then recover_attempts E V n w
                    else (Some Io, w, V))
           | (Missing, st, w) \<Rightarrow>
               (case cat_read (en_catalog E) w of
                  (Inl s, w) \<Rightarrow> (Some s, w, V)
                | (Inr moved, w) \<Rightarrow>
                    if moved \<noteq> None \<and> ce_generation (the moved) \<noteq> generation then recover_attempts E V n w
                    else (Some Corrupt, w, V))
           | (Replayed, st, w) \<Rightarrow>
               (case cat_read (en_catalog E) w of
                  (Inl s, w) \<Rightarrow> (Some s, w, V)
                | (Inr None, w) \<Rightarrow> (Some NotFound, w, V)
                | (Inr (Some after), w) \<Rightarrow>
                    if ce_generation after \<noteq> generation then recover_attempts E V n w
                    else if vt_entry V \<noteq> None \<and>
                        (generation < ce_generation (the (vt_entry V))
                         \<or> generation = ce_generation (the (vt_entry V)) \<and> rs_expected_seq st < vt_next_seq V)
                    then (Some Corrupt, w, V)
                    else (Some Ok, w, set_recovered entry st V))))))))"

definition set_recover :: "'w version_set_env \<Rightarrow> 'w \<Rightarrow> version_set \<Rightarrow> status option \<times> 'w \<times> version_set" where
  "set_recover E w V = recover_attempts E V kRecoverAttempts w"

section \<open>Deleting obsolete files\<close>

definition version_alive :: "'w version_set_env \<Rightarrow> 'w \<Rightarrow> version_set \<Rightarrow> nat \<Rightarrow> bool" where
  "version_alive E w V handle \<longleftrightarrow> handle = vt_current_handle V \<or> en_held E w handle"

definition within_retention :: "'w version_set_env \<Rightarrow> u64 \<Rightarrow> pending_deletion \<Rightarrow> bool" where
  "within_retention E now p \<longleftrightarrow>
     0 < en_obsolete_retention E \<and> pd_unreferenced_since_ms p \<le> now
     \<and> now - pd_unreferenced_since_ms p < en_obsolete_retention E"

definition file_numbers :: "version list \<Rightarrow> u64 set" where
  "file_numbers vs = fm_file_number ` set (concat (map all_files vs))"

definition collect_obsolete :: "'w version_set_env \<Rightarrow> 'w \<Rightarrow> version_set \<Rightarrow> 'w \<times> version_set" where
  "collect_obsolete E w V =
     (let live = filter (\<lambda>(h, _). version_alive E w V h) (vt_live_versions V); V = V\<lparr> vt_live_versions := live \<rparr> in
      case en_deleter E of
        None \<Rightarrow> (w, V)
      | Some deleter \<Rightarrow>
          if vt_pending_deletions V = [] then (w, V)
          else
            let referenced = file_numbers (map snd live); now = now_ms E w;
                keep = (\<lambda>p. fm_file_number (pd_file p) \<in> referenced \<or> within_retention E now p);
                still_pending = filter keep (vt_pending_deletions V);
                collectable = map pd_file (filter (\<lambda>p. \<not> keep p) (vt_pending_deletions V));
                (failed, w) = (if collectable \<noteq> [] then deleter collectable w else ([], w));
                pending = still_pending @ map (\<lambda>f. \<lparr> pd_file = f, pd_unreferenced_since_ms = 0 \<rparr>) failed
            in (w, V\<lparr> vt_pending_deletions := pending, vt_pending_deletions_hint := length pending \<rparr>))"

section \<open>Applying an edit\<close>

definition maybe_roll_generation :: "'w version_set_env \<Rightarrow> version \<Rightarrow> 'w \<Rightarrow> version_set \<Rightarrow> status \<times> 'w \<times> version_set" where
  "maybe_roll_generation E v w V =
     (if vt_next_seq V \<le> of_int (edits_per_generation E) then (Ok, w, V)
      else case write_snapshot_and_install E (ce_generation (the (vt_entry V)) + 1) v w V of (s, w, V) \<Rightarrow>
        if s \<noteq> Ok then (s, w, V) else (Ok, w, V\<lparr> vt_next_seq := 1 \<rparr>))"

definition roll_generation_now :: "'w version_set_env \<Rightarrow> 'w \<Rightarrow> version_set \<Rightarrow> status \<times> 'w \<times> version_set" where
  "roll_generation_now E w V =
     (if vt_fenced V then (Fenced, w, V)
      else if vt_entry V = None then (Unusable, w, V)
      else if vt_next_seq V = 1 \<and> vt_pending_reencryption V = 0 then (Ok, w, V)
      else case write_snapshot_and_install E (ce_generation (the (vt_entry V)) + 1) (vt_current V) w V of (s, w, V) \<Rightarrow>
        if s \<noteq> Ok then (s, w, V) else (Ok, w, V\<lparr> vt_next_seq := 1 \<rparr>))"

text \<open>The files an edit removes for good: those it does not add again under the same number.\<close>

definition newly_pending :: "u64 \<Rightarrow> version \<Rightarrow> version_edit \<Rightarrow> pending_deletion list" where
  "newly_pending now base e =
     concat (map (\<lambda>r.
       if fr_file_number r \<in> fm_file_number ` set (ve_added e) then []
       else case find (\<lambda>f. fm_file_number f = fr_file_number r) (files_at base (fr_level r)) of
              None \<Rightarrow> [] | Some f \<Rightarrow> [\<lparr> pd_file = f, pd_unreferenced_since_ms = now \<rparr>]) (ve_deleted e))"

definition set_apply :: "'w version_set_env \<Rightarrow> version_edit \<Rightarrow> 'w \<Rightarrow> version_set \<Rightarrow> status \<times> 'w \<times> version_set" where
  "set_apply E e w V =
     (if vt_fenced V then (Fenced, w, V)
      else case vt_entry V of
        None \<Rightarrow> (Unusable, w, V)
      | Some entry \<Rightarrow>
          let e = e\<lparr> ve_next_file_number := vt_next_file_number V \<rparr> in
          (case payload_seal (en_codecs E) (en_encryption E) (ce_generation entry)
              (edit_address (ce_generation entry) (vt_next_seq V)) (encode_version_edit (en_codecs E) e) of
             Inl s \<Rightarrow> (s, w, V)
           | Inr framed \<Rightarrow>
               (case cat_put_edit (en_catalog E) (ce_generation entry) (vt_next_seq V) framed w of (s, w) \<Rightarrow>
                  if s = Config then (Fenced, w, mark_fenced V)
                  else if s \<noteq> Ok then (s, w, V)
                  else
                    let V = V\<lparr> vt_next_seq := vt_next_seq V + 1 \<rparr>;
                        pending = vt_pending_deletions V @ newly_pending (now_ms E w) (vt_current V) e;
                        V = V\<lparr> vt_pending_deletions := pending, vt_pending_deletions_hint := length pending \<rparr>;
                        nxt = version_apply (vt_current V) e;
                        V = set_install nxt V in
                    case maybe_roll_generation E nxt w V of (_, w, V) \<Rightarrow>
                    case collect_obsolete E w V of (w, V) \<Rightarrow> (Ok, w, V))))"

section \<open>Queries\<close>

definition manifest_advanced :: "'w version_set_env \<Rightarrow> 'w \<Rightarrow> version_set \<Rightarrow> bool \<times> 'w" where
  "manifest_advanced E w V =
     (case vt_entry V of
        None \<Rightarrow> (False, w)
      | Some entry \<Rightarrow>
          (case cat_read (en_catalog E) w of
             (Inl s, w) \<Rightarrow> (False, w)
           | (Inr None, w) \<Rightarrow> (False, w)
           | (Inr (Some pointer), w) \<Rightarrow>
               if ce_generation pointer \<noteq> ce_generation entry then (True, w)
               else (case cat_list_edits (en_catalog E) (ce_generation entry) w of
                       (Inl s, w) \<Rightarrow> (False, w)
                     | (Inr sqs, w) \<Rightarrow> (list_ex (\<lambda>n. vt_next_seq V \<le> n) sqs, w))))"

definition referenced_file_numbers :: "version_set \<Rightarrow> u64 set" where
  "referenced_file_numbers V = fm_file_number ` set (all_files (vt_current V))"

definition pending_file_numbers :: "version_set \<Rightarrow> u64 set" where
  "pending_file_numbers V = (\<lambda>p. fm_file_number (pd_file p)) ` set (vt_pending_deletions V)"

section \<open>What is deleted\<close>

text \<open>The current version is one of those kept, under its handle.\<close>

definition live_ok :: "version_set \<Rightarrow> bool" where
  "live_ok V \<longleftrightarrow> (vt_current_handle V, vt_current V) \<in> set (vt_live_versions V)"

lemma live_ok_install: "live_ok (set_install v V)"
  by (simp add: live_ok_def set_install_def)

lemma live_ok_collect: "live_ok V \<Longrightarrow> collect_obsolete E w V = (w', V') \<Longrightarrow> live_ok V'"
  by (auto simp: collect_obsolete_def live_ok_def version_alive_def Let_def split: option.splits if_splits prod.splits)

lemma live_ok_snapshot:
  assumes "live_ok V" and "write_snapshot_and_install E g v w V = (s, w', V')"
  shows "live_ok V'"
proof -
  have "V' = V \<or> V' = mark_fenced V \<or> (\<exists>e. V' = V\<lparr> vt_entry := Some e, vt_pending_reencryption := 0 \<rparr>)"
    using assms(2) by (auto simp: write_snapshot_and_install_def adopt_entry_def split: prod.splits sum.splits option.splits if_splits)
  then show ?thesis using assms(1) by (auto simp: live_ok_def mark_fenced_def)
qed

lemma live_ok_set_apply:
  assumes "live_ok V" and "set_apply E e w V = (s, w', V')"
  shows "live_ok V'"
proof -
  have roll: "live_ok V2" if "maybe_roll_generation E v w1 V1 = (s1, w2, V2)" "live_ok V1" for v w1 V1 s1 w2 V2
    using that live_ok_snapshot [of V1]
    by (auto simp: maybe_roll_generation_def live_ok_def split: prod.splits if_splits)
  have "V' = V \<or> V' = mark_fenced V \<or>
      (\<exists>v w1 V1 s1 w2 V2. maybe_roll_generation E v w1 (set_install v V1) = (s1, w2, V2) \<and> collect_obsolete E w2 V2 = (w', V'))"
    using assms(2) by (auto simp: set_apply_def Let_def split: prod.splits sum.splits option.splits if_splits)
  moreover have "live_ok (mark_fenced V)" using assms(1) by (simp add: live_ok_def mark_fenced_def)
  ultimately show ?thesis using assms(1) roll live_ok_install live_ok_collect by metis
qed

text \<open>
  [C13] The deleter is given only files that were waiting to be deleted and that neither the current
  version nor any version a reader still holds refers to. A file that is kept back stays on the list,
  and so does a file whose deletion fails.
\<close>

theorem deletes_no_file_in_use:
  assumes "live_ok V" and "en_deleter E = Some del" and "collect_obsolete E w V = (w', V')"
  shows "\<exists>fs. w' = (if fs = [] then w else snd (del fs w))
    \<and> set fs \<subseteq> pd_file ` set (vt_pending_deletions V)
    \<and> (\<forall>f \<in> set fs. fm_file_number f \<notin> referenced_file_numbers V
         \<and> (\<forall>(h, v) \<in> set (vt_live_versions V). en_held E w h \<longrightarrow> fm_file_number f \<notin> file_numbers [v]))
    \<and> (\<forall>p \<in> set (vt_pending_deletions V). pd_file p \<in> set fs \<or> p \<in> set (vt_pending_deletions V'))
    \<and> (fs \<noteq> [] \<longrightarrow> set (fst (del fs w)) \<subseteq> pd_file ` set (vt_pending_deletions V'))"
proof (cases "vt_pending_deletions V = []")
  case True
  then show ?thesis using assms(2,3) by (intro exI [of _ "[]"]) (auto simp: collect_obsolete_def Let_def)
next
  case False
  define live where "live = filter (\<lambda>(h, _). version_alive E w V h) (vt_live_versions V)"
  define keep where "keep p \<longleftrightarrow> fm_file_number (pd_file p) \<in> file_numbers (map snd live) \<or> within_retention E (now_ms E w) p" for p
  define fs where "fs = map pd_file (filter (\<lambda>p. \<not> keep p) (vt_pending_deletions V))"
  obtain failed w1 where del: "(if fs \<noteq> [] then del fs w else ([], w)) = (failed, w1)" by (cases "if fs \<noteq> [] then del fs w else ([], w)")
  have alive: "version_alive E w (V\<lparr> vt_live_versions := l \<rparr>) h \<longleftrightarrow> version_alive E w V h" for l h
    by (simp add: version_alive_def)
  have r: "w' = w1" "vt_pending_deletions V' = filter keep (vt_pending_deletions V) @ map (\<lambda>f. \<lparr> pd_file = f, pd_unreferenced_since_ms = 0 \<rparr>) failed"
    using assms(2,3) False del unfolding collect_obsolete_def fs_def keep_def live_def Let_def
    by (auto simp: alive split: prod.splits cong: if_cong)
  have unused: "fm_file_number f \<notin> file_numbers [v]" if f: "f \<in> set fs" and v: "(h, v) \<in> set (vt_live_versions V)" "version_alive E w V h" for f h v
  proof -
    have "(h, v) \<in> set live" using v by (simp add: live_def)
    then have "file_numbers [v] \<subseteq> file_numbers (map snd live)" by (force simp: file_numbers_def)
    then show ?thesis using f by (auto simp: fs_def keep_def)
  qed
  have "fm_file_number f \<notin> referenced_file_numbers V" if "f \<in> set fs" for f
    using unused [OF that, of "vt_current_handle V" "vt_current V"] assms(1)
    by (simp add: live_ok_def version_alive_def referenced_file_numbers_def file_numbers_def)
  moreover have "en_held E w h \<longrightarrow> fm_file_number f \<notin> file_numbers [v]" if "f \<in> set fs" "(h, v) \<in> set (vt_live_versions V)" for f h v
    using unused [OF that] by (simp add: version_alive_def)
  moreover have "w' = (if fs = [] then w else snd (del fs w))" using del r(1) by (auto split: if_splits)
  moreover have "\<forall>p \<in> set (vt_pending_deletions V). pd_file p \<in> set fs \<or> p \<in> set (vt_pending_deletions V')"
    by (auto simp: r fs_def)
  moreover have "fs \<noteq> [] \<longrightarrow> set (fst (del fs w)) \<subseteq> pd_file ` set (vt_pending_deletions V')"
    using del by (auto simp: r image_Un image_image)
  ultimately show ?thesis by (intro exI [of _ fs]) (auto simp: fs_def)
qed
theorem deletes_no_file_in_use_witness:
  "\<exists>E V (w :: disk) w' V'. collect_obsolete E w V = (w', V') \<and> pd_file ` set (vt_pending_deletions V) = {sample_file}
     \<and> dk_calls w = [] \<and> dk_calls w' \<noteq> [] \<and> vt_pending_deletions V' = []"
proof -
  let ?E = "\<lparr> en_catalog = DiskManifestCatalog, en_encryption = passthrough_registry, en_codecs = zero_run_codecs,
      en_edits_per_generation = 1, en_deleter = Some (\<lambda>fs d. ([], d\<lparr> dk_calls := map (\<lambda>_. Bad) fs \<rparr>)), en_clock = None,
      en_obsolete_retention = 0, en_held = (\<lambda>_ _. False) \<rparr>"
  let ?V = "set_install empty_version (VersionSet\<lparr> vt_pending_deletions := [\<lparr> pd_file = sample_file, pd_unreferenced_since_ms = 0 \<rparr>] \<rparr>)"
  let ?w = "\<lparr> dk_files = [], dk_dirs = [], dk_calls = [], dk_reads = [], dk_lists = [] \<rparr>"
  obtain w' V' where r: "collect_obsolete ?E ?w ?V = (w', V')" by (cases "collect_obsolete ?E ?w ?V")
  have none: "vt_pending_deletions V' = []"
    using r by (auto simp: collect_obsolete_def Let_def set_install_def VersionSet_def version_alive_def file_numbers_def all_files_def
        empty_version_def within_retention_def)
  then have "dk_calls w' \<noteq> []" using deletes_no_file_in_use [OF live_ok_install _ r]
    by (auto simp: set_install_def split: if_splits)
  moreover have "pd_file ` set (vt_pending_deletions ?V) = {sample_file}" by (simp add: set_install_def)
  moreover have "dk_calls ?w = []" by simp
  ultimately show ?thesis using r none by blast
qed

end
