(* ===== verification/Recovery.thy ===== *)
theory Recovery
  imports Version_Set
begin

text \<open>
  What the manifest makes durable. The first part is about versions and what a snapshot keeps of one;
  the second shows that a manifest describes a version and that recovery finds it; the third that
  applying an edit and rolling a generation keep the manifest and the version set in step, whatever
  writes fail.
\<close>

section \<open>What a version says\<close>

text \<open>
  Two versions say the same if they have the same files at every level and the same truncation point,
  pointers and floor: levels without files beyond the last do not matter, nor does the counter.
\<close>

definition same_version :: "version \<Rightarrow> version \<Rightarrow> bool" where
  "same_version v v' \<longleftrightarrow>
     files_at v = files_at v' \<and> v_compaction_pointers v = v_compaction_pointers v'
     \<and> v_truncation_point v = v_truncation_point v' \<and> v_watermark_floor v = v_watermark_floor v'"

lemma same_version_refl [simp]: "same_version v v"
  by (simp add: same_version_def)

lemma same_version_sym: "same_version v v' \<Longrightarrow> same_version v' v"
  by (simp add: same_version_def)

lemma same_version_trans: "same_version u v \<Longrightarrow> same_version v w \<Longrightarrow> same_version u w"
  by (simp add: same_version_def)

lemma same_version_apply:
  assumes "same_version v v'"
  shows "same_version (version_apply v e) (version_apply v' e)"
proof -
  have "files_at (version_apply v e) = files_at (version_apply v' e)"
    using assms by (simp add: fun_eq_iff files_at_apply same_version_def)
  then show ?thesis using assms by (simp add: same_version_def version_apply_fields split: floor_update.split)
qed

lemma same_version_fold:
  "same_version v v' \<Longrightarrow> same_version (fold (\<lambda>e v. version_apply v e) es v) (fold (\<lambda>e v. version_apply v e) es v')"
  by (induction es arbitrary: v v') (auto simp: same_version_apply)

lemma set_all_files: "f \<in> set (all_files v) \<longleftrightarrow> (\<exists>l. f \<in> set (files_at v l))"
proof
  assume "f \<in> set (all_files v)"
  then obtain l where "l < length (v_levels v)" "f \<in> set (v_levels v ! l)"
    by (auto simp: all_files_def in_set_conv_nth [of _ "v_levels v"])
  then show "\<exists>l. f \<in> set (files_at v l)" by (intro exI [of _ l]) (simp add: files_at_def)
qed (auto simp: all_files_def files_at_def split: if_splits)

lemma same_version_files: "same_version v v' \<Longrightarrow> set (all_files v) = set (all_files v')"
  by (auto simp: set_all_files same_version_def)

text \<open>An edit read back has the effect of the edit written.\<close>

lemma version_apply_view: "version_apply v (edit_view e) = version_apply v e"
  by (cases "ve_floor_update e") (simp_all add: version_apply_def edit_view_def)

section \<open>What a snapshot keeps\<close>

lemma filter_placed: "placed levels \<Longrightarrow> filter (\<lambda>f. fm_level f = l) (concat levels) = level_of levels l"
proof (induction levels arbitrary: l rule: rev_induct)
  case (snoc files levels)
  have "placed levels" using snoc.prems by (auto simp: placed_def nth_append)
  moreover have "\<forall>f \<in> set files. fm_level f = length levels"
    using snoc.prems by (auto simp: placed_def nth_append)
  then have "filter (\<lambda>f. fm_level f = l) files = (if l = length levels then files else [])"
    by (auto simp: filter_id_conv filter_empty_conv)
  ultimately show ?case using snoc.IH [of l] by (auto simp: level_of_def nth_append)
qed (simp add: level_of_def)

lemma map_insert_last: "\<forall>x \<in> set m. fst x < l \<Longrightarrow> map_insert l k m = m @ [(l, k)]"
  by (induction m) auto

lemma fold_map_insert_sorted:
  "sorted_wrt (<) (map fst (m @ ps)) \<Longrightarrow> fold (\<lambda>(l, k) m. map_insert l k m) ps m = m @ ps"
proof (induction ps arbitrary: m)
  case (Cons p ps)
  obtain l k where p: "p = (l, k)" by (cases p)
  have "map_insert l k m = m @ [(l, k)]" using Cons.prems by (intro map_insert_last) (auto simp: p sorted_wrt_append)
  then show ?case using Cons.IH [of "m @ [(l, k)]"] Cons.prems by (simp add: p)
qed simp

lemma files_at_Nil: "v_levels v = [] \<Longrightarrow> files_at v l = []"
  by (simp add: files_at_def)

lemma version_of_snapshot_of:
  assumes "version_ok v"
  shows "same_version (version_of_snapshot (snapshot_of V v)) v"
proof -
  have "sort_level l (files_at v l) = files_at v l" for l
  proof (cases "l < length (v_levels v)")
    case True
    then have "level_sorted l (files_at v l)" using assms by (simp add: version_ok_def files_at_def)
    then show ?thesis by (rule sort_level_id)
  qed (simp add: files_at_def sort_level_def)
  moreover have "filter (\<lambda>f. fm_level f = l) (all_files v) = files_at v l" for l
    using assms by (simp add: all_files_def files_at_level filter_placed version_ok_def)
  ultimately have "files_at (version_of_snapshot (snapshot_of V v)) = files_at v"
    by (simp add: fun_eq_iff version_of_snapshot_def files_at_apply snapshot_of_def VersionEdit_def)
       (simp add: Version_def files_at_Nil)
  moreover have "fold (\<lambda>(l, k) m. map_insert l k m) (v_compaction_pointers v) [] = v_compaction_pointers v"
    using assms fold_map_insert_sorted [of "[]"] by (simp add: version_ok_def)
  ultimately show ?thesis
    by (simp add: same_version_def version_of_snapshot_def version_apply_fields snapshot_of_def VersionEdit_def Version_def)
qed

section \<open>What a manifest describes\<close>

definition reads_edit :: "'w version_set_env \<Rightarrow> u64 \<Rightarrow> u64 \<Rightarrow> bytes \<Rightarrow> version_edit \<Rightarrow> bool" where
  "reads_edit E g n bs e \<longleftrightarrow>
     (\<exists>plain provider. payload_open (en_codecs E) (en_encryption E) g (edit_address g n) bs = Inr (plain, provider)
        \<and> decode_version_edit (en_codecs E) plain = Inr e) \<and> \<not> refuses_plaintext (en_encryption E) (ve_added e)"

definition reads_snapshot :: "'w version_set_env \<Rightarrow> u64 \<Rightarrow> bytes \<Rightarrow> version_snapshot \<Rightarrow> bool" where
  "reads_snapshot E g bs s \<longleftrightarrow>
     (\<exists>plain provider. payload_open (en_codecs E) (en_encryption E) g (snapshot_address g) bs = Inr (plain, provider)
        \<and> decode_version_snapshot (en_codecs E) plain = Inr s) \<and> \<not> refuses_plaintext (en_encryption E) (vs_files s)"

definition torn_edit :: "'w version_set_env \<Rightarrow> u64 \<Rightarrow> u64 \<Rightarrow> bytes \<Rightarrow> bool" where
  "torn_edit E g n bs \<longleftrightarrow> payload_open (en_codecs E) (en_encryption E) g (edit_address g n) bs = Inl Corrupt"

text \<open>
  The number of the edit at a position of the list of edits, and a generation that holds a snapshot,
  the edits of a list, and after them nothing but perhaps a torn one.
\<close>

definition seq_of :: "nat \<Rightarrow> u64" where
  "seq_of i = of_nat (Suc i)"

definition manifest_holds :: "'w version_set_env \<Rightarrow> manifest \<Rightarrow> u64 \<Rightarrow> version_snapshot \<Rightarrow> version_edit list \<Rightarrow> bool" where
  "manifest_holds E m g s es \<longleftrightarrow>
     Suc (length es) < 2 ^ 64
     \<and> (\<exists>bs. mf_snapshots m g = Some bs \<and> reads_snapshot E g bs s)
     \<and> (\<forall>i < length es. \<exists>bs. mf_edits m (g, seq_of i) = Some bs \<and> reads_edit E g (seq_of i) bs (es ! i))
     \<and> (\<forall>bs. mf_edits m (g, seq_of (length es)) = Some bs \<longrightarrow> torn_edit E g (seq_of (length es)) bs)
     \<and> (\<forall>n. mf_edits m (g, n) \<noteq> None \<longrightarrow> (\<exists>i \<le> length es. n = seq_of i))"

definition replayed_version :: "version_snapshot \<Rightarrow> version_edit list \<Rightarrow> version" where
  "replayed_version s es = fold (\<lambda>e v. version_apply v e) es (version_of_snapshot s)"

definition replayed_number :: "version_snapshot \<Rightarrow> version_edit list \<Rightarrow> u64" where
  "replayed_number s es = fold (\<lambda>e n. max n (ve_next_file_number e)) es (vs_next_file_number s)"

lemma seq_of_inj: "i < 2 ^ 64 - 1 \<Longrightarrow> j < 2 ^ 64 - 1 \<Longrightarrow> seq_of i = seq_of j \<longleftrightarrow> i = j"
  unfolding seq_of_def by (auto dest!: arg_cong [where f = unat] simp: unat_of_nat_u64 del: of_nat_Suc)

lemma sorted_seqs:
  assumes "N < 2 ^ 64"
  shows "sorted (map seq_of [0..<N])" "distinct (map seq_of [0..<N])"
proof -
  have "seq_of i \<le> seq_of j" if "i \<le> j" "j < N" for i j
    using that assms by (simp add: seq_of_def word_le_nat_alt unat_of_nat_u64 del: of_nat_Suc)
  then show "sorted (map seq_of [0..<N])" by (auto simp: sorted_iff_nth_mono)
  show "distinct (map seq_of [0..<N])" using assms seq_of_inj by (auto simp: distinct_map inj_on_def)
qed

context manifest_catalog
begin

lemma replay_edits_holds:
  assumes E: "en_catalog E = ops" and m: "manifest_holds E m g s es"
    and N: "N = length es \<or> N = Suc (length es) \<and> mf_edits m (g, seq_of (length es)) \<noteq> None"
  shows "ok w \<Longrightarrow> view w = m \<Longrightarrow> i \<le> length es \<Longrightarrow> rs_expected_seq st = seq_of i \<Longrightarrow>
    \<exists>w' st'. replay_edits E g (seq_of (N - 1)) (map seq_of [i..<N]) st w = (Replayed, st', w') \<and> ok w' \<and> view w' = m
      \<and> rs_version st' = fold (\<lambda>e v. version_apply v e) (drop i es) (rs_version st)
      \<and> rs_expected_seq st' = seq_of (length es)
      \<and> rs_file_number st' = fold (\<lambda>e n. max n (ve_next_file_number e)) (drop i es) (rs_file_number st)"
proof (induction "length es - i" arbitrary: i st w)
  case 0
  then have i: "i = length es" by simp
  show ?case
  proof (cases "N = length es")
    case True
    then show ?thesis using 0 i by simp
  next
    case False
    then have N': "N = Suc (length es)" and "mf_edits m (g, seq_of (length es)) \<noteq> None" using N by auto
    then obtain bs where bs: "mf_edits m (g, seq_of (length es)) = Some bs" by blast
    then have torn: "torn_edit E g (seq_of (length es)) bs" using m by (auto simp: manifest_holds_def)
    obtain w' where "cat_get_edit ops g (seq_of (length es)) w = (Inr bs, w')" "ok w'" "view w' = m"
      using get_edit [OF 0(2), of g "seq_of (length es)"] bs 0(3) by auto
    then show ?thesis using 0 i torn by (simp add: N' E torn_edit_def)
  qed
next
  case (Suc k)
  then have i: "i < length es" by simp
  then obtain bs where bs: "mf_edits m (g, seq_of i) = Some bs" and rd: "reads_edit E g (seq_of i) bs (es ! i)"
    using m by (auto simp: manifest_holds_def)
  obtain w1 where w1: "cat_get_edit ops g (seq_of i) w = (Inr bs, w1)" "ok w1" "view w1 = m"
    using get_edit [OF Suc(3), of g "seq_of i"] bs Suc(4) by auto
  obtain plain provider where
    op: "payload_open (en_codecs E) (en_encryption E) g (edit_address g (seq_of i)) bs = Inr (plain, provider)"
    "decode_version_edit (en_codecs E) plain = Inr (es ! i)" "\<not> refuses_plaintext (en_encryption E) (ve_added (es ! i))"
    using rd by (auto simp: reads_edit_def)
  define st1 where "st1 = st\<lparr> rs_version := version_apply (rs_version st) (es ! i),
      rs_stale := rs_stale st + (if provider \<noteq> rg_primary (en_encryption E) then 1 else 0),
      rs_file_number := (if rs_file_number st < ve_next_file_number (es ! i) then ve_next_file_number (es ! i) else rs_file_number st),
      rs_expected_seq := rs_expected_seq st + 1 \<rparr>"
  have "i < N" using N i by auto
  then have "[i..<N] = i # [Suc i..<N]" by (rule upt_conv_Cons)
  then have step: "replay_edits E g (seq_of (N - 1)) (map seq_of [i..<N]) st w =
      replay_edits E g (seq_of (N - 1)) (map seq_of [Suc i..<N]) st1 w1"
    using Suc(6) w1(1) op by (simp add: E st1_def)
  have st1: "rs_expected_seq st1 = seq_of (Suc i)" "rs_version st1 = version_apply (rs_version st) (es ! i)"
    "rs_file_number st1 = max (rs_file_number st) (ve_next_file_number (es ! i))"
    using Suc(6) by (auto simp: seq_of_def st1_def max_def)
  have "k = length es - Suc i" "Suc i \<le> length es" using Suc(2) i by auto
  from Suc(1) [OF this(1) w1(2,3) this(2) st1(1)] show ?case
    unfolding step by (simp add: Cons_nth_drop_Suc [OF i, symmetric] st1)
qed

lemma listed_edits:
  assumes m: "manifest_holds E m g s es" and ns: "distinct ns" "set ns = {n. mf_edits m (g, n) \<noteq> None}"
  obtains N where "sort ns = map seq_of [0..<N]"
    "N = length es \<or> N = Suc (length es) \<and> mf_edits m (g, seq_of (length es)) \<noteq> None"
proof -
  define N where "N = (if mf_edits m (g, seq_of (length es)) \<noteq> None then Suc (length es) else length es)"
  have small: "Suc (length es) < 2 ^ 64" using m by (simp add: manifest_holds_def)
  have "set ns = seq_of ` {..<N}"
  proof (rule set_eqI)
    fix n
    show "n \<in> set ns \<longleftrightarrow> n \<in> seq_of ` {..<N}"
    proof
      assume "n \<in> set ns"
      then obtain i where "i \<le> length es" "n = seq_of i" "mf_edits m (g, n) \<noteq> None"
        using m ns(2) by (auto simp: manifest_holds_def)
      then show "n \<in> seq_of ` {..<N}" by (cases "i = length es") (auto simp: N_def)
    next
      assume "n \<in> seq_of ` {..<N}"
      then obtain i where "i < N" "n = seq_of i" by blast
      moreover have "mf_edits m (g, seq_of i) \<noteq> None" if "i < length es" using m that by (auto simp: manifest_holds_def)
      ultimately show "n \<in> set ns" using ns(2) by (auto simp: N_def less_Suc_eq split: if_splits)
    qed
  qed
  then have "set (sort ns) = set (map seq_of [0..<N])" by (auto simp: atLeast0LessThan)
  moreover have "N < 2 ^ 64" using small by (simp add: N_def)
  ultimately have "sort ns = map seq_of [0..<N]"
    using sorted_seqs [of N] ns(1) by (intro sorted_distinct_set_unique) auto
  then show thesis using that by (auto simp: N_def)
qed

lemma recover_holds:
  assumes E: "en_catalog E = ops" and w: "ok w" and pointer: "mf_pointer (view w) = Some entry"
    and m: "manifest_holds E (view w) (ce_generation entry) s es" and V: "vt_entry V = None"
  shows "\<exists>w' st. set_recover E w V = (Some Ok, w', set_recovered entry st V) \<and> ok w' \<and> view w' = view w
    \<and> rs_version st = replayed_version s es \<and> rs_expected_seq st = seq_of (length es)
    \<and> rs_file_number st = replayed_number s es"
proof -
  let ?g = "ce_generation entry"
  obtain w1 where w1: "cat_read ops w = (Inr (Some entry), w1)" "ok w1" "view w1 = view w"
    using read [OF w] pointer by auto
  obtain bs where bs: "mf_snapshots (view w) ?g = Some bs" and rs: "reads_snapshot E ?g bs s"
    using m by (auto simp: manifest_holds_def)
  obtain w2 where w2: "cat_get_snapshot ops ?g w1 = (Inr bs, w2)" "ok w2" "view w2 = view w"
    using get_snapshot [OF w1(2), of ?g] bs w1(3) by auto
  obtain plain provider where
    op: "payload_open (en_codecs E) (en_encryption E) ?g (snapshot_address ?g) bs = Inr (plain, provider)"
    "decode_version_snapshot (en_codecs E) plain = Inr s" "\<not> refuses_plaintext (en_encryption E) (vs_files s)"
    using rs by (auto simp: reads_snapshot_def)
  obtain w3 ns where w3: "cat_list_edits ops ?g w2 = (Inr ns, w3)" "ok w3" "view w3 = view w"
    and ns: "distinct ns" "set ns = {n. mf_edits (view w) (?g, n) \<noteq> None}"
    using list_edits [OF w2(2), of ?g] w2(3) by auto
  obtain N where N: "sort ns = map seq_of [0..<N]"
    "N = length es \<or> N = Suc (length es) \<and> mf_edits (view w) (?g, seq_of (length es)) \<noteq> None"
    using listed_edits [OF m ns] by blast
  define st0 where "st0 = \<lparr> rs_expected_seq = 1, rs_version = version_of_snapshot s, rs_file_number = vs_next_file_number s,
      rs_stale = (if provider = rg_primary (en_encryption E) then 0 else 1) \<rparr>"
  have "rs_expected_seq st0 = seq_of 0" by (simp add: st0_def seq_of_def)
  with replay_edits_holds [OF E m N(2) w3(2,3), of 0 st0]
  obtain w4 st where w4: "replay_edits E ?g (seq_of (N - 1)) (map seq_of [0..<N]) st0 w3 = (Replayed, st, w4)"
    "ok w4" "view w4 = view w"
    and st: "rs_version st = replayed_version s es" "rs_expected_seq st = seq_of (length es)"
      "rs_file_number st = replayed_number s es"
    by (auto simp: st0_def replayed_version_def replayed_number_def)
  have replay: "replay_edits E ?g (last (sort ns)) (sort ns) st0 w3 = (Replayed, st, w4)"
  proof (cases "N = 0")
    case True
    then show ?thesis using w4(1) by (simp add: N(1))
  next
    case False
    then have "last (sort ns) = seq_of (N - 1)" by (simp add: N(1) last_map)
    then show ?thesis using w4(1) by (simp add: N(1))
  qed
  obtain w5 where w5: "cat_read ops w4 = (Inr (Some entry), w5)" "ok w5" "view w5 = view w"
    using read [OF w4(2)] pointer w4(3) by auto
  have "set_recover E w V = (Some Ok, w5, set_recovered entry st V)"
    unfolding set_recover_def kRecoverAttempts_def numeral_eq_Suc recover_attempts.simps E w1(1) Let_def
    using V by (simp add: w2 op w3 replay [unfolded st0_def] w5)
  then show ?thesis using w5 st by blast
qed

end

section \<open>What is stored reads back\<close>

text \<open>
  What is relied on of the codecs and the providers: they read what they wrote and report an error as
  an error.
\<close>

definition env_ok :: "'w version_set_env \<Rightarrow> bool" where
  "env_ok E \<longleftrightarrow>
     codecs_ok (en_codecs E) \<and> length (rg_primary (en_encryption E)) < 65536
     \<and> (\<exists>P. primary_provider (en_encryption E) = Some P \<and> provider_ok P)
     \<and> (\<forall>g a p. payload_seal (en_codecs E) (en_encryption E) g a p \<noteq> Inl Ok)"

text \<open>Records within the limits of the reader, of files under a provider the reader accepts.\<close>

definition storable_edit :: "'w version_set_env \<Rightarrow> version_edit \<Rightarrow> bool" where
  "storable_edit E e \<longleftrightarrow>
     edit_ok e \<and> length (edit_content e) \<le> kMaxManifestBytes
     \<and> length (encode_version_edit (en_codecs E) e) \<le> kMaxPayloadBytes \<and> \<not> refuses_plaintext (en_encryption E) (ve_added e)"

definition storable_snapshot :: "'w version_set_env \<Rightarrow> version_snapshot \<Rightarrow> bool" where
  "storable_snapshot E s \<longleftrightarrow>
     snapshot_ok s \<and> fst (frame_block (en_codecs E) (snapshot_content s) Zstd []) = Ok
     \<and> length (snapshot_content s) \<le> kMaxManifestBytes
     \<and> length (encode_version_snapshot (en_codecs E) s) \<le> kMaxPayloadBytes \<and> \<not> refuses_plaintext (en_encryption E) (vs_files s)"

lemma sealed_edit:
  assumes E: "env_ok E" and e: "storable_edit E e"
    and sealed: "payload_seal (en_codecs E) (en_encryption E) g (edit_address g n) (encode_version_edit (en_codecs E) e) = Inr framed"
  shows "reads_edit E g n framed (edit_view e)" and "k < length framed \<Longrightarrow> torn_edit E g n (take k framed)"
proof -
  obtain P where P: "primary_provider (en_encryption E) = Some P" "provider_ok P" using E by (auto simp: env_ok_def)
  have ident: "length (rg_primary (en_encryption E)) < 65536" and L: "codecs_ok (en_codecs E)" using E by (auto simp: env_ok_def)
  have small: "length (encode_version_edit (en_codecs E) e) \<le> kMaxPayloadBytes" "length (edit_content e) \<le> kMaxManifestBytes"
    using e by (auto simp: storable_edit_def)
  have "length (edit_content e) < 2 ^ 32" using small(2) by (simp add: kMaxManifestBytes_def)
  then have "decode_version_edit (en_codecs E) (encode_version_edit (en_codecs E) e) = Inr (edit_view e)"
    using decode_encode_edit [OF L, of e] e small(2) by (simp add: storable_edit_def)
  then show "reads_edit E g n framed (edit_view e)"
    using payload_open_seal [OF L P ident sealed small(1)] e by (simp add: reads_edit_def storable_edit_def edit_view_def)
  have "length (encode_version_edit (en_codecs E) e) < 2 ^ 64" using small(1) by (simp add: kMaxPayloadBytes_def)
  then show "k < length framed \<Longrightarrow> torn_edit E g n (take k framed)"
    using payload_open_torn [OF P ident sealed] by (simp add: torn_edit_def)
qed

lemma sealed_snapshot:
  assumes E: "env_ok E" and s: "storable_snapshot E s"
    and sealed: "payload_seal (en_codecs E) (en_encryption E) g (snapshot_address g) (encode_version_snapshot (en_codecs E) s) = Inr framed"
  shows "reads_snapshot E g framed s"
proof -
  obtain P where P: "primary_provider (en_encryption E) = Some P" "provider_ok P" using E by (auto simp: env_ok_def)
  have ident: "length (rg_primary (en_encryption E)) < 65536" and L: "codecs_ok (en_codecs E)" using E by (auto simp: env_ok_def)
  have "decode_version_snapshot (en_codecs E) (encode_version_snapshot (en_codecs E) s) = Inr s"
    using decode_encode_snapshot [OF L, of s] s by (simp add: storable_snapshot_def)
  then show ?thesis
    using payload_open_seal [OF L P ident sealed] s by (simp add: reads_snapshot_def storable_snapshot_def)
qed

section \<open>The version set and the manifest in step\<close>

text \<open>
  The edits \<open>es\<close> are what the version set has applied since the snapshot of its generation. The
  manifest may hold one more, \<open>extra\<close>: an edit whose write was reported as failed and was not.
\<close>

definition numbered :: "version_set \<Rightarrow> version_edit \<Rightarrow> bool" where
  "numbered V e \<longleftrightarrow>
     ve_next_file_number e \<le> vt_next_file_number V \<and> (\<forall>f \<in> set (ve_added e). fm_file_number f < ve_next_file_number e)"

definition synced ::
    "'w version_set_env \<Rightarrow> manifest \<Rightarrow> version_set \<Rightarrow> version_snapshot \<Rightarrow> version_edit list \<Rightarrow> version_edit list \<Rightarrow> bool" where
  "synced E m V s es extra \<longleftrightarrow>
     (\<exists>entry. vt_entry V = Some entry \<and> mf_pointer m = Some entry
        \<and> manifest_holds E m (ce_generation entry) s (es @ extra)
        \<and> (\<forall>h n. ce_generation entry < h \<longrightarrow> mf_edits m (h, n) = None))
     \<and> length extra \<le> 1 \<and> list_all (numbered V) extra
     \<and> vt_next_seq V = seq_of (length es)
     \<and> version_ok (vt_current V) \<and> same_version (vt_current V) (replayed_version s es)
     \<and> replayed_number s es \<le> vt_next_file_number V
     \<and> (\<forall>f \<in> set (all_files (vt_current V)). fm_file_number f < replayed_number s es)"

text \<open>Snapshots of later generations come and go without effect.\<close>

definition same_below :: "u64 \<Rightarrow> manifest \<Rightarrow> manifest \<Rightarrow> bool" where
  "same_below g m m' \<longleftrightarrow>
     mf_pointer m' = mf_pointer m \<and> mf_edits m' = mf_edits m \<and> (\<forall>h \<le> g. mf_snapshots m' h = mf_snapshots m h)"

lemma same_below_trans: "same_below g a b \<Longrightarrow> same_below g b c \<Longrightarrow> same_below g a c"
  by (simp add: same_below_def)

lemma synced_same_below:
  assumes "synced E m V s es extra" and "same_below (ce_generation (the (vt_entry V))) m m'"
    and "vt_current V' = vt_current V" "vt_entry V' = vt_entry V" "vt_next_seq V' = vt_next_seq V"
    "vt_next_file_number V \<le> vt_next_file_number V'"
  shows "synced E m' V' s es extra"
  using assms by (fastforce simp: synced_def same_below_def manifest_holds_def numbered_def list_all_iff)

lemma next_generation:
  assumes "g \<noteq> max_u64"
  shows "g < g + 1"
proof -
  have "1 + g \<noteq> 0" using assms max_word_wrap [of g] by (auto simp: max_u64_def add.commute)
  then show ?thesis by (simp add: word_less_nat_alt unatSuc add.commute)
qed

lemma fold_max_ge: "g \<le> fold (\<lambda>x m. max m x) xs (g :: u64)"
proof (induction xs arbitrary: g)
  case (Cons x xs)
  have "g \<le> max g x" by simp
  also have "\<dots> \<le> fold (\<lambda>x m. max m x) xs (max g x)" by (rule Cons.IH)
  finally show ?case by simp
qed simp

text \<open>How the search for a free generation ends: with an error, or with the snapshot stored.\<close>

definition snapshot_stored ::
    "'w version_set_env \<Rightarrow> u64 \<Rightarrow> bytes \<Rightarrow> manifest \<Rightarrow> manifest \<Rightarrow> status \<times> bool + u64 \<Rightarrow> bool" where
  "snapshot_stored E g bs m m' r \<longleftrightarrow>
     same_below g m m' \<and>
     ((\<exists>s. r = Inl (s, False) \<and> s \<noteq> Ok)
      \<or> (\<exists>g' framed. r = Inr g' \<and> g < g' \<and> mf_snapshots m' g' = Some framed
           \<and> payload_seal (en_codecs E) (en_encryption E) g' (snapshot_address g') bs = Inr framed))"

context manifest_catalog
begin

lemma snapshot_attempts_step:
  assumes E: "en_catalog E = ops" "env_ok E" and w: "ok w" and pointer: "mf_pointer (view w) = entry" and g: "g < generation"
  obtains (finished) r w' where "snapshot_attempts E entry bs generation (Suc n) w = (r, w')" "ok w'"
      "snapshot_stored E g bs (view w) (view w') r"
    | (again) generation' w' where "snapshot_attempts E entry bs generation (Suc n) w = snapshot_attempts E entry bs generation' n w'"
      "n \<noteq> 0" "ok w'" "view w' = view w" "g < generation'"
proof -
  let ?seal = "payload_seal (en_codecs E) (en_encryption E) generation (snapshot_address generation) bs"
  have failed: thesis if "snapshot_attempts E entry bs generation (Suc n) w = (Inl (s, False), w')" "s \<noteq> Ok" "ok w'"
      "same_below g (view w) (view w')" for s w'
    using finished [OF that(1,3)] that by (simp add: snapshot_stored_def)
  show thesis
  proof (cases ?seal)
    case (Inl s)
    then have "s \<noteq> Ok" using E(2) by (auto simp: env_ok_def)
    then show thesis using failed [of s w] Inl w by (simp add: same_below_def)
  next
    case (Inr framed)
    obtain s w1 where put: "cat_put_snapshot ops generation framed w = (s, w1)" by (cases "cat_put_snapshot ops generation framed w")
    have out: "put_outcome ok view (\<lambda>bs m. m\<lparr> mf_snapshots := (mf_snapshots m)(generation \<mapsto> bs) \<rparr>)
        (mf_snapshots (view w) generation) framed w (s, w1)"
      using put_snapshot [OF w, of generation framed] put by simp
    consider "s = Ok" | "s = Config" | "s \<noteq> Ok" "s \<noteq> Config" by blast
    then show thesis
    proof cases
      case 1
      have w1: "view w1 = (view w)\<lparr> mf_snapshots := (mf_snapshots (view w))(generation \<mapsto> framed) \<rparr>" "ok w1"
        using out 1 by (auto simp: put_outcome_def)
      then have "same_below g (view w) (view w1)" using g by (auto simp: same_below_def)
      then show thesis
        using finished [of "Inr generation" w1] w1 g Inr put 1 E(1) by (auto simp: snapshot_stored_def)
    next
      case 3
      have "same_below g (view w) (view w1)" "ok w1"
        using out 3 g by (auto simp: put_outcome_def same_below_def)
      then show thesis using failed [of s w1] Inr put 3 E(1) by simp
    next
      case 2
      then have w1: "ok w1" "view w1 = view w" using out by (auto simp: put_outcome_def)
      obtain w2 where w2: "cat_read ops w1 = (Inr entry, w2)" "ok w2" "view w2 = view w"
        using read [OF w1(1)] w1(2) pointer by auto
      obtain listed w3 where l: "cat_list_generations ops w2 = (listed, w3)" by (cases "cat_list_generations ops w2")
      have w3: "ok w3" "view w3 = view w" "listed \<noteq> Inl Ok" using list_generations [OF w2(2)] l w2(3) by auto
      have same: "same_below g (view w) (view w3)" using w3 by (simp add: same_below_def)
      define generation' where "generation' = (case listed of Inl _ \<Rightarrow> generation | Inr existing \<Rightarrow> fold (\<lambda>g m. max m g) existing generation)"
      have up: "g < generation'"
        using g fold_max_ge [of generation] by (auto simp: generation'_def split: sum.splits intro: less_le_trans)
      have eq: "snapshot_attempts E entry bs generation (Suc n) w =
          (if \<exists>s. listed = Inl s \<and> s \<noteq> Unsupported then (Inl (projl listed, False), w3)
           else if generation' = max_u64 then (Inl (Unusable, False), w3)
           else if n = 0 then (Inl (Unusable, False), w3)
           else snapshot_attempts E entry bs (generation' + 1) n w3)"
        using Inr put 2 w2(1) l E(1)
        by (cases listed) (simp_all add: same_entry_iff generation'_def Let_def)
      consider s where "listed = Inl s" "s \<noteq> Unsupported"
        | "\<not> (\<exists>s. listed = Inl s \<and> s \<noteq> Unsupported)" "generation' = max_u64 \<or> n = 0"
        | "\<not> (\<exists>s. listed = Inl s \<and> s \<noteq> Unsupported)" "generation' \<noteq> max_u64" "n \<noteq> 0" by blast
      then show thesis
      proof cases
        case 1
        then have "snapshot_attempts E entry bs generation (Suc n) w = (Inl (s, False), w3)" unfolding eq by simp
        then show thesis using failed [of s w3] w3 same 1 by blast
      next
        case 2
        then have "snapshot_attempts E entry bs generation (Suc n) w = (Inl (Unusable, False), w3)"
          unfolding eq by (metis (no_types))
        then show thesis using failed [of Unusable w3] w3 same by blast
      next
        case 3
        have "g < generation' + 1" using up next_generation [OF 3(2)] by (rule less_trans)
        moreover have "snapshot_attempts E entry bs generation (Suc n) w = snapshot_attempts E entry bs (generation' + 1) n w3"
          unfolding eq using 3 by (metis (no_types))
        ultimately show thesis using again [of "generation' + 1" w3] 3(3) w3 by blast
      qed
    qed
  qed
qed

lemma snapshot_attempts_outcome:
  assumes E: "en_catalog E = ops" "env_ok E"
  shows "ok w \<Longrightarrow> mf_pointer (view w) = entry \<Longrightarrow> g < generation \<Longrightarrow> n \<noteq> 0 \<Longrightarrow>
    \<exists>r w'. snapshot_attempts E entry bs generation n w = (r, w') \<and> ok w' \<and> snapshot_stored E g bs (view w) (view w') r"
proof (induction n arbitrary: generation w)
  case (Suc n)
  show ?case
  proof (rule snapshot_attempts_step [OF E Suc.prems(1-3), of bs n])
    fix generation' w'
    assume "snapshot_attempts E entry bs generation (Suc n) w = snapshot_attempts E entry bs generation' n w'"
      "n \<noteq> 0" "ok w'" "view w' = view w" "g < generation'"
    then show ?thesis using Suc.IH [of w' generation'] Suc.prems(2) by auto
  qed blast
qed simp

text \<open>A generation that has been installed: the pointer names it, and it holds the snapshot alone.\<close>

lemma synced_new_generation:
  assumes E: "env_ok E" and sy: "synced E m V s es extra" and st: "storable_snapshot E (snapshot_of V (vt_current V))"
    and below: "same_below g m m1" "g = ce_generation (the (vt_entry V))" "g < g'"
    and snap: "mf_snapshots m1 g' = Some framed"
      "payload_seal (en_codecs E) (en_encryption E) g' (snapshot_address g') (encode_version_snapshot (en_codecs E) (snapshot_of V (vt_current V))) = Inr framed"
    and entry: "ce_generation entry = g'" and m2: "without_generation g (m1\<lparr> mf_pointer := Some entry \<rparr>) m2"
  shows "synced E m2 (V\<lparr> vt_entry := Some entry, vt_pending_reencryption := 0, vt_next_seq := 1 \<rparr>) (snapshot_of V (vt_current V)) [] []"
proof -
  let ?s = "snapshot_of V (vt_current V)"
  have edits: "mf_edits m2 (h, n) = None" if "g < h" for h n
  proof -
    have "mf_edits m (h, n) = None" using sy below(2) that by (auto simp: synced_def)
    moreover have "mf_edits m2 (h, n) = mf_edits m (h, n) \<or> mf_edits m2 (h, n) = None"
    proof -
      have "mf_edits m1 = mf_edits m" using below(1) by (simp add: same_below_def)
      moreover have "mf_edits m2 (h, n) = mf_edits m1 (h, n) \<or> h = g \<and> mf_edits m2 (h, n) = None"
        using m2 by (simp add: without_generation_def)
      ultimately show ?thesis by auto
    qed
    ultimately show ?thesis by auto
  qed
  have "mf_snapshots m2 g' = Some framed"
    using m2 snap(1) below(3) unfolding without_generation_def by (metis less_irrefl manifest.select_convs(2) manifest.surjective manifest.update_convs(1))
  then have "manifest_holds E m2 g' ?s []"
    using sealed_snapshot [OF E st snap(2)] edits [OF below(3)] by (auto simp: manifest_holds_def)
  moreover have "mf_pointer m2 = Some entry" using m2 by (simp add: without_generation_def)
  moreover have "mf_edits m2 (h, n) = None" if "g' < h" for h n using edits below(3) that by (meson less_trans)
  moreover have "same_version (vt_current V) (replayed_version ?s [])"
    using sy version_of_snapshot_of by (simp add: replayed_version_def synced_def same_version_sym)
  moreover have "fm_file_number f < vt_next_file_number V" if "f \<in> set (all_files (vt_current V))" for f
    using sy that by (auto simp: synced_def intro: less_le_trans)
  ultimately show ?thesis
    using sy by (auto simp: synced_def entry seq_of_def replayed_number_def) (simp_all add: snapshot_of_def)
qed

text \<open>
  How writing a snapshot and moving the pointer to it ends, for a writer whose entry is the pointer: with
  the pointer where it was, or at the new generation with the old one removed.
\<close>

lemma write_snapshot_cases:
  assumes E: "en_catalog E = ops" "env_ok E" and w: "ok w" and pointer: "mf_pointer (view w) = vt_entry V"
    and g: "g = set_generation V" "g < generation" and bs: "bs = encode_version_snapshot (en_codecs E) (snapshot_of V v)"
    and r: "write_snapshot_and_install E generation v w V = (r, w', V')"
  obtains (kept) "r \<noteq> Ok" "V' = V" "ok w'" "same_below g (view w) (view w')"
    | (moved) gen framed entry m1 where "r = Ok" "V' = V\<lparr> vt_entry := Some entry, vt_pending_reencryption := 0 \<rparr>" "ok w'"
      "same_below g (view w) m1" "g < gen" "mf_snapshots m1 gen = Some framed"
      "payload_seal (en_codecs E) (en_encryption E) gen (snapshot_address gen) bs = Inr framed" "ce_generation entry = gen"
      "without_generation g (m1\<lparr> mf_pointer := Some entry \<rparr>) (view w')"
proof -
  obtain a w1 where a: "snapshot_attempts E (vt_entry V) bs generation kSnapshotAttempts w = (a, w1)" and w1: "ok w1"
    and stored: "snapshot_stored E g bs (view w) (view w1) a"
    using snapshot_attempts_outcome [OF E w pointer g(2), of kSnapshotAttempts bs] by (auto simp: kSnapshotAttempts_def)
  have below: "same_below g (view w) (view w1)" using stored by (simp add: snapshot_stored_def)
  from stored consider (error) s1 where "a = Inl (s1, False)" "s1 \<noteq> Ok"
    | (put) gen framed where "a = Inr gen" "g < gen" "mf_snapshots (view w1) gen = Some framed"
      "payload_seal (en_codecs E) (en_encryption E) gen (snapshot_address gen) bs = Inr framed"
    by (auto simp: snapshot_stored_def)
  then show thesis
  proof cases
    case error
    then have "(r, w', V') = (s1, w1, V)" using r a by (simp add: write_snapshot_and_install_def bs)
    then show thesis using kept error w1 below by simp
  next
    case put
    obtain c w2 where c: "cat_compare_and_set ops (vt_entry V) gen w1 = (c, w2)" by (cases "cat_compare_and_set ops (vt_entry V) gen w1")
    have out: "cas_outcome ok view (vt_entry V) gen w1 (c, w2)" using compare_and_set [OF w1, of "vt_entry V" gen] c by simp
    have p1: "mf_pointer (view w1) = vt_entry V" using below pointer by (simp add: same_below_def)
    have adopted: thesis if "view w3 = (view w1)\<lparr> mf_pointer := Some e \<rparr>" "ok w3" "ce_generation e = gen"
        "(r, w', V') = adopt_entry E e w3 V" for e w3
    proof -
      have "ok w' \<and> without_generation g (view w3) (view w')"
        using that(2,4) delete_generation [OF that(2), of g] g(1) E(1)
        by (auto simp: adopt_entry_def set_generation_def without_generation_def split: option.splits)
      moreover have "r = Ok" "V' = V\<lparr> vt_entry := Some e, vt_pending_reencryption := 0 \<rparr>" using that(4) by (auto simp: adopt_entry_def)
      ultimately show thesis using moved [OF _ _ _ below put(2-4) that(3)] that(1) by simp
    qed
    have eq: "write_snapshot_and_install E generation v w V =
      (case (c, w2) of
         (Inr (Some entry), w) \<Rightarrow> adopt_entry E entry w V
       | (Inr None, w) \<Rightarrow> (Fenced, w, mark_fenced V)
       | (Inl s, w) \<Rightarrow>
           if s \<noteq> Io then (s, w, V)
           else (case cat_read (en_catalog E) w of
                   (Inl s, w) \<Rightarrow> (s, w, V)
                 | (Inr seen, w) \<Rightarrow>
                     if seen \<noteq> None \<and> ce_generation (the seen) = gen then adopt_entry E (the seen) w V
                     else if same_entry (vt_entry V) seen then (Io, w, V)
                     else (Fenced, w, mark_fenced V)))"
      using a put(1) c E(1) by (simp add: write_snapshot_and_install_def bs)
    have w2: "ok w2" using out by (simp add: cas_outcome_def)
    obtain w3 where w3: "cat_read ops w2 = (Inr (mf_pointer (view w2)), w3)" "ok w3" "view w3 = view w2" using read [OF w2] by blast
    from out consider (set) e where "ce_generation e = gen" "view w2 = (view w1)\<lparr> mf_pointer := Some e \<rparr>" "c = Inr (Some e) \<or> c = Inl Io"
      | (unset) s2 where "s2 \<noteq> Ok" "c = Inl s2" "view w2 = view w1"
      using p1 unfolding cas_outcome_def fst_conv snd_conv by blast
    then show thesis
    proof cases
      case set
      then consider "c = Inr (Some e)" | "c = Inl Io" by blast
      then show thesis
      proof cases
        case 1
        then show thesis using adopted [OF set(2) w2 set(1)] r eq by simp
      next
        case 2
        then show thesis using adopted [of w3 e] set w3 r eq E(1) by simp
      qed
    next
      case unset
      have "\<not> (vt_entry V \<noteq> None \<and> ce_generation (the (vt_entry V)) = gen)" using put(2) g(1) by (auto simp: set_generation_def)
      then have "(r, w', V') = (s2, w2, V) \<or> (r, w', V') = (Io, w3, V)"
        using r eq unset w3 E(1) p1 by (auto simp: same_entry_iff split: if_splits)
      then show thesis using kept below unset w2 w3 by auto
    qed
  qed
qed

lemma write_snapshot_outcome:
  assumes E: "en_catalog E = ops" "env_ok E" and w: "ok w" and sy: "synced E (view w) V s es extra"
    and st: "storable_snapshot E (snapshot_of V (vt_current V))" and g: "g = ce_generation (the (vt_entry V))" "g < generation"
    and r: "write_snapshot_and_install E generation (vt_current V) w V = (r, w', V')"
  shows "ok w' \<and>
    (r = Ok \<and> (\<exists>entry. V' = V\<lparr> vt_entry := Some entry, vt_pending_reencryption := 0 \<rparr>)
       \<and> synced E (view w') (V'\<lparr> vt_next_seq := 1 \<rparr>) (snapshot_of V (vt_current V)) [] []
     \<or> r \<noteq> Ok \<and> V' = V \<and> synced E (view w') V s es extra)"
proof -
  have "mf_pointer (view w) = vt_entry V" and g': "g = set_generation V"
    using sy g(1) by (auto simp: synced_def set_generation_def)
  then show ?thesis
  proof (rule write_snapshot_cases [OF E w _ _ g(2) refl r])
    assume "r \<noteq> Ok" "V' = V" "ok w'" "same_below g (view w) (view w')"
    then show ?thesis using synced_same_below [OF sy, of "view w'" V] g(1) by simp
  next
    fix gen framed entry m1
    assume *: "r = Ok" "V' = V\<lparr> vt_entry := Some entry, vt_pending_reencryption := 0 \<rparr>" "ok w'"
      "same_below g (view w) m1" "g < gen" "mf_snapshots m1 gen = Some framed"
      "payload_seal (en_codecs E) (en_encryption E) gen (snapshot_address gen)
         (encode_version_snapshot (en_codecs E) (snapshot_of V (vt_current V))) = Inr framed" "ce_generation entry = gen"
      "without_generation g (m1\<lparr> mf_pointer := Some entry \<rparr>) (view w')"
    then show ?thesis using synced_new_generation [OF E(2) sy st *(4) g(1) *(5-9)] by auto
  qed
qed

text \<open>A store created where there was none.\<close>

lemma create_outcome:
  assumes E: "en_catalog E = ops" "env_ok E" and w: "ok w"
    and m: "mf_pointer (view w) = None" "\<And>h n. mf_edits (view w) (h, n) = None"
    and st: "storable_snapshot E (snapshot_of VersionSet empty_version)"
    and r: "set_create E w VersionSet = (Ok, w', V')"
  shows "ok w' \<and> vt_current V' = empty_version \<and> vt_next_file_number V' = 1
    \<and> synced E (view w') V' (snapshot_of VersionSet empty_version) [] []"
proof -
  obtain r1 w1 V1 where r1: "write_snapshot_and_install E 1 empty_version w VersionSet = (r1, w1, V1)" using prod_cases3 by blast
  have res: "r1 = Ok" "w' = w1" "V' = set_install empty_version (V1\<lparr> vt_next_seq := 1 \<rparr>)"
    using r r1 by (auto simp: set_create_def split: if_splits)
  have p: "mf_pointer (view w) = vt_entry VersionSet" "0 = set_generation VersionSet"
    using m(1) by (auto simp: VersionSet_def set_generation_def)
  show ?thesis
  proof (rule write_snapshot_cases [OF E w p _ refl r1])
    assume "r1 \<noteq> Ok"
    then show ?thesis using res by simp
  next
    fix gen framed entry m1
    assume *: "V1 = VersionSet\<lparr> vt_entry := Some entry, vt_pending_reencryption := 0 \<rparr>" "ok w1"
      "same_below 0 (view w) m1" "mf_snapshots m1 gen = Some framed" "0 < gen"
      "payload_seal (en_codecs E) (en_encryption E) gen (snapshot_address gen)
         (encode_version_snapshot (en_codecs E) (snapshot_of VersionSet empty_version)) = Inr framed" "ce_generation entry = gen"
      "without_generation 0 (m1\<lparr> mf_pointer := Some entry \<rparr>) (view w1)"
    have edits: "mf_edits (view w1) (h, n) = None" for h n
      using *(3,8) m(2) unfolding without_generation_def same_below_def by (metis manifest.select_convs(3) manifest.surjective manifest.update_convs(1))
    have "mf_snapshots (view w1) gen = mf_snapshots m1 gen \<or> gen = 0" "mf_pointer (view w1) = Some entry"
      using *(8) by (auto simp: without_generation_def)
    then have "manifest_holds E (view w1) gen (snapshot_of VersionSet empty_version) []"
      using sealed_snapshot [OF E(2) st *(6)] edits *(4,5) by (auto simp: manifest_holds_def)
    moreover have "same_version empty_version (replayed_version (snapshot_of VersionSet empty_version) [])"
      using version_of_snapshot_of [OF empty_version_ok] by (simp add: replayed_version_def same_version_sym)
    ultimately show ?thesis
      using *(2,7) \<open>mf_pointer (view w1) = Some entry\<close> edits empty_version_ok
      by (auto simp: res *(1) synced_def set_install_def seq_of_def replayed_number_def)
         (simp_all add: VersionSet_def snapshot_of_def empty_version_def all_files_def)
  qed simp
qed

end

lemma manifest_holds_append:
  assumes m: "manifest_holds E m g s es" and free: "mf_edits m (g, seq_of (length es)) = None"
    and e: "reads_edit E g (seq_of (length es)) bs e" and room: "Suc (Suc (length es)) < 2 ^ 64"
  shows "manifest_holds E (m\<lparr> mf_edits := (mf_edits m)((g, seq_of (length es)) \<mapsto> bs) \<rparr>) g s (es @ [e])"
proof -
  have diff: "seq_of i = seq_of j \<longleftrightarrow> i = j" if "i \<le> Suc (length es)" "j \<le> Suc (length es)" for i j
    using that room by (intro seq_of_inj) auto
  have "\<exists>bs'. ((mf_edits m)((g, seq_of (length es)) \<mapsto> bs)) (g, seq_of i) = Some bs' \<and> reads_edit E g (seq_of i) bs' ((es @ [e]) ! i)"
    if "i < Suc (length es)" for i
    using that m e by (cases "i = length es") (auto simp: manifest_holds_def nth_append diff)
  moreover have "mf_edits m (g, seq_of (Suc (length es))) = None"
  proof (rule ccontr)
    assume "mf_edits m (g, seq_of (Suc (length es))) \<noteq> None"
    then obtain i where "i \<le> length es" "seq_of (Suc (length es)) = seq_of i"
      using m by (auto simp: manifest_holds_def)
    then show False using diff [of "Suc (length es)" i] by simp
  qed
  moreover have "\<exists>i \<le> Suc (length es). n = seq_of i" if "((mf_edits m)((g, seq_of (length es)) \<mapsto> bs)) (g, n) \<noteq> None" for n
  proof (cases "n = seq_of (length es)")
    case False
    then have "mf_edits m (g, n) \<noteq> None" using that by simp
    then obtain i where "i \<le> length es" "n = seq_of i" using m unfolding manifest_holds_def by blast
    then show ?thesis by (intro exI [of _ i]) simp
  qed (auto intro: exI [of _ "length es"])
  ultimately show ?thesis using m room by (simp add: manifest_holds_def diff)
qed

lemma manifest_holds_torn:
  assumes m: "manifest_holds E m g s es" and torn: "torn_edit E g (seq_of (length es)) bs"
  shows "manifest_holds E (m\<lparr> mf_edits := (mf_edits m)((g, seq_of (length es)) \<mapsto> bs) \<rparr>) g s es"
proof -
  have "seq_of i \<noteq> seq_of (length es)" if "i < length es" for i
    using that m seq_of_inj [of i "length es"] by (simp add: manifest_holds_def)
  then show ?thesis using m torn by (auto simp: manifest_holds_def)
qed

lemma replayed_snoc:
  "replayed_version s (es @ [edit_view e]) = version_apply (replayed_version s es) e"
  "replayed_number s (es @ [edit_view e]) = max (replayed_number s es) (ve_next_file_number e)"
  by (simp_all add: replayed_version_def replayed_number_def version_apply_view) (simp add: edit_view_def)

lemma set_files_apply: "f \<in> set (all_files (version_apply v e)) \<Longrightarrow> f \<in> set (all_files v) \<or> f \<in> set (ve_added e)"
  by (auto simp: set_all_files files_at_apply)

text \<open>The edit as it is written, and what a caller keeps to.\<close>

definition stamped :: "version_set \<Rightarrow> version_edit \<Rightarrow> version_edit" where
  "stamped V e = e\<lparr> ve_next_file_number := vt_next_file_number V \<rparr>"

definition legal_edit :: "'w version_set_env \<Rightarrow> version_set \<Rightarrow> version_edit \<Rightarrow> bool" where
  "legal_edit E V e \<longleftrightarrow>
     storable_edit E (stamped V e)
     \<and> storable_snapshot E (snapshot_of V (version_apply (vt_current V) (stamped V e)))
     \<and> (\<forall>f \<in> set (ve_added e). fm_file_number f < vt_next_file_number V)
     \<and> unat (vt_next_seq V) + 1 < 2 ^ 64 \<and> set_generation V \<noteq> max_u64"

definition quiet_deleter :: "('w \<Rightarrow> bool) \<Rightarrow> ('w \<Rightarrow> manifest) \<Rightarrow> 'w version_set_env \<Rightarrow> bool" where
  "quiet_deleter ok view E \<longleftrightarrow>
     (\<forall>del fs w. en_deleter E = Some del \<longrightarrow> ok w \<longrightarrow> ok (snd (del fs w)) \<and> view (snd (del fs w)) = view w)"

lemma synced_append:
  assumes sy: "synced E m V s es []" and entry: "vt_entry V = Some entry"
    and free: "mf_edits m (ce_generation entry, seq_of (length es)) = None"
    and e: "reads_edit E (ce_generation entry) (seq_of (length es)) bs (edit_view (stamped V e))" and legal: "legal_edit E V e"
    and V': "vt_entry V' = Some entry" "vt_next_seq V' = vt_next_seq V + 1" "vt_current V' = version_apply (vt_current V) (stamped V e)"
      "vt_next_file_number V' = vt_next_file_number V"
  shows "synced E (m\<lparr> mf_edits := (mf_edits m)((ce_generation entry, seq_of (length es)) \<mapsto> bs) \<rparr>) V' s (es @ [edit_view (stamped V e)]) []"
proof -
  have "vt_next_seq V = seq_of (length es)" "Suc (length es) < 2 ^ 64"
    using sy entry by (auto simp: synced_def manifest_holds_def)
  then have room: "Suc (Suc (length es)) < 2 ^ 64"
    using legal by (simp add: legal_edit_def seq_of_def unat_of_nat_u64 del: of_nat_Suc)
  have "manifest_holds E (m\<lparr> mf_edits := (mf_edits m)((ce_generation entry, seq_of (length es)) \<mapsto> bs) \<rparr>) (ce_generation entry) s (es @ [edit_view (stamped V e)])"
    by (rule manifest_holds_append [OF _ free e room]) (use sy entry in \<open>auto simp: synced_def\<close>)
  moreover have "same_version (version_apply (vt_current V) (stamped V e)) (version_apply (replayed_version s es) (stamped V e))"
    using sy by (simp add: synced_def same_version_apply)
  moreover have "fm_file_number f < vt_next_file_number V" if "f \<in> set (all_files (version_apply (vt_current V) (stamped V e)))" for f
    using set_files_apply [OF that] sy legal by (auto simp: synced_def legal_edit_def stamped_def intro: less_le_trans)
  ultimately show ?thesis
    using sy entry V' version_apply_ok
    by (auto simp: synced_def replayed_snoc seq_of_def stamped_def)
qed

context manifest_catalog
begin

lemma collect_obsolete_quiet:
  assumes "quiet_deleter ok view E" and "ok w" and "collect_obsolete E w V = (w', V')"
  shows "ok w' \<and> view w' = view w \<and> vt_current V' = vt_current V \<and> vt_entry V' = vt_entry V
    \<and> vt_next_seq V' = vt_next_seq V \<and> vt_next_file_number V' = vt_next_file_number V"
proof (cases "en_deleter E")
  case None
  then show ?thesis using assms(2,3) by (auto simp: collect_obsolete_def Let_def)
next
  case (Some del)
  have del: "ok (snd (if c \<noteq> [] then del c w else ([], w))) \<and> view (snd (if c \<noteq> [] then del c w else ([], w))) = view w" for c
    using assms(1,2) Some by (simp add: quiet_deleter_def)
  show ?thesis
  proof (cases "vt_pending_deletions V = []")
    case True
    then show ?thesis using assms(2,3) Some by (auto simp: collect_obsolete_def Let_def)
  next
    case False
    define live where "live = filter (\<lambda>(h, _). version_alive E w V h) (vt_live_versions V)"
    define keep where "keep = (\<lambda>p. fm_file_number (pd_file p) \<in> file_numbers (map snd live) \<or> within_retention E (now_ms E w) p)"
    define c where "c = map pd_file (filter (\<lambda>p. \<not> keep p) (vt_pending_deletions V))"
    define d where "d = (if c \<noteq> [] then del c w else ([], w))"
    define p where "p = filter keep (vt_pending_deletions V) @ map (\<lambda>f. \<lparr> pd_file = f, pd_unreferenced_since_ms = 0 \<rparr>) (fst d)"
    have "collect_obsolete E w V =
        (snd d, V\<lparr> vt_live_versions := live, vt_pending_deletions := p, vt_pending_deletions_hint := length p \<rparr>)"
      using False by (simp add: collect_obsolete_def Let_def Some live_def keep_def c_def d_def p_def split_def)
    then show ?thesis using del [of c] assms(3) by (auto simp: d_def)
  qed
qed

lemma maybe_roll_outcome:
  assumes E: "en_catalog E = ops" "env_ok E" and w: "ok w" and sy: "synced E (view w) V s es []"
    and st: "storable_snapshot E (snapshot_of V (vt_current V))" and g: "set_generation V \<noteq> max_u64"
    and r: "maybe_roll_generation E (vt_current V) w V = (r, w', V')"
  shows "ok w' \<and> (\<exists>s' es'. synced E (view w') V' s' es' []) \<and> vt_current V' = vt_current V
    \<and> vt_next_file_number V' = vt_next_file_number V"
proof (cases "vt_next_seq V \<le> of_int (edits_per_generation E)")
  case True
  then show ?thesis using r w sy by (auto simp: maybe_roll_generation_def)
next
  case False
  obtain r1 w1 V1 where r1: "write_snapshot_and_install E (ce_generation (the (vt_entry V)) + 1) (vt_current V) w V = (r1, w1, V1)"
    using prod_cases3 by blast
  have "ce_generation (the (vt_entry V)) < ce_generation (the (vt_entry V)) + 1"
    using g sy by (intro next_generation) (auto simp: set_generation_def synced_def)
  note out = write_snapshot_outcome [OF E w sy st refl this r1]
  have "(r, w', V') = (if r1 \<noteq> Ok then (r1, w1, V1) else (Ok, w1, V1\<lparr> vt_next_seq := 1 \<rparr>))"
    using r r1 False by (simp add: maybe_roll_generation_def)
  then show ?thesis using out by (cases "r1 = Ok") auto
qed

lemma roll_now_outcome:
  assumes E: "en_catalog E = ops" "env_ok E" and w: "ok w" and sy: "synced E (view w) V s es extra"
    and st: "storable_snapshot E (snapshot_of V (vt_current V))" and g: "set_generation V \<noteq> max_u64"
    and r: "roll_generation_now E w V = (r, w', V')"
  shows "ok w' \<and> vt_current V' = vt_current V \<and> vt_next_file_number V' = vt_next_file_number V
    \<and> (\<exists>s' es' extra'. synced E (view w') V' s' es' extra' \<and> set extra' \<subseteq> set extra)"
proof (cases "vt_fenced V \<or> vt_entry V = None \<or> vt_next_seq V = 1 \<and> vt_pending_reencryption V = 0")
  case True
  then show ?thesis using r w sy by (auto simp: roll_generation_now_def split: if_splits)
next
  case False
  obtain r1 w1 V1 where r1: "write_snapshot_and_install E (ce_generation (the (vt_entry V)) + 1) (vt_current V) w V = (r1, w1, V1)"
    using prod_cases3 by blast
  have "ce_generation (the (vt_entry V)) < ce_generation (the (vt_entry V)) + 1"
    using g sy by (intro next_generation) (auto simp: set_generation_def synced_def)
  note out = write_snapshot_outcome [OF E w sy st refl this r1]
  have "(r, w', V') = (if r1 \<noteq> Ok then (r1, w1, V1) else (Ok, w1, V1\<lparr> vt_next_seq := 1 \<rparr>))"
    using r r1 False by (auto simp: roll_generation_now_def)
  then consider "V' = V1\<lparr> vt_next_seq := 1 \<rparr>" "w' = w1" "r1 = Ok" | "V' = V1" "w' = w1" "r1 \<noteq> Ok" by (auto split: if_splits)
  then show ?thesis
  proof cases
    case 1
    then have "synced E (view w') V' (snapshot_of V (vt_current V)) [] []" "set [] \<subseteq> set extra" using out by auto
    then have "\<exists>s' es' extra'. synced E (view w') V' s' es' extra' \<and> set extra' \<subseteq> set extra" by blast
    moreover have "ok w'" "vt_current V' = vt_current V" "vt_next_file_number V' = vt_next_file_number V" using out 1 by auto
    ultimately show ?thesis by blast
  qed (use out in auto)
qed

lemma apply_outcome:
  assumes E: "en_catalog E = ops" "env_ok E" "quiet_deleter ok view E" and w: "ok w" and sy: "synced E (view w) V s es extra"
    and legal: "legal_edit E V e" and r: "set_apply E e w V = (r, w', V')"
  shows "ok w' \<and> vt_next_file_number V' = vt_next_file_number V \<and>
    (r = Ok \<and> vt_current V' = version_apply (vt_current V) (stamped V e) \<and> (\<exists>s' es'. synced E (view w') V' s' es' [])
     \<or> r \<noteq> Ok \<and> vt_current V' = vt_current V
        \<and> (\<exists>extra'. synced E (view w') V' s es extra' \<and> set extra' \<subseteq> insert (edit_view (stamped V e)) (set extra)))"
proof -
  obtain entry where entry: "vt_entry V = Some entry" "mf_pointer (view w) = Some entry"
    and holds: "manifest_holds E (view w) (ce_generation entry) s (es @ extra)" and len: "length extra \<le> 1"
    and sq: "vt_next_seq V = seq_of (length es)"
    using sy by (auto simp: synced_def)
  let ?g = "ce_generation entry" and ?n = "seq_of (length es)" and ?e = "stamped V e"
  have keep: "synced E (view w) V' s es extra" if "V' = V \<or> V' = mark_fenced V" for V'
    using synced_same_below [OF sy, of "view w" V'] that by (auto simp: same_below_def mark_fenced_def)
  show ?thesis
  proof (cases "vt_fenced V")
    case True
    then show ?thesis using r w sy by (auto simp: set_apply_def)
  next
    case False
    show ?thesis
    proof (cases "payload_seal (en_codecs E) (en_encryption E) ?g (edit_address ?g ?n) (encode_version_edit (en_codecs E) ?e)")
      case (Inl s1)
      then have "s1 \<noteq> Ok" using E(2) by (auto simp: env_ok_def)
      then show ?thesis using r w sy False Inl entry sq by (auto simp: set_apply_def stamped_def [symmetric])
    next
      case (Inr framed)
      have st: "storable_edit E ?e" using legal by (simp add: legal_edit_def)
      note stored = sealed_edit [OF E(2) st Inr]
      obtain s1 w1 where put: "cat_put_edit ops ?g ?n framed w = (s1, w1)" by (cases "cat_put_edit ops ?g ?n framed w")
      have out: "put_outcome ok view (\<lambda>bs m. m\<lparr> mf_edits := (mf_edits m)((?g, ?n) \<mapsto> bs) \<rparr>) (mf_edits (view w) (?g, ?n)) framed w (s1, w1)"
        using put_edit [OF w, of ?g ?n framed] put by simp
      have free: "extra = []" if "mf_edits (view w) (?g, ?n) = None"
      proof (rule ccontr)
        assume "extra \<noteq> []"
        then have "length es < length (es @ extra)" by simp
        then have "mf_edits (view w) (?g, ?n) \<noteq> None" using holds unfolding manifest_holds_def by blast
        then show False using that by simp
      qed
      consider "s1 = Ok" | "s1 = Config" | "s1 \<noteq> Ok" "s1 \<noteq> Config" by blast
      then show ?thesis
      proof cases
        case 2
        have "(r, w', V') = (Fenced, w1, mark_fenced V)"
          using r False Inr put 2 entry sq E(1) by (simp add: set_apply_def stamped_def [symmetric])
        then show ?thesis using keep [of "mark_fenced V"] out 2 by (auto simp: put_outcome_def mark_fenced_def)
      next
        case 3
        have "(r, w', V') = (s1, w1, V)"
          using r False Inr put 3 entry sq E(1) by (simp add: set_apply_def stamped_def [symmetric])
        moreover have "\<exists>extra'. synced E (view w1) V s es extra' \<and> set extra' \<subseteq> insert (edit_view ?e) (set extra)"
        proof (cases "view w1 = view w")
          case True
          then show ?thesis using sy by auto
        next
          case changed: False
          then obtain k where none: "mf_edits (view w) (?g, ?n) = None"
            and w1: "view w1 = (view w)\<lparr> mf_edits := (mf_edits (view w))((?g, ?n) \<mapsto> take k framed) \<rparr>"
            using out 3 by (auto simp: put_outcome_def)
          have sy': "synced E (view w) V s es []" using sy free [OF none] by simp
          show ?thesis
          proof (cases "k < length framed")
            case True
            have "manifest_holds E (view w1) ?g s es"
              unfolding w1 by (rule manifest_holds_torn) (use holds free [OF none] stored(2) [OF True] in simp_all)
            then have "synced E (view w1) V s es []" using sy' entry by (auto simp: synced_def w1)
            then show ?thesis by auto
          next
            case False
            then have "view w1 = (view w)\<lparr> mf_edits := (mf_edits (view w))((?g, ?n) \<mapsto> framed) \<rparr>" using w1 by simp
            moreover have "Suc (Suc (length es)) < 2 ^ 64"
              using legal holds by (simp add: legal_edit_def sq seq_of_def unat_of_nat_u64 manifest_holds_def del: of_nat_Suc)
            ultimately have "manifest_holds E (view w1) ?g s (es @ [edit_view ?e])"
              using manifest_holds_append [OF _ none stored(1), of s] holds free [OF none] by simp
            moreover have "numbered V (edit_view ?e)"
              using legal by (simp add: numbered_def legal_edit_def stamped_def edit_view_def)
            ultimately have "synced E (view w1) V s es [edit_view ?e]" using sy' entry by (auto simp: synced_def w1)
            then show ?thesis by auto
          qed
        qed
        ultimately show ?thesis using 3 out by (auto simp: put_outcome_def)
      next
        case 1
        then have none: "mf_edits (view w) (?g, ?n) = None" and ok1: "ok w1"
          and w1: "view w1 = (view w)\<lparr> mf_edits := (mf_edits (view w))((?g, ?n) \<mapsto> framed) \<rparr>"
          using out by (auto simp: put_outcome_def)
        define V1 where "V1 = set_install (version_apply (vt_current V) ?e)
            (V\<lparr> vt_next_seq := vt_next_seq V + 1,
                vt_pending_deletions := vt_pending_deletions V @ newly_pending (now_ms E w1) (vt_current V) ?e,
                vt_pending_deletions_hint := length (vt_pending_deletions V @ newly_pending (now_ms E w1) (vt_current V) ?e) \<rparr>)"
        have V1: "vt_entry V1 = Some entry" "vt_next_seq V1 = vt_next_seq V + 1" "vt_current V1 = version_apply (vt_current V) ?e"
          "vt_next_file_number V1 = vt_next_file_number V"
          by (simp_all add: V1_def set_install_def entry)
        have sy1: "synced E (view w1) V1 s (es @ [edit_view ?e]) []"
          unfolding w1 by (rule synced_append [OF _ entry(1) none stored(1) legal V1]) (use sy free [OF none] in simp)
        obtain r2 w2 V2 where roll: "maybe_roll_generation E (vt_current V1) w1 V1 = (r2, w2, V2)" using prod_cases3 by blast
        have "storable_snapshot E (snapshot_of V1 (vt_current V1))" "set_generation V1 \<noteq> max_u64"
          using legal entry by (simp_all add: legal_edit_def V1 snapshot_of_def set_generation_def)
        note out2 = maybe_roll_outcome [OF E(1,2) ok1 sy1 this roll]
        obtain w3 V3 where coll: "collect_obsolete E w2 V2 = (w3, V3)" by (cases "collect_obsolete E w2 V2")
        note out3 = collect_obsolete_quiet [OF E(3) conjunct1 [OF out2] coll]
        have "(r, w', V') = (Ok, w3, V3)"
          using r False Inr put 1 entry sq E(1) roll coll
          by (simp add: set_apply_def stamped_def [symmetric] V1_def Let_def set_install_def)
        moreover obtain s' es' where "synced E (view w2) V2 s' es' []" using out2 by blast
        then have "synced E (view w3) V3 s' es' []"
          using synced_same_below [of E "view w2" V2 s' es' "[]" "view w3" V3] out3 by (simp add: same_below_def)
        ultimately show ?thesis using out2 out3 V1 by auto
      qed
    qed
  qed
qed

end

section \<open>Reopening\<close>

lemma replayed_version_ok: "version_ok (replayed_version s es)"
proof -
  have "version_ok (version_of_snapshot s)"
    unfolding version_of_snapshot_def
    by (rule version_apply_ok) (use fold_map_insert [of "[]"] in \<open>simp add: version_ok_def Version_def placed_def\<close>)
  then show ?thesis unfolding replayed_version_def
    by (induction es rule: rev_induct) (auto simp: version_apply_ok)
qed

lemma synced_reopened:
  assumes sy: "synced E m V s es extra" and entry: "vt_entry V = Some entry"
    and st: "rs_version st = replayed_version s (es @ extra)" "rs_expected_seq st = seq_of (length (es @ extra))"
      "rs_file_number st = replayed_number s (es @ extra)"
  shows "synced E m (set_recovered entry st VersionSet) s (es @ extra) []"
    and "\<forall>f \<in> set (all_files (rs_version st)). fm_file_number f < rs_file_number st"
proof -
  have files: "fm_file_number f < replayed_number s es" if "f \<in> set (all_files (replayed_version s es))" for f
    using sy that same_version_files [of "vt_current V" "replayed_version s es"] by (auto simp: synced_def)
  have "fm_file_number f < replayed_number s (es @ extra)" if f: "f \<in> set (all_files (replayed_version s (es @ extra)))" for f
  proof (cases extra)
    case Nil
    then show ?thesis using files f by simp
  next
    case (Cons x xs)
    then have x: "extra = [x]" and num: "numbered V x" using sy by (auto simp: synced_def)
    have "f \<in> set (all_files (replayed_version s es)) \<or> f \<in> set (ve_added x)"
      using f set_files_apply by (auto simp: x replayed_version_def)
    moreover have "replayed_number s (es @ extra) = max (replayed_number s es) (ve_next_file_number x)"
      by (simp add: x replayed_number_def)
    ultimately show ?thesis using files [of f] num by (auto simp: numbered_def less_max_iff_disj)
  qed
  then show "\<forall>f \<in> set (all_files (rs_version st)). fm_file_number f < rs_file_number st" by (simp add: st)
  then show "synced E m (set_recovered entry st VersionSet) s (es @ extra) []"
    using sy entry st replayed_version_ok by (auto simp: synced_def set_recovered_def set_install_def)
qed

end
