(* ===== verification/Durability.thy ===== *)
theory Durability
  imports Recovery
begin

text \<open>
  What survives on a directory: histories of a store whose system calls fail and whose process stops
  at any point, and what a reopening finds after each. Also two ways the code has of going wrong, on
  a torn edit and on a directory that cannot be opened.
\<close>

section \<open>Histories\<close>

definition version_after :: "version_edit list \<Rightarrow> version" where
  "version_after es = fold (\<lambda>e v. version_apply v e) es empty_version"

text \<open>
  What can happen to a store on disk: it is created, edits are applied, generations rolled, files
  collected, file numbers used up, and it is reopened after the process went away at any point. The
  first list holds the edits that took effect; the second those that were refused with an error since
  the last reopening. Which system calls fail may change at any time.
\<close>

inductive disk_run :: "disk version_set_env \<Rightarrow> version_edit list \<Rightarrow> version_edit list \<Rightarrow> disk \<Rightarrow> version_set \<Rightarrow> bool" for E where
  created: "disk_ok d \<Longrightarrow> mf_pointer (disk_view d) = None \<Longrightarrow> (\<And>h n. mf_edits (disk_view d) (h, n) = None)
    \<Longrightarrow> set_create E d VersionSet = (Ok, d', V) \<Longrightarrow> disk_run E [] [] d' V"
| applied: "disk_run E es un d V \<Longrightarrow> legal_edit E V e \<Longrightarrow> set_apply E e d V = (Ok, d', V')
    \<Longrightarrow> disk_run E (es @ [stamped V e]) [] d' V'"
| refused: "disk_run E es un d V \<Longrightarrow> legal_edit E V e \<Longrightarrow> set_apply E e d V = (s, d', V') \<Longrightarrow> s \<noteq> Ok
    \<Longrightarrow> disk_run E es (stamped V e # un) d' V'"
| rolled: "disk_run E es un d V \<Longrightarrow> storable_snapshot E (snapshot_of V (vt_current V)) \<Longrightarrow> set_generation V \<noteq> max_u64
    \<Longrightarrow> roll_generation_now E d V = (s, d', V') \<Longrightarrow> disk_run E es un d' V'"
| collected: "disk_run E es un d V \<Longrightarrow> collect_obsolete E d V = (d', V') \<Longrightarrow> disk_run E es un d' V'"
| allocated: "disk_run E es un d V \<Longrightarrow> vt_next_file_number V \<noteq> max_u64 \<Longrightarrow> allocate_file_number V = (n, V')
    \<Longrightarrow> disk_run E es un d V'"
| stepped_over: "disk_run E es un d V \<Longrightarrow> n \<noteq> max_u64 \<Longrightarrow> disk_run E es un d (observe_file_number n V)"
| failing: "disk_run E es un d V \<Longrightarrow> disk_run E es un (d\<lparr> dk_calls := cs \<rparr>) V"
| reopened: "disk_run E es un d V \<Longrightarrow> set_recover E d VersionSet = (Some Ok, d', V')
    \<Longrightarrow> same_version (vt_current V') (version_after es) \<Longrightarrow> disk_run E es [] d' V'"
| reopened_later: "disk_run E es un d V \<Longrightarrow> set_recover E d VersionSet = (Some Ok, d', V') \<Longrightarrow> u \<in> set un
    \<Longrightarrow> same_version (vt_current V') (version_after (es @ [u])) \<Longrightarrow> disk_run E (es @ [u]) [] d' V'"

definition disk_synced :: "disk version_set_env \<Rightarrow> version_edit list \<Rightarrow> version_edit list \<Rightarrow> disk \<Rightarrow> version_set \<Rightarrow> bool" where
  "disk_synced E es un d V \<longleftrightarrow>
     disk_ok d \<and> same_version (vt_current V) (version_after es)
     \<and> (\<exists>s applied extra. synced E (disk_view d) V s applied extra \<and> set extra \<subseteq> edit_view ` set un)"

lemma disk_recovers:
  assumes E: "en_catalog E = DiskManifestCatalog" and d: "disk_synced E es un d V"
  obtains d' V' s applied where "set_recover E d VersionSet = (Some Ok, d', V')" "disk_ok d'"
    "synced E (disk_view d') V' s applied []"
    "same_version (vt_current V') (version_after es) \<or> (\<exists>u \<in> set un. same_version (vt_current V') (version_after (es @ [u])))"
    "\<forall>f \<in> set (all_files (vt_current V')). fm_file_number f < vt_next_file_number V'"
proof -
  obtain s applied extra where ok: "disk_ok d" and v: "same_version (vt_current V) (version_after es)"
    and sy: "synced E (disk_view d) V s applied extra" and extra: "set extra \<subseteq> edit_view ` set un"
    using d by (auto simp: disk_synced_def)
  obtain entry where entry: "vt_entry V = Some entry" "mf_pointer (disk_view d) = Some entry"
    and holds: "manifest_holds E (disk_view d) (ce_generation entry) s (applied @ extra)"
    using sy by (auto simp: synced_def)
  have "vt_entry VersionSet = None" by (simp add: VersionSet_def)
  from disk.recover_holds [OF E ok entry(2) holds this] obtain d' st where
    r: "set_recover E d VersionSet = (Some Ok, d', set_recovered entry st VersionSet)" and d': "disk_ok d'" "disk_view d' = disk_view d"
    and st: "rs_version st = replayed_version s (applied @ extra)" "rs_expected_seq st = seq_of (length (applied @ extra))"
      "rs_file_number st = replayed_number s (applied @ extra)" by blast
  let ?V = "set_recovered entry st VersionSet"
  note reopened = synced_reopened [OF sy entry(1) st]
  have cur: "vt_current ?V = rs_version st" "vt_next_file_number ?V = rs_file_number st"
    by (simp_all add: set_recovered_def set_install_def)
  have base: "same_version (replayed_version s applied) (version_after es)"
    using v sy by (meson same_version_sym same_version_trans synced_def)
  have "same_version (rs_version st) (version_after es) \<or> (\<exists>u \<in> set un. same_version (rs_version st) (version_after (es @ [u])))"
  proof (cases extra)
    case Nil
    then show ?thesis using base st(1) by simp
  next
    case (Cons x xs)
    then have "extra = [x]" using sy by (auto simp: synced_def)
    moreover obtain u where u: "u \<in> set un" "x = edit_view u" using extra Cons by auto
    ultimately have "rs_version st = version_apply (replayed_version s applied) u" using st(1) replayed_snoc(1) by simp
    then have "same_version (rs_version st) (version_after (es @ [u]))"
      using same_version_apply [OF base] by (simp add: version_after_def)
    then show ?thesis using u(1) by blast
  qed
  then show thesis using that [OF r d'(1)] reopened d'(2) cur by auto
qed

lemma disk_run_synced:
  assumes E: "en_catalog E = DiskManifestCatalog" "env_ok E" "quiet_deleter disk_ok disk_view E"
      "storable_snapshot E (snapshot_of VersionSet empty_version)"
    and run: "disk_run E es un d V"
  shows "disk_synced E es un d V"
  using run
proof induction
  case (created d d' V)
  then have "disk_ok d' \<and> vt_current V = empty_version \<and> vt_next_file_number V = 1
      \<and> synced E (disk_view d') V (snapshot_of VersionSet empty_version) [] []"
    using disk.create_outcome [OF E(1,2) created(1,2) _ E(4) created(4)] by blast
  then show ?case by (auto simp: disk_synced_def version_after_def)
next
  case (applied es un d V e d' V')
  then obtain s a extra where "disk_ok d" "same_version (vt_current V) (version_after es)" "synced E (disk_view d) V s a extra"
    by (auto simp: disk_synced_def)
  with disk.apply_outcome [OF E(1-3) _ _ applied(2,3)] show ?case
    by (force simp: disk_synced_def version_after_def intro: same_version_apply)
next
  case (refused es un d V e r d' V')
  then obtain s a extra where d: "disk_ok d" "same_version (vt_current V) (version_after es)" "synced E (disk_view d) V s a extra"
    "set extra \<subseteq> edit_view ` set un"
    by (auto simp: disk_synced_def)
  with disk.apply_outcome [OF E(1-3) d(1,3) refused(2,3)] refused(4) obtain extra' where
    "disk_ok d'" "vt_current V' = vt_current V" "synced E (disk_view d') V' s a extra'"
    "set extra' \<subseteq> insert (edit_view (stamped V e)) (set extra)" by auto
  then show ?case using d unfolding disk_synced_def by fastforce
next
  case (rolled es un d V r d' V')
  then obtain s a extra where d: "disk_ok d" "same_version (vt_current V) (version_after es)" "synced E (disk_view d) V s a extra"
    "set extra \<subseteq> edit_view ` set un"
    by (auto simp: disk_synced_def)
  with disk.roll_now_outcome [OF E(1,2) d(1,3) rolled(2,3,4)] show ?case unfolding disk_synced_def by fastforce
next
  case (collected es un d V d' V')
  then obtain s a extra where d: "disk_ok d" "same_version (vt_current V) (version_after es)" "synced E (disk_view d) V s a extra"
    "set extra \<subseteq> edit_view ` set un"
    by (auto simp: disk_synced_def)
  note q = disk.collect_obsolete_quiet [OF E(3) d(1) collected(2)]
  then have "synced E (disk_view d') V' s a extra"
    using synced_same_below [OF d(3), of "disk_view d'" V'] by (simp add: same_below_def)
  then show ?case using d q unfolding disk_synced_def by auto
next
  case (allocated es un d V n V')
  then obtain s a extra where d: "disk_ok d" "same_version (vt_current V) (version_after es)" "synced E (disk_view d) V s a extra"
    "set extra \<subseteq> edit_view ` set un"
    by (auto simp: disk_synced_def)
  have "synced E (disk_view d) V' s a extra"
    by (rule synced_same_below [OF d(3)]) (use allocated next_generation in \<open>auto simp: allocate_file_number_def same_below_def less_imp_le\<close>)
  moreover have "vt_current V' = vt_current V" using allocated by (auto simp: allocate_file_number_def)
  ultimately show ?case using d unfolding disk_synced_def by auto
next
  case (stepped_over es un d V n)
  then obtain s a extra where d: "disk_ok d" "same_version (vt_current V) (version_after es)" "synced E (disk_view d) V s a extra"
    "set extra \<subseteq> edit_view ` set un"
    by (auto simp: disk_synced_def)
  have "synced E (disk_view d) (observe_file_number n V) s a extra"
    by (rule synced_same_below [OF d(3)])
       (use stepped_over(2) next_generation [of n] in \<open>auto simp: observe_file_number_def same_below_def\<close>)
  moreover have "vt_current (observe_file_number n V) = vt_current V" by (simp add: observe_file_number_def)
  ultimately show ?case using d unfolding disk_synced_def by auto
next
  case (failing es un d V cs)
  have "grows d (d\<lparr> dk_calls := cs \<rparr>)" by (simp add: grows_def)
  then show ?case using failing grows_keeps [of d "d\<lparr> dk_calls := cs \<rparr>"] by (auto simp: disk_synced_def)
next
  case (reopened es un d V d' V')
  then show ?case by (elim disk_recovers [OF E(1)]) (auto simp: disk_synced_def)
next
  case (reopened_later es un d V d' V' u)
  then show ?case by (elim disk_recovers [OF E(1)]) (auto simp: disk_synced_def)
qed

section \<open>Durability\<close>

text \<open>
  [C3] On a directory, whatever system calls fail and wherever the process stops, the version in
  memory is the edits that were acknowledged, in their order. Reopening the store succeeds and yields
  exactly the same, or the same and one edit that was reported as failed, whole; never part of an
  edit, and no edit that was acknowledged is missing. The file numbers handed out next are above
  every file in use.
\<close>

theorem manifest_durable:
  assumes "en_catalog E = DiskManifestCatalog" "env_ok E" "quiet_deleter disk_ok disk_view E"
      "storable_snapshot E (snapshot_of VersionSet empty_version)"
    and "disk_run E es un d V"
  shows "same_version (vt_current V) (version_after es)
    \<and> (\<exists>d' V'. set_recover E d VersionSet = (Some Ok, d', V')
         \<and> (same_version (vt_current V') (version_after es)
            \<or> (\<exists>u \<in> set un. same_version (vt_current V') (version_after (es @ [u]))))
         \<and> (\<forall>f \<in> set (all_files (vt_current V')). fm_file_number f < vt_next_file_number V'))"
proof -
  have synced: "disk_synced E es un d V" by (rule disk_run_synced [OF assms])
  then have "same_version (vt_current V) (version_after es)" by (simp add: disk_synced_def)
  with disk_recovers [OF assms(1) synced] show ?thesis by metis
qed

section \<open>A disk on which nothing fails\<close>

lemma write_object_healthy:
  assumes "dk_calls d = []" and "dk_file d p = None"
  shows "\<exists>d'. write_object p bs d = (Ok, d') \<and> dk_calls d' = [] \<and> dk_reads d' = dk_reads d \<and> dk_file d' = (dk_file d)(p \<mapsto> bs)"
  using assms
  by (auto simp: write_object_def ensure_directory_def sync_directory_def dk_call_def make_directories_def dk_store_def
      dk_file_def map_of_filter_key fun_eq_iff)

lemma cas_healthy:
  assumes "dk_calls d = []" and "dk_reads d = []" and "dk_file d current_path = None"
  shows "\<exists>e d'. disk_compare_and_set None g d = (Inr (Some e), d') \<and> ce_generation e = g \<and> dk_calls d' = [] \<and> dk_reads d' = []
    \<and> (\<forall>h n. dk_file d' (edit_path h n) = dk_file d (edit_path h n))"
proof -
  obtain d1 where d1: "ensure_directory manifest_dir d = (Ok, d1)" "dk_calls d1 = []" "dk_reads d1 = []" "dk_file d1 = dk_file d"
    using assms
    by (cases "manifest_dir \<in> set (dk_dirs d)")
       (auto simp: ensure_directory_def sync_directory_def dk_call_def make_directories_def dk_file_def fun_eq_iff)
  let ?bs = "decimal (unat g) @ [32] @ format_token 1 @ [10]"
  have "dk_calls (dk_unlink temp_path d1) = []" "dk_file (dk_unlink temp_path d1) temp_path = None"
    using d1 by (auto simp: dk_unlink_def dk_file_def map_of_filter_key)
  from write_object_healthy [OF this, of ?bs] obtain d2 where
    "write_object temp_path ?bs (dk_unlink temp_path d1) = (Ok, d2)" "dk_calls d2 = []" "dk_reads d2 = dk_reads (dk_unlink temp_path d1)"
    "dk_file d2 = (dk_file (dk_unlink temp_path d1))(temp_path \<mapsto> ?bs)" by auto
  moreover have "dk_calls (dk_unlink p (dk_store q bs d2)) = dk_calls d2" "dk_reads (dk_unlink p (dk_store q bs d2)) = dk_reads d2"
    "dk_reads (dk_unlink p d1) = dk_reads d1" for p q bs by (simp_all add: dk_unlink_def dk_store_def)
  ultimately show ?thesis using d1 assms(3)
    by (simp add: disk_compare_and_set_def dk_call_def disk_read_def read_object_def dk_open_read_def same_entry_def sync_directory_def)
qed

lemma create_healthy:
  assumes "en_catalog E = DiskManifestCatalog" and "dk_calls d = []" "dk_reads d = []"
    and "dk_file d current_path = None" "dk_file d (snapshot_path 1) = None"
    and "payload_seal (en_codecs E) (en_encryption E) 1 (snapshot_address 1)
           (encode_version_snapshot (en_codecs E) (snapshot_of VersionSet empty_version)) = Inr framed"
  shows "\<exists>d' V. set_create E d VersionSet = (Ok, d', V) \<and> dk_calls d' = [] \<and> dk_reads d' = [] \<and> \<not> vt_fenced V
    \<and> vt_entry V \<noteq> None \<and> set_generation V = 1 \<and> vt_current V = empty_version \<and> vt_next_seq V = 1 \<and> vt_next_file_number V = 1
    \<and> (\<forall>h n. dk_file d' (edit_path h n) = dk_file d (edit_path h n))"
proof -
  obtain d1 where d1: "write_object (snapshot_path 1) framed d = (Ok, d1)" "dk_calls d1 = []" "dk_reads d1 = []"
    "dk_file d1 current_path = None" "\<forall>h n. dk_file d1 (edit_path h n) = dk_file d (edit_path h n)"
    using write_object_healthy [OF assms(2,5)] assms(3,4) by force
  obtain e d2 where "disk_compare_and_set None 1 d1 = (Inr (Some e), d2)" "ce_generation e = 1" "dk_calls d2 = []" "dk_reads d2 = []"
    "\<forall>h n. dk_file d2 (edit_path h n) = dk_file d1 (edit_path h n)"
    using cas_healthy [OF d1(2-4), of 1] by auto
  moreover have "snapshot_attempts E None (encode_version_snapshot (en_codecs E) (snapshot_of VersionSet empty_version)) 1
      kSnapshotAttempts d = (Inr 1, d1)"
    using assms(1,6) d1(1) by (simp add: kSnapshotAttempts_def eval_nat_numeral DiskManifestCatalog_def)
  moreover have "vt_entry VersionSet = None" "\<not> vt_fenced VersionSet" "vt_next_file_number VersionSet = 1"
    by (simp_all add: VersionSet_def)
  ultimately show ?thesis
    using assms(1) d1(5) by (simp add: set_create_def write_snapshot_and_install_def adopt_entry_def DiskManifestCatalog_def set_install_def
        set_generation_def)
qed

lemma apply_healthy:
  assumes "en_catalog E = DiskManifestCatalog" and "dk_calls d = []" and "\<not> vt_fenced V" and "vt_entry V = Some entry"
    and "dk_file d (edit_path (ce_generation entry) (vt_next_seq V)) = None"
    and "payload_seal (en_codecs E) (en_encryption E) (ce_generation entry) (edit_address (ce_generation entry) (vt_next_seq V))
           (encode_version_edit (en_codecs E) (stamped V e)) = Inr framed"
    and "en_deleter E = None" and "vt_next_seq V + 1 \<le> of_int (edits_per_generation E)"
  shows "\<exists>d' V'. set_apply E e d V = (Ok, d', V') \<and> dk_reads d' = dk_reads d
    \<and> dk_file d' = (dk_file d)(edit_path (ce_generation entry) (vt_next_seq V) \<mapsto> framed)"
proof -
  obtain d' where "write_object (edit_path (ce_generation entry) (vt_next_seq V)) framed d = (Ok, d')" "dk_reads d' = dk_reads d"
    "dk_file d' = (dk_file d)(edit_path (ce_generation entry) (vt_next_seq V) \<mapsto> framed)"
    using write_object_healthy [OF assms(2,5), of framed] by blast
  then show ?thesis using assms
    by (simp add: set_apply_def stamped_def DiskManifestCatalog_def Let_def maybe_roll_generation_def collect_obsolete_def set_install_def)
qed

section \<open>A sample history\<close>

definition sample_env :: "disk version_set_env" where
  "sample_env =
     \<lparr> en_catalog = DiskManifestCatalog, en_encryption = passthrough_registry, en_codecs = zero_run_codecs,
       en_edits_per_generation = 1000, en_deleter = None, en_clock = None, en_obsolete_retention = 0, en_held = (\<lambda>_ _. False) \<rparr>"

definition empty_disk :: disk where
  "empty_disk = \<lparr> dk_files = [], dk_dirs = [], dk_calls = [], dk_reads = [], dk_lists = [] \<rparr>"

definition sample_truncation :: version_edit where
  "sample_truncation = VersionEdit\<lparr> ve_truncation_point := [107] \<rparr>"

lemma zero_run_small:
  assumes "length c < 1000"
  shows "fst (frame_block zero_run_codecs c codec []) = Ok" "length (snd (frame_block zero_run_codecs c codec [])) < 1100"
  using assms
  by (auto simp: frame_block_def compress_zstd_def compress_lz4_def LZ4_MAX_INPUT_SIZE_def zero_run_codecs_def zero_run_compress_def Let_def
      split: compression.splits if_splits)

lemma passthrough_seals:
  "\<exists>framed. payload_seal zero_run_codecs passthrough_registry g a p = Inr framed"
proof -
  have "\<exists>c z. payload_compress zero_run_codecs p = Inr (c, z)"
    by (simp add: payload_compress_def zero_run_codecs_def zero_run_compress_def)
  then obtain c z where c: "payload_compress zero_run_codecs p = Inr (c, z)" by blast
  have "\<exists>sealed. seal_chunks NoEncryptionCipher aad z k n out = Inr sealed" for aad k n out
    by (induction n arbitrary: k out) (simp_all add: NoEncryptionCipher_def Let_def)
  then show ?thesis
    by (simp add: payload_seal_def passthrough_ok(1) c) (simp add: NoEncryptionProvider_def Let_def)
qed

lemma sample_env_ok: "en_catalog sample_env = DiskManifestCatalog" "env_ok sample_env" "quiet_deleter disk_ok disk_view sample_env"
  "en_codecs sample_env = zero_run_codecs" "en_encryption sample_env = passthrough_registry"
  using passthrough_seals zero_run_codecs_ok passthrough_ok
  by (auto simp: sample_env_def env_ok_def quiet_deleter_def) (metis sum.distinct(1))

lemma plain_snapshot_storable:
  assumes "vs_files s = []" "vs_compaction_pointers s = []" "length (vs_truncation_point s) \<le> 1"
  shows "storable_snapshot sample_env s"
proof -
  let ?f = "vs_watermark_floor s"
  let ?a = "(case ?f of None \<Rightarrow> 0 | Some f \<Rightarrow> if fl_position f \<noteq> None then 1 else 2) :: u64"
    and ?b = "(case ?f of None \<Rightarrow> 0 | Some f \<Rightarrow> (case fl_position f of Some x \<Rightarrow> x | None \<Rightarrow> 0)) :: u64"
  have small: "length (snapshot_content s) < 1000"
    using assms length_put_varint32 [of kSnapshotFormatVersion] length_put_varint64 [of "vs_next_file_number s"]
      length_put_varint64 [of 0] length_put_varint64 [of "of_nat (length (vs_truncation_point s))"]
      length_put_varint64 [of ?a] length_put_varint64 [of ?b]
    unfolding snapshot_content_def put_pointers_def put_string_def put_floor_def by simp
  from zero_run_small [OF this, of Zstd] this show ?thesis using assms
    by (simp add: storable_snapshot_def sample_env_ok snapshot_ok_def encode_version_snapshot_def frame_def kMaxManifestBytes_def
        kMaxPayloadBytes_def refuses_plaintext_def passthrough_registry_def pointers_ok_def fits_def)
qed

lemma sample_truncation_legal:
  assumes "vt_current V = empty_version" and "vt_next_seq V = 1" and "set_generation V \<noteq> max_u64"
  shows "legal_edit sample_env V sample_truncation"
proof -
  let ?e = "stamped V sample_truncation"
  have e: "ve_added ?e = []" "ve_deleted ?e = []" "ve_compaction_pointers ?e = []" "ve_truncation_point ?e = [107]"
    "ve_floor_update ?e = Silent"
    by (simp_all add: stamped_def sample_truncation_def VersionEdit_def)
  have small: "length (edit_content ?e) < 1000"
    using length_put_varint32 [of kEditFormatVersion] length_put_varint64 [of "ve_next_file_number ?e"]
      length_put_varint64 [of 0] length_put_varint64 [of "1 :: u64"]
      length_put_varint64 [of "case fl_position (ve_watermark_floor ?e) of Some x \<Rightarrow> x | None \<Rightarrow> 0"]
    unfolding edit_content_def put_pointers_def put_string_def put_floor_update_def e by simp
  from zero_run_small [OF this, of None_codec] this have "storable_edit sample_env ?e"
    by (simp add: storable_edit_def sample_env_ok edit_ok_def e encode_version_edit_def frame_def kMaxManifestBytes_def
        kMaxPayloadBytes_def refuses_plaintext_def passthrough_registry_def pointers_ok_def fits_def)
  moreover have "storable_snapshot sample_env (snapshot_of V (version_apply (vt_current V) ?e))"
  proof (rule plain_snapshot_storable)
    have "f \<notin> set (all_files (version_apply empty_version ?e))" for f
      using set_files_apply [of f empty_version ?e] e(1) by (auto simp: empty_version_def all_files_def)
    then show "vs_files (snapshot_of V (version_apply (vt_current V) ?e)) = []"
      by (simp add: snapshot_of_def assms(1)) (meson last_in_set)
  qed (simp_all add: snapshot_of_def version_apply_fields e assms(1) empty_version_def)
  ultimately show ?thesis using assms(2,3) by (simp add: legal_edit_def sample_truncation_def VersionEdit_def)
qed

lemma empty_disk_ok [simp]: "disk_ok empty_disk" "dk_calls empty_disk = []" "dk_reads empty_disk = []" "dk_file empty_disk p = None"
  by (simp_all add: disk_ok_def empty_disk_def dk_file_def)

lemma sample_truncation_point:
  "same_version v (version_after [stamped V sample_truncation]) \<Longrightarrow> v_truncation_point v = [107]"
  by (simp add: same_version_def version_after_def version_apply_fields empty_version_def stamped_def sample_truncation_def)

lemma sample_room: "vt_next_seq V = 1 \<Longrightarrow> vt_next_seq V + 1 \<le> of_int (edits_per_generation sample_env)" "en_deleter sample_env = None"
  by (simp_all add: sample_env_def edits_per_generation_def)

lemma sample_created:
  "\<exists>d V. set_create sample_env empty_disk VersionSet = (Ok, d, V) \<and> disk_run sample_env [] [] d V \<and> dk_calls d = [] \<and> dk_reads d = []
     \<and> \<not> vt_fenced V \<and> vt_next_seq V = 1 \<and> (\<exists>entry. vt_entry V = Some entry) \<and> legal_edit sample_env V sample_truncation \<and> vt_current V = empty_version
     \<and> (\<forall>h n. dk_file d (edit_path h n) = None)"
proof -
  obtain framed where f: "payload_seal (en_codecs sample_env) (en_encryption sample_env) 1 (snapshot_address 1)
      (encode_version_snapshot (en_codecs sample_env) (snapshot_of VersionSet empty_version)) = Inr framed"
    unfolding sample_env_ok using passthrough_seals by blast
  from create_healthy [OF sample_env_ok(1) empty_disk_ok(2,3,4,4) f] obtain d V where
    r: "set_create sample_env empty_disk VersionSet = (Ok, d, V)" "dk_calls d = []" "\<not> vt_fenced V" "vt_entry V \<noteq> None"
    "set_generation V = 1" "vt_current V = empty_version" "vt_next_seq V = 1" "\<forall>h n. dk_file d (edit_path h n) = None"
    "dk_reads d = []" unfolding empty_disk_ok by blast
  have "disk_run sample_env [] [] d V"
    by (rule disk_run.created [OF _ _ _ r(1)]) (simp_all add: disk_view_def)
  moreover have "legal_edit sample_env V sample_truncation"
    by (rule sample_truncation_legal) (use r in \<open>simp_all add: max_u64_def\<close>)
  ultimately show ?thesis using r by blast
qed

lemma sample_storable: "storable_snapshot sample_env (snapshot_of VersionSet empty_version)"
  by (rule plain_snapshot_storable) (simp_all add: snapshot_of_def empty_version_def all_files_def)

theorem manifest_durable_witness:
  "\<exists>d V e. disk_run sample_env [e] [] d V \<and> v_truncation_point (vt_current V) = [107]
     \<and> (\<exists>d' V'. set_recover sample_env d VersionSet = (Some Ok, d', V') \<and> v_truncation_point (vt_current V') = [107])"
proof -
  obtain d V entry where run: "disk_run sample_env [] [] d V" and calls: "dk_calls d = []"
    and V: "\<not> vt_fenced V" "vt_entry V = Some entry" "vt_next_seq V = 1" and legal: "legal_edit sample_env V sample_truncation" and free: "\<forall>h n. dk_file d (edit_path h n) = None"
    using sample_created by blast
  obtain framed where f: "payload_seal (en_codecs sample_env) (en_encryption sample_env) (ce_generation entry)
      (edit_address (ce_generation entry) (vt_next_seq V)) (encode_version_edit (en_codecs sample_env) (stamped V sample_truncation)) = Inr framed"
    unfolding sample_env_ok using passthrough_seals by blast
  obtain d1 V1 where "set_apply sample_env sample_truncation d V = (Ok, d1, V1)"
    using apply_healthy [OF sample_env_ok(1) calls V(1,2) free [rule_format] f sample_room(2,1)] V(3) by blast
  from disk_run.applied [OF run legal this] have run1: "disk_run sample_env [stamped V sample_truncation] [] d1 V1" by simp
  from manifest_durable [OF sample_env_ok(1-3) sample_storable run1] obtain d2 V2 where
    "same_version (vt_current V1) (version_after [stamped V sample_truncation])"
    "set_recover sample_env d1 VersionSet = (Some Ok, d2, V2)"
    "same_version (vt_current V2) (version_after [stamped V sample_truncation])" by auto
  with run1 show ?thesis by (meson sample_truncation_point)
qed

section \<open>A torn edit\<close>

lemma write_object_torn:
  assumes "butlast p \<in> set (dk_dirs d)" and "dk_file d p = None" and "bs \<noteq> []" and "dk_calls d = [Good, Good, Partial k, Bad]"
  shows "\<exists>d'. write_object p bs d = (Io, d') \<and> dk_file d' = (dk_file d)(p \<mapsto> take k bs)"
  using assms
  by (auto simp: write_object_def ensure_directory_def dk_call_def dk_store_def dk_file_def map_of_filter_key fun_eq_iff)

lemma occupied_edit_refused:
  assumes E: "en_catalog E = DiskManifestCatalog" "env_ok E" and d: "disk_ok d"
    and V: "vt_entry V = Some entry" and old: "dk_file d (edit_path (ce_generation entry) (vt_next_seq V)) \<noteq> None"
  shows "fst (set_apply E e d V) \<noteq> Ok"
proof -
  let ?seal = "payload_seal (en_codecs E) (en_encryption E) (ce_generation entry) (edit_address (ce_generation entry) (vt_next_seq V))
      (encode_version_edit (en_codecs E) (e\<lparr> ve_next_file_number := vt_next_file_number V \<rparr>))"
  have "\<not> (s = Ok)" if "write_object (edit_path (ce_generation entry) (vt_next_seq V)) bs d = (s, d')" for bs s d'
    using write_object_outcome [OF d _ _ that] old by auto
  moreover have "?seal \<noteq> Inl Ok" using E(2) by (simp add: env_ok_def)
  ultimately show ?thesis using E(1) V
    by (cases ?seal) (auto simp: set_apply_def DiskManifestCatalog_def Let_def split: prod.splits)
qed

text \<open>
  [C32] When the write of an edit fails half way and the file cannot be removed, which is also what a
  crash in the middle leaves, reopening succeeds with every acknowledged edit and skips the torn one.
  But the next edit is given the number of the torn one, whose file is still there: the catalog
  refuses it, and the store accepts no edit.
\<close>

theorem torn_edit_locks_the_store:
  assumes E: "en_catalog E = DiskManifestCatalog" "env_ok E" "quiet_deleter disk_ok disk_view E"
      "storable_snapshot E (snapshot_of VersionSet empty_version)"
    and run: "disk_run E es un d V" and legal: "legal_edit E V e" and V: "\<not> vt_fenced V" "vt_entry V = Some entry"
    and free: "dk_file d (edit_path (ce_generation entry) (vt_next_seq V)) = None"
    and sealed: "payload_seal (en_codecs E) (en_encryption E) (ce_generation entry) (edit_address (ce_generation entry) (vt_next_seq V))
        (encode_version_edit (en_codecs E) (stamped V e)) = Inr framed" and k: "k < length framed"
    and calls: "dk_calls d = [Good, Good, Partial k, Bad]"
  shows "\<exists>d1 d2 V2. set_apply E e d V = (Io, d1, V) \<and> set_recover E d1 VersionSet = (Some Ok, d2, V2)
    \<and> same_version (vt_current V2) (version_after es) \<and> (\<forall>e'. fst (set_apply E e' d2 V2) \<noteq> Ok)"
proof -
  let ?g = "ce_generation entry"
  obtain s a extra where ok: "disk_ok d" and cur: "same_version (vt_current V) (version_after es)" and sy: "synced E (disk_view d) V s a extra"
    using disk_run_synced [OF E run] by (auto simp: disk_synced_def)
  have pointer: "mf_pointer (disk_view d) = Some entry" and holds: "manifest_holds E (disk_view d) ?g s (a @ extra)"
    and sq: "vt_next_seq V = seq_of (length a)" and now: "same_version (vt_current V) (replayed_version s a)"
    using sy V(2) by (auto simp: synced_def)
  have "mf_edits (disk_view d) (?g, seq_of (length a)) \<noteq> None" if "extra \<noteq> []"
    using holds that unfolding manifest_holds_def by (metis length_append length_greater_0_conv less_add_same_cancel1 option.distinct(1))
  then have "extra = []" using free by (auto simp: sq disk_view_def)
  with holds have holds: "manifest_holds E (disk_view d) ?g s a" by simp
  have "dk_file d (snapshot_path ?g) \<noteq> None" using holds by (auto simp: manifest_holds_def disk_view_def)
  then have dir: "butlast (edit_path ?g (vt_next_seq V)) \<in> set (dk_dirs d)" using ok by (auto simp: disk_ok_def)
  have nonempty: "framed \<noteq> []" using k by auto
  obtain d1 where wr: "write_object (edit_path ?g (vt_next_seq V)) framed d = (Io, d1)"
    and d1: "dk_file d1 = (dk_file d)(edit_path ?g (vt_next_seq V) \<mapsto> take k framed)"
    using write_object_torn [OF dir free nonempty calls] by blast
  have apply1: "set_apply E e d V = (Io, d1, V)"
    using E(1) V sealed wr by (simp add: set_apply_def stamped_def DiskManifestCatalog_def)
  have ok1: "disk_ok d1" using write_object_outcome [OF ok _ _ wr] by simp
  have view1: "disk_view d1 = (disk_view d)\<lparr> mf_edits := (mf_edits (disk_view d))((?g, seq_of (length a)) \<mapsto> take k framed) \<rparr>"
    by (auto simp: disk_view_def d1 sq fun_eq_iff)
  have "torn_edit E ?g (seq_of (length a)) (take k framed)"
    using sealed_edit(2) [OF E(2) _ sealed k] legal sq by (simp add: legal_edit_def)
  with holds have holds1: "manifest_holds E (disk_view d1) ?g s a" unfolding view1 by (rule manifest_holds_torn)
  have fresh: "vt_entry VersionSet = None" by (simp add: VersionSet_def)
  have pointer1: "mf_pointer (disk_view d1) = Some entry" using pointer by (simp add: view1)
  obtain d2 st where r: "set_recover E d1 VersionSet = (Some Ok, d2, set_recovered entry st VersionSet)" "disk_ok d2" "disk_view d2 = disk_view d1"
    and st: "rs_version st = replayed_version s a" "rs_expected_seq st = seq_of (length a)"
    using disk.recover_holds [OF E(1) ok1 pointer1 holds1 fresh] by blast
  let ?V2 = "set_recovered entry st VersionSet"
  have V2: "vt_entry ?V2 = Some entry" "vt_next_seq ?V2 = seq_of (length a)" "vt_current ?V2 = replayed_version s a"
    by (simp_all add: set_recovered_def set_install_def st)
  have "mf_edits (disk_view d2) (?g, seq_of (length a)) \<noteq> None" by (simp add: r(3) view1)
  then have "dk_file d2 (edit_path ?g (vt_next_seq ?V2)) \<noteq> None" by (simp add: disk_view_def V2)
  from occupied_edit_refused [OF E(1,2) r(2) V2(1) this] have "\<forall>e'. fst (set_apply E e' d2 ?V2) \<noteq> Ok" by blast
  moreover have "same_version (vt_current ?V2) (version_after es)"
    using cur now unfolding V2 by (meson same_version_sym same_version_trans)
  ultimately show ?thesis using apply1 r(1) by blast
qed

theorem torn_edit_locks_the_store_witness:
  "\<exists>d V d1 d2 V2. disk_run sample_env [] [] d V \<and> set_apply sample_env sample_truncation d V = (Io, d1, V)
     \<and> set_recover sample_env d1 VersionSet = (Some Ok, d2, V2) \<and> fst (set_apply sample_env sample_truncation d2 V2) \<noteq> Ok"
proof -
  obtain d V entry where run: "disk_run sample_env [] [] d V" and V: "\<not> vt_fenced V" "vt_entry V = Some entry"
    and legal: "legal_edit sample_env V sample_truncation" and free: "\<forall>h n. dk_file d (edit_path h n) = None"
    using sample_created by blast
  obtain framed where f: "payload_seal (en_codecs sample_env) (en_encryption sample_env) (ce_generation entry)
      (edit_address (ce_generation entry) (vt_next_seq V)) (encode_version_edit (en_codecs sample_env) (stamped V sample_truncation)) = Inr framed"
    unfolding sample_env_ok using passthrough_seals by blast
  have read: "reads_edit sample_env (ce_generation entry) (vt_next_seq V) framed (edit_view (stamped V sample_truncation))"
    using sealed_edit(1) [OF sample_env_ok(2) _ f] legal by (simp add: legal_edit_def)
  then have "framed \<noteq> []" by (auto simp: reads_edit_def payload_open_def kPayloadHeaderBytes_def)
  then have "0 < length framed" by simp
  let ?d = "d\<lparr> dk_calls := [Good, Good, Partial 0, Bad] \<rparr>"
  have "dk_file ?d (edit_path (ce_generation entry) (vt_next_seq V)) = None" using free by simp
  from torn_edit_locks_the_store [OF sample_env_ok(1-3) sample_storable disk_run.failing [OF run] legal V this f \<open>0 < length framed\<close>]
  show ?thesis using disk_run.failing [OF run] by fastforce
qed

section \<open>A directory that cannot be opened\<close>

lemma recover_without_listing:
  assumes E: "en_catalog E = DiskManifestCatalog" and d: "dk_reads d = []" "dk_lists d = [False]"
    and pointer: "mf_pointer (disk_view d) = Some entry"
    and snap: "dk_file d (snapshot_path (ce_generation entry)) = Some bs" "reads_snapshot E (ce_generation entry) bs s"
  shows "\<exists>st. set_recover E d VersionSet = (Some Ok, d\<lparr> dk_lists := [] \<rparr>, set_recovered entry st VersionSet)
    \<and> rs_version st = version_of_snapshot s"
proof -
  have read: "cat_read (en_catalog E) d' = (Inr (Some entry), d')" if "dk_reads d' = []" "dk_file d' = dk_file d" for d'
    using pointer that E
    by (auto simp: disk_view_def DiskManifestCatalog_def disk_read_def read_object_def dk_open_read_def split: option.splits)
  have get: "cat_get_snapshot (en_catalog E) (ce_generation entry) d = (Inr bs, d)"
    using d(1) snap(1) E by (simp add: DiskManifestCatalog_def read_object_def dk_open_read_def)
  have listed: "cat_list_edits (en_catalog E) (ce_generation entry) d = (Inr [], d\<lparr> dk_lists := [] \<rparr>)"
    using d(2) E by (simp add: DiskManifestCatalog_def disk_list_edits_def dk_open_dir_def)
  obtain plain provider where opened: "payload_open (en_codecs E) (en_encryption E) (ce_generation entry) (snapshot_address (ce_generation entry)) bs = Inr (plain, provider)"
      "decode_version_snapshot (en_codecs E) plain = Inr s" "\<not> refuses_plaintext (en_encryption E) (vs_files s)"
    using snap(2) by (auto simp: reads_snapshot_def)
  have again: "cat_read (en_catalog E) (d\<lparr> dk_lists := [] \<rparr>) = (Inr (Some entry), d\<lparr> dk_lists := [] \<rparr>)"
    by (rule read) (simp_all add: d(1) fun_eq_iff)
  have "vt_entry VersionSet = None" by (simp add: VersionSet_def)
  then show ?thesis
    by (intro exI [of _ "\<lparr> rs_expected_seq = 1, rs_version = version_of_snapshot s, rs_file_number = vs_next_file_number s,
          rs_stale = (if provider = rg_primary (en_encryption E) then 0 else 1) \<rparr>"])
       (simp add: set_recover_def kRecoverAttempts_def eval_nat_numeral read [OF d(1) refl] get listed again Let_def opened)
qed

text \<open>
  Listing the edits of a generation answers that there are none when the directory cannot be
  opened for whatever reason. A store with an acknowledged edit is then reopened without an error and
  without the edit.
\<close>

theorem unopened_directory_drops_edits:
  "\<exists>d V e d' V'. disk_run sample_env [e] [] d V \<and> v_truncation_point (vt_current V) = [107]
     \<and> set_recover sample_env (d\<lparr> dk_lists := [False] \<rparr>) VersionSet = (Some Ok, d', V')
     \<and> v_truncation_point (vt_current V') = []"
proof -
  obtain d V entry where create: "set_create sample_env empty_disk VersionSet = (Ok, d, V)"
    and run: "disk_run sample_env [] [] d V" and calls: "dk_calls d = []" "dk_reads d = []" and V: "\<not> vt_fenced V" "vt_entry V = Some entry"
    and sq: "vt_next_seq V = 1"
    and legal: "legal_edit sample_env V sample_truncation" and free: "\<forall>h n. dk_file d (edit_path h n) = None"
    using sample_created by blast
  let ?g = "ce_generation entry" and ?s = "snapshot_of VersionSet empty_version"
  have "synced sample_env (disk_view d) V ?s [] []"
    using disk.create_outcome [OF sample_env_ok(1,2) _ _ _ sample_storable create] by (simp add: disk_view_def empty_disk_ok)
  then obtain bs where snap: "mf_pointer (disk_view d) = Some entry" "dk_file d (snapshot_path ?g) = Some bs" "reads_snapshot sample_env ?g bs ?s"
    using V(2) by (auto simp: synced_def manifest_holds_def disk_view_def)
  obtain framed where f: "payload_seal (en_codecs sample_env) (en_encryption sample_env) ?g
      (edit_address ?g (vt_next_seq V)) (encode_version_edit (en_codecs sample_env) (stamped V sample_truncation)) = Inr framed"
    unfolding sample_env_ok using passthrough_seals by blast
  obtain d1 V1 where apply1: "set_apply sample_env sample_truncation d V = (Ok, d1, V1)" "dk_reads d1 = []"
    "dk_file d1 = (dk_file d)(edit_path ?g (vt_next_seq V) \<mapsto> framed)"
    using apply_healthy [OF sample_env_ok(1) calls(1) V free [rule_format] f sample_room(2,1)] sq calls(2) by auto
  have run1: "disk_run sample_env [stamped V sample_truncation] [] d1 V1" using disk_run.applied [OF run legal apply1(1)] by simp
  have cur: "v_truncation_point (vt_current V1) = [107]"
    using disk_run_synced [OF sample_env_ok(1-3) sample_storable run1] sample_truncation_point by (auto simp: disk_synced_def)
  let ?d = "d1\<lparr> dk_lists := [False] \<rparr>"
  have "mf_pointer (disk_view ?d) = Some entry" "dk_file ?d (snapshot_path ?g) = Some bs"
    using snap(1,2) by (simp_all add: disk_view_def apply1(3))
  then obtain st where r: "set_recover sample_env ?d VersionSet = (Some Ok, ?d\<lparr> dk_lists := [] \<rparr>, set_recovered entry st VersionSet)"
    "rs_version st = version_of_snapshot ?s"
    using recover_without_listing [OF sample_env_ok(1) _ _ _ _ snap(3), of ?d] apply1(2) by auto
  have "v_truncation_point (vt_current (set_recovered entry st VersionSet)) = []"
    by (simp add: set_recovered_def set_install_def r(2) version_of_snapshot_def version_apply_fields Version_def snapshot_of_def
        empty_version_def VersionEdit_def)
  with run1 cur r(1) show ?thesis by blast
qed

end
