(* ===== verification/Spec2Isabelle.thy ===== *)
theory Spec2Isabelle
  imports Flush Picker Durability
begin

text \<open>
  ElysiumKV is an embedded log-structured key-value store: writes go to a skip-list memtable, sealed
  memtables are flushed to sorted table files in a blob store, and a manifest records which files
  make up the current version of the database. This development models the parts below as executable
  definitions named after the functions and classes under src/ and proves what the parts rely on.

  \<^bold>\<open>Conventions.\<close> A byte string is a list of 8-bit words, ordered lexicographically, which is the order
  of \<open>memcmp\<close> with the length as tie breaker (\<open>Prelude\<close> proves that of \<open>Slice::compare\<close>). Integers keep
  the width of the source where it matters, otherwise they are natural numbers. \<open>Result<T>\<close> is a sum
  with the status on the left. A C++ object is a record and a method takes the object and returns the
  new one. Loops that only end on well-formed data are partial functions into option, and it is
  proved that they return.

  \<^bold>\<open>The parts and their theories.\<close>

  \<^item> \<open>Prelude\<close>: statuses, slices, byte order and prefixes, binary search, the locale \<open>field_codec\<close> of
    encoders and decoders that read back what was put.
  \<^item> \<open>Format\<close> (src/sst/format.hpp): value types, range tombstones and their merging and clipping, fixed
    and variable-length integers.
  \<^item> \<open>Checksum\<close> (crc32c.cpp, xxhash.hpp): CRC32C by tables, and by the CRC instructions of x86-64 and of
    AArch64. The instructions are parameters of the target, with what their manuals document as the
    hypothesis: the remainder modulo the Castagnoli polynomial of the bit-reflected operand. All agree,
    and the checksum detects every burst of errors up to 32 bits.
  \<^item> \<open>Framing\<close> (compression.cpp): a block with its codec byte and checksum. The codec libraries are
    parameters with the hypothesis that decompression inverts compression.
  \<^item> \<open>Footer\<close>, \<open>Block\<close>, \<open>Bloom\<close> (footer.cpp, block\_builder.cpp, block\_reader.cpp, bloom.cpp): the pieces of a
    table file.
  \<^item> \<open>Cursor\<close> (internal\_iterator.hpp): the contract of iterators as the locales \<open>forward_cursor\<close> and
    \<open>cursor\<close>, interpreted for blocks, tables and the memtable.
  \<^item> \<open>Sst_Writer\<close>, \<open>Sst_Reader\<close> (sst\_writer.cpp, sst\_reader.cpp) with \<open>Table\<close>, \<open>Sst\<close>, \<open>Sst_Round_Trip\<close> and
    \<open>Sst_Limits\<close>: a table written, stored and opened again answers lookups and scans with exactly the
    entries written, also behind a block cache and a cache that rots; which tables cannot be opened. The stores a reader
    reads from are chains (\<open>store_chain\<close>: caches, the decrypting wrapper, the store that holds the bytes),
    walked by \<open>as_cache\<close> and \<open>authoritative_store\<close> as in blob\_store.hpp; how each layer answers a read is a
    parameter.
  \<^item> \<open>Memory\<close>, \<open>Memtable\<close> (memory\_budget.hpp, arena.cpp, skiplist\_memtable.cpp): the arena hands out
    disjoint regions; the skip list, which keeps lengths in 32 bits, implements the map it stands for
    for keys and values shorter than 4 GiB.
  \<^item> \<open>Watermark\<close> (watermark.hpp and the steps of db\_impl.cpp that move the embedder's durability
    frontier): a transition system whose invariant shows that a position recovery reports has its
    writes in files, except for positions that were still in memory when an application marked its
    replay complete, and the places where the code and the documented claim part.
  \<^item> \<open>Version_Edit\<close>, \<open>Version\<close> (version\_edit.cpp, version.cpp): the manifest's records read back, and
    versions keep their invariant under edits; the searches that decide which files a read, a
    compaction or an expiry touches.
  \<^item> \<open>Encryption\<close> (encrypted\_object.cpp, no\_encryption\_provider.cpp): ranged reads of an object sealed
    chunk by chunk. The cipher is a parameter; the hypothesis is that opening inverts sealing.
  \<^item> \<open>Manifest_Payload\<close> (manifest\_payload.cpp, provider\_registry.hpp): the sealed form of a manifest
    record, bound to its address.
  \<^item> \<open>Catalog\<close> (manifest\_catalog.hpp, disk\_manifest\_catalog.cpp): the catalog that holds the pointer to
    the current generation and the write-once objects of a generation, as the locale
    \<open>manifest_catalog\<close>, interpreted for the catalog on a directory whose system calls may fail.
  \<^item> \<open>Version_Set\<close> (version\_set.cpp): creating, recovering, applying edits, rolling generations and
    deleting obsolete files, which spares every file in use.
  \<^item> \<open>Recovery\<close>, \<open>Durability\<close>: what each operation of the version set leaves in a catalog, proved from
    the contract; and for a directory, over histories with failing calls and crashes, that reopening
    finds every acknowledged edit. Two theorems show where the code falls short of it.

  \<^item> \<open>Merging\<close> (merging\_iterator.cpp), \<open>Concat\<close> (concat\_iterator.cpp), \<open>Sources\<close>: iterators over a stack of
    sources and over the files of a level. The locale \<open>iterators\<close> is the contract of what they are
    made of; under it a merge shows the newest entry of every key that no newer range tombstone covers.
  \<^item> \<open>Read_Path\<close>, \<open>Reads\<close>, \<open>Db_Tables\<close> (db\_impl.cpp: \<open>get\<close>, \<open>make_iterator\<close>, \<open>DbIterator\<close>, \<open>reader_for\<close>): the reads
    of an instance over any readers of tables with the contract \<open>table_store\<close>, which the readers of
    \<open>Sst_Reader\<close> behind the decrypting view keep. A lookup answers with the newest entry; scans in both
    directions agree with lookups.
  \<^item> \<open>Write_Path\<close>, \<open>Writes\<close>, \<open>Flush\<close> (db\_impl.cpp: \<open>put\<close>, \<open>remove\<close>, \<open>delete_range\<close>, \<open>write\<close>, \<open>truncate_below\<close>,
    \<open>flush_memtable\<close>, \<open>write_new_sst\<close>): what was written is read back, a batch lands whole, and a flush
    changes no answer, whether it succeeds or fails, when the table it writes is within the limits of
    the reader. Two lemmas show what a truncation that fails
    leaves behind.
  \<^item> \<open>Picker\<close> (picker.cpp, level\_config.cpp): the resolution of the levels, and the choice of the files a
    compaction merges, with the scores of the levels as an argument. When every file reaches from a
    nonempty key the choice ends, and leaves no older file above newer data that it overlaps. With a
    file that reaches down to the empty key it need not end, and may put newer data below older.

  \<^bold>\<open>Bounds.\<close> The codecs need lengths below \<open>2 ^ 64\<close>, blocks and tables the limits the reader itself
  enforces; each theorem states the ones it needs. The limit on the index of a table is the test of the
  reader on the size of the index block (\<open>index_size\<close>); \<open>index_size_bytes\<close> bounds that size by the bytes
  written. Sizes of buffers and counts of chunks are natural numbers, and agree with the source below
  the wrap at \<open>2 ^ 64\<close>. No fuel is used: the retry loops of the version set
  count their attempts as the source does, and the loop of the picker is a partial function.

  \<^bold>\<open>Not modelled.\<close> Threads and locks: each critical section is one step, and a read takes the memtables and
  the version as one snapshot. What a power failure leaves of files that were not synchronised: a crash
  stops the steps of the catalog, and keeps the effects of those that were made. The scores of the levels, the running of compactions and
  migrations, and the maintenance that schedules them. The AWS SDK, OpenSSL and the compression libraries are outside the sources. The C interface, the command line
  and the benchmarks marshal calls of the modelled operations.
\<close>

end
